(* ===== verification/Webcamd_Prelude.thy ===== *)
theory Webcamd_Prelude
  imports Main "HOL-Library.Word"
begin

text \<open>
  Shared material of the development: the machine integer types of the C sources, the
  error numbers that the functions return as negative values, the numeric reading of byte
  strings that every codec is specified against, and the word, list and arithmetic lemmas
  that several components use.  The collection \<open>c_simps\<close> holds the facts that read a
  machine operation as an operation on natural numbers.
\<close>

unbundle bit_operations_syntax

named_theorems c_simps "machine operations read as arithmetic"

section \<open>Machine types and error numbers\<close>

type_synonym u8 = "8 word"
type_synonym u16 = "16 word"
type_synonym u32 = "32 word"
type_synonym u64 = "64 word"

text \<open>
  The error numbers that the modelled functions return.  A C function that returns
  \<open>-EINVAL\<close> and non-negative values otherwise is modelled with a result
  \<open>errno + 'a\<close>, where \<open>Inl\<close> holds the error.
\<close>

datatype errno =
    EPERM | ENOENT | EIO | ENXIO | E2BIG | EAGAIN | ENOMEM | EFAULT | EEXIST | ENODEV
  | EINVAL | EFBIG | ENOSPC | EPIPE | ERANGE | EINPROGRESS | EOPNOTSUPP | ECONNRESET
  | ETIMEDOUT | ERESTARTSYS | ENOTTY | EBUSY | EINTR | EWOULDBLOCK | EBADMSG

section \<open>Words as natural numbers\<close>

lemma unat_u8_less: "unat (b :: 8 word) < 256"
  using unsigned_less [of b] by simp

lemma unat_u16_less: "unat (b :: 16 word) < 65536"
  using unsigned_less [of b] by simp

lemma unat_u32_less: "unat (b :: 32 word) < 4294967296"
  using unsigned_less [of b] by simp

lemma unat_u64_less: "unat (b :: 64 word) < 18446744073709551616"
  using unsigned_less [of b] by simp

lemma unat_ucast_mod [c_simps]:
  "unat (ucast (x :: 'a::len word) :: 'b::len word) = unat x mod 2 ^ LENGTH('b)"
  by (simp add: unsigned_ucast_eq take_bit_eq_mod)

lemma unat_drop_bit_div [c_simps]: "unat (drop_bit n (x :: 'a::len word)) = unat x div 2 ^ n"
  by (simp only: unat_drop_bit_eq) (simp add: drop_bit_eq_div)

lemma unat_and_mask [c_simps]: "unat (x AND mask n :: 'a::len word) = unat x mod 2 ^ n"
  by (metis take_bit_eq_mask take_bit_eq_mod unsigned_take_bit_eq)

lemma unat_inc: "(p :: 'a::len word) < m \<Longrightarrow> unat (p + 1) = unat p + 1"
proof -
  assume "p < m"
  then have "unat p < unat m" by (simp add: word_less_nat_alt)
  moreover have "unat m < 2 ^ LENGTH('a)" by (rule unsigned_less)
  ultimately have "unat p + 1 < 2 ^ LENGTH('a)" by linarith
  then show ?thesis by (simp add: unat_word_ariths)
qed

lemma bit_times_2: "bit (a * 2 :: 'a::len word) n \<longleftrightarrow> 0 < n \<and> n < LENGTH('a) \<and> bit a (n - 1)"
  using bit_double_iff [of a n] by (simp add: mult.commute conj_ac)

text \<open>One step of the shift-and-or loop of a byte reader.\<close>

lemma unat_shift8_or:
  fixes v :: "'a::len word" and b :: "8 word"
  assumes "8 \<le> LENGTH('a)" and "unat v * 256 < 2 ^ LENGTH('a)"
  shows "unat (push_bit 8 v OR ucast b) = unat v * 256 + unat b"
proof -
  have "256 \<le> (2 :: nat) ^ LENGTH('a)"
    using assms(1) power_increasing [of 8 "LENGTH('a)" "2 :: nat"] by simp
  then have "unat b < 2 ^ LENGTH('a)"
    using unat_u8_less [of b] by linarith
  then have "unat (ucast b :: 'a word) = unat b"
    by (simp add: unsigned_ucast_eq take_bit_nat_eq_self)
  moreover have "unat (push_bit 8 v) = push_bit 8 (unat v)"
    using assms(2)
    by (simp only: unsigned_push_bit_eq) (simp add: push_bit_eq_mult take_bit_nat_eq_self)
  ultimately have "unat (push_bit 8 v OR ucast b) = push_bit 8 (unat v) OR unat b"
    by (simp only: unsigned_or_eq)
  also have "\<dots> = push_bit 8 (unat v) + unat b"
    by (rule disjunctive_add_eq_or [symmetric], rule bit_eqI)
      (auto simp: bit_simps dest: bit_imp_le_length)
  finally show ?thesis by (simp add: push_bit_eq_mult)
qed

section \<open>Byte strings as numbers\<close>

text \<open>
  \<open>le_nat\<close> and \<open>be_nat\<close> give the number that a byte string denotes, least or most
  significant byte first; \<open>le_bytes n x\<close> is the \<open>n\<close>-byte string of \<open>x\<close>.
\<close>

primrec le_nat :: "u8 list \<Rightarrow> nat" where
  "le_nat [] = 0"
| "le_nat (b # bs) = unat b + 256 * le_nat bs"

definition be_nat :: "u8 list \<Rightarrow> nat" where
  "be_nat bs = le_nat (rev bs)"

primrec le_bytes :: "nat \<Rightarrow> nat \<Rightarrow> u8 list" where
  "le_bytes 0 x = []"
| "le_bytes (Suc n) x = of_nat x # le_bytes n (x div 256)"

lemma length_le_bytes [simp]: "length (le_bytes n x) = n"
  by (induction n arbitrary: x) simp_all

lemma le_nat_less: "le_nat bs < 256 ^ length bs"
proof (induction bs)
  case (Cons b bs)
  have "256 * (le_nat bs + 1) \<le> 256 * 256 ^ length bs"
    using Cons by (intro mult_le_mono) simp_all
  then show ?case
    using unat_u8_less [of b] by (simp add: algebra_simps)
qed simp

lemma le_nat_le_bytes: "le_nat (le_bytes n x) = x mod 256 ^ n"
proof (induction n arbitrary: x)
  case (Suc n)
  then show ?case
    by (simp add: unsigned_of_nat take_bit_eq_mod mod_mult2_eq)
qed simp

lemma le_bytes_le_nat: "le_bytes (length bs) (le_nat bs) = bs"
proof (induction bs)
  case (Cons b bs)
  have "(of_nat (unat b + 256 * le_nat bs) :: u8) = b"
    by (rule word_unat_eq_iff [THEN iffD2], subst unsigned_of_nat)
      (simp add: take_bit_eq_mod unat_u8_less)
  moreover have "(unat b + 256 * le_nat bs) div 256 = le_nat bs"
    using unat_u8_less [of b] by simp
  ultimately show ?case
    using Cons by (simp only: le_nat.simps length_Cons le_bytes.simps)
qed simp

lemma le_nat_append: "le_nat (xs @ ys) = le_nat xs + 256 ^ length xs * le_nat ys"
  by (induction xs) (simp_all add: algebra_simps)

lemma be_nat_snoc: "be_nat (bs @ [b]) = be_nat bs * 256 + unat b"
  by (simp add: be_nat_def)

lemma be_nat_less: "be_nat bs < 256 ^ length bs"
  using le_nat_less [of "rev bs"] by (simp add: be_nat_def)

text \<open>A byte reader is a fold of the shift-and-or step over the bytes it visits.\<close>

definition fold_be :: "u8 list \<Rightarrow> 'a::len word" where
  "fold_be bs = foldl (\<lambda>v b. push_bit 8 v OR ucast b) 0 bs"

lemma unat_fold_be:
  "8 * length bs \<le> LENGTH('a::len) \<Longrightarrow> unat (fold_be bs :: 'a word) = be_nat bs"
proof (induction bs rule: rev_induct)
  case (snoc b bs)
  have "(256 :: nat) ^ length (bs @ [b]) = 2 ^ (8 * length (bs @ [b]))"
    by (simp only: power_mult) simp
  also have "\<dots> \<le> 2 ^ LENGTH('a)"
    using snoc.prems by (intro power_increasing) simp_all
  finally have "(256 :: nat) ^ length (bs @ [b]) \<le> 2 ^ LENGTH('a)" .
  then have "be_nat bs * 256 < 2 ^ LENGTH('a)"
    using be_nat_less [of bs] by simp
  then have "unat (push_bit 8 (fold_be bs :: 'a word) OR ucast b) = be_nat bs * 256 + unat b"
    using snoc by (subst unat_shift8_or) simp_all
  then show ?case by (simp add: fold_be_def be_nat_snoc)
qed (simp add: fold_be_def be_nat_def)

section \<open>Lists\<close>

lemma list_ge_2: "2 \<le> length p \<Longrightarrow> \<exists>a b q. p = a # b # q"
  by (auto simp: numeral_eq_Suc Suc_le_length_iff)

lemma list_ge_4: "4 \<le> length p \<Longrightarrow> \<exists>a b c d q. p = a # b # c # d # q"
  by (auto simp: numeral_eq_Suc Suc_le_length_iff)

lemma list_ge_8: "8 \<le> length p \<Longrightarrow> \<exists>a b c d e f g h q. p = a # b # c # d # e # f # g # h # q"
  by (auto simp: numeral_eq_Suc Suc_le_length_iff)

end
