(* ===== verification/Byte_Order.thy ===== *)
theory Byte_Order
  imports Webcamd_Prelude
begin

text \<open>
  Byte order conversion of \<open>kernel/linux_func.c\<close>: the in-place conversions
  \<open>le16_to_cpus\<close>, \<open>le32_to_cpus\<close> and \<open>le64_to_cpus\<close>, the conversions of a
  value behind a pointer, \<open>swab16\<close> and \<open>swab32\<close>, and the unaligned accessors.
  A buffer is the list of bytes from the pointer on.  The locale \<open>byte_codec\<close> is the
  contract of a writer and its reader; it is interpreted on the six accessor pairs.
\<close>

section \<open>In-place conversion from little endian\<close>

text \<open>
  The functions read the bytes of the object \<open>*p\<close> and store the number they denote in it.
  The argument is the object's bytes, the result its value.  The operands of the
  bitwise or are promoted to \<open>int\<close>, so each sum of bytes is a 32-bit quantity, which is
  sign extended where it is assigned to a 64-bit variable.
\<close>

definition le16_to_cpus :: "u8 list \<Rightarrow> u16" where
  "le16_to_cpus p =
     (let temp = ucast ((ucast (p ! 0) :: u32) OR push_bit 8 (ucast (p ! 1)))
      in temp)"

definition le32_to_cpus :: "u8 list \<Rightarrow> u32" where
  "le32_to_cpus p =
     (let temp = (ucast (p ! 0) OR push_bit 8 (ucast (p ! 1)) OR
                  push_bit 16 (ucast (p ! 2)) OR push_bit 24 (ucast (p ! 3)))
      in temp)"

definition le64_to_cpus :: "u8 list \<Rightarrow> u64" where
  "le64_to_cpus p =
     (let temp = scast ((ucast (p ! 4) :: u32) OR push_bit 8 (ucast (p ! 5)) OR
                  push_bit 16 (ucast (p ! 6)) OR push_bit 24 (ucast (p ! 7)));
          temp = push_bit 32 temp;
          temp = temp OR scast ((ucast (p ! 0) :: u32) OR push_bit 8 (ucast (p ! 1)) OR
                  push_bit 16 (ucast (p ! 2)) OR push_bit 24 (ucast (p ! 3)))
      in temp)"

section \<open>Conversion of values\<close>

text \<open>
  The byte swaps of the C library, and its conversions between host order and a fixed
  order; \<open>big\<close> says that the host is big endian.
\<close>

definition bswap16 :: "u16 \<Rightarrow> u16" where
  "bswap16 x = push_bit 8 x OR drop_bit 8 x"

definition bswap32 :: "u32 \<Rightarrow> u32" where
  "bswap32 x = push_bit 24 x OR push_bit 8 (x AND 0xFF00) OR
               (drop_bit 8 x AND 0xFF00) OR drop_bit 24 x"

definition bswap64 :: "u64 \<Rightarrow> u64" where
  "bswap64 x = push_bit 32 (ucast (bswap32 (ucast x))) OR ucast (bswap32 (ucast (drop_bit 32 x)))"

definition be16toh :: "bool \<Rightarrow> u16 \<Rightarrow> u16" where
  "be16toh big x = (if big then x else bswap16 x)"

definition le16toh :: "bool \<Rightarrow> u16 \<Rightarrow> u16" where
  "le16toh big x = (if big then bswap16 x else x)"

definition be32toh :: "bool \<Rightarrow> u32 \<Rightarrow> u32" where
  "be32toh big x = (if big then x else bswap32 x)"

definition le32toh :: "bool \<Rightarrow> u32 \<Rightarrow> u32" where
  "le32toh big x = (if big then bswap32 x else x)"

definition be64toh :: "bool \<Rightarrow> u64 \<Rightarrow> u64" where
  "be64toh big x = (if big then x else bswap64 x)"

definition le64toh :: "bool \<Rightarrow> u64 \<Rightarrow> u64" where
  "le64toh big x = (if big then bswap64 x else x)"

text \<open>The functions of the daemon; the argument is the value behind the pointer.\<close>

definition be16_to_cpup :: "bool \<Rightarrow> u16 \<Rightarrow> u16" where
  "be16_to_cpup big p = be16toh big p"

definition cpu_to_be16p :: "bool \<Rightarrow> u16 \<Rightarrow> u16" where
  "cpu_to_be16p big p = be16toh big p"

definition le16_to_cpup :: "bool \<Rightarrow> u16 \<Rightarrow> u16" where
  "le16_to_cpup big p = le16toh big p"

definition cpu_to_le16p :: "bool \<Rightarrow> u16 \<Rightarrow> u16" where
  "cpu_to_le16p big p = le16toh big p"

definition le32_to_cpup :: "bool \<Rightarrow> u32 \<Rightarrow> u32" where
  "le32_to_cpup big p = le32toh big p"

definition cpu_to_le32p :: "bool \<Rightarrow> u32 \<Rightarrow> u32" where
  "cpu_to_le32p big p = le32toh big p"

definition be32_to_cpup :: "bool \<Rightarrow> u32 \<Rightarrow> u32" where
  "be32_to_cpup big p = be32toh big p"

definition cpu_to_be32p :: "bool \<Rightarrow> u32 \<Rightarrow> u32" where
  "cpu_to_be32p big p = be32toh big p"

definition le64_to_cpup :: "bool \<Rightarrow> u64 \<Rightarrow> u64" where
  "le64_to_cpup big p = le64toh big p"

definition cpu_to_le64p :: "bool \<Rightarrow> u64 \<Rightarrow> u64" where
  "cpu_to_le64p big p = le64toh big p"

definition be64_to_cpup :: "bool \<Rightarrow> u64 \<Rightarrow> u64" where
  "be64_to_cpup big p = be64toh big p"

definition cpu_to_be64p :: "bool \<Rightarrow> u64 \<Rightarrow> u64" where
  "cpu_to_be64p big p = be64toh big p"

definition swab16 :: "u16 \<Rightarrow> u16" where
  "swab16 temp = bswap16 temp"

definition swab32 :: "u32 \<Rightarrow> u32" where
  "swab32 temp = bswap32 temp"

definition swab16s :: "u16 \<Rightarrow> u16" where
  "swab16s ptr = bswap16 ptr"

definition swab32s :: "u32 \<Rightarrow> u32" where
  "swab32s ptr = bswap32 ptr"

section \<open>Unaligned accessors\<close>

definition put_unaligned_le64 :: "u64 \<Rightarrow> u8 list \<Rightarrow> u8 list" where
  "put_unaligned_le64 val ptr =
     (let ptr = ptr[0 := ucast val];
          val = drop_bit 8 val;
          ptr = ptr[1 := ucast val];
          val = drop_bit 8 val;
          ptr = ptr[2 := ucast val];
          val = drop_bit 8 val;
          ptr = ptr[3 := ucast val];
          val = drop_bit 8 val;
          ptr = ptr[4 := ucast val];
          val = drop_bit 8 val;
          ptr = ptr[5 := ucast val];
          val = drop_bit 8 val;
          ptr = ptr[6 := ucast val];
          val = drop_bit 8 val;
          ptr = ptr[7 := ucast val]
      in ptr)"

definition put_unaligned_be64 :: "u64 \<Rightarrow> u8 list \<Rightarrow> u8 list" where
  "put_unaligned_be64 val ptr =
     (let ptr = ptr[7 := ucast val];
          val = drop_bit 8 val;
          ptr = ptr[6 := ucast val];
          val = drop_bit 8 val;
          ptr = ptr[5 := ucast val];
          val = drop_bit 8 val;
          ptr = ptr[4 := ucast val];
          val = drop_bit 8 val;
          ptr = ptr[3 := ucast val];
          val = drop_bit 8 val;
          ptr = ptr[2 := ucast val];
          val = drop_bit 8 val;
          ptr = ptr[1 := ucast val];
          val = drop_bit 8 val;
          ptr = ptr[0 := ucast val]
      in ptr)"

definition put_unaligned_le32 :: "u32 \<Rightarrow> u8 list \<Rightarrow> u8 list" where
  "put_unaligned_le32 val ptr =
     (let ptr = ptr[0 := ucast val];
          val = drop_bit 8 val;
          ptr = ptr[1 := ucast val];
          val = drop_bit 8 val;
          ptr = ptr[2 := ucast val];
          val = drop_bit 8 val;
          ptr = ptr[3 := ucast val]
      in ptr)"

definition put_unaligned_be32 :: "u32 \<Rightarrow> u8 list \<Rightarrow> u8 list" where
  "put_unaligned_be32 val ptr =
     (let ptr = ptr[3 := ucast val];
          val = drop_bit 8 val;
          ptr = ptr[2 := ucast val];
          val = drop_bit 8 val;
          ptr = ptr[1 := ucast val];
          val = drop_bit 8 val;
          ptr = ptr[0 := ucast val]
      in ptr)"

definition put_unaligned_be16 :: "u16 \<Rightarrow> u8 list \<Rightarrow> u8 list" where
  "put_unaligned_be16 val ptr =
     (let ptr = ptr[0 := ucast (drop_bit 8 val)];
          ptr = ptr[1 := ucast val]
      in ptr)"

definition put_unaligned_le16 :: "u16 \<Rightarrow> u8 list \<Rightarrow> u8 list" where
  "put_unaligned_le16 val ptr =
     (let ptr = ptr[0 := ucast val];
          val = drop_bit 8 val;
          ptr = ptr[1 := ucast val]
      in ptr)"

definition get_unaligned_le64 :: "u8 list \<Rightarrow> u64" where
  "get_unaligned_le64 ptr =
     (let val = ucast (ptr ! 7);
          val = push_bit 8 val; val = val OR ucast (ptr ! 6);
          val = push_bit 8 val; val = val OR ucast (ptr ! 5);
          val = push_bit 8 val; val = val OR ucast (ptr ! 4);
          val = push_bit 8 val; val = val OR ucast (ptr ! 3);
          val = push_bit 8 val; val = val OR ucast (ptr ! 2);
          val = push_bit 8 val; val = val OR ucast (ptr ! 1);
          val = push_bit 8 val; val = val OR ucast (ptr ! 0)
      in val)"

definition get_unaligned_be64 :: "u8 list \<Rightarrow> u64" where
  "get_unaligned_be64 ptr =
     (let val = ucast (ptr ! 0);
          val = push_bit 8 val; val = val OR ucast (ptr ! 1);
          val = push_bit 8 val; val = val OR ucast (ptr ! 2);
          val = push_bit 8 val; val = val OR ucast (ptr ! 3);
          val = push_bit 8 val; val = val OR ucast (ptr ! 4);
          val = push_bit 8 val; val = val OR ucast (ptr ! 5);
          val = push_bit 8 val; val = val OR ucast (ptr ! 6);
          val = push_bit 8 val; val = val OR ucast (ptr ! 7)
      in val)"

definition get_unaligned_le32 :: "u8 list \<Rightarrow> u32" where
  "get_unaligned_le32 ptr =
     (let val = ucast (ptr ! 3);
          val = push_bit 8 val; val = val OR ucast (ptr ! 2);
          val = push_bit 8 val; val = val OR ucast (ptr ! 1);
          val = push_bit 8 val; val = val OR ucast (ptr ! 0)
      in val)"

definition get_unaligned_be32 :: "u8 list \<Rightarrow> u32" where
  "get_unaligned_be32 ptr =
     (let val = ucast (ptr ! 0);
          val = push_bit 8 val; val = val OR ucast (ptr ! 1);
          val = push_bit 8 val; val = val OR ucast (ptr ! 2);
          val = push_bit 8 val; val = val OR ucast (ptr ! 3)
      in val)"

definition get_unaligned_be16 :: "u8 list \<Rightarrow> u16" where
  "get_unaligned_be16 ptr =
     (let val = ucast (ptr ! 0);
          val = push_bit 8 val; val = val OR ucast (ptr ! 1)
      in val)"

definition get_unaligned_le16 :: "u8 list \<Rightarrow> u16" where
  "get_unaligned_le16 ptr =
     (let val = ucast (ptr ! 1);
          val = push_bit 8 val; val = val OR ucast (ptr ! 0)
      in val)"

section \<open>The contract of an accessor pair\<close>

text \<open>
  \<open>byte_codec\<close> is what a caller of a writer and its reader relies on.  \<open>word_codec\<close>
  states the layout: the writer leaves the \<open>w\<close> bytes of the number, in the order
  \<open>ord\<close>, at the start of the buffer, and the reader returns the number they denote.
  Every layout gives the contract.
\<close>

locale byte_codec =
  fixes w :: nat
    and put :: "'v \<Rightarrow> u8 list \<Rightarrow> u8 list"
    and get :: "u8 list \<Rightarrow> 'v"
  assumes length_put: "w \<le> length p \<Longrightarrow> length (put v p) = length p"
    and get_put: "w \<le> length p \<Longrightarrow> get (put v p) = v"
    and put_get: "w \<le> length p \<Longrightarrow> put (get p) p = p"
    and put_rest: "w \<le> length p \<Longrightarrow> drop w (put v p) = drop w p"
    and get_local: "w \<le> length p \<Longrightarrow> w \<le> length q \<Longrightarrow> take w p = take w q \<longleftrightarrow> get p = get q"
begin

lemma put_inj: "w \<le> length p \<Longrightarrow> put v p = put v' p \<Longrightarrow> v = v'"
  by (metis get_put)

lemma put_put: "w \<le> length p \<Longrightarrow> put v (put v' p) = put v p"
proof -
  assume p: "w \<le> length p"
  then have len: "w \<le> length (put v (put v' p))" "w \<le> length (put v p)"
    by (simp_all add: length_put)
  have "get (put v (put v' p)) = get (put v p)"
    using p by (simp add: get_put length_put)
  then have "take w (put v (put v' p)) = take w (put v p)"
    using get_local [OF len] by simp
  moreover have "drop w (put v (put v' p)) = drop w (put v p)"
    using p by (simp add: put_rest length_put)
  ultimately show ?thesis
    by (metis append_take_drop_id)
qed

lemma get_copied: "w \<le> length p \<Longrightarrow> w \<le> length q \<Longrightarrow> get (take w p @ drop w q) = get p"
  using get_local [of "take w p @ drop w q" p] by simp

end

locale word_codec =
  fixes ord :: "u8 list \<Rightarrow> u8 list"
    and w :: nat
    and put :: "'a::len word \<Rightarrow> u8 list \<Rightarrow> u8 list"
    and get :: "u8 list \<Rightarrow> 'a word"
  assumes width: "LENGTH('a) = 8 * w"
    and ord_ord: "ord (ord xs) = xs"
    and length_ord: "length (ord xs) = length xs"
    and put_layout: "w \<le> length p \<Longrightarrow> put v p = ord (le_bytes w (unat v)) @ drop w p"
    and get_layout: "w \<le> length p \<Longrightarrow> unat (get p) = le_nat (ord (take w p))"
begin

lemma bytes_of_word: "le_nat (le_bytes w (unat (v :: 'a word))) = unat v"
proof -
  have "(256 :: nat) ^ w = 2 ^ LENGTH('a)"
    by (simp only: width power_mult) simp
  then show ?thesis
    by (simp add: le_nat_le_bytes)
qed

lemma bytes_of_get: "w \<le> length p \<Longrightarrow> ord (le_bytes w (unat (get p))) = take w p"
  using le_bytes_le_nat [of "ord (take w p)"]
  by (simp add: get_layout length_ord min.absorb2 ord_ord)

end

sublocale word_codec \<subseteq> byte_codec w put get
proof
  fix v :: "'a word" and p q :: "u8 list"
  assume p: "w \<le> length p"
  show len: "length (put v p) = length p"
    using p by (simp add: put_layout length_ord)
  show "get (put v p) = v"
    using p len
    by (simp add: word_unat_eq_iff get_layout)
      (simp add: put_layout length_ord ord_ord bytes_of_word)
  show "put (get p) p = p"
    using p by (simp add: put_layout bytes_of_get)
  show "drop w (put v p) = drop w p"
    using p by (simp add: put_layout length_ord)
  show "take w p = take w q \<longleftrightarrow> get p = get q" if q: "w \<le> length q"
    using p q bytes_of_get [of p] bytes_of_get [of q]
    by (metis get_layout word_unat_eq_iff)
qed

lemma of_nat_div_byte: "(of_nat (unat (v :: 'a::len word) div 2 ^ k) :: u8) = ucast (drop_bit k v)"
  by (simp add: word_unat_eq_iff unsigned_of_nat unsigned_ucast_eq take_bit_eq_mod unat_drop_bit_div)

lemma le_bytes_rec: "0 < n \<Longrightarrow> le_bytes n x = of_nat x # le_bytes (n - 1) (x div 256)"
  by (cases n) simp_all

lemma le_bytes_word:
  "le_bytes 2 (unat v) = [ucast v, ucast (drop_bit 8 v)]"
  "le_bytes 4 (unat v) = [ucast v, ucast (drop_bit 8 v), ucast (drop_bit 16 v), ucast (drop_bit 24 v)]"
  "le_bytes 8 (unat v) = [ucast v, ucast (drop_bit 8 v), ucast (drop_bit 16 v), ucast (drop_bit 24 v),
     ucast (drop_bit 32 v), ucast (drop_bit 40 v), ucast (drop_bit 48 v), ucast (drop_bit 56 v)]"
  by (simp_all add: le_bytes_rec flip: of_nat_div_byte div_mult2_eq)

text \<open>The six accessor pairs have the layouts that their names say.\<close>

lemma put_layouts:
  "8 \<le> length p \<Longrightarrow> put_unaligned_le64 v8 p = le_bytes 8 (unat v8) @ drop 8 p"
  "8 \<le> length p \<Longrightarrow> put_unaligned_be64 v8 p = rev (le_bytes 8 (unat v8)) @ drop 8 p"
  "4 \<le> length p \<Longrightarrow> put_unaligned_le32 v4 p = le_bytes 4 (unat v4) @ drop 4 p"
  "4 \<le> length p \<Longrightarrow> put_unaligned_be32 v4 p = rev (le_bytes 4 (unat v4)) @ drop 4 p"
  "2 \<le> length p \<Longrightarrow> put_unaligned_le16 v2 p = le_bytes 2 (unat v2) @ drop 2 p"
  "2 \<le> length p \<Longrightarrow> put_unaligned_be16 v2 p = rev (le_bytes 2 (unat v2)) @ drop 2 p"
  by (auto dest!: list_ge_8 list_ge_4 list_ge_2
      simp: put_unaligned_le64_def put_unaligned_be64_def put_unaligned_le32_def
        put_unaligned_be32_def put_unaligned_le16_def put_unaligned_be16_def le_bytes_word)

lemma get_folds:
  "8 \<le> length p \<Longrightarrow> get_unaligned_le64 p = fold_be (rev (take 8 p))"
  "8 \<le> length p \<Longrightarrow> get_unaligned_be64 p = fold_be (take 8 p)"
  "4 \<le> length p \<Longrightarrow> get_unaligned_le32 p = fold_be (rev (take 4 p))"
  "4 \<le> length p \<Longrightarrow> get_unaligned_be32 p = fold_be (take 4 p)"
  "2 \<le> length p \<Longrightarrow> get_unaligned_le16 p = fold_be (rev (take 2 p))"
  "2 \<le> length p \<Longrightarrow> get_unaligned_be16 p = fold_be (take 2 p)"
  by (auto dest!: list_ge_8 list_ge_4 list_ge_2
      simp: get_unaligned_le64_def get_unaligned_be64_def get_unaligned_le32_def
        get_unaligned_be32_def get_unaligned_le16_def get_unaligned_be16_def fold_be_def)

lemmas accessor_layouts = put_layouts get_folds unat_fold_be be_nat_def

interpretation le64: word_codec "\<lambda>xs. xs" 8 put_unaligned_le64 get_unaligned_le64
  by unfold_locales (simp_all add: accessor_layouts)

interpretation be64: word_codec rev 8 put_unaligned_be64 get_unaligned_be64
  by unfold_locales (simp_all add: accessor_layouts)

interpretation le32: word_codec "\<lambda>xs. xs" 4 put_unaligned_le32 get_unaligned_le32
  by unfold_locales (simp_all add: accessor_layouts)

interpretation be32: word_codec rev 4 put_unaligned_be32 get_unaligned_be32
  by unfold_locales (simp_all add: accessor_layouts)

interpretation le16: word_codec "\<lambda>xs. xs" 2 put_unaligned_le16 get_unaligned_le16
  by unfold_locales (simp_all add: accessor_layouts)

interpretation be16: word_codec rev 2 put_unaligned_be16 get_unaligned_be16
  by unfold_locales (simp_all add: accessor_layouts)

section \<open>Byte swaps and the signed low half\<close>

lemma le32_eq_get: "4 \<le> length p \<Longrightarrow> le32_to_cpus p = get_unaligned_le32 p"
  by (rule bit_word_eqI)
    (auto simp: le32_to_cpus_def get_unaligned_le32_def bit_simps dest: bit_imp_le_length)

lemma bit_scast_64: "bit (scast (x :: u32) :: u64) n \<longleftrightarrow> n < 64 \<and> (if n < 32 then bit x n else bit x 31)"
proof (cases "n = 31")
  case False
  then have "(if n < 31 then n else 31) = (if n < 32 then n else 31)" by simp
  then show ?thesis by (auto simp: bit_simps min_def not_less split: if_splits)
qed (simp add: bit_simps)

lemma push_bit_scast: "push_bit 32 (scast (x :: u32)) = (push_bit 32 (ucast x) :: u64)"
  by (rule bit_word_eqI) (auto simp: bit_push_bit_iff bit_ucast_iff bit_scast_64)

lemma le64_to_cpus_eq:
  "8 \<le> length p \<Longrightarrow>
   le64_to_cpus p = push_bit 32 (ucast (le32_to_cpus (drop 4 p))) OR scast (le32_to_cpus p)"
  by (simp add: le64_to_cpus_def le32_to_cpus_def push_bit_scast del: push_bit_or push_bit_push_bit)

lemma unat_concat32:
  "unat (push_bit 32 (ucast (hi :: u32)) OR ucast (lo :: u32) :: u64) = unat lo + 2 ^ 32 * unat hi"
proof -
  have "unat (push_bit 32 (ucast hi) OR ucast lo :: u64) = push_bit 32 (unat hi) OR unat lo"
  proof -
    have "unat (push_bit 32 (ucast hi) :: u64) = push_bit 32 (unat hi)"
      using unat_u32_less [of hi]
      by (simp only: unsigned_push_bit_eq) (simp add: push_bit_eq_mult unsigned_ucast_eq take_bit_nat_eq_self)
    moreover have "unat (ucast lo :: u64) = unat lo"
      using unat_u32_less [of lo] by (simp add: unsigned_ucast_eq take_bit_nat_eq_self)
    ultimately show ?thesis by (simp only: unsigned_or_eq)
  qed
  also have "\<dots> = push_bit 32 (unat hi) + unat lo"
    by (rule disjunctive_add_eq_or [symmetric], rule bit_eqI)
      (auto simp: bit_simps dest: bit_imp_le_length)
  finally show ?thesis by (simp add: push_bit_eq_mult)
qed

lemma get_unaligned_le64_halves:
  assumes "8 \<le> length p"
  shows "get_unaligned_le64 p = push_bit 32 (ucast (le32_to_cpus (drop 4 p))) OR ucast (le32_to_cpus p)"
proof -
  have "take 8 p = take 4 p @ take 4 (drop 4 p)"
    by (simp flip: take_add)
  then have "unat (get_unaligned_le64 p) = le_nat (take 4 p @ take 4 (drop 4 p))"
    using assms by (simp add: le64.get_layout)
  also have "\<dots> = unat (le32_to_cpus p) + 2 ^ 32 * unat (le32_to_cpus (drop 4 p))"
    using assms by (simp add: le_nat_append le32_eq_get le32.get_layout min_def)
  finally show ?thesis
    by (simp add: word_unat_eq_iff unat_concat32 del: unsigned_or_eq push_bit_eq_mult)
qed

lemma le64_to_cpus_bits:
  assumes "8 \<le> length p"
  shows "le64_to_cpus p = get_unaligned_le64 p \<longleftrightarrow>
    (bit (le32_to_cpus p) 31 \<longrightarrow> le32_to_cpus (drop 4 p) = - 1)"
  (is "?eq \<longleftrightarrow> (bit ?lo 31 \<longrightarrow> ?hi = -1)")
proof -
  have "bit (le64_to_cpus p) n = bit (get_unaligned_le64 p) n \<longleftrightarrow>
      (32 \<le> n \<longrightarrow> n < 64 \<longrightarrow> bit ?lo 31 \<longrightarrow> bit ?hi (n - 32))" for n
    using assms bit_imp_le_length [of ?lo n]
    by (auto simp: le64_to_cpus_eq get_unaligned_le64_halves bit_or_iff bit_push_bit_iff
        bit_ucast_iff bit_scast_64 not_less)
  then have "?eq \<longleftrightarrow> (\<forall>n. 32 \<le> n \<longrightarrow> n < 64 \<longrightarrow> bit ?lo 31 \<longrightarrow> bit ?hi (n - 32))"
    by (auto simp: bit_eq_iff)
  also have "\<dots> \<longleftrightarrow> (bit ?lo 31 \<longrightarrow> (\<forall>n < 32. bit ?hi n))"
    by (auto dest: spec [of _ "n + 32" for n])
  also have "(\<forall>n < 32. bit ?hi n) \<longleftrightarrow> ?hi = -1"
    by (auto simp: bit_eq_iff bit_simps)
  finally show ?thesis .
qed


lemma le32_msb: "4 \<le> length p \<Longrightarrow> bit (le32_to_cpus p) 31 = bit (p ! 3) 7"
  by (auto simp: le32_to_cpus_def bit_simps dest: bit_imp_le_length)

lemma le32_minus_1:
  assumes "4 \<le> length q"
  shows "le32_to_cpus q = -1 \<longleftrightarrow> take 4 q = [255, 255, 255, 255]"
proof -
  have "get_unaligned_le32 q = get_unaligned_le32 [255, 255, 255, 255] \<longleftrightarrow>
      take 4 q = take 4 [255, 255, 255, 255]"
    using le32.get_local [of q "[255, 255, 255, 255]"] assms by auto
  moreover have "get_unaligned_le32 [255, 255, 255, 255] = -1"
    by (simp add: get_unaligned_le32_def)
  ultimately show ?thesis using assms by (simp add: le32_eq_get)
qed

lemma mask_ff00: "(0xFF00 :: 32 word) = push_bit 8 (mask 8)"
  by (simp add: mask_eq_exp_minus_1)

lemma bit_bswap32:
  "bit (bswap32 x) n \<longleftrightarrow>
     (if n < 8 then bit x (n + 24) else if n < 16 then bit x (n + 8)
      else if n < 24 then bit x (n - 8) else n < 32 \<and> bit x (n - 24))"
  by (auto simp: bswap32_def mask_ff00 bit_simps add.commute
      simp del: push_bit_of_1 push_bit_numeral dest: bit_imp_le_length)

lemma bswap16_bswap16: "bswap16 (bswap16 x) = x"
  by (rule bit_word_eqI) (auto simp: bswap16_def bit_simps)

lemma bswap32_bswap32: "bswap32 (bswap32 x) = x"
  by (rule bit_word_eqI) (auto simp: bit_bswap32)

lemma bswap64_concat:
  "bswap64 (push_bit 32 (ucast hi) OR ucast lo) = push_bit 32 (ucast (bswap32 lo)) OR ucast (bswap32 hi)"
proof -
  have "ucast (push_bit 32 (ucast hi) OR ucast lo :: u64) = lo"
    by (rule bit_word_eqI) (auto simp: bit_simps)
  moreover have "ucast (drop_bit 32 (push_bit 32 (ucast hi) OR ucast lo :: u64)) = hi"
    by (rule bit_word_eqI) (auto simp: bit_simps dest: bit_imp_le_length)
  ultimately show ?thesis by (simp only: bswap64_def)
qed

lemma word64_split: "(x :: u64) = push_bit 32 (ucast (ucast (drop_bit 32 x) :: u32)) OR ucast (ucast x :: u32)"
  by (rule bit_word_eqI) (auto simp: bit_simps)

lemma bswap64_bswap64: "bswap64 (bswap64 x) = x"
  by (subst (2) word64_split, simp only: bswap64_concat bswap32_bswap32)
     (simp only: flip: word64_split)

lemma bswap16_get: "2 \<le> length p \<Longrightarrow> bswap16 (get_unaligned_le16 p) = get_unaligned_be16 p"
  by (rule bit_word_eqI)
    (auto simp: bswap16_def get_unaligned_le16_def get_unaligned_be16_def bit_simps dest: bit_imp_le_length)

lemma bswap32_get: "4 \<le> length p \<Longrightarrow> bswap32 (get_unaligned_le32 p) = get_unaligned_be32 p"
  by (rule bit_word_eqI)
    (auto simp: bit_bswap32 get_unaligned_le32_def get_unaligned_be32_def bit_simps dest: bit_imp_le_length)

lemma get_unaligned_be64_halves:
  assumes "8 \<le> length p"
  shows "get_unaligned_be64 p =
    push_bit 32 (ucast (get_unaligned_be32 p)) OR ucast (get_unaligned_be32 (drop 4 p))"
proof -
  have "take 8 p = take 4 p @ take 4 (drop 4 p)"
    by (simp flip: take_add)
  then have "unat (get_unaligned_be64 p) = le_nat (rev (take 4 (drop 4 p)) @ rev (take 4 p))"
    using assms by (simp add: be64.get_layout)
  also have "\<dots> = unat (get_unaligned_be32 (drop 4 p)) + 2 ^ 32 * unat (get_unaligned_be32 p)"
    using assms by (simp add: le_nat_append be32.get_layout min.absorb2)
  finally show ?thesis
    by (simp add: word_unat_eq_iff unat_concat32 del: unsigned_or_eq push_bit_eq_mult)
qed

lemma bswap64_get: "8 \<le> length p \<Longrightarrow> bswap64 (get_unaligned_le64 p) = get_unaligned_be64 p"
  by (simp add: get_unaligned_le64_halves get_unaligned_be64_halves bswap64_concat le32_eq_get bswap32_get)

lemmas bswap_get = bswap16_get bswap32_get bswap64_get

lemma bswap_get_rev:
  "2 \<le> length p \<Longrightarrow> bswap16 (get_unaligned_be16 p) = get_unaligned_le16 p"
  "4 \<le> length p \<Longrightarrow> bswap32 (get_unaligned_be32 p) = get_unaligned_le32 p"
  "8 \<le> length p \<Longrightarrow> bswap64 (get_unaligned_be64 p) = get_unaligned_le64 p"
  by (simp_all flip: bswap_get add: bswap16_bswap16 bswap32_bswap32 bswap64_bswap64)

lemmas host_conversions =
  be16_to_cpup_def be32_to_cpup_def be64_to_cpup_def le16_to_cpup_def le32_to_cpup_def le64_to_cpup_def
  cpu_to_be16p_def cpu_to_be32p_def cpu_to_be64p_def cpu_to_le16p_def cpu_to_le32p_def cpu_to_le64p_def
  be16toh_def be32toh_def be64toh_def le16toh_def le32toh_def le64toh_def

section \<open>Properties\<close>

text \<open>Every unaligned accessor pair of \<open>kernel/linux_func.c\<close> is a codec: on a
  buffer that holds the value, the reader returns what the writer stored, writing back
  what was read changes nothing, and the bytes behind the value are not touched.\<close>

theorem unaligned_roundtrip:
  assumes "8 \<le> length p"
  shows "get_unaligned_le64 (put_unaligned_le64 v8 p) = v8 \<and>
    get_unaligned_be64 (put_unaligned_be64 v8 p) = v8 \<and>
    get_unaligned_le32 (put_unaligned_le32 v4 p) = v4 \<and>
    get_unaligned_be32 (put_unaligned_be32 v4 p) = v4 \<and>
    get_unaligned_le16 (put_unaligned_le16 v2 p) = v2 \<and>
    get_unaligned_be16 (put_unaligned_be16 v2 p) = v2 \<and>
    put_unaligned_le64 (get_unaligned_le64 p) p = p \<and>
    put_unaligned_be32 (get_unaligned_be32 p) p = p \<and>
    drop 4 (put_unaligned_le32 v4 p) = drop 4 p \<and>
    drop 2 (put_unaligned_be16 v2 p) = drop 2 p"
  using assms
  by (simp add: le64.get_put be64.get_put le32.get_put be32.get_put le16.get_put be16.get_put
      le64.put_get be32.put_get le32.put_rest be16.put_rest)

theorem unaligned_roundtrip_witness:
  "get_unaligned_be32 (put_unaligned_be32 0x11223344 [0, 0, 0, 0, 0, 0, 0, 9]) = 0x11223344 \<and>
   put_unaligned_be32 0x11223344 [0, 0, 0, 0, 0, 0, 0, 9] = [0x11, 0x22, 0x33, 0x44, 0, 0, 0, 9]"
  using unaligned_roundtrip [of "[0, 0, 0, 0, 0, 0, 0, 9]" 0 "0x11223344" 0]
  by (simp add: put_layouts le_bytes_rec)

text \<open>The conversions of a value behind a pointer give, on a host of either byte
  order, the number that the bytes of the object denote in the named order, and the
  conversion back stores the same bytes: what the host loads from the object \<open>p\<close> is
  the little or big endian reading of its bytes.\<close>

theorem cpup_conversions:
  assumes "8 \<le> length p"
  shows "be16_to_cpup big (if big then get_unaligned_be16 p else get_unaligned_le16 p) = get_unaligned_be16 p \<and>
    le16_to_cpup big (if big then get_unaligned_be16 p else get_unaligned_le16 p) = get_unaligned_le16 p \<and>
    be32_to_cpup big (if big then get_unaligned_be32 p else get_unaligned_le32 p) = get_unaligned_be32 p \<and>
    le32_to_cpup big (if big then get_unaligned_be32 p else get_unaligned_le32 p) = get_unaligned_le32 p \<and>
    be64_to_cpup big (if big then get_unaligned_be64 p else get_unaligned_le64 p) = get_unaligned_be64 p \<and>
    le64_to_cpup big (if big then get_unaligned_be64 p else get_unaligned_le64 p) = get_unaligned_le64 p \<and>
    cpu_to_be16p big (be16_to_cpup big v2) = v2 \<and> cpu_to_le16p big (le16_to_cpup big v2) = v2 \<and>
    cpu_to_be32p big (be32_to_cpup big v4) = v4 \<and> cpu_to_le32p big (le32_to_cpup big v4) = v4 \<and>
    cpu_to_be64p big (be64_to_cpup big v8) = v8 \<and> cpu_to_le64p big (le64_to_cpup big v8) = v8"
  using assms
  by (simp add: host_conversions bswap_get bswap_get_rev bswap16_bswap16 bswap32_bswap32 bswap64_bswap64)

theorem cpup_conversions_witness:
  "be32_to_cpup False (get_unaligned_le32 [1, 2, 3, 4, 5, 6, 7, 8]) = 0x01020304 \<and>
   cpu_to_be16p False (be16_to_cpup False 7) = 7"
  using cpup_conversions [of "[1, 2, 3, 4, 5, 6, 7, 8]" False 7 0 0]
  by (simp add: get_unaligned_be32_def)

text \<open>The in-place conversion of a 64-bit object reads it correctly exactly when the
  fourth byte is below 0x80 or the high half is all ones: the low half is computed in a
  signed 32-bit integer and sign extended before it is merged.\<close>

theorem le64_to_cpus_correct_iff:
  assumes "8 \<le> length p"
  shows "unat (le64_to_cpus p) = le_nat (take 8 p) \<longleftrightarrow>
    \<not> bit (p ! 3) 7 \<or> take 4 (drop 4 p) = [255, 255, 255, 255]"
proof -
  have "unat (le64_to_cpus p) = le_nat (take 8 p) \<longleftrightarrow> le64_to_cpus p = get_unaligned_le64 p"
    using assms by (simp add: word_unat_eq_iff le64.get_layout)
  then show ?thesis
    using assms by (auto simp: le64_to_cpus_bits le32_msb le32_minus_1)
qed

theorem le64_to_cpus_correct_iff_witness:
  "unat (le64_to_cpus [1, 0, 0, 0, 2, 0, 0, 0]) = 0x200000001 \<and>
   unat (le64_to_cpus [0, 0, 0, 0x80, 2, 0, 0, 0]) \<noteq> 0x280000000"
  using le64_to_cpus_correct_iff [of "[1, 0, 0, 0, 2, 0, 0, 0]"]
    le64_to_cpus_correct_iff [of "[0, 0, 0, 0x80, 2, 0, 0, 0]"]
  by simp

end
