(* ===== verification/Radix_Tree.thy ===== *)
theory Radix_Tree
  imports Webcamd_Prelude "HOL-Library.Monad_Syntax"
begin

text \<open>
  The radix tree of \<open>kernel/linux_radix.c\<close>, the index structure below the extensible
  arrays.  Nodes have 64 slots; a slot is \<open>NULL\<close>, an item (in the nodes of level 0) or a
  node of the level below.  The tree is a value, so a write through a pointer rebuilds the
  path to it; the counters that the code keeps in every node are kept as they are.
  \<open>malloc\<close> is the stream \<open>mem\<close> of the outcomes of the calls, read at the number of
  calls made so far.  The theory \<open>Radix_Spec\<close> has the contract of the operations.
\<close>

section \<open>Data\<close>

text \<open>\<open>struct radix_tree_node\<close> is the constructor \<open>Node\<close>, with the slots and the
  counter; the other constructors are the other values of a \<open>void *\<close> in a slot.\<close>

datatype 'a radix_tree_node =
    Null
  | Item 'a
  | Node "'a radix_tree_node list" int

record 'a radix_tree_root =
  rnode :: "'a radix_tree_node"
  gfp_mask :: u32
  height :: nat

definition RADIX_TREE_MAP_SHIFT :: nat where
  "RADIX_TREE_MAP_SHIFT = 6"

definition RADIX_TREE_MAP_SIZE :: nat where
  "RADIX_TREE_MAP_SIZE = 2 ^ RADIX_TREE_MAP_SHIFT"

definition RADIX_TREE_MAP_MASK :: u64 where
  "RADIX_TREE_MAP_MASK = of_nat RADIX_TREE_MAP_SIZE - 1"

definition RADIX_TREE_MAX_HEIGHT :: nat where
  "RADIX_TREE_MAX_HEIGHT = (64 + (RADIX_TREE_MAP_SHIFT - 1)) div RADIX_TREE_MAP_SHIFT"

definition RADIX_TREE_INIT :: "u32 \<Rightarrow> 'a radix_tree_root" where
  "RADIX_TREE_INIT flags = \<lparr>rnode = Null, gfp_mask = flags, height = 0\<rparr>"

fun slots :: "'a radix_tree_node \<Rightarrow> 'a radix_tree_node list" where
  "slots (Node s c) = s"
| "slots _ = []"

fun count :: "'a radix_tree_node \<Rightarrow> int" where
  "count (Node s c) = c"
| "count _ = 0"

fun slot_item :: "'a radix_tree_node \<Rightarrow> 'a option" where
  "slot_item (Item x) = Some x"
| "slot_item _ = None"

text \<open>A node after \<open>memset(node, 0, sizeof(*node))\<close>.\<close>

definition zero_node :: "'a radix_tree_node" where
  "zero_node = Node (replicate RADIX_TREE_MAP_SIZE Null) 0"

section \<open>Operations\<close>

text \<open>A shift by more than 63 places is undefined in C; amd64 takes the count modulo 64.
  It occurs at height 11 only.\<close>

definition radix_max :: "'a radix_tree_root \<Rightarrow> u64" where
  "radix_max root = push_bit ((height root * RADIX_TREE_MAP_SHIFT) mod 64) 1 - 1"

text \<open>The index is converted to a signed \<open>long\<close>, so the shift is arithmetic.\<close>

definition radix_pos :: "u64 \<Rightarrow> nat \<Rightarrow> nat" where
  "radix_pos i h = unat (signed_drop_bit (RADIX_TREE_MAP_SHIFT * h) i AND RADIX_TREE_MAP_MASK)"

definition radix_tree_clean_root_node :: "'a radix_tree_root \<Rightarrow> 'a radix_tree_root" where
  "radix_tree_clean_root_node root =
     (if count (rnode root) = 0 then root\<lparr>rnode := Null, height := 0\<rparr> else root)"

text \<open>The loop \<open>while (height && node)\<close> that walks down to level 0.\<close>

fun radix_walk :: "nat \<Rightarrow> 'a radix_tree_node \<Rightarrow> u64 \<Rightarrow> 'a radix_tree_node" where
  "radix_walk 0 node index = node"
| "radix_walk (Suc h) node index =
     (if node = Null then Null
      else radix_walk h (slots node ! radix_pos index (Suc h)) index)"

definition radix_tree_lookup :: "'a radix_tree_root \<Rightarrow> u64 \<Rightarrow> 'a option" where
  "radix_tree_lookup root index =
     (if radix_max root < index then None
      else let node = radix_walk (height root - 1) (rnode root) index
           in if node = Null then None else slot_item (slots node ! radix_pos index 0))"

text \<open>
  The search for the first item at or after an index.  The position in the tree is
  \<open>None\<close> at the label \<open>restart\<close>, and the node and level in the loop.  A result
  \<open>Some None\<close> is the return value \<open>false\<close>; \<open>Some (Some (i, x))\<close> is \<open>true\<close> with
  the index and the contents of the slot found.
\<close>

partial_function (option) radix_tree_iter_loop ::
    "'a radix_tree_root \<Rightarrow> ('a radix_tree_node \<times> nat) option \<Rightarrow> u64 \<Rightarrow>
     (u64 \<times> 'a radix_tree_node) option option" where
  "radix_tree_iter_loop root at index =
     (case at of
        None \<Rightarrow>
          if rnode root = Null then Some None
          else if height root = 0 \<or> radix_max root < index then Some None
          else radix_tree_iter_loop root (Some (rnode root, height root - 1)) index
      | Some (node, h) \<Rightarrow>
          let step = push_bit (RADIX_TREE_MAP_SHIFT * h) 1;
              mask = push_bit (RADIX_TREE_MAP_SHIFT * h) RADIX_TREE_MAP_MASK;
              nxt = slots node ! radix_pos index h
          in if nxt = Null
             then let index = (index + step) AND - step
                  in if index AND mask = 0
                     then radix_tree_iter_loop root None index
                     else radix_tree_iter_loop root (Some (node, h)) index
             else if h = 0 then Some (Some (index, nxt))
             else radix_tree_iter_loop root (Some (nxt, h - 1)) index)"

definition radix_tree_iter_find ::
    "'a radix_tree_root \<Rightarrow> u64 \<Rightarrow> (u64 \<times> 'a radix_tree_node) option option" where
  "radix_tree_iter_find root index = radix_tree_iter_loop root None index"

text \<open>
  Deletion below a node of level \<open>h\<close>.  The recursion is the walk down that records the
  path in \<open>stack\<close>, its return the climb: the result is the item found, if any, and
  the node afterwards, \<open>Null\<close> when its counter dropped to zero and it was freed.
  \<open>radix_tree_cut\<close> is one round of the climb, at a node whose slot \<open>idx\<close> led to the
  item: once a node survives, the nodes above it keep their counters.
\<close>

definition radix_tree_cut ::
    "'a radix_tree_node \<Rightarrow> nat \<Rightarrow> 'a option \<times> 'a radix_tree_node \<Rightarrow>
     'a option \<times> 'a radix_tree_node" where
  "radix_tree_cut node idx res =
     (case res of
        (None, _) \<Rightarrow> (None, node)
      | (Some x, below) \<Rightarrow>
          if below \<noteq> Null then (Some x, Node ((slots node)[idx := below]) (count node))
          else let c = count node - 1
               in if 0 < c then (Some x, Node ((slots node)[idx := Null]) c)
                  else (Some x, Null))"

fun radix_tree_del_node ::
    "nat \<Rightarrow> 'a radix_tree_node \<Rightarrow> u64 \<Rightarrow> 'a option \<times> 'a radix_tree_node" where
  "radix_tree_del_node 0 node index =
     (if node = Null then (None, Null)
      else let idx = radix_pos index 0
           in radix_tree_cut node idx (slot_item (slots node ! idx), Null))"
| "radix_tree_del_node (Suc h) node index =
     (if node = Null then (None, Null)
      else let idx = radix_pos index (Suc h)
           in radix_tree_cut node idx (radix_tree_del_node h (slots node ! idx) index))"

definition radix_tree_delete :: "'a radix_tree_root \<Rightarrow> u64 \<Rightarrow> 'a option \<times> 'a radix_tree_root" where
  "radix_tree_delete root index =
     (if radix_max root < index then (None, root)
      else let (item, node) = radix_tree_del_node (height root - 1) (rnode root) index
           in case item of
                None \<Rightarrow> (None, root)
              | Some x \<Rightarrow>
                  (item, if node = Null then root\<lparr>rnode := Null, height := 0\<rparr>
                         else root\<lparr>rnode := node\<rparr>))"

definition radix_tree_iter_delete :: "'a radix_tree_root \<Rightarrow> u64 \<Rightarrow> 'a radix_tree_root" where
  "radix_tree_iter_delete root iter_index = snd (radix_tree_delete root iter_index)"

text \<open>
  Insertion.  \<open>radix_tree_grow\<close> is the loop that adds levels until the index fits; it
  returns an error or nothing, with the tree and the number of \<open>malloc\<close> calls.
  The code tests \<open>root->height\<close> for equality with the maximum, which it never exceeds.
\<close>

function radix_tree_grow ::
    "(nat \<Rightarrow> bool) \<Rightarrow> nat \<Rightarrow> 'a radix_tree_root \<Rightarrow> u64 \<Rightarrow>
     errno option \<times> 'a radix_tree_root \<times> nat" where
  "radix_tree_grow mem k root index =
     (if radix_max root < index then
        if RADIX_TREE_MAX_HEIGHT \<le> height root
        then (Some E2BIG, radix_tree_clean_root_node root, k)
        else if count (rnode root) \<noteq> 0 then
          if \<not> mem k then (Some ENOMEM, root, Suc k)
          else radix_tree_grow mem (Suc k)
                 (root\<lparr>rnode := Node ((slots zero_node)[0 := rnode root]) 1,
                       height := height root + 1\<rparr>) index
        else radix_tree_grow mem k (root\<lparr>height := height root + 1\<rparr>) index
      else (None, root, k))"
  by pat_completeness auto
termination
  by (relation "measure (\<lambda>(mem, k, root, index). RADIX_TREE_MAX_HEIGHT - height root)") auto

text \<open>The level at which the walk down meets the first missing node, 0 if none is missing.\<close>

fun radix_tree_missing :: "nat \<Rightarrow> 'a radix_tree_node \<Rightarrow> u64 \<Rightarrow> nat" where
  "radix_tree_missing 0 node index = 0"
| "radix_tree_missing (Suc h) node index =
     (if slots node ! radix_pos index (Suc h) = Null then Suc h
      else radix_tree_missing h (slots node ! radix_pos index (Suc h)) index)"

text \<open>The loop that allocates the missing levels into \<open>temp\<close>.\<close>

fun radix_tree_alloc :: "(nat \<Rightarrow> bool) \<Rightarrow> nat \<Rightarrow> nat \<Rightarrow> bool \<times> nat" where
  "radix_tree_alloc mem k 0 = (True, k)"
| "radix_tree_alloc mem k (Suc n) =
     (if mem k then radix_tree_alloc mem (Suc k) n else (False, Suc k))"

text \<open>
  Linking the new levels and writing the slot of level 0.  A counter is incremented when
  an empty slot of its node is filled.
\<close>

definition radix_tree_fill ::
    "'a radix_tree_node \<Rightarrow> nat \<Rightarrow> 'a radix_tree_node \<Rightarrow> 'a radix_tree_node" where
  "radix_tree_fill node idx below =
     Node ((slots node)[idx := below])
       (if slots node ! idx = Null then count node + 1 else count node)"

fun radix_tree_link ::
    "nat \<Rightarrow> 'a radix_tree_node \<Rightarrow> u64 \<Rightarrow> 'a \<Rightarrow> 'a radix_tree_node" where
  "radix_tree_link 0 node index item = radix_tree_fill node (radix_pos index 0) (Item item)"
| "radix_tree_link (Suc h) node index item =
     (let idx = radix_pos index (Suc h);
          below = slots node ! idx
      in radix_tree_fill node idx
           (radix_tree_link h (if below = Null then zero_node else below) index item))"

text \<open>
  The part of \<open>radix_tree_insert\<close> and \<open>radix_tree_store\<close> up to the last step: the
  root node, the new levels above, and the memory for the missing levels below.
\<close>

definition radix_tree_prepare ::
    "(nat \<Rightarrow> bool) \<Rightarrow> nat \<Rightarrow> 'a radix_tree_root \<Rightarrow> u64 \<Rightarrow>
     errno option \<times> 'a radix_tree_root \<times> nat" where
  "radix_tree_prepare mem k root index =
     (if rnode root = Null \<and> \<not> mem k then (Some ENOMEM, root, Suc k)
      else
        let (root, k) = (if rnode root = Null
              then (root\<lparr>rnode := zero_node, height := height root + 1\<rparr>, Suc k)
              else (root, k))
        in case radix_tree_grow mem k root index of
             (Some e, root, k) \<Rightarrow> (Some e, root, k)
           | (None, root, k) \<Rightarrow>
               (case radix_tree_alloc mem k (radix_tree_missing (height root - 1) (rnode root) index) of
                  (False, k) \<Rightarrow> (Some ENOMEM, radix_tree_clean_root_node root, k)
                | (True, k) \<Rightarrow> (None, root, k)))"

definition radix_tree_insert ::
    "(nat \<Rightarrow> bool) \<Rightarrow> nat \<Rightarrow> 'a radix_tree_root \<Rightarrow> u64 \<Rightarrow> 'a option \<Rightarrow>
     errno option \<times> 'a radix_tree_root \<times> nat" where
  "radix_tree_insert mem k root index item =
     (case item of
        None \<Rightarrow> (Some EINVAL, root, k)
      | Some x \<Rightarrow>
          (case radix_tree_prepare mem k root index of
             (Some e, root, k) \<Rightarrow> (Some e, root, k)
           | (None, root, k) \<Rightarrow>
               let node = radix_walk (height root - 1) (rnode root) index
               in if node \<noteq> Null \<and> slots node ! radix_pos index 0 \<noteq> Null
                  then (Some EEXIST, root, k)
                  else (None, root\<lparr>rnode := radix_tree_link (height root - 1) (rnode root) index x\<rparr>, k)))"

text \<open>\<open>radix_tree_store\<close> exchanges the item behind \<open>ppitem\<close> with the stored one; the
  result has the new contents of \<open>*ppitem\<close>.\<close>

definition radix_tree_store ::
    "(nat \<Rightarrow> bool) \<Rightarrow> nat \<Rightarrow> 'a radix_tree_root \<Rightarrow> u64 \<Rightarrow> 'a option \<Rightarrow>
     errno option \<times> 'a option \<times> 'a radix_tree_root \<times> nat" where
  "radix_tree_store mem k root index ppitem =
     (case ppitem of
        None \<Rightarrow> let (item, root) = radix_tree_delete root index in (None, item, root, k)
      | Some x \<Rightarrow>
          (case radix_tree_prepare mem k root index of
             (Some e, root, k) \<Rightarrow> (Some e, ppitem, root, k)
           | (None, root, k) \<Rightarrow>
               let node = radix_walk (height root - 1) (rnode root) index;
                   pitem = (if node = Null then None else slot_item (slots node ! radix_pos index 0))
               in (None, pitem,
                   root\<lparr>rnode := radix_tree_link (height root - 1) (rnode root) index x\<rparr>, k)))"

section \<open>Invariant and abstraction\<close>

text \<open>
  Every node of the tree has 64 slots, its counter is the number of slots in use, the nodes
  of level 0 hold items and the others nodes of the level below, of which none is empty.
  A tree has no root node and height 0, or a root node in use and at most ten levels.
  \<open>node_lookup\<close> reads the subtree below a node of level \<open>h\<close>.
\<close>

definition used :: "'a radix_tree_node list \<Rightarrow> nat" where
  "used s = length (filter (\<lambda>x. x \<noteq> Null) s)"

primrec wf_node :: "nat \<Rightarrow> 'a radix_tree_node \<Rightarrow> bool" where
  "wf_node 0 node \<longleftrightarrow>
     (case node of
        Node s c \<Rightarrow> length s = 64 \<and> c = int (used s) \<and>
          (\<forall>x \<in> set s. x = Null \<or> slot_item x \<noteq> None)
      | _ \<Rightarrow> False)"
| "wf_node (Suc h) node \<longleftrightarrow>
     (case node of
        Node s c \<Rightarrow> length s = 64 \<and> c = int (used s) \<and>
          (\<forall>x \<in> set s. x = Null \<or> wf_node h x \<and> 0 < count x)
      | _ \<Rightarrow> False)"

definition radix_inv :: "'a radix_tree_root \<Rightarrow> bool" where
  "radix_inv r \<longleftrightarrow>
     (if height r = 0 then rnode r = Null
      else height r \<le> 10 \<and> wf_node (height r - 1) (rnode r) \<and> 0 < count (rnode r))"

primrec node_lookup :: "nat \<Rightarrow> 'a radix_tree_node \<Rightarrow> u64 \<Rightarrow> 'a option" where
  "node_lookup 0 node i = (if node = Null then None else slot_item (slots node ! radix_pos i 0))"
| "node_lookup (Suc h) node i =
     (if node = Null then None else node_lookup h (slots node ! radix_pos i (Suc h)) i)"

section \<open>Positions and capacities\<close>

declare radix_tree_grow.simps [simp del]

lemmas radix_consts [simp] =
  RADIX_TREE_MAP_SHIFT_def RADIX_TREE_MAP_SIZE_def RADIX_TREE_MAP_MASK_def RADIX_TREE_MAX_HEIGHT_def

lemma radix_pos_nat:
  assumes "h \<le> 9"
  shows "radix_pos i h = unat i div 64 ^ h mod 64"
proof -
  have m: "(63 :: u64) = mask 6" by (simp add: mask_eq_exp_minus_1)
  have "signed_drop_bit (6 * h) i AND mask 6 = drop_bit (6 * h) i AND mask 6"
    using assms by (intro bit_word_eqI) (auto simp: bit_simps)
  then have "radix_pos i h = unat (drop_bit (6 * h) i AND mask 6)"
    by (simp add: radix_pos_def m)
  also have "\<dots> = unat i div 2 ^ (6 * h) mod 2 ^ 6"
    by (simp only: unat_and_mask unat_drop_bit_div)
  finally show ?thesis by (simp add: power_mult)
qed

lemma radix_pos_less: "h \<le> 9 \<Longrightarrow> radix_pos i h < 64"
  by (simp add: radix_pos_nat)

lemma power_64_le: "h \<le> 10 \<Longrightarrow> (64 :: nat) ^ h \<le> 64 ^ 10"
  by (rule power_increasing) simp_all

lemma radix_max_nat:
  assumes "height r \<le> 10"
  shows "unat (radix_max r) = 64 ^ height r - 1"
proof -
  have "unat (push_bit (6 * height r) 1 :: u64) = 64 ^ height r"
    using assms power_64_le [of "height r"]
    by (simp only: unsigned_push_bit_eq) (simp add: push_bit_eq_mult power_mult take_bit_nat_eq_self)
  moreover have "(6 * height r) mod 64 = 6 * height r"
    using assms by simp
  ultimately show ?thesis
    by (simp add: radix_max_def mult.commute unat_minus_one word_neq_0_conv word_greater_zero_iff flip: unat_gt_0)
qed

lemma radix_max_less:
  assumes "height r \<le> 10"
  shows "radix_max r < i \<longleftrightarrow> 64 ^ height r \<le> unat i"
proof -
  obtain n where "(64 :: nat) ^ height r = Suc n"
    by (metis not0_implies_Suc power_not_zero zero_neq_numeral)
  then show ?thesis
    using assms by (auto simp: word_less_nat_alt radix_max_nat)
qed

text \<open>Two indices below the capacity of a level are equal when they take the same path.\<close>

lemma same_path:
  assumes "\<And>l. l \<le> h \<Longrightarrow> a div 64 ^ l mod 64 = b div 64 ^ l mod (64::nat)"
    and "a < 64 ^ Suc h" and "b < 64 ^ Suc h"
  shows "a = b"
  using assms
proof (induction h arbitrary: a b)
  case 0
  then show ?case by force
next
  case (Suc h)
  have "a div 64 = b div 64"
  proof (rule Suc.IH)
    show "a div 64 div 64 ^ l mod 64 = b div 64 div 64 ^ l mod 64" if "l \<le> h" for l
      using Suc.prems(1) [of "Suc l"] that by (simp add: div_mult2_eq)
  qed (use Suc.prems in \<open>auto simp: less_mult_imp_div_less mult.commute\<close>)
  moreover have "a mod 64 = b mod 64"
    using Suc.prems(1) [of 0] by simp
  ultimately show ?case by (metis div_mult_mod_eq)
qed

section \<open>Nodes\<close>

lemma wf_node_iff:
  "wf_node 0 node \<longleftrightarrow>
     (\<exists>s c. node = Node s c \<and> length s = 64 \<and> c = int (used s) \<and>
       (\<forall>x \<in> set s. x = Null \<or> slot_item x \<noteq> None))"
  "wf_node (Suc h) node \<longleftrightarrow>
     (\<exists>s c. node = Node s c \<and> length s = 64 \<and> c = int (used s) \<and>
       (\<forall>x \<in> set s. x = Null \<or> wf_node h x \<and> 0 < count x))"
  by (cases node; auto)+

declare wf_node.simps [simp del] wf_node_iff [simp]

lemma walk_lookup:
  "(let node = radix_walk h n i in if node = Null then None else slot_item (slots node ! radix_pos i 0))
   = node_lookup h n i"
proof (induction h arbitrary: n)
  case (Suc h)
  then show ?case by (cases "n = Null") (simp_all add: Let_def)
qed simp

lemma lookup_node: 
  "radix_tree_lookup r i = (if radix_max r < i then None else node_lookup (height r - 1) (rnode r) i)"
  by (simp add: radix_tree_lookup_def walk_lookup)

lemma node_lookup_Null [simp]: "node_lookup h Null i = None"
  by (cases h) simp_all

lemma used_set: "used s = card {i. i < length s \<and> s ! i \<noteq> Null}"
  by (simp add: used_def length_filter_conv_card)

lemma used_update:
  "i < length s \<Longrightarrow> int (used (s[i := x])) =
     int (used s) - (if s ! i = Null then 0 else 1) + (if x = Null then 0 else 1)"
proof (induction s arbitrary: i)
  case (Cons a s)
  then show ?case
  proof (cases i)
    case (Suc j)
    then show ?thesis using Cons.IH [of j] Cons.prems by (simp add: used_def split: if_splits)
  qed (simp add: used_def)
qed simp

lemma used_pos: "0 < used s \<longleftrightarrow> (\<exists>x \<in> set s. x \<noteq> Null)"
  by (auto simp: used_def filter_empty_conv)

lemma wf_zero_node: "wf_node h zero_node" 
  by (cases h) (simp_all add: zero_node_def used_def)

lemma zero_node_neq [simp]: "zero_node \<noteq> Null"
  by (simp add: zero_node_def)

lemma zero_node_slot [simp]: "h \<le> 9 \<Longrightarrow> slots zero_node ! radix_pos i h = Null"
  using radix_pos_less [of h i] by (simp add: zero_node_def)

lemma node_lookup_zero [simp]: "h \<le> 9 \<Longrightarrow> node_lookup h zero_node i = None"
  using radix_pos_less [of h i] by (cases h) (simp_all add: zero_node_def)


lemma wf_node_Node:
  "wf_node h n \<Longrightarrow> \<exists>s. n = Node s (int (used s)) \<and> length s = 64"
  by (cases h) auto

lemma wf_node_update_Suc:
  assumes "wf_node (Suc h) (Node s c)" "p < 64" "wf_node h x" "0 < count x"
  shows "wf_node (Suc h) (radix_tree_fill (Node s c) p x)"
  using assms
  by (cases x) (auto simp: radix_tree_fill_def used_update dest: set_update_subset_insert [THEN subsetD])

lemma wf_link:
  assumes "wf_node h n" "h \<le> 9"
  shows "wf_node h (radix_tree_link h n i x) \<and> 0 < count (radix_tree_link h n i x)"
  using assms
proof (induction h arbitrary: n)
  case 0
  then obtain s where n: "n = Node s (int (used s))" "length s = 64"
    using wf_node_Node by blast
  have "radix_pos i 0 < 64" using 0 by (simp add: radix_pos_less)
  moreover from this have "0 < used s" if "s ! radix_pos i 0 \<noteq> Null"
    using that n by (auto simp: used_pos intro!: bexI [of _ "s ! radix_pos i 0"])
  ultimately show ?case
    using 0 n by (auto simp: radix_tree_fill_def used_update dest: set_update_subset_insert [THEN subsetD])
next
  case (Suc h)
  then obtain s where n: "n = Node s (int (used s))" "length s = 64"
    using wf_node_Node by blast
  define p where "p = radix_pos i (Suc h)"
  have p: "p < 64" using Suc by (simp add: p_def radix_pos_less)
  define below where "below = (if s ! p = Null then zero_node else s ! p)"
  have "wf_node h below"
    using Suc.prems(1) n p nth_mem [of p s] by (auto simp: below_def wf_zero_node)
  then have link: "wf_node h (radix_tree_link h below i x)" "0 < count (radix_tree_link h below i x)"
    using Suc by auto
  have "0 < used s" if "s ! p \<noteq> Null"
    using that n p by (auto simp: used_pos intro!: bexI [of _ "s ! p"])
  then have "0 < count (radix_tree_fill n p (radix_tree_link h below i x))"
    using n by (auto simp: radix_tree_fill_def)
  then show ?case
    using wf_node_update_Suc [of h s "int (used s)" p, OF _ p link] Suc.prems(1) n
    by (simp add: Let_def below_def flip: p_def)
qed

lemma lookup_link:
  assumes "wf_node h n" "h \<le> 9"
  shows "node_lookup h (radix_tree_link h n i x) j =
    (if \<forall>l \<le> h. radix_pos i l = radix_pos j l then Some x else node_lookup h n j)"
  using assms
proof (induction h arbitrary: n)
  case 0
  then obtain s where n: "n = Node s (int (used s))" "length s = 64"
    using wf_node_Node by blast
  then show ?case
    using radix_pos_less [of 0 i] by (auto simp: radix_tree_fill_def nth_list_update)
next
  case (Suc h)
  then obtain s where n: "n = Node s (int (used s))" "length s = 64"
    using wf_node_Node by blast
  define p where "p = radix_pos i (Suc h)"
  have p: "p < 64" using Suc by (simp add: p_def radix_pos_less)
  define below where "below = (if s ! p = Null then zero_node else s ! p)"
  have "wf_node h below"
    using Suc.prems(1) n p nth_mem [of p s] by (auto simp: below_def wf_zero_node)
  then have "node_lookup h (radix_tree_link h below i x) j =
      (if \<forall>l \<le> h. radix_pos i l = radix_pos j l then Some x else node_lookup h below j)"
    using Suc by simp
  moreover have "node_lookup h below j = node_lookup h (s ! p) j"
    using Suc.prems by (simp add: below_def)
  ultimately show ?case
    using n p by (auto simp: Let_def radix_tree_fill_def nth_list_update le_Suc_eq simp flip: below_def p_def)
qed

lemma used_single:
  assumes "\<not> 1 < int (used s)" "p < length s" "s ! p \<noteq> Null" "q < length s" "q \<noteq> p"
  shows "s ! q = Null"
proof (rule ccontr)
  assume "s ! q \<noteq> Null"
  then have "card {p, q} \<le> card {i. i < length s \<and> s ! i \<noteq> Null}"
    using assms by (intro card_mono) auto
  then show False using assms by (simp add: used_set)
qed

lemma in_set_update: "x \<in> set (xs[i := v]) \<Longrightarrow> x = v \<or> x \<in> set xs"
  using set_update_subset_insert [of xs i v] by auto

lemma del_Null [simp]: "radix_tree_del_node h Null i = (None, Null)"
  by (cases h) simp_all

lemma wf_del:
  assumes "wf_node h n" "h \<le> 9" "radix_tree_del_node h n i = (r, n')"
  shows "(n' = Null \<or> wf_node h n' \<and> (0 < count n \<longrightarrow> 0 < count n')) \<and> (r = None \<longrightarrow> n' = n)"
  using assms
proof (induction h arbitrary: n r n')
  case 0
  then obtain s where n: "n = Node s (int (used s))" "length s = 64"
    using wf_node_Node by blast
  have "radix_pos i 0 < 64" using 0 by (simp add: radix_pos_less)
  then show ?case
    using 0 n by (cases "slot_item (s ! radix_pos i 0)")
      (auto simp: radix_tree_cut_def Let_def used_update split: if_splits dest!: in_set_update, metis)
next
  case (Suc h)
  then obtain s where n: "n = Node s (int (used s))" "length s = 64"
    using wf_node_Node by blast
  define p where "p = radix_pos i (Suc h)"
  have p: "p < 64" using Suc by (simp add: p_def radix_pos_less)
  obtain r0 n0 where del: "radix_tree_del_node h (s ! p) i = (r0, n0)" by fastforce
  show ?case
  proof (cases "s ! p = Null")
    case True
    then show ?thesis
      using Suc.prems n by (auto simp: radix_tree_cut_def Let_def simp flip: p_def)
  next
    case False
    then have "wf_node h (s ! p)" "0 < count (s ! p)" 
      using Suc.prems(1) n p nth_mem [of p s] by auto
    then have "n0 = Null \<or> wf_node h n0 \<and> 0 < count n0" using Suc del by auto
    then show ?thesis
      using Suc.prems n p del False
      by (cases r0) (auto simp: radix_tree_cut_def Let_def used_update simp flip: p_def
          split: if_splits dest!: in_set_update)
  qed
qed

text \<open>One round of the climb, seen through lookups: the slot \<open>p\<close> now leads to \<open>below\<close>.\<close>

lemma lookup_cut:
  assumes "length s = 64" "p < 64" "s ! p \<noteq> Null" "h \<le> 9"
  shows "node_lookup h (snd (radix_tree_cut (Node s (int (used s))) p (Some x, below))) j =
    (case h of 0 \<Rightarrow> slot_item (if radix_pos j h = p then below else s ! radix_pos j h)
     | Suc h' \<Rightarrow> node_lookup h' (if radix_pos j h = p then below else s ! radix_pos j h) j)"
  using assms used_single [of s p "radix_pos j h"] radix_pos_less [of h j]
  by (cases h) (auto simp: radix_tree_cut_def Let_def nth_list_update)

lemma lookup_del:
  assumes "wf_node h n" "h \<le> 9"
  shows "fst (radix_tree_del_node h n i) = node_lookup h n i \<and>
    node_lookup h (snd (radix_tree_del_node h n i)) j =
    (if \<forall>l \<le> h. radix_pos i l = radix_pos j l then None else node_lookup h n j)"
  using assms
proof (induction h arbitrary: n)
  case 0
  then obtain s where n: "n = Node s (int (used s))" "length s = 64"
    using wf_node_Node by blast
  have p: "radix_pos i 0 < 64" using 0 by (simp add: radix_pos_less)
  show ?case
  proof (cases "slot_item (s ! radix_pos i 0)")
    case None
    then show ?thesis using n by (auto simp: radix_tree_cut_def)
  next
    case (Some x)
    then have "s ! radix_pos i 0 \<noteq> Null" by auto
    then show ?thesis
      using lookup_cut [OF n(2) p, of 0 x Null j] n Some
      by (auto simp: radix_tree_cut_def Let_def)
  qed
next
  case (Suc h)
  then obtain s where n: "n = Node s (int (used s))" "length s = 64"
    using wf_node_Node by blast
  define p where "p = radix_pos i (Suc h)"
  have p: "p < 64" using Suc by (simp add: p_def radix_pos_less)
  obtain r0 n0 where del: "radix_tree_del_node h (s ! p) i = (r0, n0)" by fastforce
  show ?case
  proof (cases "s ! p = Null")
    case True
    then show ?thesis
      using n by (auto simp: radix_tree_cut_def Let_def le_Suc_eq simp flip: p_def)
  next
    case False
    then have "wf_node h (s ! p)" 
      using Suc.prems(1) n p nth_mem [of p s] by auto
    then have IH: "r0 = node_lookup h (s ! p) i" "node_lookup h n0 j =
      (if \<forall>l \<le> h. radix_pos i l = radix_pos j l then None else node_lookup h (s ! p) j)"
      using Suc.IH [of "s ! p"] Suc.prems del by auto
    show ?thesis
    proof (cases r0)
      case None
      then show ?thesis using n del IH wf_del [OF \<open>wf_node h (s ! p)\<close> _ del] Suc.prems
        by (auto simp: radix_tree_cut_def le_Suc_eq simp flip: p_def)
    next
      case (Some x)
      then have eq: "radix_tree_del_node (Suc h) n i = radix_tree_cut (Node s (int (used s))) p (Some x, n0)"
        using n del by (simp add: Let_def flip: p_def)
      have "node_lookup (Suc h) (snd (radix_tree_del_node (Suc h) n i)) j =
          node_lookup h (if radix_pos j (Suc h) = p then n0 else s ! radix_pos j (Suc h)) j"
        unfolding eq using lookup_cut [OF n(2) p False Suc.prems(2), of x n0 j] by simp
      moreover have "fst (radix_tree_del_node (Suc h) n i) = Some x"
        unfolding eq by (simp add: radix_tree_cut_def Let_def)
      ultimately show ?thesis
        using n IH Some by (auto simp: le_Suc_eq simp del: radix_tree_del_node.simps simp flip: p_def)
    qed
  qed
qed


end
