(* ===== verification/Radix_Spec.thy ===== *)
theory Radix_Spec
  imports Radix_Tree
begin

text \<open>
  The contract of the radix tree.  The locale \<open>index_map\<close> states what a client may rely
  on: the operations keep the invariant and act on the lookup function as updates of a
  map, and the search finds the first index in use.  It is interpreted on the operations of
  \<open>Radix_Tree\<close>, for the indices below \<open>2\<^sup>6\<^sup>0\<close> that ten levels cover.
\<close>

section \<open>The contract\<close>

text \<open>What a search from an index returns: the first index in use with its item, or nothing
  when no index from there on is in use.\<close>

definition first_from :: "(u64 \<Rightarrow> 'a option) \<Rightarrow> u64 \<Rightarrow> (u64 \<times> 'a radix_tree_node) option \<Rightarrow> bool" where
  "first_from m i res \<longleftrightarrow>
     (case res of
        None \<Rightarrow> \<forall>j \<ge> i. m j = None
      | Some (j, x) \<Rightarrow> i \<le> j \<and> m j \<noteq> None \<and> x = Item (the (m j)) \<and> (\<forall>l. i \<le> l \<longrightarrow> l < j \<longrightarrow> m l = None))"

locale index_map =
  fixes valid :: "u64 \<Rightarrow> bool"
    and inv :: "'r \<Rightarrow> bool"
    and lookup :: "'r \<Rightarrow> u64 \<Rightarrow> 'a option"
    and insert :: "(nat \<Rightarrow> bool) \<Rightarrow> nat \<Rightarrow> 'r \<Rightarrow> u64 \<Rightarrow> 'a option \<Rightarrow> errno option \<times> 'r \<times> nat"
    and store :: "(nat \<Rightarrow> bool) \<Rightarrow> nat \<Rightarrow> 'r \<Rightarrow> u64 \<Rightarrow> 'a option \<Rightarrow>
      errno option \<times> 'a option \<times> 'r \<times> nat"
    and delete :: "'r \<Rightarrow> u64 \<Rightarrow> 'a option \<times> 'r"
    and find :: "'r \<Rightarrow> u64 \<Rightarrow> (u64 \<times> 'a radix_tree_node) option option"
  assumes insert_inv:
      "inv r \<Longrightarrow> valid i \<Longrightarrow> insert mem k r i x = (e, r', k') \<Longrightarrow> inv r'"
    and insert_ok:
      "inv r \<Longrightarrow> valid i \<Longrightarrow> insert mem k r i x = (None, r', k') \<Longrightarrow>
       x \<noteq> None \<and> lookup r i = None \<and> lookup r' = (lookup r)(i := x)"
    and insert_err:
      "inv r \<Longrightarrow> valid i \<Longrightarrow> insert mem k r i x = (Some err, r', k') \<Longrightarrow>
       lookup r' = lookup r \<and>
       (err = EINVAL \<and> x = None \<or> err = ENOMEM \<and> x \<noteq> None \<and> \<not> (\<forall>k. mem k) \<or>
        err = EEXIST \<and> x \<noteq> None \<and> lookup r i \<noteq> None)"
    and store_inv:
      "inv r \<Longrightarrow> valid i \<Longrightarrow> store mem k r i x = (e, old, r', k') \<Longrightarrow> inv r'"
    and store_ok:
      "inv r \<Longrightarrow> valid i \<Longrightarrow> store mem k r i x = (None, old, r', k') \<Longrightarrow>
       old = lookup r i \<and> lookup r' = (lookup r)(i := x)"
    and store_err:
      "inv r \<Longrightarrow> valid i \<Longrightarrow> store mem k r i x = (Some err, old, r', k') \<Longrightarrow>
       err = ENOMEM \<and> \<not> (\<forall>k. mem k) \<and> x \<noteq> None \<and> old = x \<and> lookup r' = lookup r"
    and lookup_valid: "inv r \<Longrightarrow> lookup r i \<noteq> None \<Longrightarrow> valid i"
    and delete_inv: "inv r \<Longrightarrow> inv (snd (delete r i))"
    and delete_item: "inv r \<Longrightarrow> fst (delete r i) = lookup r i"
    and delete_lookup: "inv r \<Longrightarrow> lookup (snd (delete r i)) = (lookup r)(i := None)"
    and find_first: "inv r \<Longrightarrow> \<exists>res. find r i = Some res \<and> first_from (lookup r) i res"
begin

lemma insert_exists:
  assumes "inv r" "valid i" "x \<noteq> None" "lookup r i \<noteq> None" "\<forall>k. mem k"
  shows "fst (insert mem k r i x) = Some EEXIST"
proof -
  obtain e r' k' where ins: "insert mem k r i x = (e, r', k')" by (metis prod_cases3)
  then show ?thesis
    using insert_ok [OF assms(1,2)] insert_err [OF assms(1,2)] assms by (cases e) fastforce+
qed

lemma insert_free:
  assumes "inv r" "valid i" "x \<noteq> None" "lookup r i = None" "\<forall>k. mem k"
  shows "fst (insert mem k r i x) = None"
proof -
  obtain e r' k' where ins: "insert mem k r i x = (e, r', k')" by (metis prod_cases3)
  then show ?thesis
    using insert_err [OF assms(1,2)] assms by (cases e) fastforce+
qed

lemma find_none_iff: "inv r \<Longrightarrow> find r 0 = Some None \<longleftrightarrow> lookup r = Map.empty"
  using find_first [of r 0] by (fastforce simp: first_from_def split: option.splits)

lemma insert_delete:
  assumes "inv r" "valid i" "insert mem k r i x = (None, r', k')"
  shows "fst (delete r' i) = x \<and> lookup (snd (delete r' i)) = lookup r"
proof -
  have "inv r'" using insert_inv [OF assms] .
  then show ?thesis
    using insert_ok [OF assms] by (auto simp: delete_item delete_lookup)
qed

end

section \<open>Roots\<close>

text \<open>A root that has a node of the right level, possibly an empty one: the state between
  the steps of an insertion.\<close>

definition radix_ready :: "'a radix_tree_root \<Rightarrow> bool" where
  "radix_ready r \<longleftrightarrow> 0 < height r \<and> height r \<le> 10 \<and> wf_node (height r - 1) (rnode r)"

text \<open>The node at level \<open>h\<close> on the path of \<open>i\<close>: it answers the lookups of the indices that
  share the path above the level.\<close>

definition on_path :: "'a radix_tree_root \<Rightarrow> 'a radix_tree_node \<Rightarrow> nat \<Rightarrow> u64 \<Rightarrow> bool" where
  "on_path r n h i \<longleftrightarrow> wf_node h n \<and> h \<le> 9 \<and> unat i < 64 ^ 10 \<and>
     (\<forall>j. unat j div 64 ^ Suc h = unat i div 64 ^ Suc h \<longrightarrow> radix_tree_lookup r j = node_lookup h n j)"

text \<open>Every round of the search moves the index on, or goes down one level.\<close>

definition iter_measure :: "('a radix_tree_node \<times> nat) option \<Rightarrow> u64 \<Rightarrow> nat" where
  "iter_measure at i = (2 ^ 64 - unat i) * 20 + (case at of None \<Rightarrow> 15 | Some (n, h) \<Rightarrow> h)"

lemma path_eq:
  assumes "0 < h" "h \<le> 10" "unat i < 64 ^ h" "unat j < 64 ^ h"
  shows "(\<forall>l \<le> h - 1. radix_pos i l = radix_pos j l) \<longleftrightarrow> i = j"
proof
  assume same: "\<forall>l \<le> h - 1. radix_pos i l = radix_pos j l"
  obtain g where g: "h = Suc g" using assms(1) by (cases h) auto
  have "unat i = unat j"
  proof (rule same_path)
    show "unat i < 64 ^ Suc g" "unat j < 64 ^ Suc g" using assms g by auto
    show "unat i div 64 ^ l mod 64 = unat j div 64 ^ l mod 64" if "l \<le> g" for l
      using same that assms(2) g radix_pos_nat [of l i] radix_pos_nat [of l j] by simp
  qed
  then show "i = j" by (simp add: word_unat_eq_iff)
qed simp

lemma ready_lookup:
  "radix_ready r \<Longrightarrow>
   radix_tree_lookup r j = (if unat j < 64 ^ height r then node_lookup (height r - 1) (rnode r) j else None)"
  by (simp add: lookup_node radix_ready_def radix_max_less)

lemma ready_link:
  assumes "radix_ready r" "unat i < 64 ^ height r"
    and r': "r' = r\<lparr>rnode := radix_tree_link (height r - 1) (rnode r) i x\<rparr>"
  shows "radix_inv r' \<and> radix_tree_lookup r' = (radix_tree_lookup r)(i \<mapsto> x)"
proof -
  have r: "0 < height r" "height r \<le> 10" "wf_node (height r - 1) (rnode r)" "height r - 1 \<le> 9"
    using assms(1) by (auto simp: radix_ready_def)
  have link: "wf_node (height r' - 1) (rnode r')" "0 < count (rnode r')" "height r' = height r"
    using wf_link [OF r(3,4)] r' by auto
  then have "radix_ready r'" using r by (simp add: radix_ready_def)
  moreover have "radix_tree_lookup r' j = ((radix_tree_lookup r)(i \<mapsto> x)) j" for j
  proof (cases "unat j < 64 ^ height r")
    case True
    then show ?thesis
      using \<open>radix_ready r'\<close> assms path_eq [OF r(1,2) assms(2) True]
      by (auto simp: ready_lookup lookup_link [OF r(3,4)] simp del: One_nat_def)
  next
    case False
    then show ?thesis
      using \<open>radix_ready r'\<close> assms by (auto simp: ready_lookup)
  qed
  ultimately show ?thesis using r link by (auto simp: radix_inv_def)
qed

lemma inv_ready: "radix_inv r \<Longrightarrow> rnode r \<noteq> Null \<Longrightarrow> radix_ready r \<and> 0 < count (rnode r)"
  by (auto simp: radix_inv_def radix_ready_def split: if_splits)

lemma inv_Null: "radix_inv r \<Longrightarrow> rnode r = Null \<Longrightarrow> height r = 0 \<and> radix_tree_lookup r = Map.empty"
  by (auto simp: radix_inv_def lookup_node fun_eq_iff split: if_splits)

lemma ready_count: "radix_ready r \<Longrightarrow> 0 \<le> count (rnode r)"
  by (auto simp: radix_ready_def dest: wf_node_Node)

lemma empty_node:
  "wf_node h n \<Longrightarrow> count n = 0 \<Longrightarrow> n = zero_node"
proof -
  assume "wf_node h n" "count n = 0"
  then obtain s where n: "n = Node s (int (used s))" "length s = 64" "used s = 0"
    using wf_node_Node by fastforce
  then have "\<forall>x \<in> set s. x = Null" using used_pos [of s] by auto
  then have "s = replicate 64 Null" using n(2) by (metis replicate_length_same)
  then show ?thesis using n by (simp add: zero_node_def)
qed

lemma ready_clean:
  assumes "radix_ready r"
  shows "radix_inv (radix_tree_clean_root_node r) \<and>
    radix_tree_lookup (radix_tree_clean_root_node r) = radix_tree_lookup r"
proof (cases "count (rnode r) = 0")
  case True
  then have "rnode r = zero_node" using assms empty_node by (auto simp: radix_ready_def)
  then have "radix_tree_lookup r j = None" for j
    using assms ready_lookup [of r j] by (auto simp: radix_ready_def)
  then show ?thesis
    using True by (auto simp: radix_tree_clean_root_node_def radix_inv_def lookup_node)
next
  case False
  then show ?thesis
    using assms ready_count [OF assms] by (auto simp: radix_tree_clean_root_node_def radix_inv_def radix_ready_def)
qed

lemma ready_raise:
  assumes "radix_ready r" "height r < 10" 
    and "r' = (if count (rnode r) \<noteq> 0
      then r\<lparr>rnode := Node ((slots zero_node)[0 := rnode r]) 1, height := height r + 1\<rparr>
      else r\<lparr>height := height r + 1\<rparr>)"
  shows "radix_ready r' \<and> radix_tree_lookup r' = radix_tree_lookup r"
proof (cases "count (rnode r) = 0")
  case True
  then have z: "rnode r = zero_node" using assms empty_node by (auto simp: radix_ready_def)
  then have "radix_ready r'" using assms True by (auto simp: radix_ready_def wf_zero_node)
  moreover have "rnode r' = zero_node" using z True assms by simp
  ultimately show ?thesis
    using assms z by (auto simp: ready_lookup fun_eq_iff radix_ready_def)
next
  case False
  obtain h where h: "height r = Suc h" using assms by (cases "height r") (auto simp: radix_ready_def)
  have used: "used ((slots zero_node)[0 := rnode r]) = 1"
    using False used_update [of 0 "slots zero_node" "rnode r"] by (cases "rnode r") (auto simp: zero_node_def used_def)
  have r': "height r' = Suc (Suc h)" "rnode r' = Node ((slots zero_node)[0 := rnode r]) 1"
    using False assms h by simp_all
  moreover have "0 < count (rnode r)" using False ready_count [OF assms(1)] by simp
  ultimately have "radix_ready r'"
    using assms h used by (auto simp: radix_ready_def zero_node_def dest!: in_set_update)
  moreover have "node_lookup (Suc h) (rnode r') j = (if unat j < 64 ^ Suc h then node_lookup h (rnode r) j else None)"
    if "unat j < 64 ^ Suc (Suc h)" for j
  proof -
    have "radix_pos j (Suc h) = unat j div 64 ^ Suc h"
      using that assms h radix_pos_nat [of "Suc h" j] by (simp add: less_mult_imp_div_less mult.assoc)
    then show ?thesis
      using r' that radix_pos_less [of "Suc h" j] assms h
      by (auto simp: zero_node_def nth_list_update div_eq_0_iff)
  qed
  ultimately show ?thesis
    using assms(1) h r' by (auto simp: ready_lookup fun_eq_iff simp del: node_lookup.simps)
qed


lemma grow_step:
  assumes "radix_ready r" "unat i < 64 ^ 10" "radix_tree_grow mem k r i = (e, r', k')"
  shows "radix_ready r' \<and> radix_tree_lookup r' = radix_tree_lookup r \<and>
    (e = None \<longrightarrow> unat i < 64 ^ height r') \<and>
    (e \<noteq> None \<longrightarrow> e = Some ENOMEM \<and> 0 < count (rnode r')) \<and>
    ((\<forall>k. mem k) \<longrightarrow> e = None)"
  using assms
proof (induction mem k r i arbitrary: e r' k' rule: radix_tree_grow.induct)
  case (1 mem k r i)
  have h: "height r \<le> 10" using "1.prems" by (simp add: radix_ready_def)
  show ?case
  proof (cases "radix_max r < i")
    case False
    then show ?thesis
      using "1.prems" h by (auto simp: radix_tree_grow.simps [of mem k r i] radix_max_less)
  next
    case True
    then have "64 ^ height r < (64 :: nat) ^ 10"
      using "1.prems"(2) h by (simp add: radix_max_less)
    then have lt: "height r < 10" by (simp only: power_strict_increasing_iff)
    note IH = "1.IH" [OF True]
    consider (grow) "count (rnode r) \<noteq> 0" "mem k" | (full) "count (rnode r) \<noteq> 0" "\<not> mem k"
      | (empty) "count (rnode r) = 0" by blast
    then show ?thesis
    proof cases
      case grow
      then show ?thesis
        using IH(1) [of e r' k'] "1.prems" True lt ready_raise [OF "1.prems"(1) lt refl]
        by (simp add: radix_tree_grow.simps [of mem k r i])
    next
      case full
      then show ?thesis
        using "1.prems" True lt ready_count [OF "1.prems"(1)]
        by (auto simp: radix_tree_grow.simps [of mem k r i])
    next
      case empty
      then show ?thesis
        using IH(2) [of e r' k'] "1.prems" True lt ready_raise [OF "1.prems"(1) lt refl]
        by (simp add: radix_tree_grow.simps [of mem k r i])
    qed
  qed
qed

lemma alloc_all: "\<forall>k. mem k \<Longrightarrow> fst (radix_tree_alloc mem k n)"
  by (induction n arbitrary: k) simp_all

lemma prepare_step:
  assumes "radix_inv r" "unat i < 64 ^ 10" "radix_tree_prepare mem k r i = (e, r', k')"
  shows "radix_tree_lookup r' = radix_tree_lookup r \<and>
    (e = None \<longrightarrow> radix_ready r' \<and> unat i < 64 ^ height r') \<and>
    (e \<noteq> None \<longrightarrow> radix_inv r' \<and> e = Some ENOMEM) \<and>
    ((\<forall>k. mem k) \<longrightarrow> e = None)"
proof (cases "rnode r = Null \<and> \<not> mem k")
  case True
  then show ?thesis
    using assms by (auto simp: radix_tree_prepare_def)
next
  case False
  obtain r0 k0 where r0: "(r0, k0) = (if rnode r = Null
      then (r\<lparr>rnode := zero_node, height := height r + 1\<rparr>, Suc k) else (r, k))"
    by (cases "rnode r = Null") auto
  have start: "radix_ready r0 \<and> radix_tree_lookup r0 = radix_tree_lookup r"
    using r0 assms(1) inv_ready [of r] inv_Null [of r]
    by (auto simp: radix_ready_def wf_zero_node ready_lookup fun_eq_iff split: if_splits)
  obtain e1 r1 k1 where grow: "radix_tree_grow mem k0 r0 i = (e1, r1, k1)"
    by (metis prod_cases3)
  note g = grow_step [OF start [THEN conjunct1] assms(2) grow]
  obtain b k2 where al: "radix_tree_alloc mem k1 (radix_tree_missing (height r1 - 1) (rnode r1) i) = (b, k2)"
    by fastforce
  have all: "(\<forall>k. mem k) \<longrightarrow> b"
    using alloc_all [of mem k1 "radix_tree_missing (height r1 - 1) (rnode r1) i"] al by auto
  have "radix_tree_prepare mem k r i = (case e1 of Some e \<Rightarrow> (Some e, r1, k1)
      | None \<Rightarrow> if b then (None, r1, k2) else (Some ENOMEM, radix_tree_clean_root_node r1, k2))"
    using False r0 grow al by (auto simp: radix_tree_prepare_def split: option.split)
  then show ?thesis
    using assms(3) g start ready_clean [of r1] all
    by (cases e1; cases b) (auto simp: radix_inv_def radix_ready_def)
qed

lemma radix_walk_Null [simp]: "radix_walk h Null i = Null"
  by (cases h) simp_all

lemma walk_free:
  assumes "wf_node h n" "h \<le> 9"
  shows "radix_walk h n i \<noteq> Null \<and> slots (radix_walk h n i) ! radix_pos i 0 \<noteq> Null \<longleftrightarrow> node_lookup h n i \<noteq> None"
  using assms
proof (induction h arbitrary: n)
  case 0
  then obtain s where n: "n = Node s (int (used s))" "length s = 64"
    using wf_node_Node by blast
  then have "s ! radix_pos i 0 \<in> set s" using radix_pos_less [of 0 i] by simp
  then show ?case using 0 n by fastforce
next
  case (Suc h)
  then obtain s where n: "n = Node s (int (used s))" "length s = 64"
    using wf_node_Node by blast
  then have "s ! radix_pos i (Suc h) \<in> set s" using radix_pos_less [of "Suc h" i] Suc.prems by simp
  then have "s ! radix_pos i (Suc h) = Null \<or> wf_node h (s ! radix_pos i (Suc h))"
    using Suc.prems n by auto
  then show ?case using Suc.IH [of "s ! radix_pos i (Suc h)"] Suc.prems n by auto
qed


lemma ready_walk_free:
  assumes "radix_ready r" "unat i < 64 ^ height r"
  shows "(let node = radix_walk (height r - 1) (rnode r) i
          in node \<noteq> Null \<and> slots node ! radix_pos i 0 \<noteq> Null) \<longleftrightarrow> radix_tree_lookup r i \<noteq> None"
proof -
  have "wf_node (height r - 1) (rnode r)" "height r - 1 \<le> 9"
    using assms(1) by (auto simp: radix_ready_def)
  from walk_free [OF this, of i] show ?thesis
    using assms by (simp add: Let_def ready_lookup)
qed

lemma ready_inv: "radix_ready r \<Longrightarrow> 0 < count (rnode r) \<Longrightarrow> radix_inv r"
  by (auto simp: radix_ready_def radix_inv_def)

lemma lookup_count:
  assumes "radix_ready r" "radix_tree_lookup r i \<noteq> None"
  shows "0 < count (rnode r)"
proof (rule ccontr)
  assume "\<not> 0 < count (rnode r)"
  then have "rnode r = zero_node"
    using assms(1) empty_node ready_count [OF assms(1)] by (force simp: radix_ready_def)
  then show False
    using assms by (auto simp: ready_lookup radix_ready_def split: if_splits)
qed

lemma insert_spec:
  assumes "radix_inv r" "unat i < 64 ^ 10" "radix_tree_insert mem k r i item = (e, r', k')"
  shows "radix_inv r' \<and>
    (case e of
       None \<Rightarrow> radix_tree_lookup r i = None \<and> radix_tree_lookup r' = (radix_tree_lookup r)(i := item) \<and> item \<noteq> None
     | Some err \<Rightarrow> radix_tree_lookup r' = radix_tree_lookup r \<and>
         (item = None \<and> err = EINVAL \<or> item \<noteq> None \<and> err = ENOMEM \<and> \<not> (\<forall>k. mem k) \<or>
          item \<noteq> None \<and> err = EEXIST \<and> radix_tree_lookup r i \<noteq> None))"
proof (cases item)
  case None
  then show ?thesis using assms by (auto simp: radix_tree_insert_def)
next
  case (Some x)
  obtain e1 r1 k1 where prep: "radix_tree_prepare mem k r i = (e1, r1, k1)"
    by (metis prod_cases3)
  note p = prepare_step [OF assms(1,2) prep]
  show ?thesis
  proof (cases e1)
    case None
    then have ready: "radix_ready r1" "unat i < 64 ^ height r1" "radix_tree_lookup r1 = radix_tree_lookup r"
      using p by auto
    show ?thesis
    proof (cases "radix_tree_lookup r i")
      case None
      then show ?thesis
        using assms(3) Some prep \<open>e1 = None\<close> ready ready_walk_free [OF ready(1,2)] ready_link [OF ready(1,2) refl, of x]
        by (auto simp: radix_tree_insert_def Let_def)
    next
      case (Some y)
      then show ?thesis
        using assms(3) \<open>item = Some x\<close> prep \<open>e1 = None\<close> ready ready_walk_free [OF ready(1,2)]
          ready_inv [OF ready(1)] lookup_count [OF ready(1), of i]
        by (auto simp: radix_tree_insert_def Let_def)
    qed
  next
    case (Some err)
    then show ?thesis
      using assms(3) \<open>item = Some x\<close> prep p by (auto simp: radix_tree_insert_def)
  qed
qed

lemma delete_spec:
  assumes "radix_inv r"
  shows "radix_inv (snd (radix_tree_delete r i)) \<and>
    fst (radix_tree_delete r i) = radix_tree_lookup r i \<and>
    radix_tree_lookup (snd (radix_tree_delete r i)) = (radix_tree_lookup r)(i := None)"
proof (cases "rnode r = Null")
  case True
  then show ?thesis
    using inv_Null [OF assms True] assms
    by (auto simp: radix_tree_delete_def)
next
  case False
  then have ready: "radix_ready r" "0 < count (rnode r)" using inv_ready [OF assms] by auto
  then have h: "height r \<le> 10" "0 < height r" "wf_node (height r - 1) (rnode r)" "height r - 1 \<le> 9"
    by (auto simp: radix_ready_def)
  show ?thesis
  proof (cases "unat i < 64 ^ height r")
    case False
    then show ?thesis using assms ready h 
      by (auto simp: radix_tree_delete_def radix_max_less ready_lookup fun_eq_iff)
  next
    case True
    obtain it n' where del: "radix_tree_del_node (height r - 1) (rnode r) i = (it, n')" by fastforce
    note wd = wf_del [OF h(3,4) del]
    have ld: "it = radix_tree_lookup r i"
      "node_lookup (height r - 1) n' j =
        (if \<forall>l \<le> height r - 1. radix_pos i l = radix_pos j l then None
         else node_lookup (height r - 1) (rnode r) j)" for j
      using lookup_del [OF h(3,4), of i j] del True ready by (auto simp: ready_lookup)
    define r' where "r' = snd (radix_tree_delete r i)"
    have r': "r' = (if it = None then r else if n' = Null then r\<lparr>rnode := Null, height := 0\<rparr> else r\<lparr>rnode := n'\<rparr>)"
      "fst (radix_tree_delete r i) = it"
      using del h True by (auto simp: r'_def radix_tree_delete_def radix_max_less split: option.split)
    have inv: "radix_inv r'"
      using r' wd assms ready h by (auto simp: radix_inv_def)
    moreover have "radix_tree_lookup r' j = ((radix_tree_lookup r)(i := None)) j" for j
    proof (cases "unat j < 64 ^ height r")
      case True
      then have look: "node_lookup (height r - 1) n' j = (if i = j then None else radix_tree_lookup r j)"
        using ld(2) [of j] path_eq [OF h(2,1) \<open>unat i < _\<close> True] ready by (simp add: ready_lookup)
      show ?thesis
      proof (cases "it = None \<or> n' = Null")
        case True
        then show ?thesis
          using r'(1) ld(1) inv_Null [OF inv] look by (auto split: if_splits)
      next
        case False
        then have "radix_ready r'" "height r' = height r" "rnode r' = n'"
          using r'(1) inv_ready [OF inv] by auto
        then show ?thesis
          using look \<open>unat j < _\<close> by (simp add: ready_lookup)
      qed
    next
      case False
      then show ?thesis
        using r'(1) inv_ready [OF inv] inv_Null [OF inv] ready
        by (cases "rnode r' = Null") (auto simp: ready_lookup)
    qed
    ultimately show ?thesis using r'(2) ld by (auto simp: r'_def)
  qed
qed

lemma and_neg_step: "(x :: u64) AND - push_bit n 1 = push_bit n (drop_bit n x)"
proof -
  have "- push_bit n 1 = (NOT (mask n) :: u64)"
    by (simp add: minus_exp_eq_not_mask)
  then show ?thesis
    by (simp only:) (rule bit_word_eqI, auto simp: bit_simps)
qed

lemma power_64_two: "(64 :: nat) ^ h = 2 ^ (6 * h)"
  by (simp add: power_mult)

lemma iter_advance:
  assumes "h \<le> 9" "unat i < 64 ^ 10"
  shows "unat ((i + push_bit (6 * h) 1) AND - push_bit (6 * h) 1 :: u64) = (unat i div 64 ^ h + 1) * 64 ^ h"
proof -
  have step: "unat (push_bit (6 * h) 1 :: u64) = 64 ^ h"
    using assms(1) power_64_le [of h]
    by (simp only: unsigned_push_bit_eq) (simp add: push_bit_eq_mult power_mult take_bit_nat_eq_self)
  have h64: "(64 :: nat) ^ h \<le> 64 ^ 10" using assms by (intro power_64_le) simp
  have sum: "unat (i + push_bit (6 * h) 1) = unat i + 64 ^ h"
    using assms h64 step by (subst unat_add_lem [THEN iffD1]) auto
  have d: "(unat i + 64 ^ h) div 64 ^ h = unat i div 64 ^ h + 1"
    using div_add_self2 [of "64 ^ h" "unat i"] by simp
  have "unat (push_bit (6 * h) (drop_bit (6 * h) (i + push_bit (6 * h) 1)))
      = take_bit 64 (push_bit (6 * h) (unat i div 64 ^ h + 1))"
    by (simp only: unsigned_push_bit_eq unat_drop_bit_div sum d flip: power_64_two) simp
  also have "\<dots> = take_bit 64 ((unat i div 64 ^ h + 1) * 64 ^ h)"
    by (simp only: push_bit_eq_mult flip: power_64_two)
  also have "\<dots> = (unat i div 64 ^ h + 1) * 64 ^ h"
  proof (rule take_bit_nat_eq_self)
    have "unat i div 64 ^ h * 64 ^ h \<le> unat i" by simp
    then have "(unat i div 64 ^ h + 1) * 64 ^ h \<le> 64 ^ 10 + 64 ^ 10"
      using assms(2) h64 unfolding add_mult_distrib by linarith
    then show "(unat i div 64 ^ h + 1) * 64 ^ h < 2 ^ 64" by simp
  qed
  finally show ?thesis by (simp only: and_neg_step)
qed

lemma div_64_same: "(x + 1) mod 64 \<noteq> 0 \<Longrightarrow> (x + 1) div 64 = x div (64 :: nat)"
  by (simp add: div_Suc)

lemma iter_mask:
  assumes "h \<le> 9"
  shows "i AND push_bit (6 * h) RADIX_TREE_MAP_MASK = 0 \<longleftrightarrow> unat i div 64 ^ h mod 64 = 0"
proof -
  have m: "RADIX_TREE_MAP_MASK = mask 6" by (simp add: mask_eq_exp_minus_1)
  have "i AND push_bit (6 * h) (mask 6) = push_bit (6 * h) (drop_bit (6 * h) i AND mask 6)"
    by (rule bit_word_eqI) (auto simp: bit_simps)
  moreover have "push_bit (6 * h) (drop_bit (6 * h) i AND mask 6) = 0 \<longleftrightarrow> drop_bit (6 * h) i AND mask 6 = 0"
  proof
    assume z: "push_bit (6 * h) (drop_bit (6 * h) i AND mask 6) = 0"
    show "drop_bit (6 * h) i AND mask 6 = 0"
    proof (rule bit_word_eqI)
      fix n assume "n < LENGTH(64)"
      have "\<not> bit (push_bit (6 * h) (drop_bit (6 * h) i AND mask 6)) (n + 6 * h)" by (simp only: z bit_0_eq) simp
      then show "bit (drop_bit (6 * h) i AND mask 6) n = bit (0::u64) n"
        using assms by (auto simp: bit_simps dest: bit_imp_le_length)
    qed
  qed simp
  moreover have "drop_bit (6 * h) i AND mask 6 = 0 \<longleftrightarrow> unat (drop_bit (6 * h) i AND mask 6) = 0"
    by (simp add: unat_eq_0)
  moreover have "unat (drop_bit (6 * h) i AND mask 6) = unat i div 64 ^ h mod 64"
    by (simp only: unat_and_mask unat_drop_bit_div) (simp add: power_mult)
  ultimately show ?thesis by (simp only: m)
qed

lemma first_from_skip:
  assumes "first_from m i' res" "i \<le> i'" "\<And>j. i \<le> j \<Longrightarrow> j < i' \<Longrightarrow> m j = None"
  shows "first_from m i res"
  using assms unfolding first_from_def
  by (cases res) (force simp: not_le)+

lemma on_path_root:
  assumes "radix_ready r" "unat i < 64 ^ height r"
  shows "on_path r (rnode r) (height r - 1) i"
proof -
  obtain h where h: "height r = Suc h" using assms by (cases "height r") (auto simp: radix_ready_def)
  have "unat j < 64 ^ Suc h" if "unat j div 64 ^ Suc h = unat i div 64 ^ Suc h" for j :: u64
  proof -
    have "unat j div 64 ^ Suc h = 0" using that assms(2) h by (simp only: div_less)
    then show ?thesis by (simp only: div_eq_0_iff) simp
  qed
  then have "radix_tree_lookup r j = node_lookup h (rnode r) j"
    if "unat j div 64 ^ Suc h = unat i div 64 ^ Suc h" for j
    using that assms(1) h by (simp only: ready_lookup if_True diff_Suc_1)
  moreover have "unat i < 64 ^ 10"
  proof -
    have "(64 :: nat) ^ height r \<le> 64 ^ 10" using assms by (intro power_64_le) (simp add: radix_ready_def)
    then show ?thesis using assms(2) by (rule less_le_trans [rotated])
  qed
  moreover have "wf_node h (rnode r)" "h \<le> 9"
    using assms(1) h by (simp_all add: radix_ready_def)
  ultimately show ?thesis
    unfolding on_path_def h diff_Suc_1 by blast
qed

lemma on_path_slot:
  assumes "on_path r n h i" "unat j div 64 ^ h = unat i div 64 ^ h"
  shows "radix_tree_lookup r j = (case h of 0 \<Rightarrow> slot_item (slots n ! radix_pos i h)
    | Suc h' \<Rightarrow> node_lookup h' (slots n ! radix_pos i h) j)"
proof -
  have "unat j div 64 ^ Suc h = unat i div 64 ^ Suc h"
    by (simp only: power_Suc2 div_mult2_eq assms(2))
  moreover have "radix_pos j h = radix_pos i h"
    using assms by (simp add: radix_pos_nat on_path_def)
  moreover have "n \<noteq> Null" using assms wf_node_Node [of h n] by (auto simp: on_path_def)
  ultimately show ?thesis using assms by (cases h) (auto simp: on_path_def)
qed


lemma on_path_Null:
  assumes "on_path r n h i" "slots n ! radix_pos i h = Null" "unat j div 64 ^ h = unat i div 64 ^ h"
  shows "radix_tree_lookup r j = None"
  using on_path_slot [OF assms(1,3)] assms(2) by (cases h) simp_all

lemma on_path_child:
  assumes "on_path r n (Suc h) i" "slots n ! radix_pos i (Suc h) \<noteq> Null"
  shows "on_path r (slots n ! radix_pos i (Suc h)) h i"
proof -
  obtain s where n: "n = Node s (int (used s))" "length s = 64"
    using assms wf_node_Node unfolding on_path_def by blast
  then have "s ! radix_pos i (Suc h) \<in> set s"
    using radix_pos_less [of "Suc h" i] assms by (simp add: on_path_def)
  then have "wf_node h (s ! radix_pos i (Suc h))"
    using assms n by (auto simp: on_path_def)
  then show ?thesis
    using assms n on_path_slot [OF assms(1)] by (auto simp: on_path_def)
qed

lemma on_path_leaf:
  assumes "on_path r n 0 i" "slots n ! radix_pos i 0 \<noteq> Null"
  shows "first_from (radix_tree_lookup r) i (Some (i, slots n ! radix_pos i 0))"
proof -
  obtain s where n: "n = Node s (int (used s))" "length s = 64"
    using assms wf_node_Node unfolding on_path_def by blast
  then have "s ! radix_pos i 0 \<in> set s"
    using radix_pos_less [of 0 i] by simp
  then have "slot_item (s ! radix_pos i 0) \<noteq> None"
    using assms n by (auto simp: on_path_def)
  moreover have "radix_tree_lookup r i = slot_item (s ! radix_pos i 0)"
    using on_path_slot [OF assms(1)] n by simp
  ultimately show ?thesis
    using n by (cases "s ! radix_pos i 0") (auto simp: first_from_def)
qed

text \<open>An empty slot: the search goes on behind the block of indices that it covers.\<close>

lemma on_path_advance:
  assumes "on_path r n h i" "slots n ! radix_pos i h = Null"
    and i': "unat i' = (unat i div 64 ^ h + 1) * 64 ^ h"
  shows "i < i' \<and> (first_from (radix_tree_lookup r) i' res \<longrightarrow> first_from (radix_tree_lookup r) i res) \<and>
    (unat i' div 64 ^ h mod 64 \<noteq> 0 \<longrightarrow> on_path r n h i')"
proof -
  have d: "unat i' div 64 ^ h = unat i div 64 ^ h + 1"
    unfolding i' by simp
  have "unat i < unat i'"
    unfolding i' by (simp add: dividend_less_div_times)
  then have lt: "i < i'" by (simp add: word_less_nat_alt)
  have none: "radix_tree_lookup r j = None" if "i \<le> j" "j < i'" for j
  proof (rule on_path_Null [OF assms(1,2)])
    have "unat j < (unat i div 64 ^ h + 1) * 64 ^ h"
      using that(2) i' by (simp add: word_less_nat_alt)
    then have "unat j div 64 ^ h < unat i div 64 ^ h + 1"
      by (simp only: less_mult_imp_div_less)
    moreover have "unat i div 64 ^ h \<le> unat j div 64 ^ h"
      using that(1) by (simp add: word_le_nat_alt div_le_mono)
    ultimately show "unat j div 64 ^ h = unat i div 64 ^ h" by simp
  qed
  have "on_path r n h i'" if nz: "unat i' div 64 ^ h mod 64 \<noteq> 0"
  proof -
    have "(unat i div 64 ^ h + 1) div 64 = unat i div 64 ^ h div 64"
      using nz unfolding d by (rule div_64_same)
    then have eq: "unat i' div 64 ^ Suc h = unat i div 64 ^ Suc h"
      by (simp only: power_Suc2 div_mult2_eq d)
    have "unat i' div 64 ^ Suc h < 64 ^ (9 - h)"
    proof -
      have "(64 :: nat) ^ 10 = 64 ^ (9 - h) * 64 ^ Suc h"
        using assms(1) by (simp only: power_add [symmetric]) (simp add: on_path_def)
      then show ?thesis
        using assms(1) unfolding eq on_path_def by (metis less_mult_imp_div_less)
    qed
    then have "unat i' < 64 ^ (9 - h) * 64 ^ Suc h"
      by (simp only: div_less_iff_less_mult zero_less_power zero_less_numeral)
    also have "\<dots> = 64 ^ 10"
      using assms(1) by (simp only: power_add [symmetric]) (simp add: on_path_def)
    finally show ?thesis
      using assms(1) eq by (simp only: on_path_def) simp
  qed
  then show ?thesis
    using lt none first_from_skip [of "radix_tree_lookup r" i' res i] by (auto simp: order_less_imp_le)
qed

lemma iter_measure_index: "i < i' \<Longrightarrow> (case at of None \<Rightarrow> True | Some (n, h) \<Rightarrow> h \<le> 9) \<Longrightarrow>
    iter_measure at i' < iter_measure at' i"
proof -
  assume a: "i < i'" "case at of None \<Rightarrow> True | Some (n, h) \<Rightarrow> h \<le> 9"
  have "unat i < unat i'" "unat i' < 2 ^ 64"
    using a unat_u64_less [of i'] by (simp_all add: word_less_nat_alt)
  then have "(2 ^ 64 - unat i') + 1 \<le> 2 ^ 64 - unat i" by linarith
  then have "(2 ^ 64 - unat i') * 20 + 20 \<le> (2 ^ 64 - unat i) * 20" by linarith
  moreover have "(case at of None \<Rightarrow> 15 | Some (n, h) \<Rightarrow> h) < (20 :: nat)"
    using a(2) by (auto split: option.splits)
  ultimately show ?thesis unfolding iter_measure_def by linarith
qed

lemma iter_loop_total:
  assumes "radix_inv r" "case at of None \<Rightarrow> True | Some (n, h) \<Rightarrow> on_path r n h i"
  shows "\<exists>res. radix_tree_iter_loop r at i = Some res \<and> first_from (radix_tree_lookup r) i res"
  using assms(2)
proof (induction "iter_measure at i" arbitrary: at i rule: less_induct)
  case less
  show ?case
  proof (cases at)
    case None
    show ?thesis
    proof (cases "rnode r = Null \<or> radix_max r < i")
      case True
      moreover have "height r \<le> 10" using assms(1) by (auto simp: radix_inv_def split: if_splits)
      ultimately have "radix_tree_lookup r j = None" if "i \<le> j" for j
        using that inv_Null [OF assms(1)] by (auto simp: lookup_node)
      then show ?thesis
        using None True by (subst radix_tree_iter_loop.simps) (auto simp: first_from_def)
    next
      case False
      then have ready: "radix_ready r" "unat i < 64 ^ height r"
        using inv_ready [OF assms(1)] radix_max_less [of r i] by (auto simp: radix_ready_def)
      have "iter_measure (Some (rnode r, height r - 1)) i < iter_measure at i"
        using None ready(1) by (auto simp: iter_measure_def radix_ready_def)
      from less.hyps [OF this] show ?thesis
        using on_path_root [OF ready] False None ready(1)
        by (subst radix_tree_iter_loop.simps) (auto simp: radix_ready_def)
    qed
  next
    case (Some nh)
    obtain n h where nh: "nh = (n, h)" by (cases nh)
    then have path: "on_path r n h i" using less.prems Some by simp
    then have h: "h \<le> 9" "unat i < 64 ^ 10" unfolding on_path_def by blast+
    show ?thesis
    proof (cases "slots n ! radix_pos i h = Null")
      case True
      define i' where "i' = (i + push_bit (6 * h) 1) AND - push_bit (6 * h) 1"
      have i': "unat i' = (unat i div 64 ^ h + 1) * 64 ^ h"
        unfolding i'_def by (rule iter_advance [OF h])
      define at' where "at' = (if i' AND push_bit (6 * h) RADIX_TREE_MAP_MASK = 0 then None else Some (n, h))"
      note adv = on_path_advance [OF path True i']
      have "case at' of None \<Rightarrow> True | Some (n, h) \<Rightarrow> on_path r n h i'"
        using adv iter_mask [OF h(1), of i'] by (auto simp: at'_def)
      moreover have "iter_measure at' i' < iter_measure at i"
        using adv h by (intro iter_measure_index) (auto simp: at'_def)
      ultimately obtain res where "radix_tree_iter_loop r at' i' = Some res"
          "first_from (radix_tree_lookup r) i' res"
        using less.hyps by blast
      moreover have "radix_tree_iter_loop r at i = radix_tree_iter_loop r at' i'"
        using Some nh True by (subst radix_tree_iter_loop.simps) (simp add: Let_def at'_def i'_def)
      ultimately show ?thesis using adv by auto
    next
      case False
      show ?thesis
      proof (cases h)
        case 0
        then show ?thesis
          using Some nh False path on_path_leaf [of r n i]
          by (subst radix_tree_iter_loop.simps) (auto simp: Let_def)
      next
        case (Suc h')
        have "iter_measure (Some (slots n ! radix_pos i h, h')) i < iter_measure at i"
          using Suc Some nh by (simp add: iter_measure_def)
        from less.hyps [OF this] show ?thesis
          using Some nh False Suc path on_path_child [of r n h' i]
          by (subst radix_tree_iter_loop.simps) (auto simp: Let_def)
      qed
    qed
  qed
qed

declare radix_tree_iter_loop.simps [code]

lemma store_spec:
  assumes "radix_inv r" "unat i < 64 ^ 10" "radix_tree_store mem k r i item = (e, old, r', k')"
  shows "radix_inv r' \<and>
    (case e of
       None \<Rightarrow> old = radix_tree_lookup r i \<and> radix_tree_lookup r' = (radix_tree_lookup r)(i := item)
     | Some err \<Rightarrow> err = ENOMEM \<and> \<not> (\<forall>k. mem k) \<and> item \<noteq> None \<and> old = item \<and>
         radix_tree_lookup r' = radix_tree_lookup r)"
proof (cases item)
  case None
  then show ?thesis
    using assms delete_spec [OF assms(1), of i] by (auto simp: radix_tree_store_def split: prod.splits)
next
  case (Some x)
  obtain e1 r1 k1 where prep: "radix_tree_prepare mem k r i = (e1, r1, k1)"
    by (metis prod_cases3)
  note p = prepare_step [OF assms(1,2) prep]
  show ?thesis
  proof (cases e1)
    case None
    then have ready: "radix_ready r1" "unat i < 64 ^ height r1" "radix_tree_lookup r1 = radix_tree_lookup r"
      using p by auto
    then have "radix_tree_lookup r i = (let node = radix_walk (height r1 - 1) (rnode r1) i
        in if node = Null then None else slot_item (slots node ! radix_pos i 0))"
      unfolding walk_lookup using ready_lookup [OF ready(1), of i] by simp
    then show ?thesis
      using assms(3) Some prep None ready ready_link [OF ready(1,2) refl, of x]
      by (auto simp: radix_tree_store_def Let_def)
  next
    case (Some err)
    then show ?thesis
      using assms(3) \<open>item = Some x\<close> prep p by (auto simp: radix_tree_store_def)
  qed
qed

lemma radix_max_11: "height r = 11 \<Longrightarrow> radix_max r = 3"
  by (simp add: radix_max_def)

lemma grow_too_big:
  assumes "64 ^ 10 \<le> unat i" "height r \<le> 11" "mem = (\<lambda>k. True)"
  shows "\<exists>r' k'. radix_tree_grow mem k r i = (Some E2BIG, radix_tree_clean_root_node r', k') \<and>
    height r' = 11 \<and> (count (rnode r') = 0 \<longleftrightarrow> count (rnode r) = 0)"
  using assms
proof (induction mem k r i rule: radix_tree_grow.induct)
  case (1 mem k r i)
  have big: "radix_max r < i"
  proof (cases "height r = 11")
    case True
    then show ?thesis using "1.prems"(1) by (simp add: radix_max_11 word_less_nat_alt)
  next
    case False
    then have "height r \<le> 10" using "1.prems" by simp
    then show ?thesis
      using "1.prems"(1) power_64_le [of "height r"] by (simp add: radix_max_less)
  qed
  show ?case
  proof (cases "height r = 11")
    case True
    then show ?thesis using big by (auto simp: radix_tree_grow.simps [of mem k r i])
  next
    case False
    then have lt: "\<not> RADIX_TREE_MAX_HEIGHT \<le> height r" "height r + 1 \<le> 11" and ok: "\<not> \<not> mem k"
      using "1.prems" by simp_all
    show ?thesis
    proof (cases "count (rnode r) = 0")
      case True
      obtain r' k' where "radix_tree_grow mem k (r\<lparr>height := height r + 1\<rparr>) i =
          (Some E2BIG, radix_tree_clean_root_node r', k')" "height r' = 11" "count (rnode r') = 0"
        using "1.IH"(2) [OF big lt(1)] True "1.prems"(1,3) lt by auto
      then show ?thesis
        using True lt(1) big by (auto simp: radix_tree_grow.simps [of mem k r i] simp del: radix_consts)
    next
      case c: False
      obtain r' k' where "radix_tree_grow mem (Suc k)
          (r\<lparr>rnode := Node ((slots zero_node)[0 := rnode r]) 1, height := height r + 1\<rparr>) i =
          (Some E2BIG, radix_tree_clean_root_node r', k')" "height r' = 11" "count (rnode r') \<noteq> 0"
        using "1.IH"(1) [OF big lt(1) c ok] "1.prems"(1,3) lt by auto
      then show ?thesis
        using c ok lt(1) big by (auto simp: radix_tree_grow.simps [of mem k r i] simp del: radix_consts)
    qed
  qed
qed

lemma insert_too_big:
  assumes "radix_inv r" "64 ^ 10 \<le> unat i" "\<forall>k. mem k"
  obtains r' k' where "radix_tree_insert mem k r i (Some x) = (Some E2BIG, r', k')"
    "rnode r \<noteq> Null \<Longrightarrow> height r' = 11" "rnode r = Null \<Longrightarrow> rnode r' = Null \<and> height r' = 0"
proof -
  obtain r0 k0 where r0: "(r0, k0) = (if rnode r = Null
      then (r\<lparr>rnode := zero_node, height := height r + 1\<rparr>, Suc k) else (r, k))"
    by (cases "rnode r = Null") auto
  moreover have all: "mem = (\<lambda>k. True)" using assms(3) by auto
  moreover have "height r0 \<le> 11"
    using r0 assms(1) by (auto simp: radix_inv_def split: if_splits)
  then obtain r1 k1 where g: "radix_tree_grow mem k0 r0 i = (Some E2BIG, radix_tree_clean_root_node r1, k1)"
    "height r1 = 11" "count (rnode r1) = 0 \<longleftrightarrow> count (rnode r0) = 0"
    using grow_too_big [OF assms(2) _ all, of r0 k0] by blast
  ultimately have "radix_tree_insert mem k r i (Some x) = (Some E2BIG, radix_tree_clean_root_node r1, k1)"
    using assms(3) by (auto simp: radix_tree_insert_def radix_tree_prepare_def)
  then show thesis
    using that r0 g inv_ready [OF assms(1)]
    by (auto simp: radix_tree_clean_root_node_def zero_node_def split: if_splits)
qed

section \<open>The radix tree meets the contract\<close>

lemma lookup_capacity:
  assumes "radix_inv r" "radix_tree_lookup r i \<noteq> None"
  shows "unat i < 64 ^ 10"
proof -
  have "height r \<le> 10" using assms(1) by (auto simp: radix_inv_def split: if_splits)
  then have "unat i < 64 ^ height r"
    using assms(2) by (auto simp: lookup_node radix_max_less split: if_splits)
  also have "\<dots> \<le> 64 ^ 10" using power_64_le [OF \<open>height r \<le> 10\<close>] .
  finally show ?thesis .
qed

interpretation radix: index_map "\<lambda>i. unat i < 64 ^ 10" radix_inv radix_tree_lookup radix_tree_insert
  radix_tree_store radix_tree_delete radix_tree_iter_find
proof (unfold_locales, goal_cases)
  case (1 r i mem k x e r' k')
  then show ?case using insert_spec by blast
next
  case (2 r i mem k x r' k')
  from insert_spec [OF this] show ?case by simp
next
  case (3 r i mem k x err r' k')
  from insert_spec [OF this] show ?case by auto
next
  case (4 r i mem k x e old r' k')
  then show ?case using store_spec by blast
next
  case (5 r i mem k x old r' k')
  from store_spec [OF this] show ?case by simp
next
  case (6 r i mem k x err old r' k')
  from store_spec [OF this] show ?case by auto
next
  case (7 r i)
  then show ?case by (rule lookup_capacity)
qed (simp_all add: delete_spec radix_tree_iter_find_def iter_loop_total)

section \<open>Properties\<close>


text \<open>C4: \<open>radix_tree_delete\<close> keeps the invariant, returns the item of the index and removes
  that index and no other from the map.\<close>

theorem radix_tree_delete_refines:
  assumes "radix_inv r"
  shows "radix_inv (snd (radix_tree_delete r i)) \<and>
    fst (radix_tree_delete r i) = radix_tree_lookup r i \<and>
    radix_tree_lookup (snd (radix_tree_delete r i)) = (radix_tree_lookup r)(i := None)"
  using assms by (simp add: radix.delete_inv radix.delete_item radix.delete_lookup)

text \<open>\<open>radix_tree_store\<close> exchanges the item of an index, null standing for no item: the
  old item is handed out, the map has the new one and the invariant is kept; it fails only
  when \<open>malloc\<close> did, and then changes no lookup.\<close>

theorem radix_tree_store_refines:
  assumes "radix_inv r" "unat i < 64 ^ 10" "radix_tree_store mem k r i item = (e, old, r', k')"
  shows "radix_inv r' \<and>
    (case e of
       None \<Rightarrow> old = radix_tree_lookup r i \<and> radix_tree_lookup r' = (radix_tree_lookup r)(i := item)
     | Some err \<Rightarrow> err = ENOMEM \<and> \<not> (\<forall>k. mem k) \<and> item \<noteq> None \<and> old = item \<and>
         radix_tree_lookup r' = radix_tree_lookup r)"
proof (cases e)
  case None
  then show ?thesis
    using radix.store_inv [OF assms] radix.store_ok [OF assms(1,2)] assms(3) by simp
next
  case (Some err)
  then show ?thesis
    using radix.store_inv [OF assms] radix.store_err [OF assms(1,2)] assms(3) by simp
qed

text \<open>C15: \<open>radix_tree_iter_find\<close> always returns, in spite of its restarts, and gives the
  first index in use at or after the one it is given with the item stored there, or false
  when there is none.\<close>

theorem radix_tree_iter_find_first:
  assumes "radix_inv r"
  shows "\<exists>res. radix_tree_iter_find r i = Some res \<and>
    (case res of
       None \<Rightarrow> \<forall>j \<ge> i. radix_tree_lookup r j = None
     | Some (j, x) \<Rightarrow> i \<le> j \<and> (\<exists>y. radix_tree_lookup r j = Some y \<and> x = Item y) \<and>
         (\<forall>l. i \<le> l \<longrightarrow> l < j \<longrightarrow> radix_tree_lookup r l = None))"
  using radix.find_first [OF assms, of i]
  by (fastforce simp: first_from_def split: option.splits)

text \<open>An index of \<open>2\<^sup>6\<^sup>0\<close> or more cannot be inserted although the tree has eleven levels
  for it, and the attempt on a tree in use leaves it at height 11, where \<open>radix_max\<close> shifts
  by 66 places: every index above 3 is then reported as absent.\<close>

theorem radix_tree_insert_too_big:
  assumes "radix_inv r" "64 ^ 10 \<le> unat i" "\<forall>k. mem k" "rnode r \<noteq> Null"
    and "radix_tree_insert mem k r i (Some x) = (e, r', k')"
  shows "e = Some E2BIG \<and> (\<forall>j > 3. radix_tree_lookup r' j = None)"
  using insert_too_big [OF assms(1-3), of k x] assms(4,5)
  by (metis Pair_inject lookup_node radix_max_11)

text \<open>A tree of two levels with the item of index 70.\<close>

lemma sample_insert:
  "radix_tree_insert (\<lambda>k. True) 0 (RADIX_TREE_INIT 0) 70 (Some ''x'') =
   (None, \<lparr>rnode = Node ((replicate 64 Null)[1 := Node ((replicate 64 Null)[6 := Item ''x'']) 1]) 1,
           gfp_mask = 0, height = 2\<rparr>, 2)"
  by code_simp


theorem radix_tree_delete_refines_witness:
  "fst (radix_tree_delete (fst (snd (radix_tree_insert (\<lambda>k. True) 0 (RADIX_TREE_INIT 0) 70 (Some ''x'')))) 70)
   = Some ''x''"
proof -
  have "radix_inv (fst (snd (radix_tree_insert (\<lambda>k. True) 0 (RADIX_TREE_INIT 0) 70 (Some ''x''))))"
    by code_simp
  from radix_tree_delete_refines [OF this, of 70] show ?thesis
    by (simp add: sample_insert radix_tree_lookup_def radix_max_def radix_pos_nat)
qed

theorem radix_tree_store_refines_witness:
  "radix_inv (fst (snd (snd (radix_tree_store (\<lambda>k. False) 0 (RADIX_TREE_INIT 0) 70 (Some ''x'')))))"
proof -
  have "radix_inv (RADIX_TREE_INIT 0 :: string radix_tree_root)" by code_simp
  moreover have "radix_tree_store (\<lambda>k. False) 0 (RADIX_TREE_INIT 0) 70 (Some ''x'') =
      (Some ENOMEM, Some ''x'', RADIX_TREE_INIT 0, 1)"
    by code_simp
  ultimately show ?thesis
    using radix_tree_store_refines [of "RADIX_TREE_INIT 0" 70 "\<lambda>k. False" 0 "Some ''x''"] by simp
qed

theorem radix_tree_iter_find_first_witness:
  "radix_tree_iter_find (fst (snd (radix_tree_insert (\<lambda>k. True) 0 (RADIX_TREE_INIT 0) 70 (Some ''x'')))) 3
   = Some (Some (70, Item ''x'')) \<and>
   radix_tree_lookup (fst (snd (radix_tree_insert (\<lambda>k. True) 0 (RADIX_TREE_INIT 0) 70 (Some ''x'')))) 5 = None"
proof -
  have "radix_inv (fst (snd (radix_tree_insert (\<lambda>k. True) 0 (RADIX_TREE_INIT 0) 70 (Some ''x''))))"
    by code_simp
  moreover have "radix_tree_iter_find
      (fst (snd (radix_tree_insert (\<lambda>k. True) 0 (RADIX_TREE_INIT 0) 70 (Some ''x'')))) 3
      = Some (Some (70, Item ''x''))"
    by code_simp
  ultimately show ?thesis
    using radix_tree_iter_find_first
      [of "fst (snd (radix_tree_insert (\<lambda>k. True) 0 (RADIX_TREE_INIT 0) 70 (Some ''x'')))" 3]
    by auto
qed

theorem radix_tree_insert_too_big_witness:
  "radix_tree_lookup (fst (snd (radix_tree_insert (\<lambda>k. True) 2
     (fst (snd (radix_tree_insert (\<lambda>k. True) 0 (RADIX_TREE_INIT 0) 70 (Some ''x'')))) (2 ^ 60) (Some ''y'')))) 70
   = None"
proof -
  let ?r = "fst (snd (radix_tree_insert (\<lambda>k. True) 0 (RADIX_TREE_INIT 0) 70 (Some ''x'')))"
  obtain e r' k' where ins: "radix_tree_insert (\<lambda>k. True) 2 ?r (2 ^ 60) (Some ''y'') = (e, r', k')"
    by (metis prod_cases3)
  have "radix_inv ?r" by code_simp
  moreover have "rnode ?r \<noteq> Null" by (simp add: sample_insert)
  ultimately have "radix_tree_lookup r' 70 = None"
    using radix_tree_insert_too_big [OF _ _ _ _ ins] by simp
  then show ?thesis by (simp only: ins fst_conv snd_conv)
qed

end
