(* ===== verification/Xarray.thy ===== *)
theory Xarray
  imports Radix_Spec
begin

text \<open>
  The extensible arrays of \<open>kernel/linux_xarray.c\<close>, built on the radix tree.  An operation
  whose name starts with two underscores in the code has the suffix \<open>_nolock\<close> here; its
  twin runs it between \<open>xa_lock\<close> and \<open>xa_unlock\<close>, the global lock of the emulation, so
  that it is one atomic step on the array.  Indices are 32-bit numbers; a null pointer is
  \<open>None\<close>.  The proofs use the radix tree through the facts of its contract only.
\<close>

section \<open>Model\<close>

record 'a xarray =
  root :: "'a radix_tree_root"

definition xa_erase_nolock :: "'a xarray \<Rightarrow> u32 \<Rightarrow> 'a option \<times> 'a xarray" where
  "xa_erase_nolock xa index =
     (let (retval, rt) = radix_tree_delete (root xa) (ucast index) in (retval, xa\<lparr>root := rt\<rparr>))"

definition xa_erase :: "'a xarray \<Rightarrow> u32 \<Rightarrow> 'a option \<times> 'a xarray" where
  "xa_erase xa index = xa_erase_nolock xa index"

definition xa_load :: "'a xarray \<Rightarrow> u32 \<Rightarrow> 'a option" where
  "xa_load xa index = radix_tree_lookup (root xa) (ucast index)"

text \<open>The retry loop of \<open>__xa_alloc\<close>; the result has the error, the final \<open>*pindex\<close>, the
  array and the number of \<open>malloc\<close> calls.\<close>

function xa_alloc_retry ::
    "(nat \<Rightarrow> bool) \<Rightarrow> nat \<Rightarrow> 'a xarray \<Rightarrow> u32 \<Rightarrow> 'a option \<Rightarrow> u32 \<Rightarrow>
     errno option \<times> u32 \<times> 'a xarray \<times> nat" where
  "xa_alloc_retry mem k xa pindex ptr msk =
     (case radix_tree_insert mem k (root xa) (ucast pindex) ptr of
        (retval, rt, k) \<Rightarrow>
          let xa = xa\<lparr>root := rt\<rparr>
          in if retval = Some EEXIST then
               if pindex \<noteq> msk then xa_alloc_retry mem k xa (pindex + 1) ptr msk
               else (Some ENOMEM, pindex, xa, k)
             else (retval, pindex, xa, k))"
  by pat_completeness auto
termination
proof (relation "measure (\<lambda>(mem, k, xa, pindex, ptr, msk). unat (msk - pindex))", goal_cases)
  case (2 mem k xa pindex ptr msk)
  then have "msk - pindex \<noteq> 0" by simp
  then have "unat (msk - pindex - 1) < unat (msk - pindex)"
    by (simp add: measure_unat)
  then show ?case by (simp add: diff_diff_eq)
qed simp

definition xa_alloc_nolock ::
    "(nat \<Rightarrow> bool) \<Rightarrow> nat \<Rightarrow> 'a xarray \<Rightarrow> 'a option \<Rightarrow> u32 \<Rightarrow>
     errno option \<times> u32 \<times> 'a xarray \<times> nat" where
  "xa_alloc_nolock mem k xa ptr msk = xa_alloc_retry mem k xa 0 ptr msk"

definition xa_alloc ::
    "(nat \<Rightarrow> bool) \<Rightarrow> nat \<Rightarrow> 'a xarray \<Rightarrow> 'a option \<Rightarrow> u32 \<Rightarrow>
     errno option \<times> u32 \<times> 'a xarray \<times> nat" where
  "xa_alloc mem k xa ptr msk = xa_alloc_nolock mem k xa ptr msk"

text \<open>
  The retry loop of \<open>__xa_alloc_cyclic\<close>.  It need not end when \<open>mask\<close> is not a power of
  two minus one, since \<open>*pnext_index\<close> may then never equal it; not returning is \<open>None\<close>.
\<close>

partial_function (option) xa_alloc_cyclic_retry ::
    "(nat \<Rightarrow> bool) \<Rightarrow> nat \<Rightarrow> 'a xarray \<Rightarrow> u32 \<Rightarrow> 'a option \<Rightarrow> u32 \<Rightarrow> int \<Rightarrow>
     (errno option \<times> u32 \<times> 'a xarray \<times> nat) option" where
  "xa_alloc_cyclic_retry mem k xa pnext_index ptr msk timeout =
     (case radix_tree_insert mem k (root xa) (ucast pnext_index) ptr of
        (retval, rt, k) \<Rightarrow>
          let xa = xa\<lparr>root := rt\<rparr>
          in if retval = Some EEXIST then
               if pnext_index = msk \<and> timeout = 0 then Some (Some ENOMEM, pnext_index, xa, k)
               else xa_alloc_cyclic_retry mem k xa ((pnext_index + 1) AND msk) ptr msk
                      (if pnext_index = msk then timeout - 1 else timeout)
             else Some (retval, pnext_index, xa, k))"

definition xa_alloc_cyclic_nolock ::
    "(nat \<Rightarrow> bool) \<Rightarrow> nat \<Rightarrow> 'a xarray \<Rightarrow> 'a option \<Rightarrow> u32 \<Rightarrow>
     (errno option \<times> u32 \<times> 'a xarray \<times> nat) option" where
  "xa_alloc_cyclic_nolock mem k xa ptr msk = xa_alloc_cyclic_retry mem k xa 0 ptr msk 1"

definition xa_alloc_cyclic ::
    "(nat \<Rightarrow> bool) \<Rightarrow> nat \<Rightarrow> 'a xarray \<Rightarrow> 'a option \<Rightarrow> u32 \<Rightarrow>
     (errno option \<times> u32 \<times> 'a xarray \<times> nat) option" where
  "xa_alloc_cyclic mem k xa ptr msk = xa_alloc_cyclic_nolock mem k xa ptr msk"

definition xa_insert_nolock ::
    "(nat \<Rightarrow> bool) \<Rightarrow> nat \<Rightarrow> 'a xarray \<Rightarrow> u32 \<Rightarrow> 'a option \<Rightarrow>
     errno option \<times> 'a xarray \<times> nat" where
  "xa_insert_nolock mem k xa index ptr =
     (let (retval, rt, k) = radix_tree_insert mem k (root xa) (ucast index) ptr
      in (retval, xa\<lparr>root := rt\<rparr>, k))"

definition xa_insert ::
    "(nat \<Rightarrow> bool) \<Rightarrow> nat \<Rightarrow> 'a xarray \<Rightarrow> u32 \<Rightarrow> 'a option \<Rightarrow>
     errno option \<times> 'a xarray \<times> nat" where
  "xa_insert mem k xa index ptr = xa_insert_nolock mem k xa index ptr"

text \<open>\<open>__xa_store\<close> returns the old pointer or an error pointer, \<open>XA_ERROR(retval)\<close>.\<close>

definition xa_store_nolock ::
    "(nat \<Rightarrow> bool) \<Rightarrow> nat \<Rightarrow> 'a xarray \<Rightarrow> u32 \<Rightarrow> 'a option \<Rightarrow>
     (errno + 'a option) \<times> 'a xarray \<times> nat" where
  "xa_store_nolock mem k xa index ptr =
     (let (retval, ptr, rt, k) = radix_tree_store mem k (root xa) (ucast index) ptr
      in (case retval of None \<Rightarrow> Inr ptr | Some e \<Rightarrow> Inl e, xa\<lparr>root := rt\<rparr>, k))"

definition xa_store ::
    "(nat \<Rightarrow> bool) \<Rightarrow> nat \<Rightarrow> 'a xarray \<Rightarrow> u32 \<Rightarrow> 'a option \<Rightarrow>
     (errno + 'a option) \<times> 'a xarray \<times> nat" where
  "xa_store mem k xa index ptr = xa_store_nolock mem k xa index ptr"

text \<open>\<open>GFP_NOWAIT\<close> is the argument; the flags are ignored.\<close>

definition xa_init_flags :: "u32 \<Rightarrow> u32 \<Rightarrow> 'a xarray" where
  "xa_init_flags gfp_nowait flags = \<lparr>root = \<lparr>rnode = Null, gfp_mask = gfp_nowait, height = 0\<rparr>\<rparr>"

text \<open>The loop \<open>radix_tree_for_each_slot\<close> of \<open>xa_destroy\<close>, from an index on.\<close>

partial_function (option) xa_destroy_loop :: "'a xarray \<Rightarrow> u64 \<Rightarrow> 'a xarray option" where
  "xa_destroy_loop xa index =
     do { found \<leftarrow> radix_tree_iter_find (root xa) index;
          case found of
            None \<Rightarrow> Some xa
          | Some (i, ppslot) \<Rightarrow>
              xa_destroy_loop (xa\<lparr>root := radix_tree_iter_delete (root xa) i\<rparr>) (i + 1) }"

definition xa_destroy :: "'a xarray \<Rightarrow> 'a xarray option" where
  "xa_destroy xa = xa_destroy_loop xa 0"

definition xa_empty_nolock :: "'a xarray \<Rightarrow> bool option" where
  "xa_empty_nolock xa = map_option (\<lambda>found. found = None) (radix_tree_iter_find (root xa) 0)"

definition xa_empty :: "'a xarray \<Rightarrow> bool option" where
  "xa_empty xa = xa_empty_nolock xa"

text \<open>The result has the entry and the new value of \<open>*pindex\<close>.\<close>

definition xa_next_nolock :: "'a xarray \<Rightarrow> u64 \<Rightarrow> bool \<Rightarrow> ('a option \<times> u64) option" where
  "xa_next_nolock xa pindex not_first =
     (let index = (if not_first then pindex + 1 else pindex)
      in if not_first \<and> index = 0 then Some (None, pindex)
         else do { found \<leftarrow> radix_tree_iter_find (root xa) index;
                   case found of
                     None \<Rightarrow> Some (None, pindex)
                   | Some (i, ppslot) \<Rightarrow> Some (slot_item ppslot, i) })"

definition xa_next :: "'a xarray \<Rightarrow> u64 \<Rightarrow> bool \<Rightarrow> ('a option \<times> u64) option" where
  "xa_next xa pindex not_first = xa_next_nolock xa pindex not_first"

section \<open>Specification\<close>

definition xa_inv :: "'a xarray \<Rightarrow> bool" where
  "xa_inv xa \<longleftrightarrow> radix_inv (root xa)"

text \<open>What an allocation promises: the least free index up to the limit, or an error that
  leaves the array as it was.\<close>

definition alloc_result ::
    "(nat \<Rightarrow> bool) \<Rightarrow> (u32 \<Rightarrow> 'a option) \<Rightarrow> 'a option \<Rightarrow> u32 \<Rightarrow> errno option \<times> u32 \<times> 'a xarray \<times> nat \<Rightarrow> bool" where
  "alloc_result mem m ptr msk res \<longleftrightarrow>
     (case res of (e, i, xa', k') \<Rightarrow>
        xa_inv xa' \<and>
        (case e of
           None \<Rightarrow> i \<le> msk \<and> ptr \<noteq> None \<and> m i = None \<and> (\<forall>j < i. m j \<noteq> None) \<and>
             xa_load xa' = m(i := ptr)
         | Some err \<Rightarrow> xa_load xa' = m \<and>
             (err = EINVAL \<and> ptr = None \<or>
              err = ENOMEM \<and> ptr \<noteq> None \<and> (\<not> (\<forall>k. mem k) \<or> (\<forall>j \<le> msk. m j \<noteq> None)))))"

section \<open>Indices\<close>

lemma unat_index: "unat (ucast (i :: u32) :: u64) = unat i"
  using unat_u32_less [of i] by (simp add: unsigned_ucast_eq take_bit_nat_eq_self)

lemma valid_index: "unat (ucast (i :: u32) :: u64) < 64 ^ 10"
  using unat_u32_less [of i] by (simp add: unat_index)

lemma index_inj: "(ucast (i :: u32) :: u64) = ucast j \<longleftrightarrow> i = j"
  by (metis unat_index word_unat_eq_iff)

lemma load_upd: "radix_tree_lookup rt = (radix_tree_lookup (root xa))(ucast i := x) \<Longrightarrow>
    xa_load (xa'\<lparr>root := rt\<rparr>) = (xa_load xa)(i := x)"
  by (auto simp: xa_load_def fun_eq_iff index_inj)

lemma load_same: "radix_tree_lookup rt = radix_tree_lookup (root xa) \<Longrightarrow>
    xa_load (xa'\<lparr>root := rt\<rparr>) = xa_load xa"
  by (auto simp: xa_load_def fun_eq_iff)

section \<open>Single operations\<close>

lemma insert_step:
  assumes "xa_inv xa" "radix_tree_insert mem k (root xa) (ucast i) ptr = (e, rt, k')"
  shows "xa_inv (xa\<lparr>root := rt\<rparr>) \<and>
    (case e of
       None \<Rightarrow> ptr \<noteq> None \<and> xa_load xa i = None \<and> xa_load (xa\<lparr>root := rt\<rparr>) = (xa_load xa)(i := ptr)
     | Some err \<Rightarrow> xa_load (xa\<lparr>root := rt\<rparr>) = xa_load xa \<and>
         (err = EINVAL \<and> ptr = None \<or> err = ENOMEM \<and> ptr \<noteq> None \<and> \<not> (\<forall>k. mem k) \<or>
          err = EEXIST \<and> ptr \<noteq> None \<and> xa_load xa i \<noteq> None))"
proof -
  have inv: "radix_inv (root xa)" using assms(1) by (simp add: xa_inv_def)
  show ?thesis
  proof (cases e)
    case None
    then show ?thesis
      using radix.insert_inv [OF inv valid_index assms(2)] radix.insert_ok [OF inv valid_index] assms(2)
      by (auto simp: xa_inv_def xa_load_def load_upd)
  next
    case (Some err)
    then show ?thesis
      using radix.insert_inv [OF inv valid_index assms(2)] radix.insert_err [OF inv valid_index] assms(2)
      by (simp add: xa_inv_def xa_load_def load_same)
  qed
qed

lemma less_Suc_word: "(p :: u32) < msk \<Longrightarrow> j < p + 1 \<longleftrightarrow> j \<le> p"
  by (simp add: word_less_nat_alt word_le_nat_alt unat_inc less_Suc_eq_le)

declare xa_alloc_retry.simps [simp del]

lemma alloc_retry:
  assumes "xa_inv xa" "p \<le> msk" "\<forall>j < p. xa_load xa j \<noteq> None"
  shows "alloc_result mem (xa_load xa) ptr msk (xa_alloc_retry mem k xa p ptr msk)"
  using assms
proof (induction mem k xa p ptr msk rule: xa_alloc_retry.induct)
  case (1 mem k xa p ptr msk)
  obtain e rt k1 where ins: "radix_tree_insert mem k (root xa) (ucast p) ptr = (e, rt, k1)"
    by (metis prod_cases3)
  note step = insert_step [OF "1.prems"(1) ins]
  let ?xa = "xa\<lparr>root := rt\<rparr>"
  show ?case
  proof (cases "e = Some EEXIST \<and> p \<noteq> msk")
    case True
    then have same: "xa_load ?xa = xa_load xa" and full: "xa_load xa p \<noteq> None"
      using step by auto
    have lt: "p < msk" using True "1.prems"(2) by (simp add: order_less_le)
    have "alloc_result mem (xa_load ?xa) ptr msk (xa_alloc_retry mem k1 ?xa (p + 1) ptr msk)"
    proof (rule "1.IH" [OF ins [symmetric] refl refl])
      show "p + 1 \<le> msk" using lt by (simp add: inc_le)
      show "\<forall>j < p + 1. xa_load ?xa j \<noteq> None"
        using "1.prems"(3) full same lt by (auto simp: less_Suc_word order_le_less)
    qed (use True step in auto)
    then show ?thesis
      using True ins same by (simp add: xa_alloc_retry.simps [of mem k xa] same)
  next
    case False
    then show ?thesis
      using ins step "1.prems"
      by (cases e) (auto simp: xa_alloc_retry.simps [of mem k xa] alloc_result_def order_le_less, blast+)
  qed
qed

lemma wrap_index:
  fixes p :: u32
  assumes "msk = mask n" "p \<le> msk"
  shows "(p + 1) AND msk = (if p = msk then 0 else p + 1)"
proof (cases "p = msk")
  case True
  have "(mask n + 1) AND mask n = (0 :: u32)"
  proof -
    have "mask n + 1 = (2 ^ n :: u32)" by (simp add: mask_eq_exp_minus_1)
    then show ?thesis by (simp only: take_bit_eq_mask [symmetric]) (rule bit_eqI, simp add: bit_simps)
  qed
  then show ?thesis using True assms by simp
next
  case False
  then have lt: "p < msk" using assms by (simp add: order_less_le)
  have "unat ((p + 1) AND msk) = (unat p + 1) mod 2 ^ n"
    by (simp only: assms(1) unat_and_mask unat_inc [OF lt])
  also have "\<dots> = unat p + 1"
  proof (rule mod_less)
    have "unat p < unat msk" using lt by (simp add: word_less_nat_alt)
    moreover have "unat msk < 2 ^ n"
    proof -
      have "unat msk = unat msk mod 2 ^ n" using unat_and_mask [of msk n] assms(1) by simp
      then show ?thesis using mod_less_divisor [of "2 ^ n" "unat msk"] by simp
    qed
    ultimately show "unat p + 1 < 2 ^ n" by linarith
  qed
  finally show ?thesis using False lt by (simp add: word_unat_eq_iff unat_inc)
qed

lemma alloc_cyclic_retry:
  assumes "xa_inv xa" "p \<le> msk" "msk = mask n"
    and "t = 1 \<and> (\<forall>j < p. xa_load xa j \<noteq> None) \<or> t = 0 \<and> (\<forall>j \<le> msk. xa_load xa j \<noteq> None)"
  shows "\<exists>res. xa_alloc_cyclic_retry mem k xa p ptr msk t = Some res \<and>
    alloc_result mem (xa_load xa) ptr msk res"
  using assms
proof (induction "nat t * 2 ^ 32 + unat (msk - p)" arbitrary: k xa p t rule: less_induct)
  case less
  obtain e rt k1 where ins: "radix_tree_insert mem k (root xa) (ucast p) ptr = (e, rt, k1)"
    by (metis prod_cases3)
  note step = insert_step [OF less.prems(1) ins]
  let ?xa = "xa\<lparr>root := rt\<rparr>"
  show ?case
  proof (cases "e = Some EEXIST \<and> \<not> (p = msk \<and> t = 0)")
    case True
    define p' t' where "p' = (p + 1) AND msk" and "t' = (if p = msk then t - 1 else t)"
    have same: "xa_load ?xa = xa_load xa" and full: "xa_load xa p \<noteq> None" and inv: "xa_inv ?xa"
      using step True by auto
    have p': "p' = (if p = msk then 0 else p + 1)"
      using less.prems unfolding p'_def by (intro wrap_index)
    have "\<exists>res. xa_alloc_cyclic_retry mem k1 ?xa p' ptr msk t' = Some res \<and>
        alloc_result mem (xa_load ?xa) ptr msk res"
    proof (rule less.hyps)
      show "xa_inv ?xa" by fact
      show "msk = mask n" by fact
      show "p' \<le> msk" using less.prems p' by (auto simp: inc_le order_less_le)
      show "t' = 1 \<and> (\<forall>j < p'. xa_load ?xa j \<noteq> None) \<or> t' = 0 \<and> (\<forall>j \<le> msk. xa_load ?xa j \<noteq> None)"
      proof (cases "p = msk")
        case True
        then show ?thesis
          using less.prems(4) full \<open>e = Some EEXIST \<and> _\<close> unfolding same t'_def by (auto simp: order_le_less)
      next
        case False
        then have "p < msk" using less.prems(2) by (simp add: order_less_le)
        then have "(\<forall>j < p. xa_load xa j \<noteq> None) \<longrightarrow> (\<forall>j < p'. xa_load xa j \<noteq> None)"
          using full False p' by (auto simp: less_Suc_word order_le_less)
        then show ?thesis
          using less.prems(4) False unfolding same t'_def by auto
      qed
      show "nat t' * 2 ^ 32 + unat (msk - p') < nat t * 2 ^ 32 + unat (msk - p)"
      proof (cases "p = msk")
        case True
        then have "t = 1" "t' = 0" using less.prems(4) \<open>e = Some EEXIST \<and> _\<close> by (auto simp: t'_def)
        then show ?thesis using unat_u32_less [of "msk - p'"] by simp
      next
        case False
        then have "unat (msk - p - 1) < unat (msk - p)" by (intro measure_unat) simp
        then show ?thesis using False p' by (simp add: t'_def diff_diff_eq)
      qed
    qed
    moreover have "xa_alloc_cyclic_retry mem k xa p ptr msk t = xa_alloc_cyclic_retry mem k1 ?xa p' ptr msk t'"
      using True ins by (subst xa_alloc_cyclic_retry.simps) (auto simp: Let_def p'_def t'_def)
    ultimately show ?thesis unfolding same by simp
  next
    case False
    then show ?thesis
      using ins step less.prems
      by (subst xa_alloc_cyclic_retry.simps) (cases e; auto simp: alloc_result_def order_le_less)
  qed
qed

text \<open>The destruction loop, when the indices below \<open>i\<close> are free.\<close>

lemma destroy_loop:
  assumes "xa_inv xa" "\<And>j. j < i \<Longrightarrow> radix_tree_lookup (root xa) j = None"
  shows "\<exists>xa'. xa_destroy_loop xa i = Some xa' \<and> xa_inv xa' \<and> radix_tree_lookup (root xa') = Map.empty"
  using assms
proof (induction "2 ^ 64 - unat i" arbitrary: xa i rule: less_induct)
  case less
  have inv: "radix_inv (root xa)" using less.prems by (simp add: xa_inv_def)
  obtain res where res: "radix_tree_iter_find (root xa) i = Some res"
    "first_from (radix_tree_lookup (root xa)) i res"
    using radix.find_first [OF inv] by blast
  show ?case
  proof (cases res)
    case None
    then have "radix_tree_lookup (root xa) j = None" for j
      using res(2) less.prems(2) [of j] by (cases "j < i") (auto simp: first_from_def not_less)
    then show ?thesis
      using None res less.prems by (subst xa_destroy_loop.simps) auto
  next
    case (Some jx)
    then obtain j x where j: "res = Some (j, x)" by (cases jx) auto
    define xa1 where "xa1 = xa\<lparr>root := radix_tree_iter_delete (root xa) j\<rparr>"
    have first: "i \<le> j" "radix_tree_lookup (root xa) j \<noteq> None"
      "\<And>l. i \<le> l \<Longrightarrow> l < j \<Longrightarrow> radix_tree_lookup (root xa) l = None"
      using res(2) j by (auto simp: first_from_def)
    have "unat j < 64 ^ 10" using radix.lookup_valid [OF inv first(2)] .
    then have "j < - 1"
      by (simp add: word_less_nat_alt unsigned_minus_1_eq_mask mask_eq_exp_minus_1)
    then have inc: "unat (j + 1) = unat j + 1" by (rule unat_inc)
    have look: "radix_tree_lookup (root xa1) = (radix_tree_lookup (root xa))(j := None)"
      using radix.delete_lookup [OF inv] by (simp add: xa1_def radix_tree_iter_delete_def)
    have "\<exists>xa'. xa_destroy_loop xa1 (j + 1) = Some xa' \<and> xa_inv xa' \<and>
        radix_tree_lookup (root xa') = Map.empty"
    proof (rule less.hyps)
      show "2 ^ 64 - unat (j + 1) < 2 ^ 64 - unat i"
        using inc first(1) \<open>unat j < 64 ^ 10\<close> by (simp add: word_le_nat_alt)
      show "xa_inv xa1"
        using radix.delete_inv [OF inv] by (simp add: xa_inv_def xa1_def radix_tree_iter_delete_def)
      show "radix_tree_lookup (root xa1) l = None" if "l < j + 1" for l
      proof (cases "l < i")
        case False
        then show ?thesis
          using that inc first(3) [of l] by (auto simp: look not_less word_less_nat_alt word_le_nat_alt word_unat_eq_iff)
      qed (use less.prems(2) look in auto)
    qed
    moreover have "xa_destroy_loop xa i = xa_destroy_loop xa1 (j + 1)"
      using res(1) j by (subst xa_destroy_loop.simps) (simp add: xa1_def)
    ultimately show ?thesis by simp
  qed
qed

lemma succ_le: "(i :: u64) + 1 \<noteq> 0 \<Longrightarrow> i + 1 \<le> l \<longleftrightarrow> i \<le> l \<and> l \<noteq> i"
proof -
  assume "i + 1 \<noteq> 0"
  then have "i \<noteq> - 1" by auto
  then have "i < - 1" by (simp add: order_less_le)
  then show ?thesis
    by (auto simp: word_le_nat_alt word_unat_eq_iff unat_inc)
qed

lemma next_from:
  assumes "xa_inv xa"
  shows "\<exists>entry j. (do { found \<leftarrow> radix_tree_iter_find (root xa) i;
           case found of None \<Rightarrow> Some (None, p) | Some (i, ppslot) \<Rightarrow> Some (slot_item ppslot, i) })
      = Some (entry, j) \<and>
    (case entry of
       None \<Rightarrow> j = p \<and> (\<forall>l \<ge> i. radix_tree_lookup (root xa) l = None)
     | Some x \<Rightarrow> i \<le> j \<and> radix_tree_lookup (root xa) j = Some x \<and>
         (\<forall>l. i \<le> l \<and> l < j \<longrightarrow> radix_tree_lookup (root xa) l = None))"
proof -
  obtain res where "radix_tree_iter_find (root xa) i = Some res"
      "first_from (radix_tree_lookup (root xa)) i res"
    using assms radix.find_first [of "root xa" i] by (auto simp: xa_inv_def)
  then show ?thesis by (cases res) (auto simp: first_from_def)
qed

section \<open>Properties\<close>

text \<open>C18: \<open>xa_alloc\<close> stores the pointer at the least free index up to the limit and returns
  that index; it fails with \<open>-ENOMEM\<close> only when every index up to the limit is in use or
  memory ran out, and with \<open>-EINVAL\<close> for a null pointer, and a failure leaves every entry
  as it was.\<close>

theorem xa_alloc_least_free:
  assumes "xa_inv xa" "xa_alloc mem k xa ptr msk = (e, i, xa', k')"
  shows "xa_inv xa' \<and>
    (case e of
       None \<Rightarrow> i \<le> msk \<and> ptr \<noteq> None \<and> xa_load xa i = None \<and> (\<forall>j < i. xa_load xa j \<noteq> None) \<and>
         xa_load xa' = (xa_load xa)(i := ptr)
     | Some err \<Rightarrow> xa_load xa' = xa_load xa \<and>
         (err = EINVAL \<and> ptr = None \<or>
          err = ENOMEM \<and> ptr \<noteq> None \<and> (\<not> (\<forall>k. mem k) \<or> (\<forall>j \<le> msk. xa_load xa j \<noteq> None))))"
  using alloc_retry [OF assms(1), of 0 msk mem ptr k] assms(2)
  by (simp add: xa_alloc_def xa_alloc_nolock_def alloc_result_def)

text \<open>For a limit that is a power of two minus one, \<open>xa_alloc_cyclic\<close> returns and also
  takes the least free index, because it starts at 0 on every call; it does not continue
  after the index it allocated last.\<close>

theorem xa_alloc_cyclic_least_free:
  assumes "xa_inv xa" "msk = mask n"
  shows "\<exists>e i xa' k'. xa_alloc_cyclic mem k xa ptr msk = Some (e, i, xa', k') \<and> xa_inv xa' \<and>
    (case e of
       None \<Rightarrow> i \<le> msk \<and> ptr \<noteq> None \<and> xa_load xa i = None \<and> (\<forall>j < i. xa_load xa j \<noteq> None) \<and>
         xa_load xa' = (xa_load xa)(i := ptr)
     | Some err \<Rightarrow> xa_load xa' = xa_load xa \<and>
         (err = EINVAL \<and> ptr = None \<or>
          err = ENOMEM \<and> ptr \<noteq> None \<and> (\<not> (\<forall>k. mem k) \<or> (\<forall>j \<le> msk. xa_load xa j \<noteq> None))))"
proof -
  obtain res where "xa_alloc_cyclic mem k xa ptr msk = Some res" "alloc_result mem (xa_load xa) ptr msk res"
    using alloc_cyclic_retry [OF assms(1) _ assms(2), of 0 1 mem k ptr]
    by (auto simp: xa_alloc_cyclic_def xa_alloc_cyclic_nolock_def)
  then show ?thesis by (cases res) (auto simp: alloc_result_def)
qed

text \<open>C24: \<open>xa_store\<close>, \<open>xa_erase\<close> and \<open>xa_load\<close> are the update, the removal and the lookup of
  a map from indices to pointers: a store or an erase returns the old pointer, and a failed
  store changes nothing.\<close>

theorem xa_store_erase_load:
  assumes "xa_inv xa" "xa_store mem k xa i ptr = (res, xa', k')"
  shows "xa_inv xa' \<and>
    (case res of
       Inr old \<Rightarrow> old = xa_load xa i \<and> xa_load xa' = (xa_load xa)(i := ptr)
     | Inl err \<Rightarrow> err = ENOMEM \<and> \<not> (\<forall>k. mem k) \<and> xa_load xa' = xa_load xa) \<and>
    xa_inv (snd (xa_erase xa i)) \<and> fst (xa_erase xa i) = xa_load xa i \<and>
    xa_load (snd (xa_erase xa i)) = (xa_load xa)(i := None)"
proof -
  have inv: "radix_inv (root xa)" using assms(1) by (simp add: xa_inv_def)
  obtain e old rt k1 where st: "radix_tree_store mem k (root xa) (ucast i) ptr = (e, old, rt, k1)"
    by (metis prod_cases4)
  have "xa_inv xa' \<and> (case res of
       Inr old \<Rightarrow> old = xa_load xa i \<and> xa_load xa' = (xa_load xa)(i := ptr)
     | Inl err \<Rightarrow> err = ENOMEM \<and> \<not> (\<forall>k. mem k) \<and> xa_load xa' = xa_load xa)"
    using radix.store_inv [OF inv valid_index st] radix.store_ok [OF inv valid_index, of mem k i]
      radix.store_err [OF inv valid_index, of mem k i] st assms(2)
    by (cases e) (auto simp: xa_store_def xa_store_nolock_def xa_inv_def load_upd load_same, simp add: xa_load_def)
  moreover have "xa_inv (snd (xa_erase xa i)) \<and> fst (xa_erase xa i) = xa_load xa i \<and>
      xa_load (snd (xa_erase xa i)) = (xa_load xa)(i := None)"
    using radix.delete_inv [OF inv] radix.delete_item [OF inv] radix.delete_lookup [OF inv]
    by (auto simp: xa_erase_def xa_erase_nolock_def xa_inv_def xa_load_def load_upd case_prod_beta)
  ultimately show ?thesis by blast
qed

text \<open>C25: \<open>xa_destroy\<close> returns and leaves an array with no entry, which \<open>xa_empty\<close> reports.\<close>

theorem xa_destroy_empties:
  assumes "xa_inv xa"
  shows "\<exists>xa'. xa_destroy xa = Some xa' \<and> xa_inv xa' \<and> xa_load xa' = Map.empty \<and> xa_empty xa' = Some True"
proof -
  obtain xa' where "xa_destroy xa = Some xa'" "xa_inv xa'" "radix_tree_lookup (root xa') = Map.empty"
    using destroy_loop [OF assms, of 0] by (auto simp: xa_destroy_def)
  then show ?thesis
    using radix.find_none_iff [of "root xa'"]
    by (auto simp: xa_load_def xa_empty_def xa_empty_nolock_def xa_inv_def fun_eq_iff)
qed

text \<open>\<open>xa_next\<close> visits the entries in the order of their indices: it returns the first
  entry behind \<open>*pindex\<close>, or from it on at the first call, with its index, and null with
  \<open>*pindex\<close> unchanged when there is none.\<close>

theorem xa_next_successor:
  assumes "xa_inv xa"
  shows "\<exists>entry j. xa_next xa i not_first = Some (entry, j) \<and>
    (case entry of
       None \<Rightarrow> j = i \<and> (\<forall>l. i \<le> l \<and> (not_first \<longrightarrow> l \<noteq> i) \<longrightarrow> radix_tree_lookup (root xa) l = None)
     | Some x \<Rightarrow> i \<le> j \<and> (not_first \<longrightarrow> j \<noteq> i) \<and> radix_tree_lookup (root xa) j = Some x \<and>
         (\<forall>l. i \<le> l \<and> (not_first \<longrightarrow> l \<noteq> i) \<and> l < j \<longrightarrow> radix_tree_lookup (root xa) l = None))"
proof (cases "not_first \<and> i + 1 = 0")
  case True
  then have "i = - 1" by (simp add: eq_neg_iff_add_eq_0)
  then have "i \<le> l \<longleftrightarrow> l = i" for l by (auto intro: order_antisym [OF word_n1_ge])
  then show ?thesis
    using True by (auto simp: xa_next_def xa_next_nolock_def)
next
  case False
  obtain entry j where r: "xa_next xa i not_first = Some (entry, j)" and
    "case entry of
       None \<Rightarrow> j = i \<and> (\<forall>l \<ge> (if not_first then i + 1 else i). radix_tree_lookup (root xa) l = None)
     | Some x \<Rightarrow> (if not_first then i + 1 else i) \<le> j \<and> radix_tree_lookup (root xa) j = Some x \<and>
         (\<forall>l. (if not_first then i + 1 else i) \<le> l \<and> l < j \<longrightarrow> radix_tree_lookup (root xa) l = None)"
    using next_from [OF assms, of "if not_first then i + 1 else i" i] False
    by (auto simp: xa_next_def xa_next_nolock_def Let_def)
  then show ?thesis
    using succ_le [of i] False by (cases not_first; cases entry) auto
qed

lemma init_inv: "xa_inv (xa_init_flags 0 0 :: string xarray)" by code_simp

lemma init_load: "xa_load (xa_init_flags 0 0 :: string xarray) 0 = None" by code_simp

theorem xa_alloc_least_free_witness:
  "\<exists>xa' k'. xa_alloc (\<lambda>k. True) 0 (xa_init_flags 0 0) (Some ''p'') 7 = (None, 0, xa', k') \<and>
     xa_load xa' 0 = Some ''p''"
proof -
  obtain e i xa' k' where al: "xa_alloc (\<lambda>k. True) 0 (xa_init_flags 0 0) (Some ''p'') 7 = (e, i, xa', k')"
    by (metis prod_cases4)
  from xa_alloc_least_free [OF init_inv al] show ?thesis
    using al init_load by (auto split: option.splits simp: word_neq_0_conv dest!: spec [of _ 0])
qed

theorem xa_alloc_cyclic_least_free_witness:
  "\<exists>xa' k'. xa_alloc_cyclic (\<lambda>k. True) 0 (xa_init_flags 0 0) (Some ''p'') 7 = Some (None, 0, xa', k') \<and>
     xa_load xa' 0 = Some ''p''"
proof -
  have "(7 :: u32) = mask 3" by (simp add: mask_eq_exp_minus_1)
  from xa_alloc_cyclic_least_free [OF init_inv this, of "\<lambda>k. True" 0 "Some ''p''"]
  obtain e i xa' k' where
    al: "xa_alloc_cyclic (\<lambda>k. True) 0 (xa_init_flags 0 0) (Some ''p'') 7 = Some (e, i, xa', k')" and
    "case e of None \<Rightarrow> (\<forall>j < i. xa_load (xa_init_flags 0 0 :: string xarray) j \<noteq> None) \<and>
         xa_load xa' = (xa_load (xa_init_flags 0 0))(i \<mapsto> ''p'')
     | Some err \<Rightarrow> \<forall>j \<le> 7. xa_load (xa_init_flags 0 0 :: string xarray) j \<noteq> None"
    by (fastforce split: option.splits)
  then show ?thesis
    using al init_load by (cases e) (auto simp: word_neq_0_conv dest!: spec [of _ 0])
qed

theorem xa_store_erase_load_witness:
  "fst (xa_erase (fst (snd (xa_store (\<lambda>k. True) 0 (xa_init_flags 0 0) 3 (Some ''p'')))) 3) = Some ''p''"
proof -
  obtain res xa' k' where st: "xa_store (\<lambda>k. True) 0 (xa_init_flags 0 0) 3 (Some ''p'') = (res, xa', k')"
    by (metis prod_cases3)
  note one = xa_store_erase_load [OF init_inv st]
  obtain res2 xa2 k2 where st2: "xa_store (\<lambda>k. True) 0 xa' 3 (Some ''p'') = (res2, xa2, k2)"
    by (metis prod_cases3)
  have "xa_inv xa'" using one by simp
  from xa_store_erase_load [OF this st2] one st show ?thesis by (auto split: sum.splits)
qed

theorem xa_destroy_empties_witness:
  "\<exists>xa'. xa_destroy (fst (snd (xa_store (\<lambda>k. True) 0 (xa_init_flags 0 0) 3 (Some ''p'')))) = Some xa' \<and>
     xa_empty xa' = Some True"
proof -
  have "xa_inv (fst (snd (xa_store (\<lambda>k. True) 0 (xa_init_flags 0 0) 3 (Some ''p''))))" by code_simp
  from xa_destroy_empties [OF this] show ?thesis by blast
qed

theorem xa_next_successor_witness:
  "xa_next (fst (snd (xa_store (\<lambda>k. True) 0 (xa_init_flags 0 0) 3 (Some ''p'')))) 0 True = Some (Some ''p'', 3) \<and>
   radix_tree_lookup (root (fst (snd (xa_store (\<lambda>k. True) 0 (xa_init_flags 0 0) 3 (Some ''p''))))) 2 = None"
proof -
  let ?xa = "fst (snd (xa_store (\<lambda>k. True) 0 (xa_init_flags 0 0) 3 (Some ''p'')))"
  have "xa_inv ?xa" by code_simp
  moreover have "xa_next ?xa 0 True = Some (Some ''p'', 3)" by code_simp
  ultimately show ?thesis
    using xa_next_successor [of ?xa 0 True] by auto
qed

end
