(* ===== verification/Bit_Ops.thy ===== *)
theory Bit_Ops
  imports Webcamd_Prelude
begin

text \<open>
  Atomic counters, bit operations on arrays of words, bit counting and bit searches of
  \<open>kernel/linux_func.c\<close>.  A function that takes the global lock around its body is one
  step on the object.  An array of \<open>unsigned long\<close> is the list of its words; bit numbers
  are natural numbers, since every caller passes a number of the array.
\<close>

section \<open>Atomic counters\<close>

text \<open>\<open>int\<close> arithmetic on a counter is taken modulo \<open>2\<^sup>3\<^sup>2\<close>.  A result that depends on the
  comparison of values is the C truth value.\<close>

definition atomic_add :: "u32 \<Rightarrow> u32 \<Rightarrow> u32 \<times> u32" where
  "atomic_add i v = (let v = v + i; i = v in (i, v))"

definition atomic_add_unless :: "u32 \<Rightarrow> u32 \<Rightarrow> u32 \<Rightarrow> bool \<times> u32" where
  "atomic_add_unless v a u = (let c = v; v = (if c \<noteq> u then v + a else v) in (c \<noteq> u, v))"

definition atomic_inc :: "u32 \<Rightarrow> u32 \<times> u32" where
  "atomic_inc v = (let v = v + 1; i = v in (i, v))"

definition atomic_dec :: "u32 \<Rightarrow> u32 \<times> u32" where
  "atomic_dec v = (let v = v - 1; i = v in (i, v))"

definition atomic_set :: "u32 \<Rightarrow> u32 \<Rightarrow> u32" where
  "atomic_set v i = i"

definition atomic_read :: "u32 \<Rightarrow> u32" where
  "atomic_read v = v"

definition atomic_dec_and_test :: "u32 \<Rightarrow> bool \<times> u32" where
  "atomic_dec_and_test v = (let v = v - 1; i = v in (i = 0, v))"

definition atomic_cmpxchg :: "u32 \<Rightarrow> u32 \<Rightarrow> u32 \<Rightarrow> u32 \<times> u32" where
  "atomic_cmpxchg v old new = (let prev = v; v = (if prev = old then new else v) in (prev, v))"

definition atomic64_read :: "u64 \<Rightarrow> u64" where
  "atomic64_read v = v"

definition atomic64_or :: "u64 \<Rightarrow> u64 \<Rightarrow> u64" where
  "atomic64_or data v = v OR data"

definition atomic64_xor :: "u64 \<Rightarrow> u64 \<Rightarrow> u64" where
  "atomic64_xor data v = v XOR data"

definition atomic64_and :: "u64 \<Rightarrow> u64 \<Rightarrow> u64" where
  "atomic64_and data v = v AND data"

definition atomic64_andnot :: "u64 \<Rightarrow> u64 \<Rightarrow> u64" where
  "atomic64_andnot data v = v AND NOT data"

section \<open>Bits of an array\<close>

definition BIT_MASK :: "nat \<Rightarrow> u64" where
  "BIT_MASK nr = push_bit (nr mod 64) 1"

definition BIT_WORD :: "nat \<Rightarrow> nat" where
  "BIT_WORD nr = nr div 64"

definition test_bit :: "nat \<Rightarrow> u64 list \<Rightarrow> bool" where
  "test_bit nr addr = (addr ! BIT_WORD nr AND BIT_MASK nr \<noteq> 0)"

definition test_and_set_bit :: "nat \<Rightarrow> u64 list \<Rightarrow> bool \<times> u64 list" where
  "test_and_set_bit nr addr =
     (let old = addr ! BIT_WORD nr
      in (old AND BIT_MASK nr \<noteq> 0, addr[BIT_WORD nr := old OR BIT_MASK nr]))"

definition test_and_clear_bit :: "nat \<Rightarrow> u64 list \<Rightarrow> bool \<times> u64 list" where
  "test_and_clear_bit nr addr =
     (let old = addr ! BIT_WORD nr
      in (old AND BIT_MASK nr \<noteq> 0, addr[BIT_WORD nr := old AND NOT (BIT_MASK nr)]))"

definition set_bit_nr :: "nat \<Rightarrow> u64 list \<Rightarrow> u64 list" where
  "set_bit_nr nr addr = addr[BIT_WORD nr := addr ! BIT_WORD nr OR BIT_MASK nr]"

definition clear_bit :: "nat \<Rightarrow> u64 list \<Rightarrow> u64 list" where
  "clear_bit nr addr = addr[BIT_WORD nr := addr ! BIT_WORD nr AND NOT (BIT_MASK nr)]"

definition change_bit :: "nat \<Rightarrow> u64 list \<Rightarrow> u64 list" where
  "change_bit nr addr = addr[BIT_WORD nr := addr ! BIT_WORD nr XOR BIT_MASK nr]"

section \<open>Reversal and weight\<close>

definition bitrev8 :: "u8 \<Rightarrow> u8" where
  "bitrev8 a =
     (let a = push_bit 1 (a AND 0x55) OR drop_bit 1 (a AND 0xAA);
          a = push_bit 2 (a AND 0x33) OR drop_bit 2 (a AND 0xCC);
          a = push_bit 4 (a AND 0x0F) OR drop_bit 4 (a AND 0xF0)
      in a)"

definition bitrev16 :: "u16 \<Rightarrow> u16" where
  "bitrev16 a =
     (let a = push_bit 1 (a AND 0x5555) OR drop_bit 1 (a AND 0xAAAA);
          a = push_bit 2 (a AND 0x3333) OR drop_bit 2 (a AND 0xCCCC);
          a = push_bit 4 (a AND 0x0F0F) OR drop_bit 4 (a AND 0xF0F0);
          a = push_bit 8 (a AND 0x00FF) OR drop_bit 8 (a AND 0xFF00)
      in a)"

definition hweight8 :: "u32 \<Rightarrow> u32" where
  "hweight8 w =
     (let res = w - (drop_bit 1 w AND 0x55);
          res = (res AND 0x33) + (drop_bit 2 res AND 0x33)
      in (res + drop_bit 4 res) AND 0x0F)"

definition hweight16 :: "u32 \<Rightarrow> u32" where
  "hweight16 w =
     (let res = w - (drop_bit 1 w AND 0x5555);
          res = (res AND 0x3333) + (drop_bit 2 res AND 0x3333);
          res = (res + drop_bit 4 res) AND 0x0F0F
      in (res + drop_bit 8 res) AND 0x00FF)"

definition hweight32 :: "u32 \<Rightarrow> u32" where
  "hweight32 w =
     (let res = w - (drop_bit 1 w AND 0x55555555);
          res = (res AND 0x33333333) + (drop_bit 2 res AND 0x33333333);
          res = (res + drop_bit 4 res) AND 0x0F0F0F0F;
          res = res + drop_bit 8 res
      in (res + drop_bit 16 res) AND 0x000000FF)"

definition hweight64 :: "u64 \<Rightarrow> u64" where
  "hweight64 w =
     (let res = w - (drop_bit 1 w AND 0x5555555555555555);
          res = (res AND 0x3333333333333333) + (drop_bit 2 res AND 0x3333333333333333);
          res = (res + drop_bit 4 res) AND 0x0F0F0F0F0F0F0F0F;
          res = res + drop_bit 8 res;
          res = res + drop_bit 16 res
      in (res + drop_bit 32 res) AND 0x00000000000000FF)"

text \<open>The loop runs over the bytes of the object; the sum is a \<open>size_t\<close>.\<close>

definition memweight :: "u8 list \<Rightarrow> u64" where
  "memweight ptr = foldl (\<lambda>y b. y + ucast (hweight8 (ucast b))) 0 ptr"

section \<open>Searches\<close>

definition uu_ffs :: "u32 \<Rightarrow> u32" where
  "uu_ffs x = NOT (x - 1) AND x"

definition uu_ffz :: "u32 \<Rightarrow> u32" where
  "uu_ffz x = (x + 1) AND NOT x"

text \<open>One of the tests of \<open>fls\<close> and \<open>__flsl\<close>: when the mask has a bit under \<open>high\<close>, the
  lower half is shifted out.\<close>

definition fls_test :: "'a::len word \<Rightarrow> nat \<Rightarrow> nat \<times> 'a word \<Rightarrow> nat \<times> 'a word" where
  "fls_test high n bm =
     (case bm of (bt, msk) \<Rightarrow> if msk AND high \<noteq> 0 then (bt + n, drop_bit n msk) else (bt, msk))"

definition fls :: "u32 \<Rightarrow> nat" where
  "fls msk =
     (if msk = 0 then 0
      else let bm = (1, msk);
               bm = fls_test 0xFFFF0000 16 bm;
               bm = fls_test 0xFF00 8 bm;
               bm = fls_test 0xF0 4 bm;
               bm = fls_test 0xC 2 bm;
               bm = fls_test 0x2 1 bm
           in fst bm)"

definition uu_flsl :: "u64 \<Rightarrow> nat" where
  "uu_flsl msk =
     (if msk = 0 then 0
      else let bm = (1, msk);
               bm = fls_test 0xFFFFFFFF00000000 32 bm;
               bm = fls_test 0xFFFF0000 16 bm;
               bm = fls_test 0xFF00 8 bm;
               bm = fls_test 0xF0 4 bm;
               bm = fls_test 0xC 2 bm;
               bm = fls_test 0x2 1 bm
           in fst bm)"

text \<open>The library function \<open>ffsl\<close>: the number of the least bit set, counted from 1.\<close>

definition ffsl :: "u64 \<Rightarrow> nat" where
  "ffsl x = (case find (bit x) [0..<64] of None \<Rightarrow> 0 | Some n \<Rightarrow> n + 1)"

text \<open>
  The loop of \<open>find_next_bit\<close>; \<open>val\<close> gives the word to search, which is the word of the
  array or, for \<open>find_next_zero_bit\<close>, its complement.  \<open>mm\<close> is 63, so that
  \<open>offset & ~mm\<close> rounds down to a multiple of 64 and \<open>(~offset) & mm\<close> is what is missing
  to the last bit of the word.
\<close>

function find_bit_loop :: "(u64 \<Rightarrow> u64) \<Rightarrow> u64 list \<Rightarrow> nat \<Rightarrow> nat \<Rightarrow> u64 \<Rightarrow> nat" where
  "find_bit_loop val addr sz offset msk =
     (if offset < sz then
        let msk = val (addr ! BIT_WORD offset) AND NOT msk
        in if msk \<noteq> 0 then (ffsl msk - 1) + 64 * (offset div 64)
           else find_bit_loop val addr sz (offset + (63 - offset mod 64) + 1) msk
      else offset)"
  by pat_completeness auto
termination
  by (relation "measure (\<lambda>(val, addr, sz, offset, msk). sz - offset)") auto

definition find_next_bit :: "u64 list \<Rightarrow> nat \<Rightarrow> nat \<Rightarrow> nat" where
  "find_next_bit addr sz offset =
     (let offset = find_bit_loop (\<lambda>w. w) addr sz offset (BIT_MASK offset - 1)
      in if offset > sz then sz else offset)"

definition find_next_zero_bit :: "u64 list \<Rightarrow> nat \<Rightarrow> nat \<Rightarrow> nat" where
  "find_next_zero_bit addr sz offset =
     (let offset = find_bit_loop (\<lambda>w. NOT w) addr sz offset (BIT_MASK offset - 1)
      in if offset > sz then sz else offset)"

section \<open>Specification\<close>

text \<open>The number of bits set, and the state between the tests of \<open>fls\<close>: the mask is below
  \<open>2 ^ w\<close> and is the argument \<open>x\<close> shifted by the bits counted so far.\<close>

definition weight :: "'a::len word \<Rightarrow> nat" where
  "weight w = length (filter (bit w) [0..<LENGTH('a)])"

definition fls_inv :: "nat \<Rightarrow> nat \<Rightarrow> nat \<times> 'a::len word \<Rightarrow> bool" where
  "fls_inv x w bm \<longleftrightarrow> 0 < fst bm \<and> 0 < unat (snd bm) \<and> unat (snd bm) < 2 ^ w \<and>
     unat (snd bm) = x div 2 ^ (fst bm - 1)"

section \<open>Lemmas on bit arrays\<close>

lemma bit_BIT_MASK [c_simps]: "bit (BIT_MASK nr) n \<longleftrightarrow> n = nr mod 64"
  by (auto simp: BIT_MASK_def bit_simps)

lemma and_BIT_MASK [c_simps]: "w AND BIT_MASK nr \<noteq> 0 \<longleftrightarrow> bit w (nr mod 64)"
  by (auto simp: bit_eq_iff [of "w AND BIT_MASK nr" 0] bit_and_iff bit_BIT_MASK)

lemma test_bit_bit: "test_bit nr addr \<longleftrightarrow> bit (addr ! (nr div 64)) (nr mod 64)"
  by (simp add: test_bit_def BIT_WORD_def and_BIT_MASK)

lemma same_bit: "(n :: nat) div 64 = m div 64 \<and> n mod 64 = m mod 64 \<longleftrightarrow> n = m"
  by (metis div_mult_mod_eq)

lemma test_bit_update:
  assumes "nr < 64 * length addr"
    and "\<And>m. m < 64 \<Longrightarrow> bit w m = (if m = nr mod 64 then b else bit (addr ! (nr div 64)) m)"
  shows "test_bit n (addr[BIT_WORD nr := w]) = (if n = nr then b else test_bit n addr)"
proof -
  have "nr div 64 < length addr" using assms(1) by (simp add: less_mult_imp_div_less mult.commute)
  then show ?thesis
    using assms(2) [of "n mod 64"] same_bit [of n nr]
    by (auto simp: test_bit_bit BIT_WORD_def nth_list_update)
qed

lemma test_bit_writes:
  assumes "nr < 64 * length addr"
  shows "test_bit n (set_bit_nr nr addr) = (n = nr \<or> test_bit n addr)"
    and "test_bit n (clear_bit nr addr) = (n \<noteq> nr \<and> test_bit n addr)"
    and "test_bit n (change_bit nr addr) = (test_bit n addr \<noteq> (n = nr))"
proof -
  show "test_bit n (set_bit_nr nr addr) = (n = nr \<or> test_bit n addr)"
    unfolding set_bit_nr_def 
    by (subst test_bit_update [OF assms, where b = True]) (auto simp: bit_simps bit_BIT_MASK BIT_WORD_def)
  show "test_bit n (clear_bit nr addr) = (n \<noteq> nr \<and> test_bit n addr)"
    unfolding clear_bit_def
    by (subst test_bit_update [OF assms, where b = False]) (auto simp: bit_simps bit_BIT_MASK BIT_WORD_def)
  show "test_bit n (change_bit nr addr) = (test_bit n addr \<noteq> (n = nr))"
    unfolding change_bit_def
    by (subst test_bit_update [OF assms, where b = "\<not> test_bit nr addr"])
      (auto simp: bit_simps bit_BIT_MASK BIT_WORD_def test_bit_bit)
qed

section \<open>Lemmas on the last bit set\<close>

lemma push_drop_zero: "push_bit s (drop_bit s m) = 0 \<longleftrightarrow> drop_bit s (m :: 'a::len word) = 0"
proof
  assume "push_bit s (drop_bit s m) = 0"
  moreover have "drop_bit s (push_bit s (drop_bit s m)) = drop_bit s m"
    by (rule bit_word_eqI) (auto simp: bit_simps dest: bit_imp_le_length)
  ultimately show "drop_bit s m = 0" by simp
qed simp

lemma fls_test_inv:
  fixes high :: "'a::len word"
  assumes "high = push_bit s (mask s)" "2 * s \<le> LENGTH('a)" "w = 2 * s" "fls_inv x w bm"
  shows "fls_inv x s (fls_test high s bm)"
proof -
  obtain b m where bm: "bm = (b, m)" by (cases bm)
  have lt: "unat m < 2 ^ s * 2 ^ s" and x: "unat m = x div 2 ^ (b - 1)" and b: "0 < b" "0 < unat m"
    using assms(3,4) by (simp_all add: fls_inv_def bm mult_2 flip: power_add)
  have m: "m AND high = push_bit s (drop_bit s m AND mask s)"
    unfolding assms(1) by (rule bit_word_eqI) (auto simp: bit_simps)
  have dm: "unat (drop_bit s m) = unat m div 2 ^ s" by (simp add: unat_drop_bit_div)
  have d: "unat m div 2 ^ s < 2 ^ s" using lt by (simp add: less_mult_imp_div_less)
  have "m AND high = 0 \<longleftrightarrow> unat m < 2 ^ s"
  proof -
    have "drop_bit s m AND mask s = drop_bit s m"
    proof (rule word_unat_eq_iff [THEN iffD2])
      show "unat (drop_bit s m AND mask s) = unat (drop_bit s m)"
        using d unfolding unat_and_mask dm by (rule mod_less)
    qed
    then have "m AND high = push_bit s (drop_bit s m)" using m by simp
    moreover have "push_bit s (drop_bit s m) = 0 \<longleftrightarrow> drop_bit s m = 0"
      by (rule push_drop_zero)
    ultimately show ?thesis
      using dm by (metis div_eq_0_iff power_not_zero unat_eq_zero zero_neq_numeral)
  qed
  moreover have "unat m div 2 ^ s = x div 2 ^ (b + s - 1)"
  proof -
    have "x div 2 ^ (b - 1) div 2 ^ s = x div 2 ^ (b - 1 + s)"
      by (simp only: div_mult2_eq power_add)
    then show ?thesis using x b(1) by simp
  qed
  moreover have "0 < unat m div 2 ^ s" if "\<not> unat m < 2 ^ s"
    using that by (simp add: div_greater_zero_iff)
  ultimately show ?thesis
    using b d dm x by (simp add: fls_inv_def fls_test_def bm)
qed

lemma fls_result:
  assumes "fls_inv x 1 bm"
  shows "2 ^ (fst bm - 1) \<le> x \<and> x < 2 ^ fst bm"
proof -
  have one: "x div 2 ^ (fst bm - 1) = 1" and b: "0 < fst bm"
    using assms by (auto simp: fls_inv_def)
  have "x < 2 * 2 ^ (fst bm - 1)" using dividend_less_div_times [of "2 ^ (fst bm - 1)" x] one by simp
  moreover have "2 ^ (fst bm - 1) \<le> x"
    using one by (metis div_less not_less zero_neq_one)
  ultimately show ?thesis using b by (cases "fst bm") simp_all
qed

lemma high_masks:
  "(0xFFFFFFFF00000000 :: u64) = push_bit 32 (mask 32)"
  "(0xFFFF0000 :: 'a::len word) = push_bit 16 (mask 16)"
  "(0xFF00 :: 'a::len word) = push_bit 8 (mask 8)"
  "(0xF0 :: 'a::len word) = push_bit 4 (mask 4)"
  "(0xC :: 'a::len word) = push_bit 2 (mask 2)"
  "(0x2 :: 'a::len word) = push_bit 1 (mask 1)"
  by (simp_all add: mask_eq_exp_minus_1 push_bit_eq_mult)

lemma fls_tail:
  fixes bm :: "nat \<times> 'a::len word"
  assumes "fls_inv x 32 bm" "32 \<le> LENGTH('a)"
  shows "fls_inv x 1 (fls_test 0x2 1 (fls_test 0xC 2 (fls_test 0xF0 4 (fls_test 0xFF00 8
      (fls_test 0xFFFF0000 16 bm)))))"
proof -
  have "fls_inv x 16 (fls_test 0xFFFF0000 16 bm)"
    by (rule fls_test_inv [OF high_masks(2) _ _ assms(1)]) (use assms(2) in simp_all)
  then have "fls_inv x 8 (fls_test 0xFF00 8 (fls_test 0xFFFF0000 16 bm))"
    by (rule fls_test_inv [OF high_masks(3), rotated 2]) (use assms(2) in simp_all)
  then have "fls_inv x 4 (fls_test 0xF0 4 (fls_test 0xFF00 8 (fls_test 0xFFFF0000 16 bm)))"
    by (rule fls_test_inv [OF high_masks(4), rotated 2]) (use assms(2) in simp_all)
  then have "fls_inv x 2 (fls_test 0xC 2 (fls_test 0xF0 4 (fls_test 0xFF00 8 (fls_test 0xFFFF0000 16 bm))))"
    by (rule fls_test_inv [OF high_masks(5), rotated 2]) (use assms(2) in simp_all)
  then show ?thesis
    by (rule fls_test_inv [OF high_masks(6), rotated 2]) (use assms(2) in simp_all)
qed

lemma fls_bounds:
  assumes "msk \<noteq> 0"
  shows "2 ^ (fls msk - 1) \<le> unat msk \<and> unat msk < 2 ^ fls msk"
proof -
  have "fls_inv (unat msk) 32 (1, msk)"
    using assms unat_u32_less [of msk] by (simp add: fls_inv_def unat_gt_0)
  from fls_result [OF fls_tail [OF this]] show ?thesis
    using assms by (simp add: fls_def)
qed

lemma flsl_bounds:
  assumes "msk \<noteq> 0"
  shows "2 ^ (uu_flsl msk - 1) \<le> unat msk \<and> unat msk < 2 ^ uu_flsl msk"
proof -
  have "fls_inv (unat msk) 64 (1, msk)"
    using assms unat_u64_less [of msk] by (simp add: fls_inv_def unat_gt_0)
  then have "fls_inv (unat msk) 32 (fls_test 0xFFFFFFFF00000000 32 (1, msk))"
    by (rule fls_test_inv [OF high_masks(1), rotated 2]) simp_all
  from fls_result [OF fls_tail [OF this]] show ?thesis
    using assms by (simp add: uu_flsl_def)
qed

section \<open>Lemmas on searches\<close>

lemma ffsl_least:
  assumes "x \<noteq> 0"
  shows "bit x (ffsl x - 1)" "ffsl x - 1 < 64" "m < ffsl x - 1 \<Longrightarrow> \<not> bit x m"
proof -
  obtain n where "bit x n" "n < 64"
    using assms by (auto simp: bit_eq_iff [of x 0])
  then have "find (bit x) [0..<64] \<noteq> None" by (auto simp: find_None_iff)
  then obtain k where k: "find (bit x) [0..<64] = Some k" by auto
  then have *: "bit x k" "k < 64" "\<forall>j < k. \<not> bit x j"
    by (auto simp: find_Some_iff)
  then show "bit x (ffsl x - 1)" "ffsl x - 1 < 64" "m < ffsl x - 1 \<Longrightarrow> \<not> bit x m"
    using k by (simp_all add: ffsl_def)
qed

declare find_bit_loop.simps [simp del]

text \<open>The loop from an offset, when the bits of the first word below it are masked out.\<close>

lemma find_bit_loop_first:
  assumes "sz \<le> 64 * length addr" "\<And>m. bit msk m \<longleftrightarrow> m < offset mod 64"
    and P: "\<And>n. P n \<longleftrightarrow> bit (val (addr ! (n div 64))) (n mod 64)"
    and res: "res = find_bit_loop val addr sz offset msk"
  shows "offset \<le> res \<and> (res < sz \<longrightarrow> P res) \<and> (\<forall>n. offset \<le> n \<and> n < sz \<and> n < res \<longrightarrow> \<not> P n)"
  using assms(2) res
proof (induction "sz - offset" arbitrary: offset msk rule: less_induct)
  case less
  show ?case
  proof (cases "offset < sz")
    case False
    then have "res = offset" using less.prems(2) by (simp add: find_bit_loop.simps [of val addr sz offset])
    then show ?thesis using False by auto
  next
    case True
    define w where "w = val (addr ! (offset div 64)) AND NOT msk"
    have w: "bit w m \<longleftrightarrow> offset mod 64 \<le> m \<and> bit (val (addr ! (offset div 64))) m" if "m < 64" for m
      using that less.prems(1) [of m] by (auto simp: w_def bit_and_iff bit_not_iff not_less)
    have block: "P n \<longleftrightarrow> bit w (n mod 64)" if "offset \<le> n" "n div 64 = offset div 64" for n
    proof -
      have "offset mod 64 \<le> n mod 64"
        using that div_mult_mod_eq [of n 64] div_mult_mod_eq [of offset 64] by linarith
      then show ?thesis using that w [of "n mod 64"] P [of n] by simp
    qed
    show ?thesis
    proof (cases "w = 0")
      case True
      define o' where "o' = offset + (63 - offset mod 64) + 1"
      have o': "o' = 64 * (offset div 64) + 64"
        using div_mult_mod_eq [of offset 64] mod_less_divisor [of 64 offset] unfolding o'_def by linarith
      have "o' \<le> res \<and> (res < sz \<longrightarrow> P res) \<and> (\<forall>n. o' \<le> n \<and> n < sz \<and> n < res \<longrightarrow> \<not> P n)"
      proof (rule less.hyps)
        show "sz - o' < sz - offset" using \<open>offset < sz\<close> by (simp add: o'_def)
        show "\<And>m. bit (0 :: u64) m \<longleftrightarrow> m < o' mod 64" by (simp add: o')
        show "res = find_bit_loop val addr sz o' 0"
          using less.prems(2) True \<open>offset < sz\<close>
          by (simp add: find_bit_loop.simps [of val addr sz offset] w_def BIT_WORD_def o'_def)
      qed
      moreover have "\<not> P n" if "offset \<le> n" "n < o'" for n
      proof -
        have "n div 64 = offset div 64" 
          using that o' times_div_less_eq_dividend [of 64 offset] by (intro div_nat_eqI) simp_all
        then show ?thesis using block [of n] that True by simp
      qed
      moreover have "offset \<le> o'" by (simp add: o'_def)
      ultimately show ?thesis by (meson not_less order_trans)
    next
      case False
      have res: "res = (ffsl w - 1) + 64 * (offset div 64)"
        using less.prems(2) False \<open>offset < sz\<close>
        by (simp add: find_bit_loop.simps [of val addr sz offset] w_def BIT_WORD_def)
      then have d: "res div 64 = offset div 64" "res mod 64 = ffsl w - 1"
        using ffsl_least(2) [OF False] by simp_all
      have "offset mod 64 \<le> ffsl w - 1"
        using ffsl_least(1,2) [OF False] w by blast
      then have le: "offset \<le> res" using res div_mult_mod_eq [of offset 64] by linarith
      moreover have "P res" using block [OF le d(1)] d(2) ffsl_least(1) [OF False] by simp
      moreover have "\<not> P n" if "offset \<le> n" "n < res" for n
      proof -
        have n: "n div 64 = offset div 64" using that d(1) by (metis div_le_mono le_antisym order_less_imp_le)
        moreover have "n mod 64 < ffsl w - 1"
          using that(2) n d div_mult_mod_eq [of n 64] div_mult_mod_eq [of res 64] by linarith
        ultimately show ?thesis using block [of n] that ffsl_least(3) [OF False] by simp
      qed
      ultimately show ?thesis by blast
    qed
  qed
qed

section \<open>Lemmas on reversal and weight\<close>

lemma less_8_cases: "(n :: nat) < 8 \<Longrightarrow> n = 0 \<or> n = 1 \<or> n = 2 \<or> n = 3 \<or> n = 4 \<or> n = 5 \<or> n = 6 \<or> n = 7"
  by auto
lemma less_16_cases: "(n :: nat) < 16 \<Longrightarrow> n = 0 \<or> n = 1 \<or> n = 2 \<or> n = 3 \<or> n = 4 \<or> n = 5 \<or> n = 6 \<or> n = 7 \<or>
  n = 8 \<or> n = 9 \<or> n = 10 \<or> n = 11 \<or> n = 12 \<or> n = 13 \<or> n = 14 \<or> n = 15"
  by arith

lemma bit_bitrev8: "n < 8 \<Longrightarrow> bit (bitrev8 a) n = bit a (7 - n)"
  by (drule less_8_cases, elim disjE) (simp_all add: bitrev8_def bit_simps bit_times_2)

text \<open>Each round of \<open>bitrev16\<close> exchanges neighbouring groups of bits.\<close>

lemma bitrev16_masks:
  assumes "n < 16"
  shows "bit (0x5555 :: u16) n = (n mod 2 = 0)" "bit (0xAAAA :: u16) n = (n mod 2 = 1)"
    "bit (0x3333 :: u16) n = (n mod 4 < 2)" "bit (0xCCCC :: u16) n = (2 \<le> n mod 4)"
    "bit (0x0F0F :: u16) n = (n mod 8 < 4)" "bit (0xF0F0 :: u16) n = (4 \<le> n mod 8)"
    "bit (0x00FF :: u16) n = (n < 8)" "bit (0xFF00 :: u16) n = (8 \<le> n)"
  using less_16_cases [OF assms] by (elim disjE; simp)+

definition swap_groups :: "nat \<Rightarrow> u16 \<Rightarrow> u16 \<Rightarrow> u16 \<Rightarrow> u16" where
  "swap_groups k l h a = push_bit k (a AND l) OR drop_bit k (a AND h)"

lemma bit_swap_groups:
  "n < 16 \<Longrightarrow> bit (swap_groups k l h a) n = (k \<le> n \<and> bit a (n - k) \<and> bit l (n - k) \<or> bit a (k + n) \<and> bit h (k + n))"
  by (auto simp: swap_groups_def bit_or_iff bit_push_bit_iff bit_drop_bit_eq bit_and_iff)

lemma bitrev16_swap_groups:
  "bitrev16 a = swap_groups 8 0x00FF 0xFF00 (swap_groups 4 0x0F0F 0xF0F0 (swap_groups 2 0x3333 0xCCCC (swap_groups 1 0x5555 0xAAAA a)))"
  by (simp only: bitrev16_def Let_def swap_groups_def)

lemma bit_swap_groups_beyond: "16 \<le> n \<Longrightarrow> \<not> bit (a :: u16) n"
  by (auto dest: bit_imp_le_length)

lemma bit_bitrev16:
  assumes "n < 16"
  shows "bit (bitrev16 a) n = bit a (15 - n)"
  unfolding bitrev16_swap_groups
  using less_16_cases [OF assms]
  by (elim disjE, simp_all add: bit_swap_groups bitrev16_masks bit_swap_groups_beyond) (simp_all add: numeral_3_eq_3)

lemma hweight8_quarters:
  "\<forall>i \<in> set [0..<64]. hweight8 (of_nat i) = of_nat (weight (of_nat i :: u8))"
  "\<forall>i \<in> set [64..<128]. hweight8 (of_nat i) = of_nat (weight (of_nat i :: u8))"
  "\<forall>i \<in> set [128..<192]. hweight8 (of_nat i) = of_nat (weight (of_nat i :: u8))"
  "\<forall>i \<in> set [192..<256]. hweight8 (of_nat i) = of_nat (weight (of_nat i :: u8))"
  subgoal by code_simp
  subgoal by code_simp
  subgoal by code_simp
  subgoal by code_simp
  done

lemma hweight8_weight: "hweight8 (ucast (b :: u8)) = of_nat (weight b)"
proof -
  have "unat b \<in> set [0..<64] \<or> unat b \<in> set [64..<128] \<or> unat b \<in> set [128..<192] \<or> unat b \<in> set [192..<256]"
    unfolding set_upt atLeastLessThan_iff using unat_u8_less [of b] by linarith
  with hweight8_quarters have "hweight8 (of_nat (unat b)) = of_nat (weight (of_nat (unat b) :: u8))" by blast
  then show ?thesis by simp
qed

lemma weight_le: "weight (w :: 'a::len word) \<le> LENGTH('a)"
  using length_filter_le [of "bit w" "[0..<LENGTH('a)]"] by (simp add: weight_def)

lemma memweight_sum: "memweight ptr = of_nat (\<Sum>b \<leftarrow> ptr. weight b)"
proof -
  have w: "ucast (hweight8 (ucast b)) = (of_nat (weight b) :: u64)" for b :: u8
    using weight_le [of b]
    by (simp add: hweight8_weight word_unat_eq_iff unat_ucast_mod unsigned_of_nat take_bit_nat_eq_self)
  have "foldl (\<lambda>y b. y + ucast (hweight8 (ucast b))) a ptr = a + of_nat (\<Sum>b \<leftarrow> ptr. weight b)" for a :: u64
    by (induction ptr arbitrary: a) (simp_all add: w algebra_simps)
  then show ?thesis by (simp add: memweight_def)
qed

lemma sum_weight_le: "(\<Sum>b \<leftarrow> ptr. weight (b :: u8)) \<le> 8 * length ptr"
proof (induction ptr)
  case (Cons b ptr)
  then show ?case using weight_le [of b] by simp
qed simp

lemma bitrev8_bitrev8: "bitrev8 (bitrev8 a) = a"
  by (rule bit_word_eqI) (simp add: bit_bitrev8)

lemma bitrev16_bitrev16: "bitrev16 (bitrev16 a) = a"
  by (rule bit_word_eqI) (simp add: bit_bitrev16)

lemma find_next_result:
  assumes "sz \<le> 64 * length addr" "offset \<le> sz"
    and P: "\<And>n. P n \<longleftrightarrow> bit (val (addr ! (n div 64))) (n mod 64)"
    and res: "res = (let offset = find_bit_loop val addr sz offset (BIT_MASK offset - 1)
      in if offset > sz then sz else offset)"
  shows "offset \<le> res \<and> res \<le> sz \<and> (res < sz \<longrightarrow> P res) \<and> (\<forall>n. offset \<le> n \<and> n < res \<longrightarrow> \<not> P n)"
proof -
  have "BIT_MASK offset - 1 = mask (offset mod 64)"
    by (simp add: BIT_MASK_def mask_eq_exp_minus_1)
  then have "bit (BIT_MASK offset - 1) m \<longleftrightarrow> m < offset mod 64" for m
    using mod_less_divisor [of 64 offset] by (auto simp: bit_mask_iff)
  from find_bit_loop_first [OF assms(1) this P refl] show ?thesis
    using assms(2) res by (auto simp: Let_def)
qed

section \<open>Properties\<close>

text \<open>\<open>set_bit\<close>, \<open>clear_bit\<close> and \<open>change_bit\<close> set, clear and flip the bit with the given
  number and no other bit of the array, and the test-and-modify variants make the same
  change and return the old value of the bit.\<close>

theorem bit_operations:
  assumes "nr < 64 * length addr"
  shows "test_bit n (set_bit_nr nr addr) = (n = nr \<or> test_bit n addr) \<and>
    test_bit n (clear_bit nr addr) = (n \<noteq> nr \<and> test_bit n addr) \<and>
    test_bit n (change_bit nr addr) = (test_bit n addr \<noteq> (n = nr)) \<and>
    test_and_set_bit nr addr = (test_bit nr addr, set_bit_nr nr addr) \<and>
    test_and_clear_bit nr addr = (test_bit nr addr, clear_bit nr addr)"
  using test_bit_writes [OF assms]
  by (simp add: test_and_set_bit_def test_and_clear_bit_def test_bit_def set_bit_nr_def clear_bit_def Let_def)

theorem bit_operations_witness: "test_bit 65 (set_bit_nr 65 [0, 0]) \<and> \<not> test_bit 64 (set_bit_nr 65 [0, 0])"
  using bit_operations [of 65 "[0, 0]" 65] bit_operations [of 65 "[0, 0]" 64] by (simp add: test_bit_bit)

text \<open>\<open>find_next_bit\<close> and \<open>find_next_zero_bit\<close> return the first bit number from the offset
  on that is set, or clear, and the size when there is none below it.\<close>

theorem find_next_bit_first:
  assumes "sz \<le> 64 * length addr" "offset \<le> sz"
  shows "(let r = find_next_bit addr sz offset in
      offset \<le> r \<and> r \<le> sz \<and> (r < sz \<longrightarrow> test_bit r addr) \<and>
      (\<forall>n. offset \<le> n \<and> n < r \<longrightarrow> \<not> test_bit n addr)) \<and>
    (let r = find_next_zero_bit addr sz offset in
      offset \<le> r \<and> r \<le> sz \<and> (r < sz \<longrightarrow> \<not> test_bit r addr) \<and>
      (\<forall>n. offset \<le> n \<and> n < r \<longrightarrow> test_bit n addr))"
proof -
  have set: "test_bit n addr \<longleftrightarrow> bit (addr ! (n div 64)) (n mod 64)"
    and clear: "\<not> test_bit n addr \<longleftrightarrow> bit (NOT (addr ! (n div 64))) (n mod 64)" for n
    by (simp_all add: test_bit_bit bit_not_iff)
  show ?thesis
    using find_next_result [OF assms, where val = "\<lambda>w. w", OF set find_next_bit_def]
      find_next_result [OF assms, where val = "\<lambda>w. NOT w", OF clear find_next_zero_bit_def]
    unfolding Let_def not_not by blast
qed

theorem find_next_bit_first_witness:
  "find_next_bit [0, 4] 128 3 = 66 \<and> \<not> test_bit 10 [0, 4]"
proof -
  have "find_next_bit [0, 4] 128 3 = 66" by code_simp
  then show ?thesis using find_next_bit_first [of 128 "[0, 4]" 3] by (simp add: Let_def)
qed

text \<open>\<open>fls\<close> and \<open>__flsl\<close> return the number of the last bit set, counted from 1, and 0
  for a zero mask.\<close>

theorem fls_last_bit:
  "(msk \<noteq> 0 \<longrightarrow> 0 < fls msk \<and> 2 ^ (fls msk - 1) \<le> unat msk \<and> unat msk < 2 ^ fls msk) \<and> fls 0 = 0 \<and>
   (lmsk \<noteq> 0 \<longrightarrow> 0 < uu_flsl lmsk \<and> 2 ^ (uu_flsl lmsk - 1) \<le> unat lmsk \<and> unat lmsk < 2 ^ uu_flsl lmsk) \<and>
   uu_flsl 0 = 0"
proof -
  have "0 < fls msk" if "msk \<noteq> 0"
    using fls_bounds [OF that] that by (cases "fls msk") (auto simp: unat_eq_0)
  moreover have "0 < uu_flsl lmsk" if "lmsk \<noteq> 0"
    using flsl_bounds [OF that] that by (cases "uu_flsl lmsk") (auto simp: unat_eq_0)
  ultimately show ?thesis
    using fls_bounds flsl_bounds by (simp add: fls_def uu_flsl_def)
qed

theorem fls_last_bit_witness: "fls 0x1234 = 13 \<and> unat (0x1234 :: u32) < 2 ^ fls 0x1234"
proof -
  have "fls 0x1234 = 13" by code_simp
  then show ?thesis using fls_last_bit [of "0x1234" 0] by simp
qed

text \<open>\<open>memweight\<close> counts the bits set in a buffer, which \<open>hweight8\<close> does for each byte.\<close>

theorem memweight_counts_bits:
  assumes "8 * length ptr < 2 ^ 64"
  shows "unat (memweight ptr) = (\<Sum>b \<leftarrow> ptr. card {n. n < 8 \<and> bit b n})"
proof -
  have "weight b = card {n. n < 8 \<and> bit b n}" for b :: u8
    by (simp add: weight_def length_filter_conv_card conj_commute cong: conj_cong)
  then have "(\<Sum>b \<leftarrow> ptr. card {n. n < 8 \<and> bit b n}) = (\<Sum>b \<leftarrow> ptr. weight b)" by simp
  then show ?thesis
    using sum_weight_le [of ptr] assms
    by (simp add: memweight_sum unsigned_of_nat take_bit_nat_eq_self)
qed

theorem memweight_counts_bits_witness:
  "(\<Sum>b \<leftarrow> [0xFF, 0x11 :: u8]. card {n. n < 8 \<and> bit b n}) = 10"
proof -
  have "memweight [0xFF, 0x11] = 10" by code_simp
  then show ?thesis using memweight_counts_bits [of "[0xFF, 0x11]"] by simp
qed

end
