(* ===== verification/Bitmaps.thy ===== *)
theory Bitmaps
  imports Bit_Ops
begin

text \<open>
  The bitmap operations of \<open>kernel/linux_func.c\<close>.  A bitmap is the list of the words of
  the array; the abstraction of a bitmap is its bits, which \<open>test_bit\<close> reads.  A loop over
  the words or bits is a fold over their numbers, and a loop that leaves with a result
  at the first hit is a bounded quantifier over them.
\<close>

section \<open>Model\<close>

definition BITS_TO_LONGS :: "nat \<Rightarrow> nat" where
  "BITS_TO_LONGS n = (n + 64 - 1) div 64"

definition bitmap_copy :: "u64 list \<Rightarrow> u64 list \<Rightarrow> nat \<Rightarrow> u64 list" where
  "bitmap_copy dst src nbits =
     (let len = BITS_TO_LONGS nbits in take len src @ drop len dst)"

definition bitmap_weight :: "u64 list \<Rightarrow> nat \<Rightarrow> u32" where
  "bitmap_weight src nbits =
     foldl (\<lambda>y x. if src ! (x div 64) AND BIT_MASK x \<noteq> 0 then y + 1 else y) 0 [0..<nbits]"

definition bitmap_andnot :: "u64 list \<Rightarrow> u64 list \<Rightarrow> u64 list \<Rightarrow> nat \<Rightarrow> bool \<times> u64 list" where
  "bitmap_andnot dst b1 b2 nbits =
     (let len = (nbits + 64 - 1) div 64;
          (dst, retval) = foldl (\<lambda>(dst, retval) n.
            let temp = b1 ! n AND NOT (b2 ! n) in (dst[n := temp], retval OR temp)) (dst, 0) [0..<len]
      in (retval \<noteq> 0, dst))"

definition bitmap_and :: "u64 list \<Rightarrow> u64 list \<Rightarrow> u64 list \<Rightarrow> nat \<Rightarrow> bool \<times> u64 list" where
  "bitmap_and dst b1 b2 nbits =
     (let len = (nbits + 64 - 1) div 64;
          (dst, retval) = foldl (\<lambda>(dst, retval) n.
            let temp = b1 ! n AND b2 ! n in (dst[n := temp], retval OR temp)) (dst, 0) [0..<len]
      in (retval \<noteq> 0, dst))"

definition bitmap_or :: "u64 list \<Rightarrow> u64 list \<Rightarrow> u64 list \<Rightarrow> nat \<Rightarrow> u64 list" where
  "bitmap_or dst b1 b2 nbits =
     (let len = (nbits + 64 - 1) div 64
      in foldl (\<lambda>dst n. let temp = b1 ! n OR b2 ! n in dst[n := temp]) dst [0..<len])"

definition bitmap_xor :: "u64 list \<Rightarrow> u64 list \<Rightarrow> u64 list \<Rightarrow> nat \<Rightarrow> u64 list" where
  "bitmap_xor dst b1 b2 nbits =
     (let len = (nbits + 64 - 1) div 64
      in foldl (\<lambda>dst n. let temp = b1 ! n OR b2 ! n in dst[n := temp]) dst [0..<len])"

definition bitmap_fill :: "u64 list \<Rightarrow> nat \<Rightarrow> u64 list" where
  "bitmap_fill dst nbits =
     (let len = BITS_TO_LONGS nbits in replicate len (- 1) @ drop len dst)"

definition bitmap_zero :: "u64 list \<Rightarrow> nat \<Rightarrow> u64 list" where
  "bitmap_zero dst nbits =
     (let len = BITS_TO_LONGS nbits in replicate len 0 @ drop len dst)"

definition bitmap_subset :: "u64 list \<Rightarrow> u64 list \<Rightarrow> nat \<Rightarrow> bool" where
  "bitmap_subset pa pb nbits =
     (let last = nbits div 64; x = nbits mod 64
      in (\<forall>y < last. pa ! y AND NOT (pb ! y) = 0) \<and>
         (x \<noteq> 0 \<longrightarrow> pa ! last AND NOT (pb ! last) AND (push_bit x 1 - 1) = 0))"

definition bitmap_full :: "u64 list \<Rightarrow> nat \<Rightarrow> bool" where
  "bitmap_full bitmap bits =
     (let k = bits div 64; lim = bits mod 64
      in (\<forall>x < k. NOT (bitmap ! x) = 0) \<and>
         (lim \<noteq> 0 \<longrightarrow> NOT (bitmap ! k) AND (push_bit lim 1 - 1) = 0))"

text \<open>The loop of \<open>bitmap_clear\<close>; \<open>p\<close> is the index of the word that the pointer points to.
  The loop variable \<open>bits_to_clear\<close> is never zero.\<close>

function bitmap_clear_loop :: "u64 list \<Rightarrow> nat \<Rightarrow> nat \<Rightarrow> nat \<Rightarrow> u64 \<Rightarrow> u64 list \<times> nat \<times> nat \<times> u64" where
  "bitmap_clear_loop bmap p nr bits_to_clear mask_to_clear =
     (if bits_to_clear \<le> nr \<and> 0 < bits_to_clear then
        bitmap_clear_loop (bmap[p := bmap ! p AND NOT mask_to_clear]) (p + 1) (nr - bits_to_clear) 64 (- 1)
      else (bmap, p, nr, mask_to_clear))"
  by pat_completeness auto
termination
  by (relation "measure (\<lambda>(bmap, p, nr, bits_to_clear, mask_to_clear). nr)") auto

definition bitmap_clear :: "u64 list \<Rightarrow> nat \<Rightarrow> nat \<Rightarrow> u64 list" where
  "bitmap_clear bmap start nr =
     (let p = start div 64;
          sz = start + nr;
          rem = start mod 64;
          bits_to_clear = 64 - rem;
          mask_to_clear = push_bit rem 1 - 1;
          (bmap, p, nr, mask_to_clear) = bitmap_clear_loop bmap p nr bits_to_clear mask_to_clear
      in if nr \<noteq> 0 then
           let sz = sz mod 64;
               mask_to_clear = mask_to_clear AND (push_bit sz 1 - 1)
           in bmap[p := bmap ! p AND NOT mask_to_clear]
         else bmap)"

text \<open>The body that copies bit \<open>y\<close> of the source to bit \<open>x\<close> of the destination, and the one
  that clears bit \<open>x\<close>.\<close>

definition bitmap_copy_bit :: "u64 list \<Rightarrow> nat \<Rightarrow> u64 list \<Rightarrow> nat \<Rightarrow> u64 list" where
  "bitmap_copy_bit src y dst x =
     (if src ! (y div 64) AND BIT_MASK y \<noteq> 0
      then dst[x div 64 := dst ! (x div 64) OR BIT_MASK x]
      else dst[x div 64 := dst ! (x div 64) AND NOT (BIT_MASK x)])"

definition bitmap_clear_bit :: "u64 list \<Rightarrow> nat \<Rightarrow> u64 list" where
  "bitmap_clear_bit dst x = dst[x div 64 := dst ! (x div 64) AND NOT (BIT_MASK x)]"

definition bitmap_shift_right :: "u64 list \<Rightarrow> u64 list \<Rightarrow> nat \<Rightarrow> nat \<Rightarrow> u64 list" where
  "bitmap_shift_right dst src n nbits =
     (let dst = foldl (\<lambda>dst x. bitmap_copy_bit src (x + n) dst x) dst [0..<nbits - n]
      in foldl bitmap_clear_bit dst [nbits - n..<nbits])"

definition bitmap_shift_left :: "u64 list \<Rightarrow> u64 list \<Rightarrow> nat \<Rightarrow> nat \<Rightarrow> u64 list" where
  "bitmap_shift_left dst src n nbits =
     (let dst = foldl bitmap_clear_bit dst [0..<n]
      in foldl (\<lambda>dst x. bitmap_copy_bit src (x - n) dst x) dst [n..<nbits])"

definition bitmap_equal :: "u64 list \<Rightarrow> u64 list \<Rightarrow> nat \<Rightarrow> bool" where
  "bitmap_equal pa pb bits =
     (let k = bits div 64
      in (\<forall>x < k. pa ! x = pb ! x) \<and>
         (\<forall>lim < bits mod 64. (pa ! k XOR pb ! k) AND BIT_MASK lim = 0))"

definition bitmap_empty :: "u64 list \<Rightarrow> nat \<Rightarrow> bool" where
  "bitmap_empty pa bits =
     (let k = bits div 64
      in (\<forall>x < k. pa ! x = 0) \<and> (\<forall>lim < bits mod 64. pa ! k AND BIT_MASK lim = 0))"

definition bitmap_intersects :: "u64 list \<Rightarrow> u64 list \<Rightarrow> nat \<Rightarrow> bool" where
  "bitmap_intersects pa pb bits =
     (let k = bits div 64
      in (\<exists>x < k. pa ! x AND pb ! x \<noteq> 0) \<or>
         (\<exists>lim < bits mod 64. (pa ! k AND pb ! k) AND BIT_MASK lim \<noteq> 0))"

section \<open>Loops over words\<close>

lemma word_loop:
  assumes "len \<le> length dst"
  shows "foldl (\<lambda>dst n. dst[n := f n]) dst [0..<len] = map f [0..<len] @ drop len dst"
  using assms
proof (induction len)
  case (Suc len)
  then have "drop len dst = dst ! len # drop (Suc len) dst" by (simp add: Cons_nth_drop_Suc)
  with Suc show ?case by (simp add: list_update_append)
qed simp

lemma word_or_loop:
  assumes "len \<le> length dst"
  shows "foldl (\<lambda>(dst, r) n. (dst[n := f n], r OR f n)) (dst, 0) [0..<len] =
    (map f [0..<len] @ drop len dst, foldl (\<lambda>r n. r OR f n) 0 [0..<len])"
  using assms
proof (induction len)
  case (Suc len)
  then have "drop len dst = dst ! len # drop (Suc len) dst" by (simp add: Cons_nth_drop_Suc)
  with Suc show ?case by (simp add: list_update_append)
qed simp

lemma or_loop_zero: "foldl (\<lambda>r n. r OR f n) (0 :: u64) [0..<len] = 0 \<longleftrightarrow> (\<forall>n < len. f n = 0)"
  by (induction len) (auto simp: less_Suc_eq or_eq_0_iff)

lemma word_zero_iff: "(w :: u64) = 0 \<longleftrightarrow> (\<forall>m < 64. \<not> bit w m)"
  by (auto simp: bit_eq_iff [of w])

lemma words_bits: "(\<forall>k < K. \<forall>m < 64. P (64 * k + m)) \<longleftrightarrow> (\<forall>i < 64 * K. P (i :: nat))"
proof (intro iffI allI impI)
  fix i assume all: "\<forall>k < K. \<forall>m < 64. P (64 * k + m)" and i: "i < 64 * K"
  have "i div 64 < K" using i by (simp add: less_mult_imp_div_less mult.commute)
  with all [rule_format, of "i div 64" "i mod 64"] show "P i" by simp
next
  fix k m assume all: "\<forall>i < 64 * K. P i" and k: "k < K" and m: "m < (64 :: nat)"
  have "64 * Suc k \<le> 64 * K" using k by (intro mult_le_mono2) simp
  then show "P (64 * k + m)" using all m by simp
qed

text \<open>A predicate on the bits below \<open>bits\<close>, tested on the full words and on the rest.\<close>

lemma split_bits:
  "(\<forall>i < bits. P (i :: nat)) \<longleftrightarrow> (\<forall>k < bits div 64. \<forall>m < 64. P (64 * k + m)) \<and> (\<forall>m < bits mod 64. P (64 * (bits div 64) + m))"
proof -
  define a where "a = 64 * (bits div 64)"
  have b: "bits = a + bits mod 64" by (simp add: a_def)
  have "(\<forall>i < bits. P i) \<longleftrightarrow> (\<forall>i < a. P i) \<and> (\<forall>m < bits mod 64. P (a + m))"
  proof (intro iffI conjI allI impI)
    fix i assume all: "(\<forall>i < a. P i) \<and> (\<forall>m < bits mod 64. P (a + m))" and i: "i < bits"
    show "P i"
    proof (cases "i < a")
      case False
      then have "i - a < bits mod 64" using i b by linarith
      then show ?thesis using all False by (metis le_add_diff_inverse not_less)
    qed (use all in simp)
  qed (use b in auto)
  then show ?thesis unfolding words_bits a_def .
qed

lemma test_bit_word: "m < 64 \<Longrightarrow> test_bit (64 * k + m) pa \<longleftrightarrow> bit (pa ! k) m"
  by (simp add: test_bit_bit)

lemma low_mask: "push_bit x 1 - 1 = (mask x :: u64)"
  by (simp add: mask_eq_exp_minus_1)

lemma low_mask_pow: "2 ^ x - 1 = (mask x :: u64)"
  by (simp add: mask_eq_exp_minus_1)

section \<open>Loops over bits\<close>

lemma length_bit_loop: "length (foldl bitmap_clear_bit dst xs) = length dst"
  "length (foldl (\<lambda>dst x. bitmap_copy_bit src (f x) dst x) dst xs) = length dst"
  by (induction xs arbitrary: dst) (simp_all add: bitmap_clear_bit_def bitmap_copy_bit_def)

lemma bit_bodies:
  "bitmap_copy_bit src y dst x = (if test_bit y src then set_bit_nr x dst else clear_bit x dst)"
  "bitmap_clear_bit dst x = clear_bit x dst"
  by (simp_all add: bitmap_copy_bit_def bitmap_clear_bit_def test_bit_def set_bit_nr_def clear_bit_def BIT_WORD_def)

lemma copy_bit: "x < 64 * length dst \<Longrightarrow>
    test_bit i (bitmap_copy_bit src y dst x) = (if i = x then test_bit y src else test_bit i dst)"
  by (simp add: bit_bodies test_bit_writes)

lemma clear_loop:
  "\<forall>x \<in> set xs. x < 64 * length dst \<Longrightarrow>
   test_bit i (foldl bitmap_clear_bit dst xs) = (i \<notin> set xs \<and> test_bit i dst)"
proof (induction xs arbitrary: dst)
  case (Cons x xs)
  have "length (clear_bit x dst) = length dst" by (simp add: clear_bit_def)
  with Cons show ?case by (auto simp: bit_bodies test_bit_writes)
qed simp

lemma copy_loop:
  "\<forall>x \<in> set xs. x < 64 * length dst \<Longrightarrow>
   test_bit i (foldl (\<lambda>dst x. bitmap_copy_bit src (f x) dst x) dst xs) =
     (if i \<in> set xs then test_bit (f i) src else test_bit i dst)"
proof (induction xs arbitrary: dst)
  case (Cons x xs)
  have "length (bitmap_copy_bit src (f x) dst x) = length dst" by (simp add: bitmap_copy_bit_def)
  with Cons show ?case by (auto simp: copy_bit)
qed simp

section \<open>Clearing a range\<close>

lemma div_64_iff: "i div 64 = p \<longleftrightarrow> 64 * p \<le> i \<and> i < 64 * (p + 1)" for i p :: nat
proof
  assume "i div 64 = p"
  then show "64 * p \<le> i \<and> i < 64 * (p + 1)"
    using dividend_less_times_div [of 64 i] times_div_less_eq_dividend [of 64 i] by simp
qed (auto intro: div_nat_eqI)

declare bitmap_clear_loop.simps [simp del]

text \<open>From a word boundary on, the loop clears whole words and leaves less than a word.\<close>

lemma clear_words:
  assumes "64 * p + nr \<le> 64 * length bmap" "bitmap_clear_loop bmap p nr 64 (- 1) = (bmap', p', nr', m')"
  shows "length bmap' = length bmap \<and> p' = p + nr div 64 \<and> nr' = nr mod 64 \<and> m' = - 1 \<and>
    (\<forall>i. test_bit i bmap' \<longleftrightarrow> test_bit i bmap \<and> \<not> (64 * p \<le> i \<and> i < 64 * p'))"
  using assms
proof (induction nr arbitrary: bmap p rule: less_induct)
  case (less nr)
  show ?case
  proof (cases "64 \<le> nr")
    case False
    then show ?thesis
      using less.prems by (auto simp: bitmap_clear_loop.simps [of bmap])
  next
    case True
    let ?b = "bmap[p := bmap ! p AND NOT (- 1)]"
    have p: "p < length bmap" using True less.prems(1) by linarith
    have one: "test_bit i ?b \<longleftrightarrow> test_bit i bmap \<and> i div 64 \<noteq> p" for i
      using p by (auto simp: test_bit_bit nth_list_update)
    have step: "length bmap' = length ?b \<and> p' = p + 1 + (nr - 64) div 64 \<and> nr' = (nr - 64) mod 64 \<and> m' = - 1 \<and>
        (\<forall>i. test_bit i bmap' \<longleftrightarrow> test_bit i ?b \<and> \<not> (64 * (p + 1) \<le> i \<and> i < 64 * p'))"
    proof (rule less.IH)
      show "nr - 64 < nr" using True by simp
      show "64 * (p + 1) + (nr - 64) \<le> 64 * length ?b" using True less.prems(1) by simp
      show "bitmap_clear_loop ?b (p + 1) (nr - 64) 64 (- 1) = (bmap', p', nr', m')"
        using True less.prems(2) by (simp add: bitmap_clear_loop.simps [of bmap])
    qed
    then have "p + 1 \<le> p'" by simp
    then have "i div 64 \<noteq> p \<and> \<not> (64 * (p + 1) \<le> i \<and> i < 64 * p') \<longleftrightarrow> \<not> (64 * p \<le> i \<and> i < 64 * p')" for i
      unfolding div_64_iff by auto
    then have "test_bit i bmap' \<longleftrightarrow> test_bit i bmap \<and> \<not> (64 * p \<le> i \<and> i < 64 * p')" for i
      using step one by blast
    moreover have "(nr - 64) div 64 + 1 = nr div 64" "(nr - 64) mod 64 = nr mod 64"
      using True by (simp_all add: le_div_geq le_mod_geq)
    ultimately show ?thesis using step by simp
  qed
qed

lemma clear_low:
  "p < length bmap \<Longrightarrow> test_bit i (bmap[p := bmap ! p AND NOT (mask n)]) \<longleftrightarrow>
     test_bit i bmap \<and> \<not> (i div 64 = p \<and> i mod 64 < n)"
  by (auto simp: test_bit_bit nth_list_update bit_and_iff bit_not_iff bit_mask_iff)

lemma clear_range:
  assumes "start + nr \<le> 64 * length bmap" "0 < nr"
  shows "test_bit i (bitmap_clear bmap start nr) \<longleftrightarrow> test_bit i bmap \<and>
    \<not> (i div 64 = start div 64 \<and> i mod 64 < start mod 64 \<or> start div 64 < i div 64 \<and> i < start + nr)"
proof -
  define p r where "p = start div 64" and "r = start mod 64"
  have start: "start = 64 * p + r" "r < 64" by (simp_all add: p_def r_def)
  have p: "p < length bmap" using assms start by linarith
  show ?thesis
  proof (cases "64 - r \<le> nr")
    case False
    then have lt: "r + nr < 64" by simp
    have "start + nr = (r + nr) + 64 * p" using start by simp
    then have sz: "(start + nr) mod 64 = r + nr" "r + nr < 64" using lt by (simp_all only: mod_mult_self2 mod_less)
    have m: "NOT (2 ^ r - 1) OR NOT (2 ^ (r + nr) - 1) = NOT (mask r :: u64)"
      unfolding mask_eq_exp_minus_1 [symmetric]
      by (rule bit_word_eqI) (auto simp: bit_or_iff bit_not_iff bit_mask_iff)
    have "bitmap_clear bmap start nr = bmap[p := bmap ! p AND NOT (mask r)]"
      using False assms(2) sz m by (simp add: bitmap_clear_def Let_def bitmap_clear_loop.simps [of bmap] low_mask flip: p_def r_def)
    moreover have "\<not> (p < i div 64 \<and> i < start + nr)" using start sz by (auto simp: div_less_iff_less_mult not_less)
    ultimately show ?thesis using clear_low [OF p, of i r] by (simp flip: p_def r_def)
  next
    case True
    define b1 where "b1 = bmap[p := bmap ! p AND NOT (mask r)]"
    define n1 where "n1 = nr - (64 - r)"
    obtain b2 p2 n2 m2 where loop: "bitmap_clear_loop b1 (p + 1) n1 64 (- 1) = (b2, p2, n2, m2)"
      by (metis prod_cases4)
    have "64 * (p + 1) + n1 \<le> 64 * length b1" using True assms(1) start by (simp add: n1_def b1_def)
    note words = clear_words [OF this loop]
    have sum: "start + nr = 64 * (p + 1) + n1" using True start by (simp add: n1_def)
    have "start + nr = n1 + 64 * (p + 1)" using sum by simp
    then have sz: "(start + nr) mod 64 = n2" using words by (simp only: mod_mult_self2)
    have res: "bitmap_clear bmap start nr = (if n2 \<noteq> 0 then b2[p2 := b2 ! p2 AND NOT (mask n2)] else b2)"
    proof -
      have "bitmap_clear_loop bmap p nr (64 - r) (push_bit r 1 - 1) = (b2, p2, n2, - 1)"
        using True start(2) loop words by (simp add: bitmap_clear_loop.simps [of bmap] b1_def n1_def low_mask_pow)
      then show ?thesis
        unfolding bitmap_clear_def p_def [symmetric] r_def [symmetric] Let_def sz
        by (simp add: low_mask_pow)
    qed
    have tot: "start + nr = 64 * p2 + n2" using sum words by simp
    have last: "p2 < length b2" if "n2 \<noteq> 0"
    proof -
      have "length b2 = length bmap" using words by (simp add: b1_def)
      then show ?thesis using that tot assms(1) by linarith
    qed
    have bits: "test_bit i (bitmap_clear bmap start nr) \<longleftrightarrow> test_bit i bmap \<and> \<not> (i div 64 = p \<and> i mod 64 < r) \<and>
        \<not> (64 * (p + 1) \<le> i \<and> i < 64 * p2) \<and> \<not> (i div 64 = p2 \<and> i mod 64 < n2)"
      using res words clear_low [OF p, of i r] last clear_low [of p2 b2 i n2]
      by (cases "n2 = 0") (auto simp: b1_def)
    have "i div 64 = p2 \<and> i mod 64 < n2 \<longleftrightarrow> 64 * p2 \<le> i \<and> i < 64 * p2 + n2"
    proof -
      have "n2 < 64" using words by simp
      then have "i div 64 = p2" if "64 * p2 \<le> i" "i < 64 * p2 + n2" using that by (simp add: div_64_iff)
      moreover have "i = 64 * (i div 64) + i mod 64" by simp
      ultimately show ?thesis by (metis le_add1 nat_add_left_cancel_less)
    qed
    moreover have "p + 1 \<le> p2" using words by simp
    moreover have "p < i div 64 \<longleftrightarrow> 64 * (p + 1) \<le> i"
      by (metis Suc_eq_plus1 Suc_le_eq less_eq_div_iff_mult_less_eq mult.commute zero_less_numeral)
    ultimately show ?thesis
      unfolding tot bits p_def [symmetric] r_def [symmetric] by auto
  qed
qed

section \<open>Lemmas on the operations\<close>

lemma bits_words: "i < nbits \<Longrightarrow> i div 64 < (nbits + 64 - 1) div 64"
  for i nbits :: nat
proof -
  assume "i < nbits"
  then have "(i + 64) div 64 \<le> (nbits + 64 - 1) div 64" by (intro div_le_mono) simp
  then show ?thesis by simp
qed

lemma words_fit: "nbits \<le> 64 * n \<Longrightarrow> (nbits + 64 - 1) div 64 \<le> n" for nbits n :: nat
  using div_le_mono [of "nbits + 64 - 1" "64 * n + 63" 64] by simp

lemma mapped_bit:
  "i < nbits \<Longrightarrow> test_bit i (map f [0..<(nbits + 64 - 1) div 64] @ rest) = bit (f (i div 64)) (i mod 64)"
  using bits_words [of i nbits] by (simp add: test_bit_bit nth_append)

lemma bitmap_binary:
  assumes "nbits \<le> 64 * length dst"
  shows "snd (bitmap_and dst b1 b2 nbits) =
      map (\<lambda>n. b1 ! n AND b2 ! n) [0..<(nbits + 64 - 1) div 64] @ drop ((nbits + 64 - 1) div 64) dst"
    and "snd (bitmap_andnot dst b1 b2 nbits) =
      map (\<lambda>n. b1 ! n AND NOT (b2 ! n)) [0..<(nbits + 64 - 1) div 64] @ drop ((nbits + 64 - 1) div 64) dst"
    and "bitmap_or dst b1 b2 nbits =
      map (\<lambda>n. b1 ! n OR b2 ! n) [0..<(nbits + 64 - 1) div 64] @ drop ((nbits + 64 - 1) div 64) dst"
    and "fst (bitmap_and dst b1 b2 nbits) \<longleftrightarrow> (\<exists>n < (nbits + 64 - 1) div 64. b1 ! n AND b2 ! n \<noteq> 0)"
    and "fst (bitmap_andnot dst b1 b2 nbits) \<longleftrightarrow> (\<exists>n < (nbits + 64 - 1) div 64. b1 ! n AND NOT (b2 ! n) \<noteq> 0)"
  using word_loop [OF words_fit [OF assms]] word_or_loop [OF words_fit [OF assms]] or_loop_zero
  by (simp_all add: bitmap_and_def bitmap_andnot_def bitmap_or_def Let_def)

lemma masked_zero: "w AND mask x = (0 :: u64) \<longleftrightarrow> (\<forall>m < x. m < 64 \<longrightarrow> \<not> bit w m)"
  by (auto simp: word_zero_iff bit_and_iff bit_mask_iff)

lemma rest_less: "m < bits mod 64 \<Longrightarrow> m < (64 :: nat)"
  by (rule less_trans [OF _ mod_less_divisor]) simp_all

lemma word_minus_1_iff: "(w :: u64) = - 1 \<longleftrightarrow> (\<forall>m < 64. bit w m)"
  by (auto simp: bit_eq_iff [of w])

lemma word_eq_bits: "(a :: u64) = b \<longleftrightarrow> (\<forall>m < 64. bit a m = bit b m)"
  by (auto simp: bit_eq_iff [of a])

lemmas word_tests = Let_def low_mask_pow word_zero_iff word_minus_1_iff bit_and_iff bit_not_iff bit_xor_iff
  bit_mask_iff bit_BIT_MASK test_bit_word rest_less

lemma subset_bits: "bitmap_subset pa pb bits \<longleftrightarrow> (\<forall>i < bits. test_bit i pa \<longrightarrow> test_bit i pb)"
  by (subst split_bits) (auto simp: bitmap_subset_def word_tests dest: rest_less)

lemma full_bits: "bitmap_full pa bits \<longleftrightarrow> (\<forall>i < bits. test_bit i pa)"
  by (subst split_bits) (auto simp: bitmap_full_def word_tests dest: rest_less)

lemma equal_bits: "bitmap_equal pa pb bits \<longleftrightarrow> (\<forall>i < bits. test_bit i pa = test_bit i pb)"
  by (subst split_bits) (auto simp: bitmap_equal_def word_tests word_eq_bits dest: rest_less, (metis rest_less)+)

lemma empty_bits: "bitmap_empty pa bits \<longleftrightarrow> (\<forall>i < bits. \<not> test_bit i pa)"
  by (subst split_bits) (auto simp: bitmap_empty_def word_tests dest: rest_less, metis rest_less)

lemma intersects_bits: "bitmap_intersects pa pb bits \<longleftrightarrow> \<not> (\<forall>i < bits. \<not> (test_bit i pa \<and> test_bit i pb))"
  by (subst split_bits) (auto simp: bitmap_intersects_def word_tests dest: rest_less)

lemma weight_loop:
  "foldl (\<lambda>y x. if test_bit x src then y + 1 else y) (a :: u32) [0..<n] = a + of_nat (card {i. i < n \<and> test_bit i src})"
proof (induction n)
  case (Suc n)
  have "{i. i < Suc n \<and> test_bit i src} = {i. i < n \<and> test_bit i src} \<union> (if test_bit n src then {n} else {})"
    by (auto simp: less_Suc_eq)
  then show ?case using Suc by (auto simp: algebra_simps)
qed simp

section \<open>Properties\<close>

text \<open>\<open>bitmap_and\<close>, \<open>bitmap_andnot\<close> and \<open>bitmap_or\<close> compute intersection, difference and
  union of the bits below the size.  \<open>bitmap_xor\<close> computes the union too, not the
  symmetric difference.\<close>

theorem bitmap_set_operations:
  assumes "nbits \<le> 64 * length dst" "i < nbits"
  shows "test_bit i (snd (bitmap_and dst b1 b2 nbits)) = (test_bit i b1 \<and> test_bit i b2) \<and>
    test_bit i (snd (bitmap_andnot dst b1 b2 nbits)) = (test_bit i b1 \<and> \<not> test_bit i b2) \<and>
    test_bit i (bitmap_or dst b1 b2 nbits) = (test_bit i b1 \<or> test_bit i b2) \<and>
    test_bit i (bitmap_xor dst b1 b2 nbits) = (test_bit i b1 \<or> test_bit i b2)"
proof -
  have xor: "bitmap_xor dst b1 b2 nbits = bitmap_or dst b1 b2 nbits"
    by (simp add: bitmap_xor_def bitmap_or_def)
  show ?thesis
    unfolding xor bitmap_binary [OF assms(1)] mapped_bit [OF assms(2)] test_bit_bit [of i b1] test_bit_bit [of i b2]
    by (simp add: bit_and_iff bit_or_iff bit_not_iff)
qed

theorem bitmap_set_operations_witness:
  "test_bit 1 (snd (bitmap_and [0] [6] [3] 8)) \<and> test_bit 1 (bitmap_xor [0] [6] [3] 8)"
  using bitmap_set_operations [of 8 "[0]" 1 "[6]" "[3]"] by (simp add: test_bit_bit)

text \<open>The predicates on bitmaps decide inclusion, fullness, equality, emptiness and
  intersection of the bits below the size, whatever the bits above it are.\<close>

theorem bitmap_predicates:
  "bitmap_subset pa pb bits = (\<forall>i < bits. test_bit i pa \<longrightarrow> test_bit i pb) \<and>
   bitmap_full pa bits = (\<forall>i < bits. test_bit i pa) \<and>
   bitmap_equal pa pb bits = (\<forall>i < bits. test_bit i pa = test_bit i pb) \<and>
   bitmap_empty pa bits = (\<forall>i < bits. \<not> test_bit i pa) \<and>
   bitmap_intersects pa pb bits = (\<exists>i < bits. test_bit i pa \<and> test_bit i pb)"
  by (auto simp: subset_bits full_bits equal_bits empty_bits intersects_bits)

theorem bitmap_predicates_witness: "bitmap_full [7] 2 \<and> \<not> bitmap_empty [7] 2"
proof -
  have "test_bit i [7]" if "i < 2" for i
    using that by (auto simp: test_bit_bit dest!: less_2_cases)
  then show ?thesis
    using bitmap_predicates [of "[7]" "[7]" 2] by (metis zero_less_numeral)
qed

text \<open>\<open>bitmap_clear\<close> clears the bits of the words after the first one up to the end of the
  range, but in the first word it clears the bits below the start of the range and none
  of the range itself.\<close>

theorem bitmap_clear_effect:
  assumes "start + nr \<le> 64 * length bmap" "0 < nr"
  shows "test_bit i (bitmap_clear bmap start nr) \<longleftrightarrow> test_bit i bmap \<and>
    \<not> (i div 64 = start div 64 \<and> i mod 64 < start mod 64 \<or> start div 64 < i div 64 \<and> i < start + nr)"
  using assms by (rule clear_range)

theorem bitmap_clear_effect_witness:
  "test_bit 5 (bitmap_clear [0xFF, 0xFF] 0 72) \<and> \<not> test_bit 66 (bitmap_clear [0xFF, 0xFF] 0 72)"
  using bitmap_clear_effect [of 0 72 "[0xFF, 0xFF]" 5] bitmap_clear_effect [of 0 72 "[0xFF, 0xFF]" 66]
  by (simp add: test_bit_bit)

text \<open>\<open>bitmap_shift_right\<close> and \<open>bitmap_shift_left\<close> move every bit by the distance within
  the size and fill with zeros, and \<open>bitmap_weight\<close> counts the bits below the size.\<close>

theorem bitmap_shifts:
  assumes "nbits \<le> 64 * length dst" "n \<le> nbits" "i < nbits"
  shows "test_bit i (bitmap_shift_right dst src n nbits) = (i + n < nbits \<and> test_bit (i + n) src) \<and>
    test_bit i (bitmap_shift_left dst src n nbits) = (n \<le> i \<and> test_bit (i - n) src) \<and>
    bitmap_weight src nbits = of_nat (card {i. i < nbits \<and> test_bit i src})"
proof -
  have "test_bit i (bitmap_shift_right dst src n nbits) = (i + n < nbits \<and> test_bit (i + n) src)"
  proof -
    have "test_bit i (foldl (\<lambda>dst x. bitmap_copy_bit src (x + n) dst x) dst [0..<nbits - n]) =
        (if i \<in> set [0..<nbits - n] then test_bit (i + n) src else test_bit i dst)"
      using assms by (intro copy_loop [where f = "\<lambda>x. x + n"]) auto
    then show ?thesis
      unfolding bitmap_shift_right_def Let_def using assms
      by (subst clear_loop) (auto simp: length_bit_loop)
  qed
  moreover have "test_bit i (bitmap_shift_left dst src n nbits) = (n \<le> i \<and> test_bit (i - n) src)"
    unfolding bitmap_shift_left_def Let_def using assms
    by (subst copy_loop [where f = "\<lambda>x. x - n"]) (auto simp: length_bit_loop clear_loop)
  moreover have "bitmap_weight src nbits = of_nat (card {i. i < nbits \<and> test_bit i src})"
    using weight_loop [of src 0 nbits] by (simp add: bitmap_weight_def test_bit_def BIT_WORD_def)
  ultimately show ?thesis by blast
qed

theorem bitmap_shifts_witness:
  "test_bit 2 (bitmap_shift_left [0] [1] 2 8) \<and> test_bit 0 (bitmap_shift_right [0] [4] 2 8)"
  using bitmap_shifts [of 8 "[0]" 2 2 "[1]"] bitmap_shifts [of 8 "[0]" 2 0 "[4]"] by (simp add: test_bit_bit)

end
