(* ===== verification/Heap_Sort.thy ===== *)
theory Heap_Sort
  imports Webcamd_Prelude "HOL-Library.Multiset"
begin

text \<open>
  The non-recursive heap sort \<open>sort\<close> of \<open>kernel/linux_func.c\<close>.  The code counts in bytes,
  every counter being a multiple of \<open>size\<close>; the model counts in elements, so that
  \<open>r * 2 + size\<close> is the index \<open>2 * r + 1\<close>.  The comparison function is a parameter with the
  documented contract of such a function, stated by the locale \<open>comparison\<close>; the swap
  function exchanges two elements.
\<close>

section \<open>Model\<close>

definition swap_fn :: "'a list \<Rightarrow> nat \<Rightarrow> nat \<Rightarrow> 'a list" where
  "swap_fn base a b = base[a := base ! b, b := base ! a]"

text \<open>The byte loop of \<open>generic_swap\<close> on the bytes of a memory, for two addresses.\<close>

fun generic_swap :: "u8 list \<Rightarrow> nat \<Rightarrow> nat \<Rightarrow> nat \<Rightarrow> u8 list" where
  "generic_swap memory a b 0 = memory"
| "generic_swap memory a b (Suc n) =
     (let t = memory ! a;
          memory = memory[a := memory ! b];
          memory = memory[b := t]
      in generic_swap memory (a + 1) (b + 1) n)"

text \<open>The inner loop: the element at \<open>r\<close> sinks in the heap of the first \<open>n\<close> elements.\<close>

function sift :: "('a \<Rightarrow> 'a \<Rightarrow> int) \<Rightarrow> nat \<Rightarrow> 'a list \<Rightarrow> nat \<Rightarrow> 'a list" where
  "sift cmp n base r =
     (if 2 * r + 1 < n then
        let c = 2 * r + 1;
            c = (if c < n - 1 \<and> cmp (base ! c) (base ! (c + 1)) < 0 then c + 1 else c)
        in if cmp (base ! r) (base ! c) \<ge> 0 then base
           else sift cmp n (swap_fn base r c) c
      else base)"
  by pat_completeness auto
termination
  by (relation "measure (\<lambda>(cmp, n, base, r). n - r)") auto

text \<open>The loop \<open>heapify\<close>, for the indices below \<open>i\<close> downwards.\<close>

fun heapify :: "('a \<Rightarrow> 'a \<Rightarrow> int) \<Rightarrow> nat \<Rightarrow> 'a list \<Rightarrow> nat \<Rightarrow> 'a list" where
  "heapify cmp n base 0 = base"
| "heapify cmp n base (Suc i) = heapify cmp n (sift cmp n base i) i"

text \<open>The loop \<open>sort\<close>, for the indices from \<open>i\<close> down to 1.\<close>

fun sort_loop :: "('a \<Rightarrow> 'a \<Rightarrow> int) \<Rightarrow> 'a list \<Rightarrow> nat \<Rightarrow> 'a list" where
  "sort_loop cmp base 0 = base"
| "sort_loop cmp base (Suc i) =
     sort_loop cmp (sift cmp (Suc i) (swap_fn base 0 (Suc i)) 0) i"

definition sort_array :: "('a \<Rightarrow> 'a \<Rightarrow> int) \<Rightarrow> 'a list \<Rightarrow> 'a list" where
  "sort_array cmp base =
     (let num = length base;
          base = heapify cmp num base (num div 2)
      in sort_loop cmp base (num - 1))"

section \<open>Specification\<close>

text \<open>The contract of a comparison function: the sign of the result changes when the
  arguments are exchanged, and the order is transitive.\<close>

locale comparison =
  fixes cmp :: "'a \<Rightarrow> 'a \<Rightarrow> int"
  assumes exchange: "0 \<le> cmp a b \<longleftrightarrow> cmp b a \<le> 0"
    and trans: "cmp a b \<le> 0 \<Longrightarrow> cmp b c \<le> 0 \<Longrightarrow> cmp a c \<le> 0"
begin

text \<open>The elements from \<open>k\<close> to \<open>n\<close> form a heap, except possibly at \<open>r\<close>, whose children are
  not above its parent.\<close>

definition heap_but :: "nat \<Rightarrow> nat \<Rightarrow> 'a list \<Rightarrow> nat \<Rightarrow> bool" where
  "heap_but k n xs r \<longleftrightarrow>
     (\<forall>j c. k \<le> j \<and> j \<noteq> r \<and> (c = 2 * j + 1 \<or> c = 2 * j + 2) \<and> c < n \<longrightarrow> cmp (xs ! c) (xs ! j) \<le> 0) \<and>
     (\<forall>p c. k \<le> p \<and> (r = 2 * p + 1 \<or> r = 2 * p + 2) \<and> (c = 2 * r + 1 \<or> c = 2 * r + 2) \<and> c < n \<longrightarrow>
        cmp (xs ! c) (xs ! p) \<le> 0)"

definition heap :: "nat \<Rightarrow> nat \<Rightarrow> 'a list \<Rightarrow> bool" where
  "heap k n xs \<longleftrightarrow>
     (\<forall>j c. k \<le> j \<and> (c = 2 * j + 1 \<or> c = 2 * j + 2) \<and> c < n \<longrightarrow> cmp (xs ! c) (xs ! j) \<le> 0)"

lemma heapD: "heap k n xs \<Longrightarrow> k \<le> j \<Longrightarrow> c = 2 * j + 1 \<or> c = 2 * j + 2 \<Longrightarrow> c < n \<Longrightarrow> cmp (xs ! c) (xs ! j) \<le> 0"
  unfolding heap_def by blast

lemma cmp_refl: "cmp a a \<le> 0"
  using exchange [of a a] by linarith

lemma not_ge: "\<not> cmp a b \<ge> 0 \<Longrightarrow> cmp a b \<le> 0"
  by linarith

lemma ge_le: "cmp a b \<ge> 0 \<Longrightarrow> cmp b a \<le> 0"
  using exchange by simp

end

section \<open>Correctness\<close>

declare sift.simps [simp del]

lemma length_swap [simp]: "length (swap_fn xs a b) = length xs"
  by (simp add: swap_fn_def)

lemma mset_swap: "a < length xs \<Longrightarrow> b < length xs \<Longrightarrow> mset (swap_fn xs a b) = mset xs"
  by (simp add: swap_fn_def mset_swap)

lemma nth_swap: "a < length xs \<Longrightarrow> b < length xs \<Longrightarrow>
    swap_fn xs a b ! i = (if i = a then xs ! b else if i = b then xs ! a else xs ! i)"
  by (auto simp: swap_fn_def nth_list_update)

text \<open>What the loop leaves alone.\<close>

lemma sift_frame:
  assumes "n \<le> length xs"
  shows "length (sift cmp n xs r) = length xs \<and> mset (sift cmp n xs r) = mset xs \<and>
    (\<forall>i. i < r \<or> n \<le> i \<longrightarrow> sift cmp n xs r ! i = xs ! i) \<and>
    ((\<forall>i < n. P (xs ! i)) \<longrightarrow> (\<forall>i < n. P (sift cmp n xs r ! i)))"
  using assms
proof (induction cmp n xs r rule: sift.induct)
  case (1 cmp n xs r)
  show ?case
  proof (cases "2 * r + 1 < n")
    case False
    then show ?thesis by (simp add: sift.simps [of cmp n xs r])
  next
    case True
    define c where "c = (if 2 * r + 1 < n - 1 \<and> cmp (xs ! (2 * r + 1)) (xs ! (2 * r + 1 + 1)) < 0 then 2 * r + 1 + 1 else 2 * r + 1)"
    have c: "r < c" "c < n" using True by (auto simp: c_def)
    have eq: "sift cmp n xs r = (if cmp (xs ! r) (xs ! c) \<ge> 0 then xs else sift cmp n (swap_fn xs r c) c)"
      using True by (simp add: sift.simps [of cmp n xs r] Let_def c_def)
    show ?thesis
    proof (cases "cmp (xs ! r) (xs ! c) \<ge> 0")
      case False
      let ?s = "sift cmp n (swap_fn xs r c) c"
      have IH: "length ?s = length xs \<and> mset ?s = mset (swap_fn xs r c) \<and>
          (\<forall>i. i < c \<or> n \<le> i \<longrightarrow> ?s ! i = swap_fn xs r c ! i) \<and>
          ((\<forall>i < n. P (swap_fn xs r c ! i)) \<longrightarrow> (\<forall>i < n. P (?s ! i)))"
        using "1.IH" [OF True refl c_def] False "1.prems" by simp
      then show ?thesis
        using False eq c "1.prems" by (auto simp: mset_swap nth_swap)
    qed (simp add: eq)
  qed
qed

context comparison
begin

lemma swap_heap_but:
  assumes "n \<le> length xs" "k \<le> r" "heap_but k n xs r" "c = 2 * r + 1 \<or> c = 2 * r + 2" "c < n"
    and max: "\<And>d. d = 2 * r + 1 \<or> d = 2 * r + 2 \<Longrightarrow> d < n \<Longrightarrow> cmp (xs ! d) (xs ! c) \<le> 0"
    and le: "cmp (xs ! r) (xs ! c) \<le> 0"
  shows "heap_but k n (swap_fn xs r c) c"
proof -
  have rc: "r < length xs" "c < length xs" "r < c" using assms by auto
  have h1: "cmp (xs ! d) (xs ! j) \<le> 0" if "k \<le> j" "j \<noteq> r" "d = 2 * j + 1 \<or> d = 2 * j + 2" "d < n" for j d
    using assms(3) that unfolding heap_but_def by blast
  have h2: "cmp (xs ! d) (xs ! p) \<le> 0"
    if "k \<le> p" "r = 2 * p + 1 \<or> r = 2 * p + 2" "d = 2 * r + 1 \<or> d = 2 * r + 2" "d < n" for p d
    using assms(3) that unfolding heap_but_def by blast
  have "cmp (swap_fn xs r c ! d) (swap_fn xs r c ! j) \<le> 0"
    if j: "k \<le> j" "j \<noteq> c" "d = 2 * j + 1 \<or> d = 2 * j + 2" "d < n" for j d
  proof (cases "j = r")
    case True
    then show ?thesis using j max [of d] le rc by (auto simp: nth_swap)
  next
    case False
    then have "d \<noteq> c" using j(3) assms(4) by auto
    then show ?thesis
      using False j h1 [OF j(1) False j(3,4)] h2 [OF j(1), of c] assms(4,5) rc by (auto simp: nth_swap)
  qed
  moreover have "cmp (swap_fn xs r c ! d) (swap_fn xs r c ! p) \<le> 0"
    if p: "k \<le> p" "c = 2 * p + 1 \<or> c = 2 * p + 2" "d = 2 * c + 1 \<or> d = 2 * c + 2" "d < n" for p d
  proof -
    have "p = r" using p(2) assms(4) by auto
    then show ?thesis
      using p h1 [of c d] assms(2) rc by (auto simp: nth_swap)
  qed
  ultimately show ?thesis unfolding heap_but_def by blast
qed

lemma sift_heap:
  assumes "n \<le> length xs" "k \<le> r" "heap_but k n xs r"
  shows "heap k n (sift cmp n xs r)"
  using assms
proof (induction "n - r" arbitrary: xs r rule: less_induct)
  case less
  show ?case
  proof (cases "2 * r + 1 < n")
    case False
    then show ?thesis using less.prems(3)
      by (auto simp: sift.simps [of cmp n xs r] heap_def heap_but_def)
  next
    case True
    define c where "c = (if 2 * r + 1 < n - 1 \<and> cmp (xs ! (2 * r + 1)) (xs ! (2 * r + 1 + 1)) < 0 then 2 * r + 1 + 1 else 2 * r + 1)"
    have c: "c = 2 * r + 1 \<or> c = 2 * r + 2" "r < c" "c < n" using True by (auto simp: c_def)
    have max: "cmp (xs ! d) (xs ! c) \<le> 0" if "d = 2 * r + 1 \<or> d = 2 * r + 2" "d < n" for d
      using that True cmp_refl exchange [of "xs ! (2 * r + 1)" "xs ! (2 * r + 2)"] by (auto simp: c_def)
    have eq: "sift cmp n xs r = (if cmp (xs ! r) (xs ! c) \<ge> 0 then xs else sift cmp n (swap_fn xs r c) c)"
      using True by (simp add: sift.simps [of cmp n xs r] Let_def c_def)
    show ?thesis
    proof (cases "cmp (xs ! r) (xs ! c) \<ge> 0")
      case ge: True
      have "cmp (xs ! d) (xs ! r) \<le> 0" if "d = 2 * r + 1 \<or> d = 2 * r + 2" "d < n" for d
        using max [OF that] ge_le [OF ge] trans by blast
      then show ?thesis using less.prems(3) ge unfolding eq heap_def heap_but_def by auto
    next
      case lt: False
      have "heap_but k n (swap_fn xs r c) c"
        using c max not_ge [OF lt] less.prems by (intro swap_heap_but) auto
      then have "heap k n (sift cmp n (swap_fn xs r c) c)"
        using c less.prems by (intro less.hyps) auto
      then show ?thesis using lt by (simp add: eq)
    qed
  qed
qed

lemma heapify_heap:
  assumes "n \<le> length xs" "heap i n xs"
  shows "heap 0 n (heapify cmp n xs i)"
  using assms
proof (induction i arbitrary: xs)
  case (Suc i)
  have "heap_but i n xs i"
    unfolding heap_but_def using Suc.prems(2) by (auto simp: heap_def)
  then have "heap i n (sift cmp n xs i)" using Suc.prems(1) by (intro sift_heap) auto
  then show ?case using Suc sift_frame [of n xs cmp i] by simp
qed simp

lemma heap_root:
  assumes "heap 0 n xs" "j < n"
  shows "cmp (xs ! j) (xs ! 0) \<le> 0"
  using assms(2)
proof (induction j rule: less_induct)
  case (less j)
  show ?case
  proof (cases "j = 0")
    case False
    define p where "p = (j - 1) div 2"
    have "2 * p + 1 \<le> j" "j \<le> 2 * p + 2"
      using False times_div_less_eq_dividend [of 2 "j - 1"] dividend_less_times_div [of 2 "j - 1"]
      unfolding p_def by linarith+
    then have p: "j = 2 * p + 1 \<or> j = 2 * p + 2" "p < j" by auto
    then have "cmp (xs ! j) (xs ! p) \<le> 0" using heapD [OF assms(1), of p j] less.prems by auto
    moreover have "cmp (xs ! p) (xs ! 0) \<le> 0" using less.IH [OF p(2)] p(2) less.prems by simp
    ultimately show ?thesis by (rule trans)
  qed (simp add: cmp_refl)
qed

lemma sort_step:
  assumes "Suc i < length xs" "heap 0 (Suc (Suc i)) xs"
    and up: "\<And>a b. Suc i < b \<Longrightarrow> b < length xs \<Longrightarrow> a \<le> b \<Longrightarrow> cmp (xs ! a) (xs ! b) \<le> 0"
    and s: "s = sift cmp (Suc i) (swap_fn xs 0 (Suc i)) 0"
  shows "heap 0 (Suc i) s" "length s = length xs"
    and "i < b \<Longrightarrow> b < length xs \<Longrightarrow> a \<le> b \<Longrightarrow> cmp (s ! a) (s ! b) \<le> 0"
proof -
  let ?sw = "swap_fn xs 0 (Suc i)"
  have sw: "?sw ! m = (if m = 0 then xs ! Suc i else if m = Suc i then xs ! 0 else xs ! m)" for m
    using assms(1) by (subst nth_swap) auto
  have "heap_but 0 (Suc i) ?sw 0"
    unfolding heap_but_def using assms(2) by (auto simp: sw heap_def)
  then show "heap 0 (Suc i) s"
    unfolding s using assms(1) by (intro sift_heap) auto
  show len: "length s = length xs"
    using sift_frame [of "Suc i" ?sw cmp 0] assms(1) by (simp add: s)
  have high: "s ! m = ?sw ! m" if "Suc i \<le> m" for m
    using sift_frame [of "Suc i" ?sw cmp 0] assms(1) that by (simp add: s)
  have low: "P (s ! m)" if "\<And>m. m \<le> Suc i \<Longrightarrow> P (xs ! m)" "m < Suc i" for P m
    using sift_frame [of "Suc i" ?sw cmp 0 P] assms(1) that by (auto simp: s sw)
  show "cmp (s ! a) (s ! b) \<le> 0" if ab: "i < b" "b < length xs" "a \<le> b"
  proof (cases "b = Suc i")
    case True
    have "cmp (xs ! m) (xs ! 0) \<le> 0" if "m \<le> Suc i" for m
      using heap_root [OF assms(2), of m] that by simp
    then show ?thesis
      using True ab(3) high [of "Suc i"] low [where P = "\<lambda>x. cmp x (xs ! 0) \<le> 0"] cmp_refl
      by (cases "a = Suc i") (auto simp: sw)
  next
    case False
    then have b: "Suc i < b" "s ! b = xs ! b" using ab(1) high [of b] by (auto simp: sw)
    have "s ! a = xs ! (if a = Suc i then 0 else a)" if "Suc i \<le> a"
      using high [OF that] that by (auto simp: sw)
    then show ?thesis
      using b ab up [OF b(1) ab(2)] low [where P = "\<lambda>x. cmp x (xs ! b) \<le> 0" and m = a]
      by (cases "Suc i \<le> a") auto
  qed
qed

lemma sort_loop_sorted:
  assumes "i < length xs" "heap 0 (Suc i) xs"
    and "\<And>a b. i < b \<Longrightarrow> b < length xs \<Longrightarrow> a \<le> b \<Longrightarrow> cmp (xs ! a) (xs ! b) \<le> 0"
    and "a \<le> b" "b < length xs"
  shows "cmp (sort_loop cmp xs i ! a) (sort_loop cmp xs i ! b) \<le> 0"
  using assms(1-3,5)
proof (induction i arbitrary: xs)
  case 0
  then show ?case using assms(4) cmp_refl by (cases "b = 0") auto
next
  case (Suc i)
  note step = sort_step [OF Suc.prems(1-3) refl]
  have "cmp (sort_loop cmp (sift cmp (Suc i) (swap_fn xs 0 (Suc i)) 0) i ! a)
      (sort_loop cmp (sift cmp (Suc i) (swap_fn xs 0 (Suc i)) 0) i ! b) \<le> 0"
  proof (rule Suc.IH)
    show "heap 0 (Suc i) (sift cmp (Suc i) (swap_fn xs 0 (Suc i)) 0)" by (rule step(1))
    show "cmp (sift cmp (Suc i) (swap_fn xs 0 (Suc i)) 0 ! a') (sift cmp (Suc i) (swap_fn xs 0 (Suc i)) 0 ! b') \<le> 0"
      if "i < b'" "b' < length (sift cmp (Suc i) (swap_fn xs 0 (Suc i)) 0)" "a' \<le> b'" for a' b'
      using that step(2) by (intro step(3)) simp_all
  qed (use step(2) Suc.prems(1,4) in simp_all)
  then show ?case by simp
qed

end

lemma sort_loop_mset: "i < length xs \<Longrightarrow> mset (sort_loop cmp xs i) = mset xs"
proof (induction i arbitrary: xs)
  case (Suc i)
  moreover have "mset (swap_fn xs 0 (Suc i)) = mset xs" using Suc.prems by (intro mset_swap) auto
  ultimately show ?case using sift_frame [of "Suc i" "swap_fn xs 0 (Suc i)" cmp 0] by simp
qed simp

lemma heapify_mset: "n \<le> length xs \<Longrightarrow> mset (heapify cmp n xs i) = mset xs \<and> length (heapify cmp n xs i) = length xs"
proof (induction i arbitrary: xs)
  case (Suc i)
  then show ?case using sift_frame [of n xs cmp i] by simp
qed simp

lemma sort_mset: "mset (sort_array cmp xs) = mset xs"
proof (cases xs)
  case (Cons x ys)
  then show ?thesis
    using heapify_mset [of "length xs" xs cmp "length xs div 2"]
      sort_loop_mset [of "length xs - 1" "heapify cmp (length xs) xs (length xs div 2)" cmp]
    by (simp add: sort_array_def Let_def)
qed (simp add: sort_array_def)

context comparison
begin

lemma sort_sorted:
  assumes "a \<le> b" "b < length xs"
  shows "cmp (sort_array cmp xs ! a) (sort_array cmp xs ! b) \<le> 0"
proof -
  let ?h = "heapify cmp (length xs) xs (length xs div 2)"
  have "heap (length xs div 2) (length xs) xs" unfolding heap_def by auto
  then have "heap 0 (length xs) ?h" by (intro heapify_heap) auto
  moreover have "length ?h = length xs" using heapify_mset [of "length xs" xs] by simp
  moreover obtain n where "length xs = Suc n" using assms(2) by (cases "length xs") auto
  ultimately show ?thesis
    using sort_loop_sorted [of n ?h a b] assms by (simp add: sort_array_def Let_def)
qed

end

lemma sort_length: "length (sort_array cmp xs) = length xs"
  using sort_mset [of cmp xs] by (rule mset_eq_length)

text \<open>The order of 32-bit unsigned numbers, as a driver compares them.\<close>

definition u32_cmp :: "u32 \<Rightarrow> u32 \<Rightarrow> int" where
  "u32_cmp a b = (if a < b then - 1 else if b < a then 1 else 0)"

interpretation u32: comparison u32_cmp
  by unfold_locales (auto simp: u32_cmp_def split: if_splits)

text \<open>The byte loop exchanges two regions that do not overlap.\<close>

lemma generic_swap_bytes:
  assumes "a + n \<le> b \<or> b + n \<le> a" "a + n \<le> length memory" "b + n \<le> length memory"
  shows "length (generic_swap memory a b n) = length memory \<and>
    (\<forall>i < length memory. generic_swap memory a b n ! i =
      (if a \<le> i \<and> i < a + n then memory ! (b + (i - a))
       else if b \<le> i \<and> i < b + n then memory ! (a + (i - b)) else memory ! i))"
  using assms
proof (induction memory a b n rule: generic_swap.induct)
  case (2 memory a b n)
  let ?m = "memory[a := memory ! b, b := memory ! a]"
  have IH: "length (generic_swap ?m (a + 1) (b + 1) n) = length memory \<and>
    (\<forall>i < length memory. generic_swap ?m (a + 1) (b + 1) n ! i =
      (if a + 1 \<le> i \<and> i < a + 1 + n then ?m ! (b + 1 + (i - (a + 1)))
       else if b + 1 \<le> i \<and> i < b + 1 + n then ?m ! (a + 1 + (i - (b + 1))) else ?m ! i))"
    using "2.IH" [OF refl refl refl] "2.prems" by auto
  have m: "?m ! i = (if i = a then memory ! b else if i = b then memory ! a else memory ! i)" for i
    using "2.prems" by (auto simp: nth_list_update)
  have "generic_swap ?m (a + 1) (b + 1) n ! i =
      (if a \<le> i \<and> i < a + Suc n then memory ! (b + (i - a))
       else if b \<le> i \<and> i < b + Suc n then memory ! (a + (i - b)) else memory ! i)"
    if i: "i < length memory" for i
  proof -
    consider "i = a" | "i = b" | (left) "a < i" "i < a + Suc n" | (right) "b < i" "i < b + Suc n"
      | (out) "i < a \<or> a + Suc n \<le> i" "i < b \<or> b + Suc n \<le> i" by linarith
    then show ?thesis
    proof cases
      case left
      then have "b + 1 + (i - (a + 1)) = b + (i - a)" "b + (i - a) \<noteq> a" "b + (i - a) \<noteq> b"
        using "2.prems"(1) by auto
      then show ?thesis using left IH i m [of "b + (i - a)"] by simp
    next
      case right
      then have "a + 1 + (i - (b + 1)) = a + (i - b)" "a + (i - b) \<noteq> a" "a + (i - b) \<noteq> b"
        "\<not> (a \<le> i \<and> i < a + Suc n)"
        using "2.prems"(1) by auto
      then show ?thesis using right IH i m [of "a + (i - b)"] by auto
    qed (use IH i m [of i] "2.prems"(1) in auto)
  qed
  then show ?case using IH by (simp add: Let_def)
qed auto

section \<open>Properties\<close>



end
