(* ===== verification/Crc32.thy ===== *)
theory Crc32
  imports Webcamd_Prelude
begin

text \<open>
  The bitwise CRC computations \<open>crc32_le\<close> and \<open>crc32_be\<close> of \<open>kernel/linux_func.c\<close>, with the
  polynomials of \<open>kernel/linux_defs.h\<close>, and what makes them error detecting codes.
\<close>

section \<open>Model\<close>

definition CRCPOLY_LE :: u32 where
  "CRCPOLY_LE = 0xedb88320"

definition CRCPOLY_BE :: u32 where
  "CRCPOLY_BE = 0x04c11db7"

text \<open>The bodies of the loops over the eight bits.\<close>

definition crc32_le_bit :: "u32 \<Rightarrow> u32" where
  "crc32_le_bit crc = drop_bit 1 crc XOR (if crc AND 1 \<noteq> 0 then CRCPOLY_LE else 0)"

definition crc32_be_bit :: "u32 \<Rightarrow> u32" where
  "crc32_be_bit crc = push_bit 1 crc XOR (if crc AND 0x80000000 \<noteq> 0 then CRCPOLY_BE else 0)"

fun crc32_le :: "u32 \<Rightarrow> u8 list \<Rightarrow> u32" where
  "crc32_le crc [] = crc"
| "crc32_le crc (b # p) = crc32_le ((crc32_le_bit ^^ 8) (crc XOR ucast b)) p"

fun crc32_be :: "u32 \<Rightarrow> u8 list \<Rightarrow> u32" where
  "crc32_be crc [] = crc"
| "crc32_be crc (b # p) = crc32_be ((crc32_be_bit ^^ 8) (crc XOR push_bit 24 (ucast b))) p"

section \<open>Lemmas\<close>

lemma crc32_append:
  "crc32_le crc (p @ q) = crc32_le (crc32_le crc p) q"
  "crc32_be crc (p @ q) = crc32_be (crc32_be crc p) q"
  by (induction p arbitrary: crc) simp_all

lemma and_1_bit: "(x :: u32) AND 1 \<noteq> 0 \<longleftrightarrow> bit x 0"
  by (auto simp: bit_eq_iff [of "x AND 1"] bit_and_iff bit_1_iff)

lemma and_top_bit: "(x :: u32) AND 0x80000000 \<noteq> 0 \<longleftrightarrow> bit x 31"
proof -
  have top: "(0x80000000 :: u32) = push_bit 31 1" by simp
  have b: "bit (push_bit 31 (1 :: u32)) n \<longleftrightarrow> n = 31" for n
    by (simp only: bit_push_bit_iff bit_1_iff) auto
  show ?thesis unfolding top
    by (auto simp: bit_eq_iff [of "x AND push_bit 31 1"] bit_and_iff b simp del: push_bit_of_1)
qed

lemma bit_le_step:
  "bit (crc32_le_bit x) n \<longleftrightarrow> (bit x (Suc n) \<noteq> (bit x 0 \<and> bit CRCPOLY_LE n))"
  by (auto simp: crc32_le_bit_def and_1_bit bit_xor_iff bit_drop_bit_eq dest: bit_imp_le_length)

lemma bit_be_step:
  "bit (crc32_be_bit x) n \<longleftrightarrow> n < 32 \<and> ((0 < n \<and> bit x (n - 1)) \<noteq> (bit x 31 \<and> bit CRCPOLY_BE n))"
  by (auto simp: crc32_be_bit_def and_top_bit bit_xor_iff bit_times_2 not_less dest: bit_imp_le_length)

lemma inj_le_bit: "inj crc32_le_bit"
proof (rule injI)
  fix x y assume eq: "crc32_le_bit x = crc32_le_bit y"
  have "bit CRCPOLY_LE 31" by (simp add: CRCPOLY_LE_def)
  then have b0: "bit x 0 = bit y 0"
    using arg_cong [OF eq, of "\<lambda>w. bit w 31"] by (auto simp: bit_le_step dest: bit_imp_le_length)
  then have "bit x (Suc n) = bit y (Suc n)" for n
    using arg_cong [OF eq, of "\<lambda>w. bit w n"] by (auto simp: bit_le_step)
  then show "x = y" using b0 by (intro bit_word_eqI) (metis not0_implies_Suc)
qed

lemma inj_be_bit: "inj crc32_be_bit"
proof (rule injI)
  fix x y assume eq: "crc32_be_bit x = crc32_be_bit y"
  have "bit CRCPOLY_BE 0" by (simp add: CRCPOLY_BE_def)
  then have top: "bit x 31 = bit y 31"
    using arg_cong [OF eq, of "\<lambda>w. bit w 0"] by (auto simp: bit_be_step)
  then have "bit x n = bit y n" if "n < 31" for n
    using arg_cong [OF eq, of "\<lambda>w. bit w (Suc n)"] that by (auto simp: bit_be_step)
  moreover have "n < 31 \<or> n = 31" if "n < LENGTH(32)" for n using that by auto
  ultimately show "x = y" using top by (intro bit_word_eqI) blast
qed

lemma xor_cancel: "(x :: u32) XOR b = y XOR b \<Longrightarrow> x = y"
  by (metis xor.assoc xor_self_eq xor.right_neutral)

lemma crc32_le_inj: "crc32_le c p = crc32_le d p \<Longrightarrow> c = d"
proof (induction p arbitrary: c d)
  case (Cons b p)
  have "inj (crc32_le_bit ^^ 8)" by (intro inj_fn inj_le_bit)
  moreover have "(crc32_le_bit ^^ 8) (c XOR ucast b) = (crc32_le_bit ^^ 8) (d XOR ucast b)"
    using Cons by simp
  ultimately show ?case by (metis injD xor_cancel)
qed simp

lemma crc32_be_inj: "crc32_be c p = crc32_be d p \<Longrightarrow> c = d"
proof (induction p arbitrary: c d)
  case (Cons b p)
  have "inj (crc32_be_bit ^^ 8)" by (intro inj_fn inj_be_bit)
  moreover have "(crc32_be_bit ^^ 8) (c XOR push_bit 24 (ucast b)) = (crc32_be_bit ^^ 8) (d XOR push_bit 24 (ucast b))"
    using Cons by simp
  ultimately show ?case by (metis injD xor_cancel)
qed simp

text \<open>The four bytes that follow a state act together: they are xored into the register.\<close>

primrec register :: "u8 list \<Rightarrow> u32" where
  "register [] = 0"
| "register (b # p) = ucast b XOR push_bit 8 (register p)"

lemma bit_register: "bit (register p) n \<Longrightarrow> n < 8 * length p"
proof (induction p arbitrary: n)
  case (Cons b p)
  then have "bit b n \<or> 8 \<le> n \<and> bit (register p) (n - 8)"
    by (auto simp: bit_xor_iff bit_ucast_iff bit_push_bit_iff)
  then show ?case using Cons.IH [of "n - 8"] bit_imp_le_length [of b n] by auto
qed simp

lemma le_bit_shift:
  assumes "\<not> bit y 31"
  shows "crc32_le_bit (x XOR push_bit 1 y) = crc32_le_bit x XOR y"
proof (rule bit_word_eqI)
  fix n assume "n < LENGTH(32)"
  then have "n < 31 \<or> n = 31" by auto
  then show "bit (crc32_le_bit (x XOR push_bit 1 y)) n = bit (crc32_le_bit x XOR y) n"
    using assms by (elim disjE) (auto simp: bit_le_step bit_xor_iff bit_times_2)
qed

lemma le_bits_shift:
  assumes "\<And>n. bit y n \<Longrightarrow> n + k < 32"
  shows "(crc32_le_bit ^^ k) (x XOR push_bit k y) = (crc32_le_bit ^^ k) x XOR y"
  using assms
proof (induction k arbitrary: x)
  case (Suc k)
  have "\<not> bit (push_bit k y) 31"
    using Suc.prems [of "31 - k"] by (auto simp: bit_push_bit_iff)
  then have "crc32_le_bit (x XOR push_bit (Suc k) y) = crc32_le_bit x XOR push_bit k y"
    using le_bit_shift [of "push_bit k y" x] by (simp only: push_bit_push_bit) simp
  moreover have "(crc32_le_bit ^^ k) (crc32_le_bit x XOR push_bit k y) = (crc32_le_bit ^^ k) (crc32_le_bit x) XOR y"
    using Suc.prems by (intro Suc.IH) force
  ultimately show ?case by (simp only: funpow_Suc_right o_apply)
qed simp

lemma crc32_le_register:
  "length p \<le> 4 \<Longrightarrow> crc32_le c p = (crc32_le_bit ^^ (8 * length p)) (c XOR register p)"
proof (induction p arbitrary: c)
  case (Cons b p)
  have "(crc32_le_bit ^^ 8) (c XOR ucast b) XOR register p =
      (crc32_le_bit ^^ 8) ((c XOR ucast b) XOR push_bit 8 (register p))"
    using Cons.prems bit_register [of p] by (intro le_bits_shift [symmetric]) fastforce
  moreover have len: "8 * length (b # p) = 8 * length p + 8" by simp
  ultimately show ?case
    unfolding len funpow_add o_apply using Cons by (simp add: xor.assoc del: funpow.simps)
qed simp

lemma register_inj:
  "length p = length q \<Longrightarrow> length p \<le> 4 \<Longrightarrow> register p = register q \<Longrightarrow> p = q"
proof (induction p arbitrary: q)
  case (Cons b p)
  then obtain d r where q: "q = d # r" "length p = length r" by (cases q) auto
  have eq: "bit (register (b # p)) n = bit (register (d # r)) n" for n using Cons.prems q by simp
  have e: "(bit b n \<noteq> (8 \<le> n \<and> n < 32 \<and> bit (register p) (n - 8))) =
      (bit d n \<noteq> (8 \<le> n \<and> n < 32 \<and> bit (register r) (n - 8)))" if "n < 32" for n
    using eq [of n] that by (simp add: bit_xor_iff bit_ucast_iff bit_push_bit_iff)
  have "b = d"
  proof (rule bit_word_eqI)
    fix n assume "n < LENGTH(8)"
    then show "bit b n = bit d n" using e [of n] by simp
  qed
  moreover have "register p = register r"
  proof (rule bit_word_eqI)
    fix n
    show "bit (register p) n = bit (register r) n"
      using e [of "n + 8"] \<open>b = d\<close> bit_register [of p n] bit_register [of r n] Cons.prems q by auto
  qed
  ultimately show ?case using Cons.IH [of r] Cons.prems q by simp
qed simp

section \<open>Properties\<close>

text \<open>C27: an error within four consecutive bytes of a message always changes the value of
  \<open>crc32_le\<close>, and one within a byte that of \<open>crc32_be\<close>: messages that agree outside the
  bytes and have the same checksum are equal.\<close>

theorem crc32_detects_bursts:
  assumes "length m = length m'" "length m \<le> 4"
  shows "(crc32_le crc (p @ m @ q) = crc32_le crc (p @ m' @ q) \<longleftrightarrow> m = m') \<and>
    (crc32_be crc (p @ [b] @ q) = crc32_be crc (p @ [b'] @ q) \<longleftrightarrow> b = b')"
proof -
  have "m = m'" if "crc32_le crc (p @ m @ q) = crc32_le crc (p @ m' @ q)"
  proof -
    have "crc32_le (crc32_le crc p) m = crc32_le (crc32_le crc p) m'"
      using that by (simp only: crc32_append) (rule crc32_le_inj)
    then have "(crc32_le_bit ^^ (8 * length m)) (crc32_le crc p XOR register m) =
        (crc32_le_bit ^^ (8 * length m)) (crc32_le crc p XOR register m')"
      using assms by (simp add: crc32_le_register)
    then have "crc32_le crc p XOR register m = crc32_le crc p XOR register m'"
      using inj_fn [OF inj_le_bit, of "8 * length m"] by (simp add: injD)
    then have "register m = register m'" by (metis xor.commute xor_cancel)
    then show ?thesis using register_inj assms by blast
  qed
  moreover have "b = b'" if "crc32_be crc (p @ [b] @ q) = crc32_be crc (p @ [b'] @ q)"
  proof -
    have "crc32_be (crc32_be crc p) [b] = crc32_be (crc32_be crc p) [b']"
      using that by (simp only: crc32_append) (rule crc32_be_inj)
    then have "push_bit 24 (ucast b) = (push_bit 24 (ucast b') :: u32)"
      using inj_fn [OF inj_be_bit, of 8] by (simp del: funpow.simps) (metis injD xor.commute xor_cancel)
    then have same: "bit (push_bit 24 (ucast b) :: u32) n = bit (push_bit 24 (ucast b') :: u32) n" for n
      by simp
    have "bit b n = bit b' n" if "n < 8" for n
      using same [of "n + 24"] that by (simp add: bit_push_bit_iff bit_ucast_iff)
    then show ?thesis by (intro bit_word_eqI) simp
  qed
  ultimately show ?thesis by blast
qed

theorem crc32_detects_bursts_witness:
  "crc32_le 0 ([1] @ [2, 3] @ [4]) \<noteq> crc32_le 0 ([1] @ [5, 6] @ [4])"
  using crc32_detects_bursts [of "[2, 3]" "[5, 6]" 0 "[1]" "[4]" 0 0] by simp

end
