(* ===== verification/Arith.thy ===== *)
theory Arith
  imports Bit_Ops
begin

text \<open>
  The arithmetic helpers of \<open>kernel/linux_func.c\<close>: division and rounding, powers of two,
  the integer square root, greatest common divisor, rational approximation and the
  overflow-checked sizes.  Unsigned quantities are words, so that overflow is the code's.
  A division by zero traps; the divisors are assumed not to be zero in the properties.
\<close>

section \<open>Division\<close>

text \<open>C division truncates towards zero.\<close>

definition c_div :: "int \<Rightarrow> int \<Rightarrow> int" where
  "c_div a b = sgn a * sgn b * (\<bar>a\<bar> div \<bar>b\<bar>)"

definition c_mod :: "int \<Rightarrow> int \<Rightarrow> int" where
  "c_mod a b = a - c_div a b * b"

definition do_div :: "u64 \<Rightarrow> u32 \<Rightarrow> u32 \<times> u64" where
  "do_div rem dv = (let val = rem in (ucast (val mod ucast dv), val div ucast dv))"

definition div64_u64 :: "u64 \<Rightarrow> u64 \<Rightarrow> u64" where
  "div64_u64 rem dv = rem div dv"

definition div64_s64 :: "int \<Rightarrow> int \<Rightarrow> int" where
  "div64_s64 rem dv = c_div rem dv"

definition div_s64 :: "int \<Rightarrow> int \<Rightarrow> int" where
  "div_s64 rem dv = c_div rem dv"

definition div_u64 :: "u64 \<Rightarrow> u32 \<Rightarrow> u64" where
  "div_u64 rem dv = rem div ucast dv"

definition div_u64_rem :: "u64 \<Rightarrow> u32 \<Rightarrow> u64 \<times> u32" where
  "div_u64_rem rem dv = (rem div ucast dv, ucast (rem mod ucast dv))"

definition div_s64_rem :: "int \<Rightarrow> int \<Rightarrow> int \<times> int" where
  "div_s64_rem dividend divisor = (c_div dividend divisor, c_mod dividend divisor)"

text \<open>The signed variants compute on \<open>int\<close> of 32 or 64 bits; the sum is assumed to fit.\<close>

definition div_round_closest_s32 :: "int \<Rightarrow> int \<Rightarrow> int" where
  "div_round_closest_s32 rem dv = c_div (rem + c_div dv 2) dv"

definition div_round_closest_u32 :: "u32 \<Rightarrow> u32 \<Rightarrow> u32" where
  "div_round_closest_u32 rem dv = (rem + dv div 2) div dv"

definition div_round_closest_s64 :: "int \<Rightarrow> int \<Rightarrow> int" where
  "div_round_closest_s64 rem dv = c_div (rem + c_div dv 2) dv"

definition div_round_closest_u64 :: "u64 \<Rightarrow> u64 \<Rightarrow> u64" where
  "div_round_closest_u64 rem dv = (rem + dv div 2) div dv"

section \<open>Powers of two, rotation, sign extension\<close>

definition rounddown_pow_of_two :: "u64 \<Rightarrow> u64" where
  "rounddown_pow_of_two x = (if x = 0 then 0 else push_bit (uu_flsl x - 1) 1)"

definition roundup_pow_of_two :: "u64 \<Rightarrow> u64" where
  "roundup_pow_of_two x = (if x = 0 then 0 else push_bit (uu_flsl (x - 1)) 1)"

definition ror32 :: "u32 \<Rightarrow> u8 \<Rightarrow> u32" where
  "ror32 x n =
     (let n = n AND 0x1f
      in if n = 0 then x else drop_bit (unat n) x OR push_bit (32 - unat n) x)"

definition sign_extend32 :: "u32 \<Rightarrow> nat \<Rightarrow> u32" where
  "sign_extend32 value index = (let shift = 31 - index in signed_drop_bit shift (push_bit shift value))"

section \<open>Square root\<close>

text \<open>
  Every round of \<open>int_sqrt\<close> compares, subtracts, shifts and flips the bits of a constant;
  the constants of the rounds are those of the two branches.  The last round has no
  constant in its second branch.
\<close>

definition int_sqrt_round :: "u64 \<times> u64 \<Rightarrow> u64 \<times> u64 \<Rightarrow> u64 \<times> u64" where
  "int_sqrt_round ab hl =
     (case ab of (a, b) \<Rightarrow> case hl of (hi, lo) \<Rightarrow>
        if b \<le> a then (a - b, drop_bit 1 b XOR hi) else (a, drop_bit 1 b XOR lo))"

definition int_sqrt_first :: "(u64 \<times> u64) list" where
  "int_sqrt_first =
     [(0x7000000000000000, 0x3000000000000000),
      (0x1c00000000000000, 0xc00000000000000),
      (0x700000000000000, 0x300000000000000),
      (0x1c0000000000000, 0xc0000000000000),
      (0x70000000000000, 0x30000000000000),
      (0x1c000000000000, 0xc000000000000),
      (0x7000000000000, 0x3000000000000),
      (0x1c00000000000, 0xc00000000000),
      (0x700000000000, 0x300000000000),
      (0x1c0000000000, 0xc0000000000),
      (0x70000000000, 0x30000000000),
      (0x1c000000000, 0xc000000000),
      (0x7000000000, 0x3000000000),
      (0x1c00000000, 0xc00000000),
      (0x700000000, 0x300000000),
      (0x1c0000000, 0xc0000000)]"

definition int_sqrt_second :: "(u64 \<times> u64) list" where
  "int_sqrt_second =
     [(0x70000000, 0x30000000),
      (0x1c000000, 0xc000000),
      (0x7000000, 0x3000000),
      (0x1c00000, 0xc00000),
      (0x700000, 0x300000),
      (0x1c0000, 0xc0000),
      (0x70000, 0x30000),
      (0x1c000, 0xc000),
      (0x7000, 0x3000),
      (0x1c00, 0xc00),
      (0x700, 0x300),
      (0x1c0, 0xc0),
      (0x70, 0x30),
      (0x1c, 0xc),
      (0x7, 0x3)]"

definition int_sqrt :: "u64 \<Rightarrow> u64" where
  "int_sqrt a =
     (let b = 0x4000000000000000;
          ab = foldl int_sqrt_round (a, b) int_sqrt_first;
          ab = foldl int_sqrt_round ab int_sqrt_second;
          ab = int_sqrt_round ab (0x1, 0x0)
      in snd ab)"

section \<open>Divisors and fractions\<close>

text \<open>The loop of \<open>gcd\<close>, entered with \<open>b\<close> not zero.\<close>

function gcd_loop :: "u64 \<Rightarrow> u64 \<Rightarrow> u64" where
  "gcd_loop a b = (let r = a mod b in if r \<noteq> 0 \<and> b \<noteq> 0 then gcd_loop b r else b)"
  by pat_completeness auto
termination
proof (relation "measure (\<lambda>(a, b). unat b)", goal_cases)
  case (2 a b)
  then have "unat b \<noteq> 0" by (simp add: unat_eq_0)
  then show ?case using 2 by (simp add: unat_mod)
qed simp

definition gcd_long :: "u64 \<Rightarrow> u64 \<Rightarrow> u64" where
  "gcd_long a b =
     (let (a, b) = (if a < b then (b, a) else (a, b))
      in if b = 0 then a else gcd_loop a b)"

function rational_loop :: "u64 \<Rightarrow> u64 \<Rightarrow> u64 \<Rightarrow> u64 \<Rightarrow> u64 \<Rightarrow> u64 \<Rightarrow> u64 \<Rightarrow> u64 \<Rightarrow> u64 \<times> u64" where
  "rational_loop max_numerator max_denominator n d n0 d0 n1 d1 =
     (if max_numerator < n1 \<or> max_denominator < d1 then (n0, d0)
      else if d = 0 then (n1, d1)
      else let t = d; a = n div d; d = n mod d; n = t;
               t = n0 + a * n1; n0 = n1; n1 = t;
               t = d0 + a * d1; d0 = d1; d1 = t
           in rational_loop max_numerator max_denominator n d n0 d0 n1 d1)"
  by pat_completeness auto
termination
proof (relation "measure (\<lambda>(mn, md, n, d, n0, d0, n1, d1). unat d)", goal_cases)
  case (2 mn md n d n0 d0 n1 d1)
  then have "unat d \<noteq> 0" by (simp add: unat_eq_0)
  then show ?case using 2 by (simp add: unat_mod)
qed simp

definition rational_best_approximation :: "u64 \<Rightarrow> u64 \<Rightarrow> u64 \<Rightarrow> u64 \<Rightarrow> u64 \<times> u64" where
  "rational_best_approximation given_numerator given_denominator max_numerator max_denominator =
     (let n = given_numerator; d = given_denominator; n0 = 0; d1 = 0; n1 = 1; d0 = 1
      in rational_loop max_numerator max_denominator n d n0 d0 n1 d1)"

section \<open>Sizes\<close>

definition SIZE_MAX :: u64 where
  "SIZE_MAX = 0xFFFFFFFFFFFFFFFF"

definition SSIZE_MAX :: u64 where
  "SSIZE_MAX = 0x7FFFFFFFFFFFFFFF"

definition array_size :: "u64 \<Rightarrow> u64 \<Rightarrow> u64" where
  "array_size a b =
     (if a = 0 \<or> b = 0 then 0
      else let temp = a * b
           in if temp div b \<noteq> a then SIZE_MAX
              else if SSIZE_MAX < temp then SIZE_MAX else temp)"

definition array3_size :: "u64 \<Rightarrow> u64 \<Rightarrow> u64 \<Rightarrow> u64" where
  "array3_size a b c =
     (if a = 0 \<or> b = 0 \<or> c = 0 then 0
      else let temp = a * b
           in if temp div b \<noteq> a then SIZE_MAX
              else let a = temp; temp = a * c
                   in if temp div c \<noteq> a then SIZE_MAX
                      else if SSIZE_MAX < temp then SIZE_MAX else temp)"

definition struct_size_sub :: "u64 \<Rightarrow> u64 \<Rightarrow> u64 \<Rightarrow> u64" where
  "struct_size_sub n m_size b_size =
     (if SSIZE_MAX < n \<or> SSIZE_MAX < m_size \<or> SSIZE_MAX < b_size then SIZE_MAX
      else if n \<noteq> 0 then
        let temp = n * m_size
        in if temp div n \<noteq> m_size then SIZE_MAX
           else if SSIZE_MAX < temp then SIZE_MAX
           else let temp = temp + b_size
                in if SSIZE_MAX < temp then SIZE_MAX else temp
      else b_size)"

text \<open>The number of bytes that \<open>kmalloc_array\<close> asks for; \<open>None\<close> is the early null result.\<close>

definition kmalloc_array :: "u64 \<Rightarrow> u64 \<Rightarrow> u64 option" where
  "kmalloc_array n s =
     (let total = n * s
      in if total \<noteq> 0 \<and> total div n \<noteq> s then None else Some total)"

section \<open>Lemmas on the square root\<close>

text \<open>Before the round of the bit \<open>2 ^ e\<close> of the root, \<open>R\<close> is the root found so far.\<close>

definition sqrt_inv :: "nat \<Rightarrow> nat \<Rightarrow> u64 \<times> u64 \<Rightarrow> bool" where
  "sqrt_inv e A ab \<longleftrightarrow>
     (\<exists>k. let R = 2 ^ (e + 1) * k in
        R\<^sup>2 \<le> A \<and> A < (R + 2 ^ (e + 1))\<^sup>2 \<and> unat (fst ab) = A - R\<^sup>2 \<and>
        unat (snd ab) = R * 2 ^ (e + 1) + 4 ^ e)"

lemma xor_low: "(8 * k + 2) XOR 7 = (8 * k + 5 :: nat)" "(8 * k + 2) XOR 3 = (8 * k + 1 :: nat)"
  by (subst xor_rec, simp, subst xor_rec, simp, subst xor_rec, simp) (subst xor_rec, simp, subst xor_rec, simp)

lemma power_4: "(4 :: nat) ^ e = 2 ^ (2 * e)"
  by (simp add: power_mult)

lemma sqrt_shift:
  assumes "unat b = 2 ^ (Suc e + 1) * k * 2 ^ (Suc e + 1) + 4 ^ Suc e"
    and "unat c = q * 4 ^ e" "(8 * k + 2) XOR q = r"
  shows "unat (drop_bit 1 b XOR c) = r * 4 ^ e"
proof -
  have e4: "(2 :: nat) ^ e * 2 ^ e = 4 ^ e"
    by (simp add: power_4 mult_2 power_add)
  have "unat b = 2 * ((8 * k + 2) * 4 ^ e)"
    using assms(1) by (simp add: algebra_simps flip: e4)
  then have "unat b div 2 = (8 * k + 2) * 4 ^ e" by simp
  then have "unat (drop_bit 1 b) = push_bit (2 * e) (8 * k + 2)"
    by (simp add: unat_drop_bit_div push_bit_eq_mult power_4)
  moreover have "unat c = push_bit (2 * e) q"
    using assms(2) by (simp add: push_bit_eq_mult power_4)
  ultimately have "unat (drop_bit 1 b XOR c) = push_bit (2 * e) ((8 * k + 2) XOR q)"
    by (simp only: unsigned_xor_eq push_bit_xor)
  then show ?thesis using assms(3) by (simp add: push_bit_eq_mult power_4)
qed

lemma sqrt_round:
  assumes "sqrt_inv (Suc e) A (a, b)" "unat hi = 7 * 4 ^ e" "unat lo = 3 * 4 ^ e"
  shows "sqrt_inv e A (int_sqrt_round (a, b) (hi, lo))"
proof -
  obtain k where k: "let R = 2 ^ (Suc e + 1) * k in
        R\<^sup>2 \<le> A \<and> A < (R + 2 ^ (Suc e + 1))\<^sup>2 \<and> unat a = A - R\<^sup>2 \<and>
        unat b = R * 2 ^ (Suc e + 1) + 4 ^ Suc e"
    using assms(1) unfolding sqrt_inv_def by auto
  define m R where "m = (2 :: nat) ^ (e + 1)" and "R = 2 * m * k"
  have m4: "4 ^ Suc e = m\<^sup>2" by (simp only: m_def power_4 power_mult [symmetric] mult.commute Suc_eq_plus1)
  have inv: "R\<^sup>2 \<le> A" "A < (R + 2 * m)\<^sup>2" "unat a = A - R\<^sup>2" "unat b = 2 * R * m + m\<^sup>2"
    using k unfolding Let_def R_def m4 by (simp_all add: m_def mult_ac)
  have e4: "m * m = 4 * 4 ^ e" using m4 by (simp add: power2_eq_square)
  have Rm: "R * m = 8 * k * 4 ^ e" using e4 by (simp add: R_def mult_ac)
  have b: "unat b = 2 ^ (Suc e + 1) * k * 2 ^ (Suc e + 1) + 4 ^ Suc e" using k by (simp add: Let_def)
  note hi = sqrt_shift [OF b assms(2) xor_low(1)] and lo = sqrt_shift [OF b assms(3) xor_low(2)]
  have sq: "(R + m)\<^sup>2 = R\<^sup>2 + unat b" unfolding inv(4) by (simp add: power2_eq_square algebra_simps)
  show ?thesis
  proof (cases "b \<le> a")
    case True
    then have le: "unat b \<le> unat a" by (simp add: word_le_nat_alt)
    then have "(R + m)\<^sup>2 \<le> A" using sq inv(1,3) by linarith
    moreover have "unat (a - b) = A - (R + m)\<^sup>2" using True le sq inv(3) by (simp add: unat_sub)
    moreover have "A < (R + m + m)\<^sup>2" using inv(2) by (simp add: mult_2 add.assoc)
    moreover have "(8 * k + 5) * 4 ^ e = (R + m) * m + 4 ^ e"
      using Rm e4 by (simp add: algebra_simps)
    moreover have "2 ^ (e + 1) * (2 * k + 1) = R + m" by (simp add: R_def m_def algebra_simps)
    ultimately show ?thesis
      using True hi unfolding sqrt_inv_def int_sqrt_round_def
      by (intro exI [of _ "2 * k + 1"]) (simp add: Let_def m_def add.commute)
  next
    case False
    then have lt: "unat a < unat b" by (simp add: word_le_nat_alt)
    then have "A < (R + m)\<^sup>2" using sq inv(1,3) by linarith
    moreover have "(8 * k + 1) * 4 ^ e = R * m + 4 ^ e" using Rm by (simp add: algebra_simps)
    moreover have "2 ^ (e + 1) * (2 * k) = R" by (simp add: R_def m_def algebra_simps)
    ultimately show ?thesis
      using False lo inv unfolding sqrt_inv_def int_sqrt_round_def
      by (intro exI [of _ "2 * k"]) (simp add: Let_def m_def)
  qed
qed

lemma sqrt_rounds:
  assumes "sqrt_inv (length cs) A ab"
    and "\<And>i. i < length cs \<Longrightarrow> unat (fst (cs ! i)) = 7 * 4 ^ (length cs - 1 - i) \<and> unat (snd (cs ! i)) = 3 * 4 ^ (length cs - 1 - i)"
  shows "sqrt_inv 0 A (foldl int_sqrt_round ab cs)"
  using assms
proof (induction cs arbitrary: ab)
  case (Cons c cs)
  obtain hi lo where c: "c = (hi, lo)" by (cases c)
  have "sqrt_inv (length cs) A (int_sqrt_round ab c)"
    using sqrt_round [of "length cs" A "fst ab" "snd ab" hi lo] Cons.prems(1) Cons.prems(2) [of 0] c by simp
  moreover have "unat (fst (cs ! i)) = 7 * 4 ^ (length cs - 1 - i) \<and> unat (snd (cs ! i)) = 3 * 4 ^ (length cs - 1 - i)"
    if "i < length cs" for i
    using Cons.prems(2) [of "Suc i"] that by simp
  ultimately show ?case using Cons.IH by simp
qed simp


lemma int_sqrt_constants:
  "length (int_sqrt_first @ int_sqrt_second) = 31"
  "i < 31 \<Longrightarrow> unat (fst ((int_sqrt_first @ int_sqrt_second) ! i)) = 7 * 4 ^ (30 - i) \<and>
    unat (snd ((int_sqrt_first @ int_sqrt_second) ! i)) = 3 * 4 ^ (30 - i)"
proof -
  show "length (int_sqrt_first @ int_sqrt_second) = 31"
    by (simp add: int_sqrt_first_def int_sqrt_second_def)
  have "map (\<lambda>(hi, lo). (unat hi, unat lo)) (int_sqrt_first @ int_sqrt_second) =
      map (\<lambda>i. (7 * 4 ^ (30 - i), 3 * 4 ^ (30 - i))) [0..<31]"
    by (simp add: int_sqrt_first_def int_sqrt_second_def upt_rec)
  then have "map (\<lambda>(hi, lo). (unat hi, unat lo)) (int_sqrt_first @ int_sqrt_second) ! i =
      map (\<lambda>i. (7 * 4 ^ (30 - i), 3 * 4 ^ (30 - i))) [0..<31] ! i" by (rule arg_cong)
  then have "(case (int_sqrt_first @ int_sqrt_second) ! i of (hi, lo) \<Rightarrow> (unat hi, unat lo)) =
      (7 * 4 ^ (30 - i), 3 * 4 ^ (30 - i))" if "i < 31"
    using that \<open>length _ = 31\<close> by (simp only: nth_map length_upt nth_upt) simp
  then show "unat (fst ((int_sqrt_first @ int_sqrt_second) ! i)) = 7 * 4 ^ (30 - i) \<and>
    unat (snd ((int_sqrt_first @ int_sqrt_second) ! i)) = 3 * 4 ^ (30 - i)" if "i < 31"
    using that by (simp add: case_prod_beta)
qed

lemma int_sqrt_floor:
  "(unat (int_sqrt a))\<^sup>2 \<le> unat a \<and> unat a < (unat (int_sqrt a) + 1)\<^sup>2"
proof -
  define cs where "cs = int_sqrt_first @ int_sqrt_second"
  obtain a1 b1 where ab: "foldl int_sqrt_round (a, 0x4000000000000000) cs = (a1, b1)" by fastforce
  have "sqrt_inv 31 (unat a) (a, 0x4000000000000000)"
    unfolding sqrt_inv_def using unat_u64_less [of a] by (intro exI [of _ 0]) simp
  then have "sqrt_inv 0 (unat a) (a1, b1)"
    using sqrt_rounds [of cs "unat a" "(a, 0x4000000000000000)"] int_sqrt_constants ab by (simp add: cs_def)
  then obtain k where k: "(2 * k)\<^sup>2 \<le> unat a" "unat a < (2 * k + 2)\<^sup>2" "unat a1 = unat a - (2 * k)\<^sup>2" "unat b1 = 4 * k + 1"
    unfolding sqrt_inv_def by (auto simp: Let_def)
  have res: "int_sqrt a = (if b1 \<le> a1 then drop_bit 1 b1 XOR 1 else drop_bit 1 b1)"
    using ab by (simp add: int_sqrt_def Let_def cs_def int_sqrt_round_def)
  have half: "unat (drop_bit 1 b1) = 2 * k" using k(4) by (simp add: unat_drop_bit_div)
  then have half1: "unat (drop_bit 1 b1 XOR 1) = 2 * k + 1"
    by (simp only: unsigned_xor_eq) (subst xor_rec, simp)
  have sq: "(2 * k + 1)\<^sup>2 = (2 * k)\<^sup>2 + unat b1" using k(4) by (simp add: power2_eq_square algebra_simps)
  show ?thesis
  proof (cases "b1 \<le> a1")
    case True
    then have "(2 * k + 1)\<^sup>2 \<le> unat a" using k(1,3) sq by (simp add: word_le_nat_alt)
    then show ?thesis using True res half1 k(2) by (simp add: numeral_2_eq_2)
  next
    case False
    then have "unat a < (2 * k + 1)\<^sup>2" using k(1,3) sq by (simp add: word_le_nat_alt)
    then show ?thesis using False res half k(1) by simp
  qed
qed

section \<open>Lemmas on the greatest common divisor\<close>

declare gcd_loop.simps [simp del] rational_loop.simps [simp del]

lemma gcd_loop_gcd: "b \<noteq> 0 \<Longrightarrow> unat (gcd_loop a b) = gcd (unat a) (unat b)"
proof (induction a b rule: gcd_loop.induct)
  case (1 a b)
  show ?case
  proof (cases "a mod b = 0")
    case True
    then have "unat a mod unat b = 0" by (metis unat_0 unat_mod)
    then show ?thesis using True by (simp add: gcd_loop.simps [of a b] gcd_nat.absorb2 dvd_eq_mod_eq_0)
  next
    case False
    then have "unat (gcd_loop b (a mod b)) = gcd (unat b) (unat (a mod b))"
      using "1.IH" [OF refl] "1.prems" by simp
    then show ?thesis
      using False "1.prems" by (simp add: gcd_loop.simps [of a b] unat_mod gcd.commute flip: gcd_red_nat)
  qed
qed

lemma gcd_long_gcd: "unat (gcd_long a b) = gcd (unat a) (unat b)"
  by (auto simp: gcd_long_def gcd_loop_gcd gcd.commute)

section \<open>Lemmas on rational approximation\<close>

text \<open>The state of the loop for the fraction \<open>N / D\<close>: the numbers satisfy the relations of
  the continued fraction, so that no step overflows.\<close>

definition rat_inv :: "nat \<Rightarrow> nat \<Rightarrow> u64 \<Rightarrow> u64 \<Rightarrow> u64 \<Rightarrow> u64 \<Rightarrow> u64 \<Rightarrow> u64 \<Rightarrow> bool" where
  "rat_inv N D n d n0 d0 n1 d1 \<longleftrightarrow>
     N = unat n1 * unat n + unat n0 * unat d \<and> D = unat d1 * unat n + unat d0 * unat d \<and>
     gcd (unat n) (unat d) = gcd N D"

lemma euclid_step:
  "(n1 :: nat) * n + n0 * d = (n0 + n div d * n1) * d + n1 * (n mod d)"
proof -
  define q r where "q = n div d" and "r = n mod d"
  have "n = q * d + r" by (simp add: q_def r_def)
  then have "n1 * n = n1 * (q * d) + n1 * r" by (metis add_mult_distrib2)
  then show ?thesis unfolding q_def [symmetric] r_def [symmetric] by (simp add: algebra_simps)
qed

lemma rat_step_value:
  fixes n0 n1 n d :: u64
  assumes "N = unat n1 * unat n + unat n0 * unat d" "N < 2 ^ 64" "d \<noteq> 0"
  shows "unat (n0 + n div d * n1) = unat n0 + unat n div unat d * unat n1"
proof -
  have d: "1 \<le> unat d" using assms(3) by (simp add: Suc_le_eq unat_gt_0)
  have N: "N = (unat n0 + unat n div unat d * unat n1) * unat d + unat n1 * (unat n mod unat d)"
    using assms(1) euclid_step by simp
  have "unat n0 + unat n div unat d * unat n1 \<le> (unat n0 + unat n div unat d * unat n1) * unat d"
    using d by simp
  also have "\<dots> \<le> N" unfolding N by simp
  finally have lt: "unat n0 + unat n div unat d * unat n1 < 2 ^ 64" using assms(2) by simp
  then have "unat (n div d * n1) = unat n div unat d * unat n1"
    by (simp add: unat_word_ariths(2) unat_div)
  then show ?thesis using lt by (simp add: unat_word_ariths(1))
qed

lemma rat_step:
  assumes "rat_inv N D n d n0 d0 n1 d1" "N < 2 ^ 64" "D < 2 ^ 64" "d \<noteq> 0"
  shows "rat_inv N D d (n mod d) n1 d1 (n0 + n div d * n1) (d0 + n div d * d1)"
proof -
  have N: "N = unat n1 * unat n + unat n0 * unat d" and D: "D = unat d1 * unat n + unat d0 * unat d"
    and g: "gcd (unat n) (unat d) = gcd N D" using assms(1) by (simp_all add: rat_inv_def)
  have "N = unat (n0 + n div d * n1) * unat d + unat n1 * unat (n mod d)"
    unfolding rat_step_value [OF N assms(2,4)] unat_mod using N euclid_step by simp
  moreover have "D = unat (d0 + n div d * d1) * unat d + unat d1 * unat (n mod d)"
    unfolding rat_step_value [OF D assms(3,4)] unat_mod using D euclid_step by simp
  moreover have "gcd (unat d) (unat (n mod d)) = gcd N D"
    using g by (metis gcd_red_nat unat_mod)
  ultimately show ?thesis by (simp add: rat_inv_def)
qed

lemma rational_loop_result:
  assumes "rat_inv N D n d n0 d0 n1 d1" "N < 2 ^ 64" "D < 2 ^ 64"
    and "n0 \<le> mn" "d0 \<le> md" "(p, q) = rational_loop mn md n d n0 d0 n1 d1"
    and "0 < unat n"
  shows "p \<le> mn \<and> q \<le> md \<and>
    (N div gcd N D \<le> unat mn \<and> D div gcd N D \<le> unat md \<longrightarrow>
       unat p = N div gcd N D \<and> unat q = D div gcd N D)"
  using assms
proof (induction mn md n d n0 d0 n1 d1 rule: rational_loop.induct)
  case (1 mn md n d n0 d0 n1 d1)
  have inv: "N = unat n1 * unat n + unat n0 * unat d" "D = unat d1 * unat n + unat d0 * unat d"
    "gcd (unat n) (unat d) = gcd N D" using "1.prems"(1) by (simp_all add: rat_inv_def)
  have g: "0 < gcd N D" "gcd N D \<le> unat n"
    using "1.prems"(7) inv(3) gcd_le1_nat [of "unat n" "unat d"] by (auto simp flip: inv(3))
  consider (stop) "mn < n1 \<or> md < d1" | (exact) "\<not> (mn < n1 \<or> md < d1)" "d = 0"
    | (step) "\<not> (mn < n1 \<or> md < d1)" "d \<noteq> 0" by blast
  then show ?case
  proof cases
    case stop
    have "unat n1 * gcd N D \<le> N" "unat d1 * gcd N D \<le> D"
      using inv g(2) by (metis le_add1 mult_le_mono2 order_trans)+
    then have "unat n1 \<le> N div gcd N D" "unat d1 \<le> D div gcd N D"
      using g(1) by (simp_all add: less_eq_div_iff_mult_less_eq)
    then show ?thesis
      using stop "1.prems" by (auto simp: rational_loop.simps [of mn md n d] word_less_nat_alt)
  next
    case exact
    then have "unat n = gcd N D" using inv(3) by simp
    then have "N div gcd N D = unat n1" "D div gcd N D = unat d1" using inv exact g(1) by simp_all
    moreover have "(p, q) = (n1, d1)"
      using exact "1.prems"(6) by (simp add: rational_loop.simps [of mn md n 0])
    ultimately show ?thesis using exact(1) by (simp add: not_less)
  next
    case step
    show ?thesis
    proof (rule "1.IH" [OF step refl refl refl refl refl refl refl refl refl refl])
      show "rat_inv N D d (n mod d) n1 d1 (n0 + n div d * n1) (d0 + n div d * d1)"
        using rat_step "1.prems" step by blast
      show "(p, q) = rational_loop mn md d (n mod d) n1 d1 (n0 + n div d * n1) (d0 + n div d * d1)"
        using step "1.prems"(6) by (simp add: rational_loop.simps [of mn md n d] Let_def)
    qed (use "1.prems" step in \<open>auto simp: not_less unat_gt_0\<close>)
  qed
qed


section \<open>Lemmas on sizes\<close>

lemma mult_no_overflow:
  fixes a b :: u64
  assumes "b \<noteq> 0"
  shows "a * b div b = a \<longleftrightarrow> unat a * unat b < 2 ^ 64"
proof
  assume "a * b div b = a"
  then have "unat (a * b) div unat b = unat a" by (metis unat_div)
  then have "unat a * unat b \<le> unat (a * b)" by (metis div_times_less_eq_dividend)
  also have "\<dots> < 2 ^ 64" using unat_u64_less [of "a * b"] by simp
  finally show "unat a * unat b < 2 ^ 64" .
next
  assume "unat a * unat b < 2 ^ 64"
  then have "unat (a * b) = unat a * unat b" by (simp add: unat_word_ariths(2))
  then have "unat (a * b div b) = unat a" using assms by (simp add: unat_div unat_gt_0)
  then show "a * b div b = a" by (simp add: word_unat_eq_iff)
qed

lemma unat_mult_lt: "unat a * unat b < 2 ^ 64 \<Longrightarrow> unat (a * b :: u64) = unat a * unat b"
  by (simp add: unat_word_ariths(2))

lemma SSIZE_less: "SSIZE_MAX < x \<longleftrightarrow> 2 ^ 63 \<le> unat x"
  by (simp add: word_less_nat_alt SSIZE_MAX_def Suc_le_eq) arith

lemma array_size_exact:
  "array_size a b = (if unat a * unat b < 2 ^ 63 then a * b else SIZE_MAX)"
proof (cases "a = 0 \<or> b = 0")
  case False
  then have "a * b div b = a \<longleftrightarrow> unat a * unat b < 2 ^ 64" by (intro mult_no_overflow) simp
  then show ?thesis
    using False unat_mult_lt [of a b] by (auto simp: array_size_def Let_def SSIZE_less)
qed (auto simp: array_size_def)

lemma array3_size_exact:
  "array3_size a b c = (if unat a * unat b * unat c < 2 ^ 63 then a * b * c else SIZE_MAX)"
proof (cases "a = 0 \<or> b = 0 \<or> c = 0")
  case False
  have ab: "a * b div b = a \<longleftrightarrow> unat a * unat b < 2 ^ 64" using False by (intro mult_no_overflow) simp
  have abc: "a * b * c div c = a * b \<longleftrightarrow> unat (a * b) * unat c < 2 ^ 64" using False by (intro mult_no_overflow) simp
  have "1 \<le> unat c" using False by (simp add: Suc_le_eq unat_gt_0)
  then have "unat a * unat b * 1 \<le> unat a * unat b * unat c" by (rule mult_le_mono2)
  then have small: "unat a * unat b < 2 ^ 64" if "unat a * unat b * unat c < 2 ^ 63"
  proof -
    have "unat a * unat b < 2 ^ 63"
      using order_le_less_trans [OF \<open>unat a * unat b * 1 \<le> _\<close> that] by simp
    then show ?thesis by simp
  qed
  show ?thesis
  proof (cases "unat a * unat b < 2 ^ 64")
    case True
    then show ?thesis
      using False ab abc unat_mult_lt [of a b] unat_mult_lt [of "a * b" c]
      by (auto simp: array3_size_def Let_def SSIZE_less)
  next
    case large: False
    then show ?thesis using False ab small by (auto simp: array3_size_def Let_def)
  qed
qed (auto simp: array3_size_def)

lemma struct_size_exact:
  assumes "unat n < 2 ^ 63" "unat m < 2 ^ 63" "unat b < 2 ^ 63"
  shows "struct_size_sub n m b = (if unat n * unat m + unat b < 2 ^ 63 then n * m + b else SIZE_MAX)"
proof (cases "n = 0")
  case True
  then show ?thesis using assms by (simp add: struct_size_sub_def SSIZE_less)
next
  case False
  have over: "n * m div n = m \<longleftrightarrow> unat n * unat m < 2 ^ 64"
    using mult_no_overflow [OF False, of m] by (simp add: mult.commute)
  have sum: "unat (n * m + b) = unat (n * m) + unat b" if "unat (n * m) < 2 ^ 63"
    using that assms(3) by (simp add: unat_word_ariths(1))
  have guard: "\<not> (SSIZE_MAX < n \<or> SSIZE_MAX < m \<or> SSIZE_MAX < b)" using assms by (simp add: SSIZE_less)
  show ?thesis
  proof (cases "unat n * unat m < 2 ^ 63")
    case True
    then have "unat (n * m) = unat n * unat m" by (intro unat_mult_lt) simp
    then show ?thesis
      using True False over sum guard by (auto simp: struct_size_sub_def Let_def SSIZE_less)
  next
    case large: False
    then have "struct_size_sub n m b = SIZE_MAX"
      using False over guard unat_mult_lt [of n m] by (auto simp: struct_size_sub_def Let_def SSIZE_less)
    then show ?thesis using large by auto
  qed
qed

section \<open>Lemmas on powers of two\<close>

lemma unat_pow2: "k < 64 \<Longrightarrow> unat (push_bit k 1 :: u64) = 2 ^ k"
  by (simp only: unsigned_push_bit_eq) (simp add: push_bit_eq_mult take_bit_nat_eq_self)

lemma flsl_le: "uu_flsl x \<le> k \<longleftrightarrow> unat x < 2 ^ k"
proof (cases "x = 0")
  case False
  note b = flsl_bounds [OF this]
  show ?thesis
  proof
    assume "uu_flsl x \<le> k"
    then show "unat x < 2 ^ k" using b by (meson one_le_numeral order_less_le_trans power_increasing)
  next
    assume "unat x < 2 ^ k"
    then have "(2 :: nat) ^ (uu_flsl x - 1) < 2 ^ k" using b by linarith
    then show "uu_flsl x \<le> k" by simp
  qed
qed (simp add: uu_flsl_def)


lemma rounddown_bounds:
  assumes "x \<noteq> 0"
  shows "unat (rounddown_pow_of_two x) \<le> unat x \<and> unat x < 2 * unat (rounddown_pow_of_two x) \<and>
    (\<exists>k. unat (rounddown_pow_of_two x) = 2 ^ k)"
proof -
  note b = flsl_bounds [OF assms]
  have "uu_flsl x \<le> 64" using flsl_le [of x 64] unat_u64_less [of x] by simp
  moreover have pos: "0 < uu_flsl x"
    using b assms by (cases "uu_flsl x") (auto simp: unat_eq_0)
  ultimately have "unat (rounddown_pow_of_two x) = 2 ^ (uu_flsl x - 1)"
    using assms by (simp add: rounddown_pow_of_two_def unat_pow2 del: push_bit_of_1)
  moreover have "2 * 2 ^ (uu_flsl x - 1) = (2 :: nat) ^ uu_flsl x" using pos by (cases "uu_flsl x") simp_all
  ultimately show ?thesis using b by auto
qed

lemma roundup_bounds:
  assumes "x \<noteq> 0" "unat x \<le> 2 ^ 63"
  shows "unat x \<le> unat (roundup_pow_of_two x) \<and>
    (\<exists>k. unat (roundup_pow_of_two x) = 2 ^ k) \<and> (\<forall>k. unat x \<le> 2 ^ k \<longrightarrow> unat (roundup_pow_of_two x) \<le> 2 ^ k)"
proof -
  have x: "unat (x - 1) = unat x - 1" using assms(1) by (simp add: unat_minus_one)
  have pos: "0 < unat x" using assms(1) by (simp add: unat_gt_0)
  have le: "uu_flsl (x - 1) \<le> k \<longleftrightarrow> unat x \<le> 2 ^ k" for k
    using flsl_le [of "x - 1" k] x pos by auto
  have "uu_flsl (x - 1) < 64" using le [of 63] assms(2) by simp
  then have "unat (roundup_pow_of_two x) = 2 ^ uu_flsl (x - 1)"
    using assms(1) by (simp add: roundup_pow_of_two_def unat_pow2 del: push_bit_of_1)
  then show ?thesis using le by (auto intro: power_increasing)
qed

section \<open>Properties\<close>

text \<open>C22: \<open>int_sqrt\<close> returns the integer part of the square root of every 64-bit number.\<close>

theorem int_sqrt_is_floor_sqrt:
  "(unat (int_sqrt a))\<^sup>2 \<le> unat a \<and> unat a < (unat (int_sqrt a) + 1)\<^sup>2"
  by (rule int_sqrt_floor)

text \<open>C26: \<open>rational_best_approximation\<close> returns, and never overflows on the way: the result
  keeps to the limits, and it is the given fraction in lowest terms, as computed by \<open>gcd\<close>,
  whenever that keeps to the limits.\<close>

theorem rational_best_approximation_exact:
  assumes "1 \<le> md" "n \<noteq> 0" "(p, q) = rational_best_approximation n d mn md"
  shows "p \<le> mn \<and> q \<le> md \<and>
    (unat n div unat (gcd_long n d) \<le> unat mn \<and> unat d div unat (gcd_long n d) \<le> unat md \<longrightarrow>
       unat p = unat n div unat (gcd_long n d) \<and> unat q = unat d div unat (gcd_long n d))"
proof -
  have "rat_inv (unat n) (unat d) n d 0 1 1 0" by (simp add: rat_inv_def)
  from rational_loop_result [OF this, of mn md p q] show ?thesis
    using assms unat_u64_less [of n] unat_u64_less [of d]
    by (simp add: rational_best_approximation_def Let_def gcd_long_gcd unat_gt_0)
qed

theorem rational_best_approximation_exact_witness:
  "rational_best_approximation 6 4 100 100 = (3, 2) \<and> unat (gcd_long 6 4) = 2"
proof -
  have r: "(3, 2) = rational_best_approximation 6 4 100 100" by code_simp
  have "unat (gcd_long 6 4) = 2" by code_simp
  with rational_best_approximation_exact [OF _ _ r] r show ?thesis by simp
qed

text \<open>The size computations are exact when the true product, or the product plus the
  header, is below \<open>2\<^sup>6\<^sup>3\<close>, and saturate to \<open>SIZE_MAX\<close> otherwise: no allocation is made with a
  wrapped size.\<close>

theorem sizes_saturate:
  "array_size a b = (if unat a * unat b < 2 ^ 63 then a * b else SIZE_MAX) \<and>
   array3_size a b c = (if unat a * unat b * unat c < 2 ^ 63 then a * b * c else SIZE_MAX) \<and>
   (unat a < 2 ^ 63 \<and> unat b < 2 ^ 63 \<and> unat c < 2 ^ 63 \<longrightarrow>
     struct_size_sub a b c = (if unat a * unat b + unat c < 2 ^ 63 then a * b + c else SIZE_MAX))"
  using array_size_exact array3_size_exact struct_size_exact by blast

theorem sizes_saturate_witness: "array_size (2 ^ 40) (2 ^ 30) = SIZE_MAX \<and> struct_size_sub 2 8 16 = 32"
  using sizes_saturate [of "2 ^ 40" "2 ^ 30" 0] sizes_saturate [of 2 8 16] by simp

text \<open>\<open>kmalloc_array\<close> refuses the products that wrap around, except those that are a
  multiple of \<open>2\<^sup>6\<^sup>4\<close>: for these it asks for zero bytes.\<close>

theorem kmalloc_array_overflow:
  "kmalloc_array n s =
     (if unat n * unat s < 2 ^ 64 then Some (n * s)
      else if n * s = 0 then Some 0 else None)"
proof (cases "n = 0")
  case False
  have "n * s div n = s \<longleftrightarrow> unat n * unat s < 2 ^ 64"
    using mult_no_overflow [OF False, of s] by (simp add: mult.commute)
  then show ?thesis by (auto simp: kmalloc_array_def Let_def)
qed (simp add: kmalloc_array_def)

text \<open>\<open>rounddown_pow_of_two\<close> and \<open>roundup_pow_of_two\<close> return the greatest power of two not
  above, and the least not below, a number that is not zero, for the latter up to \<open>2\<^sup>6\<^sup>3\<close>.\<close>

theorem round_pow_of_two:
  assumes "x \<noteq> 0" "unat x \<le> 2 ^ 63"
  shows "unat (rounddown_pow_of_two x) \<le> unat x \<and> unat x < 2 * unat (rounddown_pow_of_two x) \<and>
    (\<exists>k. unat (rounddown_pow_of_two x) = 2 ^ k) \<and>
    unat x \<le> unat (roundup_pow_of_two x) \<and> (\<exists>k. unat (roundup_pow_of_two x) = 2 ^ k) \<and>
    (\<forall>k. unat x \<le> 2 ^ k \<longrightarrow> unat (roundup_pow_of_two x) \<le> 2 ^ k)"
  using rounddown_bounds [OF assms(1)] roundup_bounds [OF assms] by blast

theorem round_pow_of_two_witness: "unat (rounddown_pow_of_two 5) \<le> 5 \<and> unat (roundup_pow_of_two 5) \<le> 8"
  using round_pow_of_two [of 5] by (auto dest!: spec [of _ 3])

text \<open>\<open>div_round_closest_s32\<close> returns a nearest quotient for a dividend that is not
  negative and a positive divisor, but not for negative dividends: \<open>-7 / 4\<close> gives \<open>-1\<close>
  although \<open>-2\<close> is nearer.\<close>

theorem div_round_closest_nonneg:
  "(0 \<le> rem \<and> 0 < dv \<longrightarrow> 2 * \<bar>rem - dv * div_round_closest_s32 rem dv\<bar> \<le> dv) \<and>
   div_round_closest_s32 (- 7) 4 = - 1 \<and> \<bar>(- 7) - 4 * (- 2)\<bar> < \<bar>(- 7) - 4 * div_round_closest_s32 (- 7) 4\<bar>"
proof -
  have "2 * \<bar>rem - dv * div_round_closest_s32 rem dv\<bar> \<le> dv" if a: "0 \<le> rem" "0 < dv"
  proof -
    define h where "h = dv div 2"
    have h: "0 \<le> h" "2 * h \<le> dv" "dv \<le> 2 * h + 1" using a(2) by (auto simp: h_def)
    have "c_div dv 2 = h" using a by (simp add: c_div_def h_def)
    moreover have "c_div (rem + h) dv = (rem + h) div dv"
      using a h by (cases "rem + h = 0") (simp_all add: c_div_def sgn_if)
    ultimately have q: "div_round_closest_s32 rem dv = (rem + h) div dv" by (simp add: div_round_closest_s32_def)
    define q where "q = (rem + h) div dv"
    have "dv * q \<le> rem + h" "rem + h < dv * q + dv"
      using a(2) mult_div_mod_eq [of dv "rem + h"] pos_mod_bound [of dv "rem + h"] pos_mod_sign [of dv "rem + h"]
      unfolding q_def by linarith+
    then have "\<bar>rem - dv * q\<bar> \<le> h" using h by (intro abs_leI) linarith+
    then have "2 * \<bar>rem - dv * q\<bar> \<le> 2 * h" by simp
    then show ?thesis using h(2) unfolding q q_def [symmetric] by (rule order_trans)
  qed
  then show ?thesis by (simp add: div_round_closest_s32_def c_div_def)
qed

theorem div_round_closest_nonneg_witness: "2 * \<bar>7 - 4 * div_round_closest_s32 7 4\<bar> \<le> 4"
  using div_round_closest_nonneg [of 7 4] by simp

end
