(* ===== verification/Threads.thy ===== *)
theory Threads
  imports Webcamd_Prelude
begin

text \<open>
  Threads and locks (\<open>kernel/linux_thread.c\<close>, \<open>kernel/linux_thread.h\<close>).  One recursive
  mutex, \<open>atomic_mutex\<close>, guards the whole emulation; a thread that sleeps gives it up
  completely and takes it again as often as it had it.  Semaphores, mutexes, completions
  and wait queues are data under this lock, with a loop that sleeps on one of the two
  condition variables until the data are as wanted.  A pass through such a loop runs under
  the lock from the test to the sleep or the return, and so it is one step here: the
  interleavings of threads are the sequences of such steps.
\<close>

section \<open>The global lock\<close>

type_synonym tid = nat

text \<open>The holder of \<open>atomic_mutex\<close> and how often it has locked it, and the counter that
  the code keeps beside it.\<close>

record atomic_state =
  holder :: "tid option"
  depth :: nat
  atomic_recurse :: u32

text \<open>A recursive POSIX mutex; \<open>None\<close> is a thread that has to wait.\<close>

definition pthread_mutex_lock :: "tid \<Rightarrow> atomic_state \<Rightarrow> atomic_state option" where
  "pthread_mutex_lock t s =
     (if holder s = None then Some (s\<lparr>holder := Some t, depth := 1\<rparr>)
      else if holder s = Some t then Some (s\<lparr>depth := depth s + 1\<rparr>)
      else None)"

definition pthread_mutex_unlock :: "tid \<Rightarrow> atomic_state \<Rightarrow> atomic_state" where
  "pthread_mutex_unlock t s =
     (if holder s = Some t then
        s\<lparr>depth := depth s - 1, holder := (if depth s \<le> 1 then None else Some t)\<rparr>
      else s)"

definition atomic_lock :: "tid \<Rightarrow> atomic_state \<Rightarrow> atomic_state option" where
  "atomic_lock t s = map_option (atomic_recurse_update (\<lambda>r. r + 1)) (pthread_mutex_lock t s)"

definition atomic_unlock :: "tid \<Rightarrow> atomic_state \<Rightarrow> atomic_state" where
  "atomic_unlock t s = pthread_mutex_unlock t (s\<lparr>atomic_recurse := atomic_recurse s - 1\<rparr>)"

definition atomic_pre_sleep :: "atomic_state \<Rightarrow> atomic_state" where
  "atomic_pre_sleep s = s\<lparr>atomic_recurse := atomic_recurse s - 1\<rparr>"

definition atomic_post_sleep :: "atomic_state \<Rightarrow> atomic_state" where
  "atomic_post_sleep s = s\<lparr>atomic_recurse := atomic_recurse s + 1\<rparr>"

lemma recurse_atomic_unlock [simp]: "atomic_recurse (atomic_unlock t s) = atomic_recurse s - 1"
  by (simp add: atomic_unlock_def pthread_mutex_unlock_def)

lemma unat_minus_1: "0 < (w :: 'a::len word) \<Longrightarrow> unat (w - 1) = unat w - 1"
  by (metis unat_minus_one word_greater_zero_iff)

function atomic_drop :: "tid \<Rightarrow> u32 \<Rightarrow> atomic_state \<Rightarrow> u32 \<times> atomic_state" where
  "atomic_drop t drops s =
     (if 1 < atomic_recurse s then atomic_drop t (drops + 1) (atomic_unlock t s) else (drops, s))"
  by pat_completeness auto
termination
  by (relation "measure (\<lambda>(t, drops, s). unat (atomic_recurse s))")
    (auto simp: unat_minus_1 word_less_nat_alt)

declare atomic_drop.simps [simp del]

primrec atomic_pickup :: "tid \<Rightarrow> nat \<Rightarrow> atomic_state \<Rightarrow> atomic_state option" where
  "atomic_pickup t 0 s = Some s"
| "atomic_pickup t (Suc drops) s = Option.bind (atomic_lock t s) (atomic_pickup t drops)"

section \<open>Sleeping\<close>

record wait_queue_head =
  sleep_ref :: u32
  sleep_count :: u32
  do_selwakeup :: bool

definition init_waitqueue_head :: wait_queue_head where
  "init_waitqueue_head = \<lparr>sleep_ref = 0, sleep_count = 0, do_selwakeup = False\<rparr>"

text \<open>
  \<open>__wait_event\<close> in two parts: up to the point where \<open>pthread_cond_wait\<close> has unlocked the
  mutex once, and from the point where it returns.  The queue may be null.
\<close>

definition uu_wait_event_sleep ::
    "tid \<Rightarrow> wait_queue_head option \<Rightarrow> atomic_state \<Rightarrow> u32 \<times> wait_queue_head option \<times> atomic_state" where
  "uu_wait_event_sleep t q s =
     (let (drops, s) = atomic_drop t 0 s;
          s = atomic_pre_sleep s;
          q = map_option (sleep_count_update (\<lambda>c. c + 1)) q
      in (drops, q, pthread_mutex_unlock t s))"

definition uu_wait_event_wake ::
    "tid \<Rightarrow> u32 \<Rightarrow> wait_queue_head option \<Rightarrow> atomic_state \<Rightarrow> (wait_queue_head option \<times> atomic_state) option" where
  "uu_wait_event_wake t drops q s =
     (case pthread_mutex_lock t s of None \<Rightarrow> None
      | Some s \<Rightarrow>
        let q = map_option (sleep_count_update (\<lambda>c. c - 1)) q;
            s = atomic_post_sleep s
        in map_option (Pair q) (atomic_pickup t (unat drops) s))"

text \<open>The same for \<open>schedule_timeout\<close>, which sleeps in \<open>usleep\<close>.\<close>

definition schedule_timeout_sleep :: "tid \<Rightarrow> atomic_state \<Rightarrow> (u32 \<times> atomic_state) option" where
  "schedule_timeout_sleep t s =
     (case atomic_lock t s of None \<Rightarrow> None
      | Some s \<Rightarrow> let (drops, s) = atomic_drop t 0 s in Some (drops, atomic_unlock t s))"

definition schedule_timeout_wake :: "tid \<Rightarrow> u32 \<Rightarrow> atomic_state \<Rightarrow> atomic_state option" where
  "schedule_timeout_wake t drops s =
     (case atomic_lock t s of None \<Rightarrow> None
      | Some s \<Rightarrow> map_option (atomic_unlock t) (atomic_pickup t (unat drops) s))"

record timespec =
  tv_sec :: int
  tv_nsec :: int

text \<open>\<open>HZ\<close> is 1000, and the clock is read once.\<close>

definition uu_wait_get_timeout :: "u64 \<Rightarrow> timespec \<Rightarrow> timespec" where
  "uu_wait_get_timeout timeout now =
     (let timeout = timeout + 1;
          timeout = 1000000 * timeout;
          ts = \<lparr>tv_sec = int (unat (timeout div 1000000000)), tv_nsec = int (unat (timeout mod 1000000000))\<rparr>;
          ts = \<lparr>tv_sec = tv_sec ts + tv_sec now, tv_nsec = tv_nsec ts + tv_nsec now\<rparr>
      in if 1000000000 \<le> tv_nsec ts then \<lparr>tv_sec = tv_sec ts + 1, tv_nsec = tv_nsec ts - 1000000000\<rparr>
         else ts)"

section \<open>Wake-ups of pollers\<close>

text \<open>The thread local \<open>wakeup_inhibit\<close> and the number of calls of \<open>poll_wakeup_internal\<close>.\<close>

record poll_state =
  wakeup_inhibit :: nat
  poll_wakeups :: nat

definition wake_up_inhibit :: "bool \<Rightarrow> poll_state \<Rightarrow> poll_state" where
  "wake_up_inhibit v p =
     (let old = wakeup_inhibit p;
          p = p\<lparr>wakeup_inhibit := of_bool v\<rparr>
      in if \<not> v \<and> old = 2 then p\<lparr>poll_wakeups := poll_wakeups p + 1\<rparr> else p)"

definition wake_up :: "wait_queue_head \<Rightarrow> poll_state \<Rightarrow> wait_queue_head \<times> poll_state" where
  "wake_up q p =
     (let q = q\<lparr>sleep_ref := sleep_ref q + 1\<rparr>
      in if do_selwakeup q then
           if wakeup_inhibit p = 0 then (q, p\<lparr>poll_wakeups := poll_wakeups p + 1\<rparr>)
           else (q, p\<lparr>wakeup_inhibit := 2\<rparr>)
         else (q, p))"

definition poll_wait :: "wait_queue_head option \<Rightarrow> wait_queue_head option" where
  "poll_wait wq = map_option (do_selwakeup_update (\<lambda>_. True)) wq"

definition waitqueue_active :: "wait_queue_head \<Rightarrow> bool" where
  "waitqueue_active q = (sleep_count q \<noteq> 0)"

section \<open>Lemmas on the global lock\<close>

text \<open>The counter agrees with the recursion depth of the mutex.\<close>

definition atomic_ok :: "atomic_state \<Rightarrow> bool" where
  "atomic_ok s \<longleftrightarrow> (holder s = None \<longleftrightarrow> depth s = 0) \<and> depth s = unat (atomic_recurse s)"

lemma atomic_ok_free: "atomic_ok s \<Longrightarrow> holder s = None \<Longrightarrow> depth s = 0 \<and> atomic_recurse s = 0"
  by (auto simp: atomic_ok_def word_unat_eq_iff)

lemma atomic_lock_ok:
  assumes "atomic_ok s" "depth s + 1 < 2 ^ 32" "atomic_lock t s = Some s'"
  shows "atomic_ok s' \<and> holder s' = Some t \<and> depth s' = depth s + 1"
proof -
  have "unat (atomic_recurse s + 1) = depth s + 1"
    using assms by (simp add: atomic_ok_def unat_word_ariths)
  then show ?thesis
    using assms by (auto simp: atomic_lock_def pthread_mutex_lock_def atomic_ok_def split: if_splits)
qed

lemma atomic_lock_waits: "atomic_lock t s = None \<longleftrightarrow> (\<exists>u. holder s = Some u \<and> u \<noteq> t)"
  by (auto simp: atomic_lock_def pthread_mutex_lock_def)

lemma atomic_unlock_ok:
  assumes "atomic_ok s" "holder s = Some t"
  shows "atomic_ok (atomic_unlock t s) \<and> depth (atomic_unlock t s) = depth s - 1 \<and>
    holder (atomic_unlock t s) = (if depth s = 1 then None else Some t)"
proof -
  have d: "0 < depth s" "depth s = unat (atomic_recurse s)" using assms by (auto simp: atomic_ok_def)
  then have "0 < atomic_recurse s" by (metis unat_gt_0 word_greater_zero_iff)
  then have "unat (atomic_recurse s - 1) = depth s - 1" using d by (simp add: unat_minus_1)
  then show ?thesis
    using assms d by (auto simp: atomic_unlock_def pthread_mutex_unlock_def atomic_ok_def)
qed

lemma atomic_state_eqI:
  "holder s = holder s' \<Longrightarrow> depth s = depth s' \<Longrightarrow> atomic_recurse s = atomic_recurse s' \<Longrightarrow> s = (s' :: atomic_state)"
  by simp

lemma atomic_ok_eqI: "atomic_ok s \<Longrightarrow> atomic_ok s' \<Longrightarrow> holder s = holder s' \<Longrightarrow> depth s = depth s' \<Longrightarrow> s = s'"
  by (rule atomic_state_eqI) (auto simp: atomic_ok_def word_unat_eq_iff)

text \<open>\<open>atomic_drop\<close> leaves the lock held once, and counts the unlocks.\<close>

lemma atomic_drop_ok:
  assumes "atomic_ok s" "holder s = Some t"
  shows "\<exists>s'. atomic_drop t drops s = (drops + of_nat (depth s - 1), s') \<and>
    atomic_ok s' \<and> holder s' = Some t \<and> depth s' = 1"
  using assms
proof (induction t drops s rule: atomic_drop.induct)
  case (1 t drops s)
  have d: "0 < depth s" "depth s = unat (atomic_recurse s)" using "1.prems" by (auto simp: atomic_ok_def)
  show ?case
  proof (cases "1 < atomic_recurse s")
    case True
    then have gt: "1 < depth s" using d by (simp add: word_less_nat_alt)
    note u = atomic_unlock_ok [OF "1.prems"]
    from "1.IH" [OF True] u gt obtain s' where
      "atomic_drop t (drops + 1) (atomic_unlock t s) = (drops + 1 + of_nat (depth s - 1 - 1), s')"
      "atomic_ok s'" "holder s' = Some t" "depth s' = 1" by auto
    moreover have "(1 :: u32) + of_nat (depth s - 1 - 1) = of_nat (depth s - 1)"
    proof -
      have "depth s - 1 = Suc (depth s - 1 - 1)" using gt by simp
      then show ?thesis by (metis of_nat_Suc)
    qed
    ultimately show ?thesis using True by (subst atomic_drop.simps) (simp add: add.assoc)
  next
    case False
    then have "depth s = 1" using d by (simp add: word_less_nat_alt)
    then show ?thesis using False "1.prems" by (subst atomic_drop.simps) simp
  qed
qed

lemma atomic_pickup_ok:
  assumes "atomic_ok s" "holder s = Some t" "depth s + n < 2 ^ 32"
  shows "\<exists>s'. atomic_pickup t n s = Some s' \<and> atomic_ok s' \<and> holder s' = Some t \<and> depth s' = depth s + n"
  using assms
proof (induction n arbitrary: s)
  case (Suc n)
  obtain s1 where s1: "atomic_lock t s = Some s1"
    using atomic_lock_waits [of t s] Suc.prems(2) by fastforce
  then have "atomic_ok s1 \<and> holder s1 = Some t \<and> depth s1 = depth s + 1"
    using atomic_lock_ok [OF Suc.prems(1) _ s1] Suc.prems(3) by simp
  with Suc.IH [of s1] Suc.prems(3) s1 show ?case by simp
qed simp

lemma depth_bound: "atomic_ok s \<Longrightarrow> depth s < 2 ^ 32"
  using unat_u32_less [of "atomic_recurse s"] by (simp add: atomic_ok_def)

lemma depth_of_nat: "atomic_ok s \<Longrightarrow> unat (of_nat (depth s - n) :: u32) = depth s - n"
  using depth_bound [of s] by (simp add: unsigned_of_nat take_bit_nat_eq_self)

lemma wait_event_sleep_ok:
  assumes "atomic_ok s" "holder s = Some t"
  shows "\<exists>s1. uu_wait_event_sleep t q s =
      (of_nat (depth s - 1), map_option (sleep_count_update (\<lambda>c. c + 1)) q, s1) \<and>
    atomic_ok s1 \<and> holder s1 = None"
proof -
  obtain s' where s': "atomic_drop t 0 s = (of_nat (depth s - 1), s')"
    "atomic_ok s'" "holder s' = Some t" "depth s' = 1"
    using atomic_drop_ok [OF assms, of 0] by auto
  then have "atomic_recurse s' = 1" by (simp add: atomic_ok_def word_unat_eq_iff)
  with s' show ?thesis
    by (simp add: uu_wait_event_sleep_def atomic_pre_sleep_def pthread_mutex_unlock_def atomic_ok_def Let_def)
qed

lemma wait_event_wake_ok:
  assumes "atomic_ok s1" "holder s1 = None" "atomic_ok s" "holder s = Some t"
  shows "uu_wait_event_wake t (of_nat (depth s - 1)) q s1 =
    Some (map_option (sleep_count_update (\<lambda>c. c - 1)) q, s)"
proof -
  define s2 where "s2 = atomic_post_sleep (s1\<lparr>holder := Some t, depth := 1\<rparr>)"
  have ok2: "atomic_ok s2" "holder s2 = Some t" "depth s2 = 1"
    using atomic_ok_free [OF assms(1,2)] by (simp_all add: s2_def atomic_post_sleep_def atomic_ok_def)
  have "0 < depth s" using assms(3,4) by (auto simp: atomic_ok_def)
  then have "depth s2 + (depth s - 1) = depth s" using ok2 by simp
  moreover obtain s3 where "atomic_pickup t (depth s - 1) s2 = Some s3" "atomic_ok s3" "holder s3 = Some t"
      "depth s3 = depth s2 + (depth s - 1)"
    using atomic_pickup_ok [OF ok2(1,2)] depth_bound [OF assms(3)] calculation by metis
  ultimately have "atomic_pickup t (depth s - 1) s2 = Some s"
    using atomic_ok_eqI [of s3 s] assms(3,4) by simp
  moreover have "unat (of_nat (depth s - 1) :: u32) = depth s - 1" using assms(3) by (rule depth_of_nat)
  ultimately show ?thesis
    using assms(2) by (simp add: uu_wait_event_wake_def pthread_mutex_lock_def s2_def Let_def)
qed


lemma schedule_timeout_ok:
  assumes "atomic_ok s" "holder s = None \<or> holder s = Some t" "depth s + 1 < 2 ^ 32"
  shows "\<exists>s1. schedule_timeout_sleep t s = Some (of_nat (depth s), s1) \<and> atomic_ok s1 \<and> holder s1 = None"
proof -
  obtain s0 where s0: "atomic_lock t s = Some s0"
    using atomic_lock_waits [of t s] assms(2) by fastforce
  then have ok0: "atomic_ok s0" "holder s0 = Some t" "depth s0 = depth s + 1"
    using atomic_lock_ok [OF assms(1,3)] by auto
  from atomic_drop_ok [OF ok0(1,2), of 0] ok0(3) obtain s' where s': "atomic_drop t 0 s0 = (of_nat (depth s), s')"
    "atomic_ok s'" "holder s' = Some t" "depth s' = 1"
    by auto
  then show ?thesis
    using s0 atomic_unlock_ok [OF s'(2,3)] by (simp add: schedule_timeout_sleep_def)
qed

lemma schedule_timeout_wake_ok:
  assumes "atomic_ok s1" "holder s1 = None"
    and "atomic_ok s" "holder s = None \<or> holder s = Some t" "depth s + 1 < 2 ^ 32"
  shows "schedule_timeout_wake t (of_nat (depth s)) s1 = Some s"
proof -
  obtain s2 where s2: "atomic_lock t s1 = Some s2"
    using atomic_lock_waits [of t s1] assms(2) by fastforce
  moreover have "depth s1 = 0" using atomic_ok_free [OF assms(1,2)] by simp
  ultimately have ok2: "atomic_ok s2" "holder s2 = Some t" "depth s2 = 1"
    using atomic_lock_ok [OF assms(1) _ s2] by auto
  obtain s3 where s3: "atomic_pickup t (depth s) s2 = Some s3" "atomic_ok s3" "holder s3 = Some t" "depth s3 = depth s + 1"
    using atomic_pickup_ok [OF ok2(1,2), of "depth s"] ok2(3) assms(5) by auto
  note u = atomic_unlock_ok [OF s3(2,3)]
  have "holder s = (if depth s = 0 then None else Some t)"
    using assms(3,4) by (auto simp: atomic_ok_def)
  then have "atomic_unlock t s3 = s"
    using u s3(4) by (intro atomic_ok_eqI) (simp_all add: assms(3))
  moreover have "unat (of_nat (depth s) :: u32) = depth s"
    using depth_of_nat [OF assms(3), of 0] by simp
  ultimately show ?thesis using s2 s3(1) by (simp add: schedule_timeout_wake_def)
qed

section \<open>Lemmas on time-outs and pollers\<close>

lemma wake_up_inhibited:
  assumes "wakeup_inhibit p = 1 \<or> wakeup_inhibit p = 2"
  shows "fold (\<lambda>q p. snd (wake_up q p)) qs p =
    p\<lparr>wakeup_inhibit := (if \<exists>q \<in> set qs. do_selwakeup q then 2 else wakeup_inhibit p)\<rparr>"
  using assms
proof (induction qs arbitrary: p)
  case (Cons q qs)
  have "wakeup_inhibit (snd (wake_up q p)) = 1 \<or> wakeup_inhibit (snd (wake_up q p)) = 2"
    using Cons.prems by (auto simp: wake_up_def Let_def)
  from Cons.IH [OF this] show ?case
    using Cons.prems by (auto simp: wake_up_def Let_def)
qed simp

lemma wake_up_allowed:
  "wakeup_inhibit p = 0 \<Longrightarrow> fold (\<lambda>q p. snd (wake_up q p)) qs p =
    p\<lparr>poll_wakeups := poll_wakeups p + length (filter do_selwakeup qs)\<rparr>"
  by (induction qs arbitrary: p) (simp_all add: wake_up_def Let_def)

section \<open>Properties\<close>

text \<open>C14: a thread that sleeps in \<open>__wait_event\<close> or \<open>schedule_timeout\<close> has given up the global
  lock completely, however often it held it, and once it has the lock again after the sleep
  it holds it exactly as often as before.\<close>

theorem sleep_releases_lock:
  assumes "atomic_ok s"
  shows "(holder s = Some t \<longrightarrow>
      (\<exists>drops s1. uu_wait_event_sleep t q s = (drops, map_option (sleep_count_update (\<lambda>c. c + 1)) q, s1) \<and>
        holder s1 = None \<and> depth s1 = 0 \<and> atomic_recurse s1 = 0 \<and>
        (\<forall>s2 q2. atomic_ok s2 \<and> holder s2 = None \<longrightarrow>
          uu_wait_event_wake t drops q2 s2 = Some (map_option (sleep_count_update (\<lambda>c. c - 1)) q2, s)))) \<and>
    ((holder s = None \<or> holder s = Some t) \<and> depth s + 1 < 2 ^ 32 \<longrightarrow>
      (\<exists>drops s1. schedule_timeout_sleep t s = Some (drops, s1) \<and>
        holder s1 = None \<and> depth s1 = 0 \<and> atomic_recurse s1 = 0 \<and>
        (\<forall>s2. atomic_ok s2 \<and> holder s2 = None \<longrightarrow> schedule_timeout_wake t drops s2 = Some s)))"
  using wait_event_sleep_ok [OF assms, of t q] schedule_timeout_ok [OF assms, of t]
    wait_event_wake_ok [OF _ _ assms, of _ t] schedule_timeout_wake_ok [OF _ _ assms, of _ t] atomic_ok_free
  by fastforce

theorem sleep_releases_lock_witness:
  "\<exists>drops s1. uu_wait_event_sleep 7 None \<lparr>holder = Some 7, depth = 3, atomic_recurse = 3\<rparr> = (drops, None, s1) \<and>
     holder s1 = None"
proof -
  have "atomic_ok \<lparr>holder = Some 7, depth = 3, atomic_recurse = 3\<rparr>" by (simp add: atomic_ok_def)
  from sleep_releases_lock [OF this, of 7 None] show ?thesis by auto
qed

text \<open>\<open>__wait_get_timeout\<close> returns a normalised time that lies \<open>timeout + 1\<close> milliseconds
  after the current one, as long as the number of nanoseconds fits into 64 bits.\<close>

theorem wait_get_timeout_deadline:
  assumes "0 \<le> tv_nsec now" "tv_nsec now < 1000000000" "(unat timeout + 1) * 1000000 < 2 ^ 64"
  shows "(let ts = uu_wait_get_timeout timeout now in
    0 \<le> tv_nsec ts \<and> tv_nsec ts < 1000000000 \<and>
    tv_sec ts * 1000000000 + tv_nsec ts =
      tv_sec now * 1000000000 + tv_nsec now + (int (unat timeout) + 1) * 1000000)"
proof -
  define n where "n = (unat timeout + 1) * 1000000"
  have "unat timeout + 1 < 2 ^ 64" using assms(3) by simp
  then have "unat (1000000 * (timeout + 1)) = n"
    using assms(3) by (simp add: unat_word_ariths n_def mult.commute)
  then have q: "int (unat (1000000 * (timeout + 1) div 1000000000)) = int n div 1000000000"
    "int (unat (1000000 * (timeout + 1) mod 1000000000)) = int n mod 1000000000"
    by (simp_all only: unat_div unat_mod) (simp_all add: zdiv_int zmod_int)
  have n: "int n = (int (unat timeout) + 1) * 1000000" by (simp add: n_def)
  define a b where "a = int n div 1000000000" and "b = int n mod 1000000000"
  have "a * 1000000000 + b = int n" "0 \<le> b" "b < 1000000000" by (simp_all add: a_def b_def)
  then show ?thesis
    using assms(1,2) n
    unfolding uu_wait_get_timeout_def Let_def timespec.simps q a_def [symmetric] b_def [symmetric]
    by (simp add: algebra_simps)
qed

theorem wait_get_timeout_deadline_witness:
  "tv_sec (uu_wait_get_timeout 999 \<lparr>tv_sec = 5, tv_nsec = 7\<rparr>) * 1000000000 +
   tv_nsec (uu_wait_get_timeout 999 \<lparr>tv_sec = 5, tv_nsec = 7\<rparr>) = 6000000007"
  using wait_get_timeout_deadline [of "\<lparr>tv_sec = 5, tv_nsec = 7\<rparr>" 999] by (simp add: Let_def)

text \<open>While wake-ups are inhibited no poller is woken, and when the inhibition ends the
  pollers are woken once if a queue with pollers was woken in between; without inhibition
  every wake-up of such a queue wakes them.\<close>

theorem wake_up_inhibit_defers:
  assumes "wakeup_inhibit p = 0"
  shows "fold (\<lambda>q p. snd (wake_up q p)) qs (wake_up_inhibit True p) =
      p\<lparr>wakeup_inhibit := (if \<exists>q \<in> set qs. do_selwakeup q then 2 else 1)\<rparr> \<and>
    wake_up_inhibit False (fold (\<lambda>q p. snd (wake_up q p)) qs (wake_up_inhibit True p)) =
      p\<lparr>poll_wakeups := poll_wakeups p + (if \<exists>q \<in> set qs. do_selwakeup q then 1 else 0)\<rparr> \<and>
    fold (\<lambda>q p. snd (wake_up q p)) qs p =
      p\<lparr>poll_wakeups := poll_wakeups p + length (filter do_selwakeup qs)\<rparr>"
proof -
  have "wake_up_inhibit True p = p\<lparr>wakeup_inhibit := 1\<rparr>" using assms by (simp add: wake_up_inhibit_def)
  moreover have "fold (\<lambda>q p. snd (wake_up q p)) qs (p\<lparr>wakeup_inhibit := 1\<rparr>) =
      p\<lparr>wakeup_inhibit := (if \<exists>q \<in> set qs. do_selwakeup q then 2 else 1)\<rparr>"
    by (subst wake_up_inhibited) simp_all
  ultimately show ?thesis
    using assms wake_up_allowed [OF assms, of qs] by (simp add: wake_up_inhibit_def)
qed

theorem wake_up_inhibit_defers_witness:
  "poll_wakeups (wake_up_inhibit False (fold (\<lambda>q p. snd (wake_up q p))
     [the (poll_wait (Some init_waitqueue_head)), init_waitqueue_head]
     (wake_up_inhibit True \<lparr>wakeup_inhibit = 0, poll_wakeups = 0\<rparr>))) = 1"
  by (subst wake_up_inhibit_defers [THEN conjunct2, THEN conjunct1])
    (simp_all add: poll_wait_def init_waitqueue_head_def)

end
