(* ===== verification/Locks.thy ===== *)
theory Locks
  imports Threads
begin

text \<open>
  Semaphores, mutexes and completions (\<open>kernel/linux_thread.c\<close>).  A thread in one of their
  loops either holds the global lock, or sleeps on the condition variable, or has been woken
  and waits for the lock to test again.  The locale \<open>waiting\<close> is the contract between such a
  loop and the operation that ends the wait: whoever makes the test succeed must wake the
  sleepers.  Its consequence, that no thread sleeps while the test would succeed, is proved
  once and holds for semaphores, mutexes, completions and wait queues.
\<close>

section \<open>Threads at a condition variable\<close>

datatype pc = Running | Asleep | Woken

record 'd monitor =
  shared :: 'd
  pcs :: "tid \<Rightarrow> pc"

definition cond_broadcast :: "(tid \<Rightarrow> pc) \<Rightarrow> tid \<Rightarrow> pc" where
  "cond_broadcast p = (\<lambda>t. if p t = Asleep then Woken else p t)"

text \<open>
  One pass of the loop \<open>while (! ready) sleep; grab\<close> by the thread \<open>t\<close>: the result says
  whether the loop was left.  The thread notes its sleep in the data with \<open>nap\<close>, and takes
  the note back with \<open>rise\<close> when the sleep is over.
\<close>

definition after_sleep :: "('d \<Rightarrow> 'd) \<Rightarrow> tid \<Rightarrow> 'd monitor \<Rightarrow> 'd monitor" where
  "after_sleep rise t m =
     (if pcs m t = Running then m else m\<lparr>shared := rise (shared m), pcs := (pcs m)(t := Running)\<rparr>)"

definition wait_pass ::
    "('d \<Rightarrow> bool) \<Rightarrow> ('d \<Rightarrow> 'd) \<Rightarrow> ('d \<Rightarrow> 'd) \<Rightarrow> ('d \<Rightarrow> 'd) \<Rightarrow> tid \<Rightarrow> 'd monitor \<Rightarrow> bool \<times> 'd monitor" where
  "wait_pass ready grab nap rise t m =
     (let m = after_sleep rise t m
      in if ready (shared m) then (True, m\<lparr>shared := grab (shared m)\<rparr>)
         else (False, m\<lparr>shared := nap (shared m), pcs := (pcs m)(t := Asleep)\<rparr>))"

text \<open>An operation on the data that may broadcast.\<close>

definition signal_op :: "('d \<Rightarrow> 'd \<times> bool) \<Rightarrow> 'd monitor \<Rightarrow> 'd monitor" where
  "signal_op f m =
     (let (d, wake) = f (shared m)
      in m\<lparr>shared := d, pcs := (if wake then cond_broadcast (pcs m) else pcs m)\<rparr>)"

section \<open>Semaphores\<close>

record semaphore =
  sem_value :: int
  sem_owner :: "tid option"

definition sema_init :: "int \<Rightarrow> semaphore" where
  "sema_init v = \<lparr>sem_value = v, sem_owner = None\<rparr>"

definition up_data :: "semaphore \<Rightarrow> semaphore \<times> bool" where
  "up_data sem = (let sem = sem\<lparr>sem_value := sem_value sem + 1\<rparr> in (sem, sem_value sem = 1))"

definition up :: "semaphore monitor \<Rightarrow> semaphore monitor" where
  "up m = signal_op up_data m"

definition down_ready :: "semaphore \<Rightarrow> bool" where
  "down_ready sem = (\<not> sem_value sem \<le> 0)"

definition down_take :: "semaphore \<Rightarrow> semaphore" where
  "down_take sem = sem\<lparr>sem_value := sem_value sem - 1\<rparr>"

text \<open>\<open>down\<close> up to its return (\<open>True\<close>) or its next sleep; it goes on the same way when it is
  woken.\<close>

definition down :: "tid \<Rightarrow> semaphore monitor \<Rightarrow> bool \<times> semaphore monitor" where
  "down t m = wait_pass down_ready down_take (\<lambda>d. d) (\<lambda>d. d) t m"

text \<open>The two try operations return, as \<open>Some\<close> code, unless the inner \<open>down\<close> sleeps.\<close>

definition down_read_trylock :: "tid \<Rightarrow> semaphore monitor \<Rightarrow> int option \<times> semaphore monitor" where
  "down_read_trylock t m =
     (if 0 < sem_value (shared m) then
        let (got, m) = down t m in (if got then Some 1 else None, m)
      else (Some 0, m))"

definition down_trylock :: "tid \<Rightarrow> semaphore monitor \<Rightarrow> int option \<times> semaphore monitor" where
  "down_trylock t m =
     (if 0 < sem_value (shared m) then
        let (got, m) = down t m in (if got then Some 0 else None, m)
      else (Some 1, m))"

section \<open>Mutexes\<close>

definition set_owner :: "tid option \<Rightarrow> semaphore monitor \<Rightarrow> semaphore monitor" where
  "set_owner u m = m\<lparr>shared := (shared m)\<lparr>sem_owner := u\<rparr>\<rparr>"

text \<open>The end of \<open>mutex_lock\<close> and \<open>mutex_trylock\<close>: \<open>down\<close>, and the owner is set once it returns.
  A thread that sleeps there continues with it.\<close>

definition mutex_down :: "tid \<Rightarrow> semaphore monitor \<Rightarrow> bool \<times> semaphore monitor" where
  "mutex_down t m =
     (let (got, m) = down t m in if got then (True, set_owner (Some t) m) else (False, m))"

definition mutex_lock :: "tid \<Rightarrow> semaphore monitor \<Rightarrow> bool \<times> semaphore monitor" where
  "mutex_lock t m =
     (if sem_owner (shared m) = Some t then (True, m\<lparr>shared := down_take (shared m)\<rparr>)
      else mutex_down t m)"

definition mutex_trylock :: "tid \<Rightarrow> semaphore monitor \<Rightarrow> int option \<times> semaphore monitor" where
  "mutex_trylock t m =
     (if sem_owner (shared m) = Some t then (Some 1, m\<lparr>shared := down_take (shared m)\<rparr>)
      else if sem_owner (shared m) = None then
        let (got, m) = mutex_down t m in (if got then Some 1 else None, m)
      else (Some 0, m))"

definition mutex_unlock :: "semaphore monitor \<Rightarrow> semaphore monitor" where
  "mutex_unlock m =
     (let m = up m
      in if 0 < sem_value (shared m) then m\<lparr>shared := \<lparr>sem_value = 1, sem_owner = None\<rparr>\<rparr> else m)"

definition mutex_is_locked :: "semaphore monitor \<Rightarrow> bool" where
  "mutex_is_locked m = (sem_owner (shared m) \<noteq> None)"

section \<open>Completions\<close>

record completion =
  compl_done :: u32
  compl_wait :: wait_queue_head

definition init_completion :: completion where
  "init_completion = \<lparr>compl_done = 0, compl_wait = init_waitqueue_head\<rparr>"

definition completion_ready :: "completion \<Rightarrow> bool" where
  "completion_ready x = (compl_done x \<noteq> 0)"

definition completion_take :: "completion \<Rightarrow> completion" where
  "completion_take x = x\<lparr>compl_done := compl_done x - 1\<rparr>"

definition complete_data :: "completion \<Rightarrow> completion \<times> bool" where
  "complete_data x = (x\<lparr>compl_done := compl_done x + 1\<rparr>, True)"

definition complete :: "completion monitor \<Rightarrow> completion monitor" where
  "complete m = signal_op complete_data m"

text \<open>A macro of \<open>linux_thread.h\<close>.\<close>

definition complete_all :: "completion monitor \<Rightarrow> completion monitor" where
  "complete_all m = complete m"

text \<open>The wait queue of the completion counts the sleepers.\<close>

definition completion_nap :: "completion \<Rightarrow> completion" where
  "completion_nap x = x\<lparr>compl_wait := (compl_wait x)\<lparr>sleep_count := sleep_count (compl_wait x) + 1\<rparr>\<rparr>"

definition completion_rise :: "completion \<Rightarrow> completion" where
  "completion_rise x = x\<lparr>compl_wait := (compl_wait x)\<lparr>sleep_count := sleep_count (compl_wait x) - 1\<rparr>\<rparr>"

definition wait_for_completion :: "tid \<Rightarrow> completion monitor \<Rightarrow> bool \<times> completion monitor" where
  "wait_for_completion t m = wait_pass completion_ready completion_take completion_nap completion_rise t m"

text \<open>The variants that can give up.  \<open>sig\<close> is the result of \<open>check_signal\<close>, \<open>late\<close> tells
  whether the sleep before this pass ran out of time.  The result is the value returned, or
  \<open>None\<close> when the thread goes to sleep.\<close>

definition wait_for_completion_interruptible ::
    "bool \<Rightarrow> tid \<Rightarrow> completion monitor \<Rightarrow> (errno + int) option \<times> completion monitor" where
  "wait_for_completion_interruptible sig t m =
     (let m = after_sleep completion_rise t m
      in if \<not> completion_ready (shared m) \<and> sig then (Some (Inl ERESTARTSYS), m)
         else let (got, m) = wait_for_completion t m in (if got then Some (Inr 0) else None, m))"

definition wait_for_completion_timeout ::
    "bool \<Rightarrow> u64 \<Rightarrow> tid \<Rightarrow> completion monitor \<Rightarrow> u64 option \<times> completion monitor" where
  "wait_for_completion_timeout late timeout t m =
     (if late \<and> pcs m t \<noteq> Running then (Some 0, after_sleep completion_rise t m)
      else let (got, m) = wait_for_completion t m in (if got then Some timeout else None, m))"

definition wait_for_completion_interruptible_timeout ::
    "bool \<Rightarrow> bool \<Rightarrow> u64 \<Rightarrow> tid \<Rightarrow> completion monitor \<Rightarrow> (errno + u64) option \<times> completion monitor" where
  "wait_for_completion_interruptible_timeout late sig timeout t m =
     (if late \<and> pcs m t \<noteq> Running then (Some (Inr 0), after_sleep completion_rise t m)
      else let m = after_sleep completion_rise t m
      in if \<not> completion_ready (shared m) \<and> sig then (Some (Inl ERESTARTSYS), m)
         else let (got, m) = wait_for_completion t m in (if got then Some (Inr timeout) else None, m))"

section \<open>The contract of a waiting loop\<close>

locale waiting =
  fixes ready :: "'d \<Rightarrow> bool"
    and grab nap rise :: "'d \<Rightarrow> 'd"
    and signal :: "'d \<Rightarrow> 'd \<times> bool"
  assumes ready_nap: "ready (nap d) = ready d"
    and ready_rise: "ready (rise d) = ready d"
    and signal_wakes: "ready (fst (signal d)) \<Longrightarrow> \<not> ready d \<Longrightarrow> snd (signal d)"
begin

definition awake :: "'d monitor \<Rightarrow> bool" where
  "awake m \<longleftrightarrow> (ready (shared m) \<longrightarrow> (\<forall>t. pcs m t \<noteq> Asleep))"

lemma awake_after_sleep: "awake m \<Longrightarrow> awake (after_sleep rise t m)"
  by (simp add: awake_def after_sleep_def ready_rise)

lemma awake_pass: "awake m \<Longrightarrow> awake (snd (wait_pass ready grab nap rise t m))"
  using awake_after_sleep [of m t] by (auto simp: wait_pass_def awake_def Let_def ready_nap)

lemma awake_signal: "awake m \<Longrightarrow> awake (signal_op signal m)"
  using signal_wakes [of "shared m"]
  by (auto simp: signal_op_def awake_def cond_broadcast_def split: prod.splits)

lemma awake_wakeup: "awake m \<Longrightarrow> awake (m\<lparr>pcs := (pcs m)(t := Woken)\<rparr>)"
  by (simp add: awake_def)

lemma pass_returns: "fst (wait_pass ready grab nap rise t m) = ready (shared m)"
  by (simp add: wait_pass_def Let_def after_sleep_def ready_rise)

lemma pass_pcs: "pcs (snd (wait_pass ready grab nap rise t m)) =
    (pcs m)(t := (if ready (shared m) then Running else Asleep))"
  by (auto simp: wait_pass_def Let_def after_sleep_def ready_rise)

end

interpretation sem: waiting down_ready down_take "\<lambda>d. d" "\<lambda>d. d" up_data
  by unfold_locales (auto simp: down_ready_def up_data_def Let_def)

interpretation compl: waiting completion_ready completion_take completion_nap completion_rise complete_data
  by unfold_locales (auto simp: completion_ready_def completion_nap_def completion_rise_def complete_data_def)

section \<open>Semaphores in use\<close>

lemma shared_up [simp]: "sem_value (shared (up m)) = sem_value (shared m) + 1"
    "sem_owner (shared (up m)) = sem_owner (shared m)"
  by (simp_all add: up_def signal_op_def up_data_def Let_def)

lemma down_cases:
  "down t m = (if 0 < sem_value (shared m) then (True, m\<lparr>shared := down_take (shared m), pcs := (pcs m)(t := Running)\<rparr>)
     else (False, m\<lparr>pcs := (pcs m)(t := Asleep)\<rparr>))"
  by (cases m) (auto simp: down_def wait_pass_def after_sleep_def down_ready_def Let_def fun_upd_idem)

text \<open>The threads that use a semaphore; the numbers count the calls of \<open>up\<close> and the calls of
  \<open>down\<close> and of its try variants that have taken the semaphore.\<close>

inductive sem_step :: "semaphore monitor \<times> nat \<times> nat \<Rightarrow> semaphore monitor \<times> nat \<times> nat \<Rightarrow> bool" where
  sem_up: "sem_step (m, ups, downs) (up m, ups + 1, downs)"
| sem_down: "pcs m t \<noteq> Asleep \<Longrightarrow> down t m = (got, m') \<Longrightarrow>
    sem_step (m, ups, downs) (m', ups, downs + of_bool got)"
| sem_trylock: "pcs m t = Running \<Longrightarrow> down_trylock t m = (r, m') \<Longrightarrow>
    sem_step (m, ups, downs) (m', ups, downs + of_bool (r = Some 0))"
| sem_read_trylock: "pcs m t = Running \<Longrightarrow> down_read_trylock t m = (r, m') \<Longrightarrow>
    sem_step (m, ups, downs) (m', ups, downs + of_bool (r = Some 1))"
| sem_wakeup: "pcs m t = Asleep \<Longrightarrow>
    sem_step (m, ups, downs) (m\<lparr>pcs := (pcs m)(t := Woken)\<rparr>, ups, downs)"

definition sem_inv :: "int \<Rightarrow> semaphore monitor \<times> nat \<times> nat \<Rightarrow> bool" where
  "sem_inv v0 = (\<lambda>(m, ups, downs). sem.awake m \<and>
     sem_value (shared m) = v0 + int ups - int downs \<and> (0 \<le> v0 \<longrightarrow> 0 \<le> sem_value (shared m)))"

lemma awake_down: "sem.awake m \<Longrightarrow> down t m = (got, m') \<Longrightarrow> sem.awake m'"
  using sem.awake_pass [of m t] by (simp add: down_def)

lemma awake_up: "sem.awake m \<Longrightarrow> sem.awake (up m)"
  unfolding up_def by (rule sem.awake_signal)

lemma trylock_cases:
  "down_trylock t m = (if 0 < sem_value (shared m) then (Some 0, snd (down t m)) else (Some 1, m))"
  "down_read_trylock t m = (if 0 < sem_value (shared m) then (Some 1, snd (down t m)) else (Some 0, m))"
  by (simp_all add: down_trylock_def down_read_trylock_def down_cases)

lemma sem_step_inv: "sem_step a b \<Longrightarrow> sem_inv v0 a \<Longrightarrow> sem_inv v0 b"
proof (induction rule: sem_step.induct)
  case (sem_up m ups downs)
  then show ?case by (auto simp: sem_inv_def awake_up)
next
  case (sem_down m t got m' ups downs)
  then show ?case
    using awake_down [of m t got m'] by (auto simp: sem_inv_def down_cases down_take_def split: if_splits)
next
  case (sem_trylock m t r m' ups downs)
  then show ?case
    using awake_down [of m t True "snd (down t m)"]
    by (auto simp: sem_inv_def trylock_cases down_cases down_take_def split: if_splits)
next
  case (sem_read_trylock m t r m' ups downs)
  then show ?case
    using awake_down [of m t True "snd (down t m)"]
    by (auto simp: sem_inv_def trylock_cases down_cases down_take_def split: if_splits)
next
  case (sem_wakeup m t ups downs)
  then show ?case by (auto simp: sem_inv_def sem.awake_wakeup)
qed

lemma sem_reachable_inv: "sem_step\<^sup>*\<^sup>* a b \<Longrightarrow> sem_inv v0 a \<Longrightarrow> sem_inv v0 b"
  by (induction rule: rtranclp_induct) (auto intro: sem_step_inv)

section \<open>Mutexes in use\<close>

text \<open>The threads that use a mutex; \<open>h t\<close> is the number of times that \<open>t\<close> has locked it.  The
  rule \<open>mutex_spare_unlock\<close> is the double unlock that the code guards against.\<close>

inductive mutex_step ::
    "semaphore monitor \<times> (tid \<Rightarrow> nat) \<Rightarrow> semaphore monitor \<times> (tid \<Rightarrow> nat) \<Rightarrow> bool" where
  mutex_enter: "pcs m t = Running \<Longrightarrow> mutex_lock t m = (got, m') \<Longrightarrow>
    mutex_step (m, h) (m', h(t := h t + of_bool got))"
| mutex_resume: "pcs m t = Woken \<Longrightarrow> mutex_down t m = (got, m') \<Longrightarrow>
    mutex_step (m, h) (m', h(t := h t + of_bool got))"
| mutex_try: "pcs m t = Running \<Longrightarrow> mutex_trylock t m = (r, m') \<Longrightarrow>
    mutex_step (m, h) (m', h(t := h t + of_bool (r = Some 1)))"
| mutex_leave: "pcs m t = Running \<Longrightarrow> 0 < h t \<Longrightarrow>
    mutex_step (m, h) (mutex_unlock m, h(t := h t - 1))"
| mutex_spare_unlock: "\<forall>t. h t = 0 \<Longrightarrow> mutex_step (m, h) (mutex_unlock m, h)"
| mutex_wakeup: "pcs m t = Asleep \<Longrightarrow> mutex_step (m, h) (m\<lparr>pcs := (pcs m)(t := Woken)\<rparr>, h)"

definition mutex_owned :: "semaphore \<Rightarrow> (tid \<Rightarrow> nat) \<Rightarrow> bool" where
  "mutex_owned sem h =
     (case sem_owner sem of
        None \<Rightarrow> sem_value sem = 1 \<and> (\<forall>t. h t = 0)
      | Some t \<Rightarrow> 0 < h t \<and> sem_value sem = 1 - int (h t) \<and> (\<forall>u. u \<noteq> t \<longrightarrow> h u = 0))"

definition mutex_inv :: "semaphore monitor \<times> (tid \<Rightarrow> nat) \<Rightarrow> bool" where
  "mutex_inv = (\<lambda>(m, h). sem.awake m \<and> mutex_owned (shared m) h \<and> (\<forall>t. 0 < h t \<longrightarrow> pcs m t = Running))"

lemma mutex_owned_holder:
  assumes "mutex_owned sem h" "0 < h t"
  shows "sem_owner sem = Some t \<and> sem_value sem = 1 - int (h t) \<and> (\<forall>u. u \<noteq> t \<longrightarrow> h u = 0)"
proof (cases "sem_owner sem")
  case (Some u)
  then have "u = t" using assms by (auto simp: mutex_owned_def)
  then show ?thesis using assms(1) Some by (simp add: mutex_owned_def)
qed (use assms in \<open>simp add: mutex_owned_def\<close>)

lemma awake_set_owner [simp]: "sem.awake (set_owner u m) = sem.awake m"
  by (simp add: sem.awake_def set_owner_def down_ready_def)

lemma mutex_down_inv:
  assumes "mutex_inv (m, h)" "sem_owner (shared m) \<noteq> Some t" "mutex_down t m = (got, m')"
  shows "mutex_inv (m', h(t := h t + of_bool got))"
proof -
  have "sem.awake (snd (down t m))"
    using assms(1) awake_down [of m t "fst (down t m)" "snd (down t m)"] by (simp add: mutex_inv_def)
  then have "sem.awake m'"
    using assms(3) by (auto simp: mutex_down_def split: prod.splits if_splits)
  then show ?thesis
    using assms by (auto simp: mutex_inv_def mutex_down_def down_cases mutex_owned_def set_owner_def down_take_def
        split: if_splits option.splits)
qed


lemma mutex_relock_inv:
  assumes "mutex_inv (m, h)" "sem_owner (shared m) = Some t"
  shows "mutex_inv (m\<lparr>shared := down_take (shared m)\<rparr>, h(t := h t + 1))"
proof -
  have "sem_value (shared m) \<le> 0" using assms by (auto simp: mutex_inv_def mutex_owned_def)
  then show ?thesis
    using assms by (auto simp: mutex_inv_def mutex_owned_def sem.awake_def down_ready_def down_take_def)
qed

lemma mutex_unlock_inv:
  assumes "mutex_inv (m, h)" "0 < h t"
  shows "mutex_inv (mutex_unlock m, h(t := h t - 1))"
proof -
  have owner: "sem_owner (shared m) = Some t" "sem_value (shared m) = 1 - int (h t)" "\<forall>u. u \<noteq> t \<longrightarrow> h u = 0"
    using assms mutex_owned_holder [of "shared m" h t] by (simp_all add: mutex_inv_def)
  have "sem.awake (up m)" using assms by (simp add: awake_up mutex_inv_def)
  moreover have "\<And>u. pcs m u = Running \<Longrightarrow> pcs (up m) u = Running"
    by (simp add: up_def signal_op_def up_data_def cond_broadcast_def Let_def)
  ultimately show ?thesis
    using owner assms by (auto simp: mutex_unlock_def mutex_inv_def mutex_owned_def sem.awake_def down_ready_def Let_def)
qed

lemma mutex_spare_unlock_inv:
  assumes "mutex_inv (m, h)" "\<forall>t. h t = 0"
  shows "mutex_inv (mutex_unlock m, h)"
proof -
  have free: "sem_owner (shared m) = None" "sem_value (shared m) = 1"
    using assms by (auto simp: mutex_inv_def mutex_owned_def split: option.splits)
  moreover have "sem.awake (up m)" using assms by (simp add: awake_up mutex_inv_def)
  ultimately show ?thesis
    using assms(2) by (auto simp: mutex_unlock_def mutex_inv_def mutex_owned_def sem.awake_def down_ready_def Let_def)
qed

lemma mutex_step_inv: "mutex_step a b \<Longrightarrow> mutex_inv a \<Longrightarrow> mutex_inv b"
proof (induction rule: mutex_step.induct)
  case (mutex_enter m t got m' h)
  then show ?case
    using mutex_down_inv [of m h t got m'] mutex_relock_inv [of m h t]
    by (auto simp: mutex_lock_def split: if_splits)
next
  case (mutex_resume m t got m' h)
  then have "sem_owner (shared m) \<noteq> Some t"
    by (auto simp: mutex_inv_def mutex_owned_def)
  with mutex_resume show ?case using mutex_down_inv by blast
next
  case (mutex_try m t r m' h)
  then show ?case
    using mutex_down_inv [of m h t "fst (mutex_down t m)" "snd (mutex_down t m)"] mutex_relock_inv [of m h t]
    by (auto simp: mutex_trylock_def split: if_splits prod.splits)
next
  case (mutex_leave m t h)
  then show ?case by (intro mutex_unlock_inv)
next
  case (mutex_spare_unlock h m)
  then show ?case by (simp add: mutex_spare_unlock_inv)
next
  case (mutex_wakeup m t h)
  then show ?case by (auto simp: mutex_inv_def sem.awake_wakeup)
qed

definition mutex_start :: "semaphore monitor \<times> (tid \<Rightarrow> nat)" where
  "mutex_start = (\<lparr>shared = sema_init 1, pcs = \<lambda>_. Running\<rparr>, \<lambda>_. 0)"

lemma mutex_reachable_inv: "mutex_step\<^sup>*\<^sup>* mutex_start b \<Longrightarrow> mutex_inv b"
proof (induction rule: rtranclp_induct)
  case base
  show ?case by (simp add: mutex_start_def mutex_inv_def mutex_owned_def sem.awake_def sema_init_def)
qed (rule mutex_step_inv)

lemma mutex_free_value: "mutex_inv (m, h) \<Longrightarrow> (0 < sem_value (shared m)) = (\<forall>t. h t = 0)"
  by (auto simp: mutex_inv_def mutex_owned_def split: option.splits)

section \<open>Completions in use\<close>

text \<open>The threads that use a completion; the numbers count the calls of \<open>complete\<close> and the
  waits that ended because of one.\<close>

inductive compl_step :: "completion monitor \<times> nat \<times> nat \<Rightarrow> completion monitor \<times> nat \<times> nat \<Rightarrow> bool" where
  compl_complete: "compl_step (m, c, w) (complete m, c + 1, w)"
| compl_wait: "pcs m t \<noteq> Asleep \<Longrightarrow> wait_for_completion t m = (got, m') \<Longrightarrow>
    compl_step (m, c, w) (m', c, w + of_bool got)"
| compl_interruptible: "pcs m t \<noteq> Asleep \<Longrightarrow> wait_for_completion_interruptible sig t m = (r, m') \<Longrightarrow>
    compl_step (m, c, w) (m', c, w + of_bool (r = Some (Inr 0)))"
| compl_timeout: "pcs m t \<noteq> Asleep \<Longrightarrow> wait_for_completion_timeout late timeout t m = (r, m') \<Longrightarrow>
    compl_step (m, c, w) (m', c, w + of_bool (\<not> (late \<and> pcs m t \<noteq> Running) \<and> r \<noteq> None))"
| compl_interruptible_timeout: "pcs m t \<noteq> Asleep \<Longrightarrow>
    wait_for_completion_interruptible_timeout late sig timeout t m = (r, m') \<Longrightarrow>
    compl_step (m, c, w) (m', c, w + of_bool (\<not> (late \<and> pcs m t \<noteq> Running) \<and> r \<noteq> None \<and> r \<noteq> Some (Inl ERESTARTSYS)))"
| compl_wakeup: "pcs m t = Asleep \<Longrightarrow> compl_step (m, c, w) (m\<lparr>pcs := (pcs m)(t := Woken)\<rparr>, c, w)"


definition waiters :: "'d monitor \<Rightarrow> tid set" where
  "waiters m = {t. pcs m t \<noteq> Running}"

lemma waiters_update [simp]:
  "waiters (m\<lparr>shared := d\<rparr>) = waiters m"
  "waiters (m\<lparr>pcs := (pcs m)(t := x)\<rparr>) = (if x = Running then waiters m - {t} else insert t (waiters m))"
  "waiters (m\<lparr>shared := d, pcs := p\<rparr>) = waiters (m\<lparr>pcs := p\<rparr>)"
  by (auto simp: waiters_def)

lemma card_waiters_rise:
  "finite W \<Longrightarrow> t \<in> W \<Longrightarrow> (of_nat (card W - Suc 0) :: u32) = of_nat (card W) - 1"
  by (metis Suc_diff_1 Suc_leI Suc_pred' One_nat_def card_gt_0_iff empty_iff of_nat_1 of_nat_diff)

definition compl_inv :: "completion monitor \<times> nat \<times> nat \<Rightarrow> bool" where
  "compl_inv = (\<lambda>(m, c, w). compl.awake m \<and> (c < 2 ^ 32 \<longrightarrow> unat (compl_done (shared m)) + w = c) \<and>
     finite (waiters m) \<and> sleep_count (compl_wait (shared m)) = of_nat (card (waiters m)))"

text \<open>Leaving the loop gives the note of the sleep back, going to sleep makes it.\<close>

lemma compl_after_sleep_inv:
  assumes "compl_inv (m, c, w)"
  shows "compl_inv (after_sleep completion_rise t m, c, w)"
proof (cases "pcs m t = Running")
  case False
  then have "t \<in> waiters m" by (simp add: waiters_def)
  then show ?thesis
    using assms compl.awake_after_sleep [of m t] False card_waiters_rise [of "waiters m" t]
    by (simp add: compl_inv_def after_sleep_def completion_rise_def)
qed (use assms in \<open>simp add: after_sleep_def\<close>)

lemma compl_pass_inv:
  assumes "compl_inv (m, c, w)" "wait_for_completion t m = (got, m')"
  shows "compl_inv (m', c, w + of_bool got)"
proof -
  define n where "n = after_sleep completion_rise t m"
  have inv: "compl_inv (n, c, w)" using compl_after_sleep_inv [OF assms(1)] by (simp add: n_def)
  have run: "t \<notin> waiters n" by (simp add: n_def after_sleep_def waiters_def)
  have "compl.awake m'"
    using assms compl.awake_pass [of m t] by (simp add: compl_inv_def wait_for_completion_def)
  moreover have "unat (compl_done (shared n) - 1) = unat (compl_done (shared n)) - 1" if "compl_done (shared n) \<noteq> 0"
    using that by (simp add: unat_minus_1 word_greater_zero_iff)
  moreover have "unat (compl_done (shared n)) \<noteq> 0" if "compl_done (shared n) \<noteq> 0"
    using that by (simp add: unat_eq_0)
  ultimately show ?thesis
    using inv run assms(2)
    by (auto simp: wait_for_completion_def wait_pass_def n_def [symmetric] Let_def compl_inv_def
        completion_ready_def completion_take_def completion_nap_def split: if_splits)
qed


lemma compl_complete_inv:
  assumes "compl_inv (m, c, w)"
  shows "compl_inv (complete m, c + 1, w)"
proof -
  have "compl.awake (complete m)"
    using assms by (simp add: complete_def compl_inv_def compl.awake_signal)
  moreover have "waiters (complete m) = waiters m"
    by (auto simp: waiters_def complete_def signal_op_def complete_data_def cond_broadcast_def)
  moreover have "unat (compl_done (shared m) + 1) + w = c + 1" if "c + 1 < 2 ^ 32"
  proof -
    have "unat (compl_done (shared m)) + 1 < 2 ^ 32" using assms that by (auto simp: compl_inv_def)
    then have "unat (compl_done (shared m) + 1) = unat (compl_done (shared m)) + 1"
      by (simp add: unat_word_ariths)
    then show ?thesis using assms that by (auto simp: compl_inv_def)
  qed
  ultimately show ?thesis
    using assms by (simp add: compl_inv_def) (simp add: complete_def signal_op_def complete_data_def)
qed

lemma after_sleep_twice [simp]: "after_sleep rise t (after_sleep rise t m) = after_sleep rise t m"
  by (simp add: after_sleep_def)

lemma compl_step_inv: "compl_step a b \<Longrightarrow> compl_inv a \<Longrightarrow> compl_inv b"
proof (induction rule: compl_step.induct)
  case (compl_complete m c w)
  then show ?case by (rule compl_complete_inv)
next
  case (compl_wait m t got m' c w)
  then show ?case by (intro compl_pass_inv)
next
  case (compl_interruptible m t sig r m' c w)
  have "compl_inv (after_sleep completion_rise t m, c, w)"
    using compl_interruptible.prems by (rule compl_after_sleep_inv)
  with compl_interruptible.hyps show ?case
    using compl_pass_inv by (fastforce simp: wait_for_completion_interruptible_def Let_def split: if_splits prod.splits)
next
  case (compl_timeout m t late timeout r m' c w)
  have "compl_inv (after_sleep completion_rise t m, c, w)"
    using compl_timeout.prems by (rule compl_after_sleep_inv)
  with compl_timeout show ?case
    using compl_pass_inv by (fastforce simp: wait_for_completion_timeout_def Let_def split: if_splits prod.splits)
next
  case (compl_interruptible_timeout m t late sig timeout r m' c w)
  have "compl_inv (after_sleep completion_rise t m, c, w)"
    using compl_interruptible_timeout.prems by (rule compl_after_sleep_inv)
  with compl_interruptible_timeout.hyps show ?case
    using compl_pass_inv by (fastforce simp: wait_for_completion_interruptible_timeout_def Let_def split: if_splits prod.splits)
next
  case (compl_wakeup m t c w)
  moreover have "waiters (m\<lparr>pcs := (pcs m)(t := Woken)\<rparr>) = waiters m"
    using compl_wakeup.hyps by (auto simp: waiters_def)
  ultimately show ?case by (simp add: compl_inv_def compl.awake_wakeup del: waiters_update)
qed

definition compl_start :: "completion monitor \<times> nat \<times> nat" where
  "compl_start = (\<lparr>shared = init_completion, pcs = \<lambda>_. Running\<rparr>, 0, 0)"

lemma compl_reachable_inv: "compl_step\<^sup>*\<^sup>* compl_start b \<Longrightarrow> compl_inv b"
proof (induction rule: rtranclp_induct)
  case base
  show ?case
    by (simp add: compl_start_def compl_inv_def compl.awake_def init_completion_def init_waitqueue_head_def waiters_def)
qed (rule compl_step_inv)

section \<open>Properties\<close>

text \<open>C2: in every run in which only a thread that has locked a mutex unlocks it, apart from
  unlocks of a free mutex, at most one thread has the mutex, it is the recorded owner, and
  \<open>mutex_is_locked\<close> tells the truth.\<close>

theorem mutex_mutual_exclusion:
  assumes "mutex_step\<^sup>*\<^sup>* mutex_start (m, h)" "0 < h t" "0 < h u"
  shows "t = u \<and> sem_owner (shared m) = Some t \<and> mutex_is_locked m \<and> sem_value (shared m) = 1 - int (h t)"
proof -
  have own: "mutex_owned (shared m) h" using mutex_reachable_inv [OF assms(1)] by (simp add: mutex_inv_def)
  have "sem_owner (shared m) = Some t" "sem_value (shared m) = 1 - int (h t)" "sem_owner (shared m) = Some u"
    using mutex_owned_holder [OF own assms(2)] mutex_owned_holder [OF own assms(3)] by blast+
  then show ?thesis by (simp add: mutex_is_locked_def)
qed

theorem mutex_mutual_exclusion_witness:
  "\<exists>m. mutex_step\<^sup>*\<^sup>* mutex_start (m, (\<lambda>_. 0)(5 := 1)) \<and> sem_owner (shared m) = Some 5 \<and> mutex_is_locked m"
proof -
  define m where "m = snd (mutex_lock 5 (fst mutex_start))"
  have "mutex_lock 5 (fst mutex_start) = (True, m)"
    by (simp add: m_def mutex_start_def sema_init_def mutex_lock_def mutex_down_def down_cases)
  then have "mutex_step mutex_start (m, (\<lambda>_. 0)(5 := 1))"
    using mutex_step.mutex_enter [of "fst mutex_start" 5 True m "\<lambda>_. 0"] by (simp add: mutex_start_def)
  then have "mutex_step\<^sup>*\<^sup>* mutex_start (m, (\<lambda>_. 0)(5 := 1))" by (rule r_into_rtranclp)
  with mutex_mutual_exclusion [OF this, of 5 5] show ?thesis by auto
qed

text \<open>C10: a thread sleeps for a mutex only while some thread has locked it.  When it is free,
  every thread that waits for it has been woken and gets the mutex if it is the next to run,
  and \<open>mutex_trylock\<close> never sleeps.\<close>

theorem mutex_no_lost_wakeup:
  assumes "mutex_step\<^sup>*\<^sup>* mutex_start (m, h)"
  shows "(pcs m t = Asleep \<longrightarrow> (\<exists>u. 0 < h u)) \<and>
    ((\<forall>u. h u = 0) \<longrightarrow> fst (mutex_down t m) \<and> sem_owner (shared (snd (mutex_down t m))) = Some t) \<and>
    fst (mutex_trylock t m) = Some (if \<forall>u. u \<noteq> t \<longrightarrow> h u = 0 then 1 else 0)"
proof -
  have inv: "mutex_inv (m, h)" using mutex_reachable_inv [OF assms] .
  have free: "0 < sem_value (shared m) \<longleftrightarrow> (\<forall>u. h u = 0)" using inv by (rule mutex_free_value)
  have "pcs m t \<noteq> Asleep" if "\<forall>u. h u = 0"
    using inv free that by (auto simp: mutex_inv_def sem.awake_def down_ready_def)
  moreover have "fst (mutex_trylock t m) = Some (if \<forall>u. u \<noteq> t \<longrightarrow> h u = 0 then 1 else 0)"
    using inv by (auto simp: mutex_inv_def mutex_owned_def mutex_trylock_def mutex_down_def down_cases
        split: option.splits)
  ultimately show ?thesis
    using free by (auto simp: mutex_down_def down_cases set_owner_def)
qed


theorem mutex_no_lost_wakeup_witness:
  "fst (mutex_trylock 3 (fst mutex_start)) = Some 1 \<and> fst (mutex_down 3 (fst mutex_start))"
  using mutex_no_lost_wakeup [of "fst mutex_start" "\<lambda>_. 0" 3] by (simp add: mutex_start_def)

text \<open>C20: the value of a semaphore is its first value plus the calls of \<open>up\<close> minus the
  successful downs, so that no more threads pass than were let through; no thread sleeps
  while the value is positive, and a waiting thread that then runs passes.\<close>

theorem semaphore_counts:
  assumes "sem_step\<^sup>*\<^sup>* (\<lparr>shared = sema_init v0, pcs = \<lambda>_. Running\<rparr>, 0, 0) (m, ups, downs)"
  shows "sem_value (shared m) = v0 + int ups - int downs \<and>
    (0 \<le> v0 \<longrightarrow> int downs \<le> v0 + int ups) \<and>
    (0 < sem_value (shared m) \<longrightarrow> pcs m t \<noteq> Asleep \<and> fst (down t m))"
proof -
  have "sem_inv v0 (m, ups, downs)"
    using assms by (rule sem_reachable_inv) (simp add: sem_inv_def sem.awake_def sema_init_def)
  then show ?thesis
    by (auto simp: sem_inv_def sem.awake_def down_ready_def down_cases)
qed

theorem semaphore_counts_witness:
  "\<exists>m. sem_step\<^sup>*\<^sup>* (\<lparr>shared = sema_init 0, pcs = \<lambda>_. Running\<rparr>, 0, 0) (m, 1, 0) \<and> sem_value (shared m) = 1 \<and> fst (down 4 m)"
proof -
  have step: "sem_step\<^sup>*\<^sup>* (\<lparr>shared = sema_init 0, pcs = \<lambda>_. Running\<rparr>, 0, 0)
      (up \<lparr>shared = sema_init 0, pcs = \<lambda>_. Running\<rparr>, 1, 0)"
    using sem_step.sem_up [of "\<lparr>shared = sema_init 0, pcs = \<lambda>_. Running\<rparr>" 0 0] by auto
  from semaphore_counts [OF this, of 4] step show ?thesis by auto
qed

text \<open>C21: the number of waits that a completion has ended is at most the number of calls of
  \<open>complete\<close> and \<open>complete_all\<close>; the rest is still stored in it.  No thread sleeps while there
  is one stored, and \<open>waitqueue_active\<close> tells whether a thread is in the loop, as long as
  fewer than \<open>2\<^sup>3\<^sup>2\<close> are.\<close>

theorem completion_counts:
  assumes "compl_step\<^sup>*\<^sup>* compl_start (m, c, w)"
  shows "(c < 2 ^ 32 \<longrightarrow> unat (compl_done (shared m)) + w = c) \<and>
    (compl_done (shared m) \<noteq> 0 \<longrightarrow> pcs m t \<noteq> Asleep \<and> fst (wait_for_completion t m)) \<and>
    finite (waiters m) \<and>
    (card (waiters m) < 2 ^ 32 \<longrightarrow> waitqueue_active (compl_wait (shared m)) = (waiters m \<noteq> {}))"
proof -
  have inv: "compl_inv (m, c, w)" using compl_reachable_inv [OF assms] .
  have "(of_nat n :: u32) = 0 \<longleftrightarrow> n = 0" if "n < 2 ^ 32" for n
    using that by (simp add: word_unat_eq_iff unsigned_of_nat take_bit_nat_eq_self)
  then have "card (waiters m) < 2 ^ 32 \<longrightarrow> waitqueue_active (compl_wait (shared m)) = (waiters m \<noteq> {})"
    using inv by (auto simp: compl_inv_def waitqueue_active_def)
  moreover have "fst (wait_for_completion t m) = (compl_done (shared m) \<noteq> 0)"
    unfolding wait_for_completion_def compl.pass_returns by (simp add: completion_ready_def)
  ultimately show ?thesis
    using inv by (auto simp: compl_inv_def compl.awake_def completion_ready_def)
qed

theorem completion_counts_witness:
  "\<exists>m. compl_step\<^sup>*\<^sup>* compl_start (m, 1, 0) \<and> unat (compl_done (shared m)) = 1 \<and> fst (wait_for_completion 2 m)"
proof -
  have step: "compl_step\<^sup>*\<^sup>* compl_start (complete (fst compl_start), 1, 0)"
    using compl_step.compl_complete [of "fst compl_start" 0 0] by (auto simp: compl_start_def)
  from completion_counts [OF this, of 2] step show ?thesis by (auto simp: unat_eq_0)
qed

text \<open>\<open>complete_all\<close> lets a single thread go on: of two threads that wait for a completion,
  the second goes back to sleep once the first has returned.\<close>

theorem complete_all_releases_one:
  assumes "compl_done (shared m) = 0" "t \<noteq> u"
  shows "fst (wait_for_completion t (complete_all m)) \<and>
    \<not> fst (wait_for_completion u (snd (wait_for_completion t (complete_all m))))"
proof -
  have "compl_done (shared (complete_all m)) = 1"
    using assms by (simp add: complete_all_def complete_def signal_op_def complete_data_def)
  then show ?thesis
    by (simp add: wait_for_completion_def wait_pass_def after_sleep_def completion_ready_def completion_take_def
        completion_rise_def Let_def)
qed

theorem complete_all_releases_one_witness:
  "\<not> fst (wait_for_completion 2 (snd (wait_for_completion 1 (complete_all (fst compl_start)))))"
  using complete_all_releases_one [of "fst compl_start" 1 2] by (simp add: compl_start_def init_completion_def)

end
