(* ===== verification/Tasks.thy ===== *)
theory Tasks
  imports Webcamd_Prelude
begin

text \<open>
  Deferred work (\<open>kernel/linux_task.c\<close>) and timers (\<open>kernel/linux_timer.c\<close>).  Work items and
  timers are the addresses of their structures; an item is linked into its tail queue when
  its \<open>tqe_prev\<close> is not null.  Every operation runs under the global lock, and the threads
  \<open>work_exec\<close>, \<open>timer_exec\<close> and \<open>rcu_exec\<close> give the lock up while they run a callback and while
  they sleep: the pieces between these points are the steps.  A delayed work item consists
  of a work item and a timer, which share an address here.
\<close>

section \<open>State\<close>

text \<open>The callback of a timer is \<open>delayed_work_timer_fn\<close> or a function of a driver.\<close>

datatype timer_fn = delayed_work_timer_fn | driver_fn nat

record task_state =
  work_head :: "nat list"
  work_entry :: "nat \<Rightarrow> bool"
  work_curr :: "nat option"
  flush_work_var :: bool
  timer_head :: "nat list"
  timer_entry :: "nat \<Rightarrow> bool"
  timer_expires :: "nat \<Rightarrow> u64"
  timer_function :: "nat \<Rightarrow> timer_fn"

section \<open>Timers\<close>

definition timer_pending :: "nat \<Rightarrow> task_state \<Rightarrow> bool" where
  "timer_pending t s = timer_entry s t"

definition del_timer :: "nat \<Rightarrow> task_state \<Rightarrow> bool \<times> task_state" where
  "del_timer t s =
     (if timer_entry s t then (True, s\<lparr>timer_head := remove1 t (timer_head s), timer_entry := (timer_entry s)(t := False)\<rparr>)
      else (False, s))"

definition add_timer :: "nat \<Rightarrow> task_state \<Rightarrow> task_state" where
  "add_timer t s =
     (let s = snd (del_timer t s)
      in s\<lparr>timer_head := timer_head s @ [t], timer_entry := (timer_entry s)(t := True)\<rparr>)"

definition mod_timer :: "nat \<Rightarrow> u64 \<Rightarrow> task_state \<Rightarrow> bool \<times> task_state" where
  "mod_timer t e s = (timer_entry s t, s\<lparr>timer_expires := (timer_expires s)(t := e)\<rparr>)"

section \<open>Work queue\<close>

definition schedule_work :: "nat \<Rightarrow> task_state \<Rightarrow> bool \<times> task_state" where
  "schedule_work w s =
     (if \<not> work_entry s w then (True, s\<lparr>work_head := work_head s @ [w], work_entry := (work_entry s)(w := True)\<rparr>)
      else (False, s))"

definition schedule_delayed_work :: "u64 \<Rightarrow> nat \<Rightarrow> u64 \<Rightarrow> task_state \<Rightarrow> bool \<times> task_state" where
  "schedule_delayed_work jiffies w delay s =
     (if delay = 0 then schedule_work w s
      else if timer_pending w s then (False, s)
      else (True, add_timer w (s\<lparr>timer_expires := (timer_expires s)(w := jiffies + delay),
                                 timer_function := (timer_function s)(w := delayed_work_timer_fn)\<rparr>)))"

definition cancel_work :: "nat \<Rightarrow> task_state \<Rightarrow> task_state" where
  "cancel_work w s =
     (if work_entry s w then s\<lparr>work_head := remove1 w (work_head s), work_entry := (work_entry s)(w := False)\<rparr>
      else s)"

definition cancel_delayed_work :: "nat \<Rightarrow> task_state \<Rightarrow> task_state" where
  "cancel_delayed_work w s = cancel_work w s"

text \<open>The passes of the loops that wait for the worker: \<open>None\<close> is a further sleep, \<open>Some\<close> the
  return.\<close>

definition cancel_work_sync :: "nat \<Rightarrow> task_state \<Rightarrow> task_state \<times> bool" where
  "cancel_work_sync w s = (let s = cancel_work w s in (s, work_curr s \<noteq> Some w))"

definition cancel_delayed_work_sync :: "nat \<Rightarrow> task_state \<Rightarrow> task_state \<times> bool" where
  "cancel_delayed_work_sync w s = cancel_work_sync w (cancel_work w s)"

definition tasklet_schedule :: "nat \<Rightarrow> task_state \<Rightarrow> task_state" where
  "tasklet_schedule w s = snd (schedule_work w s)"

definition tasklet_kill :: "nat \<Rightarrow> task_state \<Rightarrow> task_state" where
  "tasklet_kill w s =
     (if work_entry s w then s\<lparr>work_head := remove1 w (work_head s), work_entry := (work_entry s)(w := False)\<rparr>
      else s)"

definition flush_work_pass :: "nat \<Rightarrow> task_state \<Rightarrow> bool" where
  "flush_work_pass w s = (\<not> (work_entry s w \<or> work_curr s = Some w))"

definition flush_scheduled_work_begin :: "task_state \<Rightarrow> task_state" where
  "flush_scheduled_work_begin s = s\<lparr>flush_work_var := True\<rparr>"

definition flush_scheduled_work_pass :: "task_state \<Rightarrow> bool" where
  "flush_scheduled_work_pass s = (\<not> flush_work_var s)"

text \<open>
  The worker: \<open>work_exec_take\<close> is a pass of the loop of \<open>work_exec\<close> up to the call of the
  function of the work item, which is the result, or up to the sleep; \<open>work_exec_done\<close> is
  what follows the call.
\<close>

definition work_exec_take :: "task_state \<Rightarrow> nat option \<times> task_state" where
  "work_exec_take s =
     (case work_head s of
        t # rest \<Rightarrow> (Some t, s\<lparr>work_head := rest, work_entry := (work_entry s)(t := False), work_curr := Some t\<rparr>)
      | [] \<Rightarrow> (None, s\<lparr>flush_work_var := False\<rparr>))"

definition work_exec_done :: "task_state \<Rightarrow> task_state" where
  "work_exec_done s = s\<lparr>work_curr := None\<rparr>"

section \<open>The timer thread\<close>

definition timer_expired :: "u64 \<Rightarrow> task_state \<Rightarrow> nat \<Rightarrow> bool" where
  "timer_expired last_jiffies s t = (sint (timer_expires s t - last_jiffies) < 0)"

text \<open>The call of the function of a timer; \<open>drv\<close> holds the functions of the drivers.\<close>

definition run_timer :: "(nat \<Rightarrow> nat \<Rightarrow> task_state \<Rightarrow> task_state) \<Rightarrow> nat \<Rightarrow> task_state \<Rightarrow> task_state" where
  "run_timer drv t s =
     (case timer_function s t of
        delayed_work_timer_fn \<Rightarrow> snd (schedule_work t s)
      | driver_fn f \<Rightarrow> drv f t s)"

definition timer_remove :: "nat \<Rightarrow> task_state \<Rightarrow> task_state" where
  "timer_remove t s = s\<lparr>timer_head := remove1 t (timer_head s), timer_entry := (timer_entry s)(t := False)\<rparr>"

text \<open>The scan of the queue in \<open>timer_exec\<close>, which starts again after every callback and may
  not end when the callbacks go on to add timers that have expired.\<close>

partial_function (option) timer_scan ::
    "(nat \<Rightarrow> nat \<Rightarrow> task_state \<Rightarrow> task_state) \<Rightarrow> u64 \<Rightarrow> task_state \<Rightarrow> task_state option" where
  "timer_scan drv last_jiffies s =
     (case find (timer_expired last_jiffies s) (timer_head s) of
        None \<Rightarrow> Some s
      | Some t \<Rightarrow> timer_scan drv last_jiffies (run_timer drv t (timer_remove t s)))"

text \<open>The delay until the next scan.\<close>

definition timer_ms_delay :: "int \<Rightarrow> task_state \<Rightarrow> nat" where
  "timer_ms_delay timer_needed s = (if timer_head s \<noteq> [] \<or> timer_needed \<noteq> 0 then 25 else 500)"

definition need_timer :: "bool \<Rightarrow> int \<Rightarrow> bool \<times> int" where
  "need_timer flag timer_needed =
     (if flag then
        let timer_needed = timer_needed + 1 in (\<not> 1 < timer_needed, timer_needed)
      else (False, timer_needed - 1))"

section \<open>The clock\<close>

record jiffies_state =
  timer_last :: int
  timer_nsec_rem :: u32
  jiffies64 :: u64

text \<open>The nanoseconds of the current time are the argument; \<open>DIV\<close> is \<open>1000000000 / HZ\<close>.\<close>

definition get_jiffies_64 :: "int \<Rightarrow> jiffies_state \<Rightarrow> u64 \<times> jiffies_state" where
  "get_jiffies_64 tv_nsec c =
     (let delta = tv_nsec - timer_last c;
          c = c\<lparr>timer_last := tv_nsec\<rparr>;
          delta = (if delta < 0 then delta + 1000000000 else delta);
          delta = (if delta < 0 then 0 else delta);
          delta = (if 999999999 < delta then 999999999 else delta);
          c = c\<lparr>timer_nsec_rem := timer_nsec_rem c + of_int delta\<rparr>;
          delta = sint (timer_nsec_rem c div 1000000);
          c = (if 0 < delta then
                 c\<lparr>timer_nsec_rem := timer_nsec_rem c mod 1000000, jiffies64 := jiffies64 c + of_int delta\<rparr>
               else c)
      in (jiffies64 c, c))"

section \<open>RCU callbacks\<close>

record rcu_state =
  rcu_head :: "nat option"
  rcu_next :: "nat \<Rightarrow> nat option"
  rcu_func :: "nat \<Rightarrow> nat"

definition call_rcu :: "nat \<Rightarrow> nat \<Rightarrow> rcu_state \<Rightarrow> rcu_state" where
  "call_rcu h f r =
     (if rcu_next r h = None then
        r\<lparr>rcu_next := (rcu_next r)(h := rcu_head r), rcu_func := (rcu_func r)(h := f), rcu_head := Some h\<rparr>
      else r)"

text \<open>A pass of the loop of \<open>rcu_exec\<close>: the callback that is called, or none and the sleep.\<close>

definition rcu_exec_take :: "rcu_state \<Rightarrow> nat option \<times> rcu_state" where
  "rcu_exec_take r =
     (case rcu_head r of
        Some t \<Rightarrow> (Some t, r\<lparr>rcu_head := rcu_next r t, rcu_next := (rcu_next r)(t := None)\<rparr>)
      | None \<Rightarrow> (None, r))"

section \<open>The queues\<close>

definition queue_ok :: "nat list \<Rightarrow> (nat \<Rightarrow> bool) \<Rightarrow> bool" where
  "queue_ok xs linked \<longleftrightarrow> distinct xs \<and> (\<forall>x. linked x \<longleftrightarrow> x \<in> set xs)"

definition task_inv :: "task_state \<Rightarrow> bool" where
  "task_inv s \<longleftrightarrow> queue_ok (work_head s) (work_entry s) \<and> queue_ok (timer_head s) (timer_entry s)"

lemma queue_ok_empty: "queue_ok [] (\<lambda>_. False)"
  by (simp add: queue_ok_def)

lemma queue_ok_insert: "queue_ok xs l \<Longrightarrow> \<not> l x \<Longrightarrow> queue_ok (xs @ [x]) (l(x := True))"
  by (auto simp: queue_ok_def)

lemma queue_ok_remove: "queue_ok xs l \<Longrightarrow> queue_ok (remove1 x xs) (l(x := False))"
  by (auto simp: queue_ok_def)

lemma queue_ok_tl: "queue_ok (x # xs) l \<Longrightarrow> queue_ok xs (l(x := False))"
  by (auto simp: queue_ok_def)

lemmas queue_ok_intros = queue_ok_empty queue_ok_insert queue_ok_remove queue_ok_tl

lemma schedule_work_inv: "task_inv s \<Longrightarrow> task_inv (snd (schedule_work w s))"
  by (simp add: schedule_work_def task_inv_def queue_ok_intros)

lemma cancel_work_inv: "task_inv s \<Longrightarrow> task_inv (cancel_work w s)"
  by (simp add: cancel_work_def task_inv_def queue_ok_intros)

lemma del_timer_inv: "task_inv s \<Longrightarrow> task_inv (snd (del_timer t s))"
  by (simp add: del_timer_def task_inv_def queue_ok_intros)

lemma add_timer_inv: "task_inv s \<Longrightarrow> task_inv (add_timer t s)"
proof -
  assume "task_inv s"
  then have "task_inv (snd (del_timer t s))" by (rule del_timer_inv)
  moreover have "\<not> timer_entry (snd (del_timer t s)) t" by (simp add: del_timer_def)
  ultimately show ?thesis by (simp add: add_timer_def Let_def task_inv_def queue_ok_insert)
qed

lemma mod_timer_inv: "task_inv s \<Longrightarrow> task_inv (snd (mod_timer t e s))"
  by (simp add: mod_timer_def task_inv_def)

lemma schedule_delayed_work_inv: "task_inv s \<Longrightarrow> task_inv (snd (schedule_delayed_work j w d s))"
  by (auto simp: schedule_delayed_work_def schedule_work_inv intro!: add_timer_inv) (simp add: task_inv_def)

lemma work_exec_take_inv: "task_inv s \<Longrightarrow> task_inv (snd (work_exec_take s))"
  by (cases "work_head s") (simp_all add: work_exec_take_def task_inv_def queue_ok_tl)

lemma timer_remove_inv: "task_inv s \<Longrightarrow> task_inv (timer_remove t s)"
  by (simp add: timer_remove_def task_inv_def queue_ok_remove)

section \<open>Threads that use the work queue\<close>

text \<open>
  A configuration has, beside the state, for every work item the number of times that it was
  put into the queue, that it was taken to be run, and that it was cancelled.
\<close>

type_synonym task_config = "task_state \<times> (nat \<Rightarrow> nat) \<times> (nat \<Rightarrow> nat) \<times> (nat \<Rightarrow> nat)"

definition inc_if :: "bool \<Rightarrow> nat \<Rightarrow> (nat \<Rightarrow> nat) \<Rightarrow> nat \<Rightarrow> nat" where
  "inc_if b w f = f(w := f w + of_bool b)"

inductive task_step :: "task_config \<Rightarrow> task_config \<Rightarrow> bool" where
  step_schedule: "schedule_work w s = (r, s') \<Longrightarrow> task_step (s, q, x, c) (s', inc_if r w q, x, c)"
| step_delayed: "schedule_delayed_work j w d s = (r, s') \<Longrightarrow>
    task_step (s, q, x, c) (s', inc_if (r \<and> d = 0) w q, x, c)"
| step_fire: "t \<in> set (timer_head s) \<Longrightarrow> timer_function s t = delayed_work_timer_fn \<Longrightarrow>
    schedule_work t (timer_remove t s) = (r, s') \<Longrightarrow> task_step (s, q, x, c) (s', inc_if r t q, x, c)"
| step_cancel: "task_step (s, q, x, c) (cancel_work w s, q, x, inc_if (work_entry s w) w c)"
| step_add_timer: "task_step (s, q, x, c) (add_timer t s, q, x, c)"
| step_del_timer: "task_step (s, q, x, c) (snd (del_timer t s), q, x, c)"
| step_mod_timer: "task_step (s, q, x, c) (snd (mod_timer t e s), q, x, c)"
| step_flush: "task_step (s, q, x, c) (flush_scheduled_work_begin s, q, x, c)"
| step_take: "work_curr s = None \<Longrightarrow> work_exec_take s = (Some w, s') \<Longrightarrow>
    task_step (s, q, x, c) (s', q, inc_if True w x, c)"
| step_idle: "work_curr s = None \<Longrightarrow> work_exec_take s = (None, s') \<Longrightarrow> task_step (s, q, x, c) (s', q, x, c)"
| step_done: "task_step (s, q, x, c) (work_exec_done s, q, x, c)"

definition config_inv :: "task_config \<Rightarrow> bool" where
  "config_inv = (\<lambda>(s, q, x, c). task_inv s \<and> (\<forall>w. q w = x w + c w + of_bool (work_entry s w)))"

lemma add_timer_work [simp]: "work_entry (add_timer t s) = work_entry s" "work_head (add_timer t s) = work_head s"
    "work_curr (add_timer t s) = work_curr s" "flush_work_var (add_timer t s) = flush_work_var s"
  by (simp_all add: add_timer_def del_timer_def Let_def)

lemma task_step_task_inv: "task_step a b \<Longrightarrow> task_inv (fst a) \<Longrightarrow> task_inv (fst b)"
proof (induction rule: task_step.induct)
  case (step_schedule w s r s' q x c)
  then show ?case using schedule_work_inv [of s w] by simp
next
  case (step_delayed j w d s r s' q x c)
  then show ?case using schedule_delayed_work_inv [of s j w d] by simp
next
  case (step_fire t s r s' q x c)
  then show ?case using schedule_work_inv [of "timer_remove t s" t] timer_remove_inv [of s t] by simp
next
  case (step_take s w s' q x c)
  then show ?case using work_exec_take_inv [of s] by simp
next
  case (step_idle s s' q x c)
  then show ?case using work_exec_take_inv [of s] by simp
qed (simp_all add: cancel_work_inv add_timer_inv del_timer_inv mod_timer_inv,
  simp_all add: flush_scheduled_work_begin_def work_exec_done_def task_inv_def)

lemma task_step_counts:
  assumes "task_step a b" "config_inv a"
  shows "config_inv b"
proof -
  have "task_inv (fst b)" using task_step_task_inv [OF assms(1)] assms(2) by (cases a) (simp add: config_inv_def)
  with assms show ?thesis
  proof (induction rule: task_step.induct)
    case (step_take s w s' q x c)
    then have "work_head s \<noteq> [] \<and> hd (work_head s) = w \<and> work_entry s w \<and> work_entry s' = (work_entry s)(w := False)"
      by (auto simp: work_exec_take_def config_inv_def task_inv_def queue_ok_def split: list.splits)
    with step_take show ?case by (auto simp: config_inv_def inc_if_def)
  next
    case (step_idle s s' q x c)
    then show ?case by (auto simp: config_inv_def work_exec_take_def split: list.splits)
  qed (auto simp: config_inv_def inc_if_def schedule_work_def schedule_delayed_work_def timer_remove_def cancel_work_def
      del_timer_def mod_timer_def flush_scheduled_work_begin_def work_exec_done_def split: if_splits)
qed

lemma config_reachable_inv: "task_step\<^sup>*\<^sup>* a b \<Longrightarrow> config_inv a \<Longrightarrow> config_inv b"
  by (induction rule: rtranclp_induct) (auto intro: task_step_counts)

lemma queued_mono: "task_step\<^sup>*\<^sup>* a b \<Longrightarrow> fst (snd a) w \<le> fst (snd b) w \<and> fst (snd (snd a)) w \<le> fst (snd (snd b)) w \<and>
    snd (snd (snd a)) w \<le> snd (snd (snd b)) w"
proof (induction rule: rtranclp_induct)
  case (step b d)
  have "fst (snd b) w \<le> fst (snd d) w \<and> fst (snd (snd b)) w \<le> fst (snd (snd d)) w \<and>
      snd (snd (snd b)) w \<le> snd (snd (snd d)) w"
    using step(2) by (induction rule: task_step.induct) (simp_all add: inc_if_def)
  with step.IH show ?case by linarith
qed simp

text \<open>The variable of \<open>flush_scheduled_work\<close> is reset only when the worker finds the queue empty.\<close>

lemma flush_step: "task_step a b \<Longrightarrow> flush_work_var (fst a) \<Longrightarrow> \<not> flush_work_var (fst b) \<Longrightarrow>
    work_head (fst a) = [] \<and> work_curr (fst a) = None"
  by (induction rule: task_step.induct)
    (auto simp: schedule_work_def schedule_delayed_work_def timer_remove_def cancel_work_def del_timer_def mod_timer_def
      flush_scheduled_work_begin_def work_exec_done_def work_exec_take_def split: if_splits list.splits)

lemma flush_drained:
  "task_step\<^sup>*\<^sup>* a b \<Longrightarrow> flush_work_var (fst a) \<Longrightarrow> \<not> flush_work_var (fst b) \<Longrightarrow>
    \<exists>d. task_step\<^sup>*\<^sup>* a d \<and> task_step\<^sup>*\<^sup>* d b \<and> work_head (fst d) = [] \<and> work_curr (fst d) = None"
proof (induction rule: rtranclp_induct)
  case (step b e)
  show ?case
  proof (cases "flush_work_var (fst b)")
    case True
    then show ?thesis using step flush_step [of b e] by (metis r_into_rtranclp)
  next
    case False
    then show ?thesis using step by (meson rtranclp.rtrancl_into_rtrancl)
  qed
qed simp


section \<open>The scan for expired timers\<close>

text \<open>The timers that the scan leaves, and what the callbacks of the rest do to the work queue.\<close>

lemma timer_expired_cong: "timer_expires s' = timer_expires s \<Longrightarrow> timer_expired j s' = timer_expired j s"
  by (auto simp: timer_expired_def)

definition keeps_timers :: "(task_state \<Rightarrow> task_state) \<Rightarrow> bool" where
  "keeps_timers f \<longleftrightarrow> (\<forall>s. timer_head (f s) = timer_head s \<and> timer_entry (f s) = timer_entry s \<and>
     timer_expires (f s) = timer_expires s \<and> timer_function (f s) = timer_function s)"

lemma run_timer_keeps: "(\<And>f t. keeps_timers (drv f t)) \<Longrightarrow> keeps_timers (run_timer drv t)"
  by (auto simp: keeps_timers_def run_timer_def schedule_work_def split: timer_fn.splits)

lemma find_remove1: "find P xs = Some t \<Longrightarrow> P t \<and> t \<in> set xs \<and> filter (\<lambda>x. \<not> P x) (remove1 t xs) = filter (\<lambda>x. \<not> P x) xs \<and>
    filter P xs = t # filter P (remove1 t xs)"
  by (induction xs) (auto split: if_splits)

lemma timer_scan_head:
  assumes "\<And>f t. keeps_timers (drv f t)"
  shows "\<exists>s'. timer_scan drv j s = Some s' \<and>
    timer_head s' = filter (\<lambda>t. \<not> timer_expired j s t) (timer_head s) \<and>
    (\<forall>t. timer_entry s' t = (timer_entry s t \<and> \<not> (t \<in> set (timer_head s) \<and> timer_expired j s t))) \<and>
    s' = fold (\<lambda>t s. run_timer drv t (timer_remove t s)) (filter (timer_expired j s) (timer_head s)) s"
proof (induction "length (timer_head s)" arbitrary: s rule: less_induct)
  case less
  show ?case
  proof (cases "find (timer_expired j s) (timer_head s)")
    case None
    then have "\<And>t. t \<in> set (timer_head s) \<Longrightarrow> \<not> timer_expired j s t" by (simp add: find_None_iff)
    then show ?thesis
      using None by (auto simp: timer_scan.simps [of drv j s] filter_id_conv filter_empty_conv [THEN iffD2])
  next
    case (Some t)
    note t = find_remove1 [OF Some]
    define s1 where "s1 = run_timer drv t (timer_remove t s)"
    have keep: "keeps_timers (run_timer drv t)" using assms by (rule run_timer_keeps)
    then have s1: "timer_head s1 = remove1 t (timer_head s)" "timer_entry s1 = (timer_entry s)(t := False)"
      and "timer_expires s1 = timer_expires s"
      by (simp_all add: s1_def keeps_timers_def timer_remove_def)
    then have e1: "timer_expired j s1 = timer_expired j s" by (intro timer_expired_cong)
    have "length (timer_head s1) < length (timer_head s)"
      using t s1(1) length_pos_if_in_set [of t "timer_head s"] by (simp add: length_remove1)
    from less [OF this] obtain s' where s': "timer_scan drv j s1 = Some s'"
      "timer_head s' = filter (\<lambda>t. \<not> timer_expired j s t) (timer_head s)"
      "\<forall>u. timer_entry s' u = (((timer_entry s)(t := False)) u \<and> \<not> (u \<in> set (remove1 t (timer_head s)) \<and> timer_expired j s u))"
      "s' = fold (\<lambda>t s. run_timer drv t (timer_remove t s)) (filter (timer_expired j s) (remove1 t (timer_head s))) s1"
      using t by (auto simp: s1 e1)
    have "u \<in> set (remove1 t (timer_head s)) \<longleftrightarrow> u \<in> set (timer_head s)" if "u \<noteq> t" for u
      using that by (metis in_set_remove1)
    then have "\<forall>u. timer_entry s' u = (timer_entry s u \<and> \<not> (u \<in> set (timer_head s) \<and> timer_expired j s u))"
      using s'(3) t by auto
    moreover have "timer_scan drv j s = timer_scan drv j s1"
      using Some by (subst timer_scan.simps) (simp add: s1_def)
    moreover have "s' = fold (\<lambda>t s. run_timer drv t (timer_remove t s)) (filter (timer_expired j s) (timer_head s)) s"
      using s'(4) t by (simp add: s1_def)
    ultimately show ?thesis using s'(1,2) by auto
  qed
qed

text \<open>When every expired timer belongs to a delayed work item, the callbacks append the items
  that are not queued yet.\<close>

lemma fold_delayed:
  assumes "\<forall>t \<in> set ts. timer_function s t = delayed_work_timer_fn" "distinct ts"
  shows "work_head (fold (\<lambda>t s. run_timer drv t (timer_remove t s)) ts s) =
    work_head s @ filter (\<lambda>t. \<not> work_entry s t) ts"
  using assms
proof (induction ts arbitrary: s)
  case (Cons t ts)
  define s1 where "s1 = run_timer drv t (timer_remove t s)"
  have "timer_function (timer_remove t s) t = delayed_work_timer_fn"
    using Cons.prems by (simp add: timer_remove_def)
  then have s1: "s1 = snd (schedule_work t (timer_remove t s))"
    by (simp add: s1_def run_timer_def)
  then have "timer_function s1 = timer_function s" "\<And>u. u \<noteq> t \<Longrightarrow> work_entry s1 u = work_entry s u"
    by (simp_all add: schedule_work_def timer_remove_def)
  moreover have "filter (\<lambda>u. \<not> work_entry s1 u) ts = filter (\<lambda>u. \<not> work_entry s u) ts"
  proof (rule filter_cong [OF refl])
    fix u assume "u \<in> set ts"
    then have "u \<noteq> t" using Cons.prems(2) by auto
    then show "(\<not> work_entry s1 u) = (\<not> work_entry s u)" by (simp add: calculation(2))
  qed
  ultimately show ?case
    using Cons.IH [of s1] Cons.prems by (simp add: s1_def [symmetric]) (simp add: s1 schedule_work_def timer_remove_def)
qed simp

section \<open>The clock counts milliseconds\<close>

definition jiffies_ok :: "jiffies_state \<Rightarrow> bool" where
  "jiffies_ok c \<longleftrightarrow> 0 \<le> timer_last c \<and> timer_last c < 1000000000 \<and> uint (timer_nsec_rem c) < 1000000"

text \<open>The nanoseconds that the clock has counted.\<close>

definition jiffies_nsec :: "jiffies_state \<Rightarrow> int" where
  "jiffies_nsec c = uint (jiffies64 c) * 1000000 + uint (timer_nsec_rem c)"

lemma sint_small: "uint (w :: u32) < 2 ^ 31 \<Longrightarrow> sint w = uint w"
proof -
  assume "uint w < 2 ^ 31"
  moreover have "- (2 ^ 31) \<le> uint w" by (rule order_trans [OF _ uint_ge_0]) simp
  ultimately show ?thesis using signed_take_bit_int_eq_self [of 31 "uint w"] by (simp add: sint_uint)
qed

lemma delta_mod:
  fixes a b :: int
  assumes "0 \<le> a" "a < 1000000000" "0 \<le> b" "b < 1000000000"
  shows "(a - b) mod 1000000000 = (if a - b < 0 then a - b + 1000000000 else a - b)"
proof (cases "a - b < 0")
  case True
  then have "(a - b + 1000000000) mod 1000000000 = a - b + 1000000000" using assms by (intro mod_pos_pos_trivial) auto
  then show ?thesis using True by simp
qed (use assms in simp)

lemma get_jiffies_step:
  assumes "jiffies_ok c" "0 \<le> tv" "tv < 1000000000" "jiffies_nsec c + 1000000000 < 2 ^ 64 * 1000000"
  shows "jiffies_ok (snd (get_jiffies_64 tv c)) \<and> timer_last (snd (get_jiffies_64 tv c)) = tv \<and>
    jiffies_nsec (snd (get_jiffies_64 tv c)) = jiffies_nsec c + (tv - timer_last c) mod 1000000000 \<and>
    fst (get_jiffies_64 tv c) = jiffies64 (snd (get_jiffies_64 tv c))"
proof -
  define d where "d = (tv - timer_last c) mod 1000000000"
  have d: "0 \<le> d" "d < 1000000000" by (simp_all add: d_def)
  define x where "x = timer_nsec_rem c + of_int d"
  have rem: "0 \<le> uint (timer_nsec_rem c)" "uint (timer_nsec_rem c) < 1000000"
    using assms(1) by (simp_all add: jiffies_ok_def)
  have "uint (of_int d :: u32) = d" using d by (simp add: uint_word_of_int)
  then have x: "uint x = uint (timer_nsec_rem c) + d"
    using rem d by (simp add: x_def uint_word_ariths)
  define q r where "q = uint x div 1000000" and "r = uint x mod 1000000"
  have split: "q * 1000000 + r = uint x" "0 \<le> r" "r < 1000000" by (simp_all add: q_def r_def)
  have q: "0 \<le> q" "q < 2000" using split x rem d by linarith+
  have "uint (x div 1000000) = q" and m: "uint (x mod 1000000) = r" by (simp_all add: uint_div uint_mod q_def r_def)
  then have sq: "sint (x div 1000000) = q" using q by (simp add: sint_small)
  have step: "get_jiffies_64 tv c = (let c' = c\<lparr>timer_last := tv, timer_nsec_rem := x\<rparr>;
      c' = (if 0 < q then c'\<lparr>timer_nsec_rem := x mod 1000000, jiffies64 := jiffies64 c + of_int q\<rparr> else c')
    in (jiffies64 c', c'))"
  proof -
    have *: "(if tv - timer_last c < 0 then tv - timer_last c + 1000000000 else tv - timer_last c) = d"
      unfolding d_def using assms(1-3) delta_mod [of tv "timer_last c"] by (simp add: jiffies_ok_def)
    show ?thesis
      using d unfolding get_jiffies_64_def Let_def * by (simp add: x_def [symmetric] sq)
  qed
  have "uint (jiffies64 c) + q < 2 ^ 64"
    using assms(4) split x d rem by (simp add: jiffies_nsec_def)
  moreover have "uint (of_int q :: u64) = q" using q by (simp add: uint_word_of_int)
  ultimately have j: "uint (jiffies64 c + of_int q) = uint (jiffies64 c) + q"
    using q by (simp add: uint_word_ariths)
  have n: "jiffies_nsec (snd (get_jiffies_64 tv c)) = jiffies_nsec c + d"
    using split x q by (cases "0 < q") (simp_all add: step jiffies_nsec_def j m)
  show ?thesis
    unfolding n using split x q assms(2,3) by (cases "0 < q") (simp_all add: step jiffies_ok_def m d_def)
qed

text \<open>Readings of the clock, in nanoseconds, less than a second apart.\<close>

primrec close_readings :: "int \<Rightarrow> int list \<Rightarrow> bool" where
  "close_readings t [] = True"
| "close_readings t (u # us) = (t \<le> u \<and> u < t + 1000000000 \<and> close_readings u us)"

lemma close_readings_le: "close_readings t us \<Longrightarrow> t \<le> last (t # us)"
  by (induction us arbitrary: t) (fastforce split: if_splits)+

lemma get_jiffies_run:
  assumes "jiffies_ok c" "timer_last c = t mod 1000000000" "close_readings t us"
    and "jiffies_nsec c + (last (t # us) - t) + 1000000000 < 2 ^ 64 * 1000000"
  shows "jiffies_ok (fold (\<lambda>u c. snd (get_jiffies_64 (u mod 1000000000) c)) us c) \<and>
    jiffies_nsec (fold (\<lambda>u c. snd (get_jiffies_64 (u mod 1000000000) c)) us c) = jiffies_nsec c + (last (t # us) - t)"
  using assms
proof (induction us arbitrary: t c)
  case (Cons u us)
  define c1 where "c1 = snd (get_jiffies_64 (u mod 1000000000) c)"
  have u: "t \<le> u" "u < t + 1000000000" "close_readings u us" using Cons.prems(3) by simp_all
  have l: "last (t # u # us) = last (u # us)" by simp
  have "u \<le> last (u # us)" using u(3) by (rule close_readings_le)
  then have "jiffies_nsec c + 1000000000 < 2 ^ 64 * 1000000" using Cons.prems(4) u(1) l by linarith
  then have c1: "jiffies_ok c1" "timer_last c1 = u mod 1000000000"
    "jiffies_nsec c1 = jiffies_nsec c + (u mod 1000000000 - t mod 1000000000) mod 1000000000"
    using get_jiffies_step [OF Cons.prems(1), of "u mod 1000000000"] Cons.prems(2) by (simp_all add: c1_def)
  have "(u mod 1000000000 - t mod 1000000000) mod 1000000000 = u - t"
    using u by (simp add: mod_diff_eq)
  then have n: "jiffies_nsec c1 = jiffies_nsec c + (u - t)" using c1(3) by simp
  have "jiffies_nsec c1 + (last (u # us) - u) + 1000000000 < 2 ^ 64 * 1000000"
    using n Cons.prems(4) l by linarith
  from Cons.IH [OF c1(1,2) u(3) this] show ?case using n l by (simp add: c1_def [symmetric])
qed simp

lemma jiffies_of_nsec: "jiffies_ok c \<Longrightarrow> uint (jiffies64 c) = jiffies_nsec c div 1000000"
  by (simp add: jiffies_ok_def jiffies_nsec_def)

section \<open>The list of RCU callbacks\<close>

primrec rcu_chain :: "(nat \<Rightarrow> nat option) \<Rightarrow> nat option \<Rightarrow> nat list \<Rightarrow> bool" where
  "rcu_chain nxt p [] \<longleftrightarrow> p = None"
| "rcu_chain nxt p (x # xs) \<longleftrightarrow> p = Some x \<and> rcu_chain nxt (nxt x) xs"

lemma rcu_chain_upd: "x \<notin> set xs \<Longrightarrow> rcu_chain (nxt(x := y)) p xs = rcu_chain nxt p xs"
  by (induction xs arbitrary: p) auto

lemma rcu_chain_next: "rcu_chain nxt p xs \<Longrightarrow> h \<in> set xs \<Longrightarrow> h \<noteq> last xs \<Longrightarrow> nxt h \<noteq> None"
  by (induction xs arbitrary: p) (auto split: if_splits simp: neq_Nil_conv)

section \<open>Properties\<close>

definition task_start :: task_config where
  "task_start = (\<lparr>work_head = [], work_entry = \<lambda>_. False, work_curr = None, flush_work_var = False,
     timer_head = [], timer_entry = \<lambda>_. False, timer_expires = \<lambda>_. 0, timer_function = \<lambda>_. driver_fn 0\<rparr>,
     \<lambda>_. 0, \<lambda>_. 0, \<lambda>_. 0)"







text \<open>As long as the clock is read at least once a second, \<open>jiffies\<close> is the number of full
  milliseconds that have passed, up to the rest carried over: no time is lost or counted
  twice.\<close>

theorem jiffies_count_milliseconds:
  assumes "jiffies_ok c" "timer_last c = t mod 1000000000" "close_readings t us"
    and "jiffies_nsec c + (last (t # us) - t) + 1000000000 < 2 ^ 64 * 1000000"
  shows "uint (jiffies64 (fold (\<lambda>u c. snd (get_jiffies_64 (u mod 1000000000) c)) us c)) =
    (uint (jiffies64 c) * 1000000 + uint (timer_nsec_rem c) + (last (t # us) - t)) div 1000000"
proof -
  let ?c = "fold (\<lambda>u c. snd (get_jiffies_64 (u mod 1000000000) c)) us c"
  have "uint (jiffies64 ?c) = jiffies_nsec ?c div 1000000"
    using get_jiffies_run [OF assms] by (intro jiffies_of_nsec) simp
  also have "jiffies_nsec ?c = jiffies_nsec c + (last (t # us) - t)" using get_jiffies_run [OF assms] by simp
  finally show ?thesis by (simp only: jiffies_nsec_def)
qed

theorem jiffies_count_milliseconds_witness:
  "uint (jiffies64 (fold (\<lambda>u c. snd (get_jiffies_64 (u mod 1000000000) c)) [900000000, 1500000000, 2000000001]
     \<lparr>timer_last = 0, timer_nsec_rem = 0, jiffies64 = 0\<rparr>)) = 2000"
  using jiffies_count_milliseconds [of "\<lparr>timer_last = 0, timer_nsec_rem = 0, jiffies64 = 0\<rparr>" 0 "[900000000, 1500000000, 2000000001]"]
  by (simp add: jiffies_ok_def jiffies_nsec_def)

text \<open>Callbacks passed to \<open>call_rcu\<close> form a stack: a new one is put in front, one that is
  queued already is not added again unless it is the last of the list, and the thread
  takes them from the front and unlinks them.\<close>

theorem rcu_stack:
  assumes "rcu_chain (rcu_next r) (rcu_head r) xs" "distinct xs"
  shows "(h \<notin> set xs \<and> rcu_next r h = None \<longrightarrow>
      rcu_chain (rcu_next (call_rcu h f r)) (rcu_head (call_rcu h f r)) (h # xs) \<and> rcu_func (call_rcu h f r) h = f) \<and>
    (h \<in> set xs \<and> h \<noteq> last xs \<longrightarrow> call_rcu h f r = r) \<and>
    (xs = [] \<longrightarrow> rcu_exec_take r = (None, r)) \<and>
    (\<forall>y ys. xs = y # ys \<longrightarrow> (\<exists>r'. rcu_exec_take r = (Some y, r') \<and> rcu_chain (rcu_next r') (rcu_head r') ys \<and>
       rcu_next r' y = None))"
proof (intro conjI impI allI)
  assume "h \<notin> set xs \<and> rcu_next r h = None"
  then show "rcu_chain (rcu_next (call_rcu h f r)) (rcu_head (call_rcu h f r)) (h # xs)" "rcu_func (call_rcu h f r) h = f"
    using assms by (simp_all add: call_rcu_def rcu_chain_upd)
next
  assume "h \<in> set xs \<and> h \<noteq> last xs"
  then show "call_rcu h f r = r" using rcu_chain_next [OF assms(1), of h] by (auto simp: call_rcu_def)
next
  fix y ys assume "xs = y # ys"
  then show "\<exists>r'. rcu_exec_take r = (Some y, r') \<and> rcu_chain (rcu_next r') (rcu_head r') ys \<and> rcu_next r' y = None"
    using assms by (simp add: rcu_exec_take_def rcu_chain_upd)
qed (use assms in \<open>simp add: rcu_exec_take_def\<close>)

theorem rcu_stack_witness:
  "rcu_exec_take (call_rcu 3 8 \<lparr>rcu_head = None, rcu_next = \<lambda>_. None, rcu_func = \<lambda>_. 0\<rparr>) =
    (Some 3, \<lparr>rcu_head = None, rcu_next = \<lambda>_. None, rcu_func = (\<lambda>_. 0)(3 := 8)\<rparr>) \<and>
   rcu_func (call_rcu 3 8 \<lparr>rcu_head = None, rcu_next = \<lambda>_. None, rcu_func = \<lambda>_. 0\<rparr>) 3 = 8"
proof -
  have "rcu_func (call_rcu 3 8 \<lparr>rcu_head = None, rcu_next = \<lambda>_. None, rcu_func = \<lambda>_. 0\<rparr>) 3 = 8"
    using rcu_stack [of "\<lparr>rcu_head = None, rcu_next = \<lambda>_. None, rcu_func = \<lambda>_. 0\<rparr>" "[]" 3 8] by simp
  then show ?thesis by (auto simp: rcu_exec_take_def call_rcu_def)
qed

text \<open>\<open>cancel_delayed_work\<close> takes the work item out of the work queue but leaves its timer
  running: when the timer expires, the cancelled item is queued after all.\<close>

theorem cancel_delayed_work_keeps_timer:
  assumes "task_inv s" "\<not> timer_pending w s" "delay \<noteq> 0"
  shows "let s1 = snd (schedule_delayed_work jiffies w delay s); s2 = cancel_delayed_work w s1 in
    \<not> work_entry s2 w \<and> timer_pending w s2 \<and> work_entry (run_timer drv w (timer_remove w s2)) w"
  using assms
  by (auto simp: schedule_delayed_work_def cancel_delayed_work_def cancel_work_def timer_pending_def add_timer_def
      del_timer_def run_timer_def timer_remove_def schedule_work_def Let_def)

theorem cancel_delayed_work_keeps_timer_witness:
  "timer_pending 2 (cancel_delayed_work 2 (snd (schedule_delayed_work 10 2 5 (fst task_start))))"
proof -
  have "task_inv (fst task_start)" "\<not> timer_pending 2 (fst task_start)"
    by (simp_all add: task_start_def task_inv_def queue_ok_empty timer_pending_def)
  then show ?thesis
    using cancel_delayed_work_keeps_timer [of "fst task_start" 2 5 10] by (simp add: Let_def)
qed

end
