(* ===== verification/Ktime.thy ===== *)
theory Ktime
  imports Arith Threads
begin

text \<open>
  Time values (\<open>kernel/linux_func.c\<close>).  A \<open>ktime_t\<close> is a \<open>struct timespec\<close>; its fields and the
  signed results are integers, with no wrap-around, and unsigned results are 64-bit words.
  A time is normal when its nanoseconds are within a second, and then it is determined by
  the number of nanoseconds that it stands for.
\<close>

section \<open>Operations\<close>

record timeval =
  tv_sec_v :: int
  tv_usec :: int

definition NSEC_PER_SEC :: int where
  "NSEC_PER_SEC = 1000000000"

definition jiffies_to_timeval :: "u64 \<Rightarrow> timeval" where
  "jiffies_to_timeval j = \<lparr>tv_sec_v = uint (j div 1000), tv_usec = uint ((j mod 1000) * 1000)\<rparr>"

definition ktime_add :: "timespec \<Rightarrow> timespec \<Rightarrow> timespec" where
  "ktime_add a b =
     (let r = \<lparr>tv_sec = tv_sec a + tv_sec b, tv_nsec = tv_nsec a + tv_nsec b\<rparr>
      in if 1000000000 \<le> tv_nsec r then \<lparr>tv_sec = tv_sec r + 1, tv_nsec = tv_nsec r - 1000000000\<rparr> else r)"

definition ktime_sub :: "timespec \<Rightarrow> timespec \<Rightarrow> timespec" where
  "ktime_sub a b =
     (let r = \<lparr>tv_sec = tv_sec a - tv_sec b, tv_nsec = tv_nsec a - tv_nsec b\<rparr>
      in if tv_nsec r < 0 then \<lparr>tv_sec = tv_sec r - 1, tv_nsec = tv_nsec r + 1000000000\<rparr> else r)"

definition timespec_add :: "timespec \<Rightarrow> timespec \<Rightarrow> timespec" where
  "timespec_add vvp uvp =
     (let vvp = \<lparr>tv_sec = tv_sec vvp + tv_sec uvp, tv_nsec = tv_nsec vvp + tv_nsec uvp\<rparr>
      in if 1000000000 \<le> tv_nsec vvp then \<lparr>tv_sec = tv_sec vvp + 1, tv_nsec = tv_nsec vvp - 1000000000\<rparr> else vvp)"

definition timespec_sub :: "timespec \<Rightarrow> timespec \<Rightarrow> timespec" where
  "timespec_sub vvp uvp =
     (let vvp = \<lparr>tv_sec = tv_sec vvp - tv_sec uvp, tv_nsec = tv_nsec vvp - tv_nsec uvp\<rparr>
      in if tv_nsec vvp < 0 then \<lparr>tv_sec = tv_sec vvp - 1, tv_nsec = tv_nsec vvp + 1000000000\<rparr> else vvp)"

definition ktime_to_ns :: "timespec \<Rightarrow> int" where
  "ktime_to_ns ts = tv_sec ts * 1000000000 + tv_nsec ts"

definition timespec_to_ns :: "timespec \<Rightarrow> int" where
  "timespec_to_ns ts = tv_sec ts * NSEC_PER_SEC + tv_nsec ts"

definition ns_to_timespec :: "int \<Rightarrow> timespec" where
  "ns_to_timespec nsec =
     (if nsec = 0 then \<lparr>tv_sec = 0, tv_nsec = 0\<rparr>
      else let s = c_div nsec NSEC_PER_SEC;
               rem = c_mod nsec NSEC_PER_SEC
           in if rem < 0 then \<lparr>tv_sec = s - 1, tv_nsec = rem + NSEC_PER_SEC\<rparr>
              else \<lparr>tv_sec = s, tv_nsec = rem\<rparr>)"

definition ktime_to_timeval :: "timespec \<Rightarrow> timeval" where
  "ktime_to_timeval ts = \<lparr>tv_sec_v = tv_sec ts, tv_usec = c_div (tv_nsec ts) 1000\<rparr>"

definition ktime_to_us :: "timespec \<Rightarrow> int" where
  "ktime_to_us t = (let tv = ktime_to_timeval t in tv_sec_v tv * 1000000 + tv_usec tv)"

definition ktime_to_ms :: "timespec \<Rightarrow> int" where
  "ktime_to_ms t = tv_sec t * 1000 + c_div (tv_nsec t) 1000000"

definition ktime_us_delta :: "timespec \<Rightarrow> timespec \<Rightarrow> int" where
  "ktime_us_delta later first = ktime_to_us (ktime_sub later first)"

definition ktime_ms_delta :: "timespec \<Rightarrow> timespec \<Rightarrow> int" where
  "ktime_ms_delta later first = ktime_to_ms (ktime_sub later first)"

definition ktime_set :: "int \<Rightarrow> u64 \<Rightarrow> timespec" where
  "ktime_set secs nsecs = \<lparr>tv_sec = secs, tv_nsec = sint nsecs\<rparr>"

definition ktime_add_us :: "timespec \<Rightarrow> u64 \<Rightarrow> timespec" where
  "ktime_add_us t usec =
     (let temp = \<lparr>tv_sec = uint (usec div 1000000), tv_nsec = uint (1000 * (usec mod 1000000))\<rparr>
      in timespec_add t temp)"

definition ktime_compare :: "timespec \<Rightarrow> timespec \<Rightarrow> int" where
  "ktime_compare a b =
     (if tv_sec a = tv_sec b then
        if tv_nsec b < tv_nsec a then 1 else if tv_nsec a < tv_nsec b then - 1 else 0
      else if tv_sec b < tv_sec a then 1
      else if tv_sec a < tv_sec b then - 1
      else 0)"

definition timeval_to_ns :: "timeval \<Rightarrow> u64" where
  "timeval_to_ns tv = of_int (tv_sec_v tv) * 1000000000 + of_int (tv_usec tv) * 1000"

definition ns_to_timeval :: "u64 \<Rightarrow> timeval" where
  "ns_to_timeval nsec = \<lparr>tv_sec_v = uint (nsec div 1000000000), tv_usec = uint (nsec mod 1000000000 div 1000)\<rparr>"

text \<open>The offsets between the clocks, which \<open>ktime_monotonic_offset_init\<close> computes from one
  reading of each.\<close>

definition ktime_monotonic_offset_init :: "timespec \<Rightarrow> timespec \<Rightarrow> timespec \<Rightarrow> timespec \<times> timespec" where
  "ktime_monotonic_offset_init ta tb tc = (ktime_sub tb ta, ktime_sub tc ta)"

definition ktime_mono_to_any :: "timespec \<times> timespec \<Rightarrow> timespec \<Rightarrow> int \<Rightarrow> timespec" where
  "ktime_mono_to_any offs arg off =
     (if off = 0 then ktime_add arg (fst offs)
      else if off = 1 then ktime_add arg (snd offs)
      else arg)"

section \<open>Lemmas\<close>

definition normal :: "timespec \<Rightarrow> bool" where
  "normal ts \<longleftrightarrow> 0 \<le> tv_nsec ts \<and> tv_nsec ts < 1000000000"

lemma normal_eqI: "normal a \<Longrightarrow> normal b \<Longrightarrow> ktime_to_ns a = ktime_to_ns b \<Longrightarrow> a = b"
proof -
  assume a: "normal a" "normal b" "ktime_to_ns a = ktime_to_ns b"
  then have "tv_sec a = tv_sec b" unfolding normal_def ktime_to_ns_def by linarith
  then show ?thesis using a by (intro timespec.equality) (simp_all add: ktime_to_ns_def)
qed

lemma normal_add: "normal a \<Longrightarrow> normal b \<Longrightarrow> normal (ktime_add a b) \<and> ktime_to_ns (ktime_add a b) = ktime_to_ns a + ktime_to_ns b"
  by (auto simp: normal_def ktime_add_def ktime_to_ns_def Let_def)

lemma normal_sub: "normal a \<Longrightarrow> normal b \<Longrightarrow> normal (ktime_sub a b) \<and> ktime_to_ns (ktime_sub a b) = ktime_to_ns a - ktime_to_ns b"
  by (auto simp: normal_def ktime_sub_def ktime_to_ns_def Let_def)

lemma timespec_ktime: "timespec_add = ktime_add" "timespec_sub = ktime_sub" "timespec_to_ns = ktime_to_ns"
  by (auto simp: fun_eq_iff timespec_add_def ktime_add_def timespec_sub_def ktime_sub_def timespec_to_ns_def ktime_to_ns_def
      NSEC_PER_SEC_def Let_def)

lemma c_div_mod_floor:
  fixes n :: int
  assumes "0 < k"
  shows "c_div n k * k + c_mod n k = n" "\<bar>c_mod n k\<bar> < k" "n \<le> 0 \<Longrightarrow> c_mod n k \<le> 0" "0 \<le> n \<Longrightarrow> 0 \<le> c_mod n k"
proof -
  show "c_div n k * k + c_mod n k = n" by (simp add: c_mod_def)
  have m: "c_mod n k = sgn n * (\<bar>n\<bar> mod k)"
  proof -
    have "n + - n div k * k = - (- n mod k)"
      using minus_div_mult_eq_mod [of "- n" k] by linarith
    then show ?thesis
      using assms by (cases n "0 :: int" rule: linorder_cases) (simp_all add: c_mod_def c_div_def minus_div_mult_eq_mod)
  qed
  have "0 \<le> \<bar>n\<bar> mod k" "\<bar>n\<bar> mod k < k" using assms by simp_all
  then show "\<bar>c_mod n k\<bar> < k" "n \<le> 0 \<Longrightarrow> c_mod n k \<le> 0" "0 \<le> n \<Longrightarrow> 0 \<le> c_mod n k"
    using assms by (auto simp: m sgn_if)
qed

lemma ns_to_timespec_normal: "normal (ns_to_timespec n) \<and> ktime_to_ns (ns_to_timespec n) = n"
  using c_div_mod_floor [of 1000000000 n]
  by (auto simp: ns_to_timespec_def normal_def ktime_to_ns_def NSEC_PER_SEC_def Let_def)

lemma ktime_compare_sgn: "normal a \<Longrightarrow> normal b \<Longrightarrow> ktime_compare a b = sgn (ktime_to_ns a - ktime_to_ns b)"
  by (auto simp: ktime_compare_def normal_def ktime_to_ns_def sgn_if)

lemma c_div_nonneg: "0 \<le> a \<Longrightarrow> 0 < b \<Longrightarrow> c_div a b = a div b"
  by (cases "a = 0") (simp_all add: c_div_def)

lemma scaled_div: "0 \<le> (n :: int) \<Longrightarrow> 0 < k \<Longrightarrow> (s * (m * k) + n) div k = s * m + n div k"
  by (simp add: mult.assoc [symmetric])

lemma ktime_to_us_floor: "normal t \<Longrightarrow> ktime_to_us t = ktime_to_ns t div 1000"
  using scaled_div [of "tv_nsec t" 1000 "tv_sec t" 1000000]
  by (simp add: ktime_to_us_def ktime_to_timeval_def Let_def normal_def c_div_nonneg ktime_to_ns_def)

lemma ktime_to_ms_floor: "normal t \<Longrightarrow> ktime_to_ms t = ktime_to_ns t div 1000000"
  using scaled_div [of "tv_nsec t" 1000000 "tv_sec t" 1000]
  by (simp add: ktime_to_ms_def normal_def c_div_nonneg ktime_to_ns_def)

lemma timeval_ns: "timeval_to_ns (ns_to_timeval n) = n - n mod 1000"
proof -
  define x where "x = uint n"
  have "x div 1000000000 * 1000000000 + x mod 1000000000 div 1000 * 1000 = x - x mod 1000"
  proof -
    have "x mod 1000000000 div 1000 * 1000 = x mod 1000000000 - x mod 1000000000 mod 1000"
      by (simp add: minus_mod_eq_div_mult)
    moreover have "x mod 1000000000 mod 1000 = x mod 1000" by (simp add: mod_mod_cancel)
    moreover have "x div 1000000000 * 1000000000 + x mod 1000000000 = x" by simp
    ultimately show ?thesis by linarith
  qed
  moreover have "uint (n - n mod 1000) = x - x mod 1000"
    by (simp add: uint_sub_if' uint_mod x_def zmod_le_nonneg_dividend word_le_def)
  moreover have "timeval_to_ns (ns_to_timeval n) = of_int (x div 1000000000 * 1000000000 + x mod 1000000000 div 1000 * 1000)"
    by (simp add: timeval_to_ns_def ns_to_timeval_def uint_div uint_mod x_def)
  ultimately show ?thesis by (metis word_of_int_uint)
qed

section \<open>Properties\<close>

text \<open>On normal times \<open>ktime_add\<close> and \<open>ktime_sub\<close> are addition and subtraction of
  nanoseconds and give normal times, \<open>timespec_add\<close> and \<open>timespec_sub\<close> are the same functions,
  \<open>ktime_compare\<close> compares the nanoseconds, and the conversions to micro- and milliseconds
  round down; subtraction undoes addition.\<close>

theorem ktime_arithmetic:
  assumes "normal a" "normal b"
  shows "normal (ktime_add a b) \<and> ktime_to_ns (ktime_add a b) = ktime_to_ns a + ktime_to_ns b \<and>
    normal (ktime_sub a b) \<and> ktime_to_ns (ktime_sub a b) = ktime_to_ns a - ktime_to_ns b \<and>
    timespec_add a b = ktime_add a b \<and> timespec_sub a b = ktime_sub a b \<and>
    ktime_compare a b = sgn (ktime_to_ns a - ktime_to_ns b) \<and>
    ktime_us_delta a b = (ktime_to_ns a - ktime_to_ns b) div 1000 \<and>
    ktime_ms_delta a b = (ktime_to_ns a - ktime_to_ns b) div 1000000 \<and>
    ktime_sub (ktime_add a b) b = a"
proof -
  note add = normal_add [OF assms] and sub = normal_sub [OF assms]
  have "normal (ktime_sub (ktime_add a b) b) \<and> ktime_to_ns (ktime_sub (ktime_add a b) b) = ktime_to_ns a"
    using add normal_sub [of "ktime_add a b" b] assms(2) by simp
  then have "ktime_sub (ktime_add a b) b = a" using assms(1) by (intro normal_eqI) auto
  then show ?thesis
    using add sub ktime_compare_sgn [OF assms] ktime_to_us_floor [of "ktime_sub a b"] ktime_to_ms_floor [of "ktime_sub a b"]
    by (simp add: timespec_ktime ktime_us_delta_def ktime_ms_delta_def)
qed

theorem ktime_arithmetic_witness:
  "ktime_us_delta \<lparr>tv_sec = 2, tv_nsec = 1500\<rparr> \<lparr>tv_sec = 1, tv_nsec = 999999000\<rparr> = 2"
  using ktime_arithmetic [of "\<lparr>tv_sec = 2, tv_nsec = 1500\<rparr>" "\<lparr>tv_sec = 1, tv_nsec = 999999000\<rparr>"]
  by (simp add: normal_def ktime_to_ns_def)

text \<open>\<open>ns_to_timespec\<close> and \<open>timespec_to_ns\<close> are inverse to each other on normal times, also
  for negative numbers of nanoseconds, \<open>ns_to_timeval\<close> loses just the part below a
  microsecond, and the monotonic clock of the moment of initialisation is mapped to the other
  clocks of that moment.\<close>

theorem time_conversions_roundtrip:
  "normal (ns_to_timespec n) \<and> timespec_to_ns (ns_to_timespec n) = n \<and>
   (normal t \<longrightarrow> ns_to_timespec (timespec_to_ns t) = t) \<and>
   timeval_to_ns (ns_to_timeval u) = u - u mod 1000 \<and>
   (normal ta \<and> normal tb \<and> normal tc \<longrightarrow>
      ktime_mono_to_any (ktime_monotonic_offset_init ta tb tc) ta 0 = tb \<and>
      ktime_mono_to_any (ktime_monotonic_offset_init ta tb tc) ta 1 = tc)"
proof -
  have "ktime_add s (ktime_sub r s) = r" if "normal s" "normal r" for s r
    using normal_sub [OF that(2,1)] normal_add [OF that(1)] that(2) by (intro normal_eqI) auto
  then show ?thesis
    using ns_to_timespec_normal timeval_ns [of u] normal_eqI [of "ns_to_timespec (ktime_to_ns t)" t]
    by (simp add: timespec_ktime ktime_mono_to_any_def ktime_monotonic_offset_init_def)
qed

theorem time_conversions_roundtrip_witness:
  "ns_to_timespec (timespec_to_ns \<lparr>tv_sec = - 3, tv_nsec = 5\<rparr>) = \<lparr>tv_sec = - 3, tv_nsec = 5\<rparr>"
  using time_conversions_roundtrip [of 0 "\<lparr>tv_sec = - 3, tv_nsec = 5\<rparr>"] by (simp add: normal_def)

end
