(* ===== verification/Str_Conv.thy ===== *)
theory Str_Conv
  imports Webcamd_Prelude
begin

text \<open>
  Strings and buffers (\<open>kernel/linux_func.c\<close>): the conversions of strings to numbers, the
  copies between user and driver buffers with a position, and the small string functions.
  A C string is the list of its characters before the terminating zero.  \<open>strtoll\<close>,
  \<open>strtoull\<close>, \<open>strlcpy\<close> and \<open>isspace\<close> are functions of the C library and are defined here as the
  standard describes them for the bases 2 to 36.
\<close>

section \<open>Numbers in the C library\<close>

definition isspace :: "char \<Rightarrow> bool" where
  "isspace c = (c \<in> {CHR '' '', CHR 0x09, CHR 0x0A, CHR 0x0B, CHR 0x0C, CHR 0x0D})"

definition digit_val :: "char \<Rightarrow> nat option" where
  "digit_val c =
     (let n = of_char c :: nat
      in if 48 \<le> n \<and> n \<le> 57 then Some (n - 48)
         else if 97 \<le> n \<and> n \<le> 122 then Some (n - 97 + 10)
         else if 65 \<le> n \<and> n \<le> 90 then Some (n - 65 + 10)
         else None)"

definition is_digit :: "nat \<Rightarrow> char \<Rightarrow> bool" where
  "is_digit base c = (case digit_val c of Some d \<Rightarrow> d < base | None \<Rightarrow> False)"

definition digits_value :: "nat \<Rightarrow> string \<Rightarrow> nat" where
  "digits_value base ds = foldl (\<lambda>acc c. acc * base + the (digit_val c)) 0 ds"

text \<open>The subject sequence: sign, magnitude and the rest of the string; \<open>None\<close> when no number
  could be read.  In base 16 a prefix \<open>0x\<close> is skipped when a digit follows.\<close>

definition strto_subject :: "nat \<Rightarrow> string \<Rightarrow> (bool \<times> nat \<times> string) option" where
  "strto_subject base s =
     (let s = dropWhile isspace s;
          neg = (s \<noteq> [] \<and> hd s = CHR ''-'');
          s = (if s \<noteq> [] \<and> (hd s = CHR ''-'' \<or> hd s = CHR ''+'') then tl s else s);
          s = (if base = 16 \<and> 2 < length s \<and> s ! 0 = CHR ''0'' \<and> (s ! 1 = CHR ''x'' \<or> s ! 1 = CHR ''X'') \<and>
                  is_digit base (s ! 2) then drop 2 s else s);
          ds = takeWhile (is_digit base) s
      in if ds = [] then None else Some (neg, digits_value base ds, drop (length ds) s))"

text \<open>The results are the number and the part of the string that was not read.\<close>

definition strtoll :: "nat \<Rightarrow> string \<Rightarrow> int \<times> string" where
  "strtoll base s =
     (case strto_subject base s of
        None \<Rightarrow> (0, s)
      | Some (neg, n, rest) \<Rightarrow> (if neg then max (- (2 ^ 63)) (- int n) else min (2 ^ 63 - 1) (int n), rest))"

definition strtoull :: "nat \<Rightarrow> string \<Rightarrow> u64 \<times> string" where
  "strtoull base s =
     (case strto_subject base s of
        None \<Rightarrow> (0, s)
      | Some (neg, n, rest) \<Rightarrow>
          (if 2 ^ 64 \<le> n then - 1 else if neg then - of_nat n else of_nat n, rest))"

section \<open>Conversions\<close>

text \<open>The result is \<open>0\<close> with the number in \<open>*res\<close>, or an error with 0 in \<open>*res\<close>.\<close>

definition kstrtos16 :: "string \<Rightarrow> nat \<Rightarrow> errno + int" where
  "kstrtos16 nptr base =
     (if base < 2 \<or> 35 < base then Inl EINVAL
      else let (temp, pp) = strtoll base nptr
      in if pp \<noteq> [] then Inl EINVAL
         else if temp \<noteq> sint (of_int temp :: 16 word) then Inl ERANGE
         else Inr temp)"

definition kstrtos8 :: "string \<Rightarrow> nat \<Rightarrow> errno + int" where
  "kstrtos8 nptr base =
     (if base < 2 \<or> 35 < base then Inl EINVAL
      else let (temp, pp) = strtoll base nptr
      in if pp \<noteq> [] then Inl EINVAL
         else if temp \<noteq> sint (of_int temp :: 8 word) then Inl ERANGE
         else Inr temp)"

definition kstrtoint :: "string \<Rightarrow> nat \<Rightarrow> errno + int" where
  "kstrtoint nptr base =
     (if base < 2 \<or> 35 < base then Inl EINVAL
      else let (temp, pp) = strtoll base nptr
      in if pp \<noteq> [] then Inl EINVAL
         else if temp \<noteq> sint (of_int temp :: 32 word) then Inl ERANGE
         else Inr temp)"

definition kstrtou16 :: "string \<Rightarrow> nat \<Rightarrow> errno + u16" where
  "kstrtou16 nptr base =
     (if base < 2 \<or> 35 < base then Inl EINVAL
      else let (temp, pp) = strtoull base nptr
      in if pp \<noteq> [] then Inl EINVAL
         else if temp \<noteq> ucast (ucast temp :: u16) then Inl ERANGE
         else Inr (ucast temp))"

definition kstrtou8 :: "string \<Rightarrow> nat \<Rightarrow> errno + u8" where
  "kstrtou8 nptr base =
     (if base < 2 \<or> 35 < base then Inl EINVAL
      else let (temp, pp) = strtoull base nptr
      in if pp \<noteq> [] then Inl EINVAL
         else if temp \<noteq> ucast (ucast temp :: u8) then Inl ERANGE
         else Inr (ucast temp))"

definition kstrtouint :: "string \<Rightarrow> nat \<Rightarrow> errno + u32" where
  "kstrtouint nptr base =
     (if base < 2 \<or> 35 < base then Inl EINVAL
      else let (temp, pp) = strtoull base nptr
      in if pp \<noteq> [] then Inl EINVAL
         else if temp \<noteq> ucast (ucast temp :: u32) then Inl ERANGE
         else Inr (ucast temp))"

definition kstrtoul :: "string \<Rightarrow> nat \<Rightarrow> errno + u64" where
  "kstrtoul nptr base =
     (if base < 2 \<or> 35 < base then Inl EINVAL
      else let (temp, pp) = strtoull base nptr
      in if pp \<noteq> [] then Inl EINVAL else Inr temp)"

text \<open>The character behind the end of the string is the terminating zero.\<close>

definition kstrtobool :: "string option \<Rightarrow> errno + bool" where
  "kstrtobool nptr =
     (case nptr of
        None \<Rightarrow> Inl EINVAL
      | Some s \<Rightarrow>
        (let c0 = (if 0 < length s then s ! 0 else CHR 0x00);
             c1 = (if 1 < length s then s ! 1 else CHR 0x00)
         in if c0 \<in> {CHR ''y'', CHR ''Y'', CHR ''1''} then Inr True
            else if c0 \<in> {CHR ''n'', CHR ''N'', CHR ''0''} then Inr False
            else if c0 \<in> {CHR ''o'', CHR ''O''} then
              if c1 \<in> {CHR ''n'', CHR ''N''} then Inr True
              else if c1 \<in> {CHR ''f'', CHR ''F''} then Inr False
              else Inl EINVAL
            else Inl EINVAL))"

definition skip_spaces :: "string \<Rightarrow> string" where
  "skip_spaces str = dropWhile isspace str"

section \<open>Buffers with a position\<close>

text \<open>
  \<open>copy_to_user\<close> and \<open>copy_from_user\<close> return the number of bytes that they could not copy, and
  copy the bytes before these; \<open>fault\<close> is that number for the copy at hand.  A result
  \<open>Inr (data, pos)\<close> stands for the byte count \<open>length data\<close> and the new position.
\<close>

definition simple_read_from_buffer :: "(nat \<Rightarrow> nat) \<Rightarrow> nat \<Rightarrow> int \<Rightarrow> u8 list \<Rightarrow> errno + u8 list \<times> int" where
  "simple_read_from_buffer fault count pos from =
     (if pos < 0 then Inl EINVAL
      else if int (length from) \<le> pos \<or> count = 0 then Inr ([], pos)
      else let count = (if length from - nat pos < count then length from - nat pos else count);
               ret = fault count
           in if ret = count then Inl EFAULT
              else let count = count - ret in Inr (take count (drop (nat pos) from), pos + int count))"

text \<open>The copy into \<open>to\<close> at the position; the result is the number of bytes, the position and
  the buffer.\<close>

definition simple_write_to_buffer ::
    "(nat \<Rightarrow> nat) \<Rightarrow> u8 list \<Rightarrow> int \<Rightarrow> u8 list \<Rightarrow> nat \<Rightarrow> (errno + nat \<times> int) \<times> u8 list" where
  "simple_write_to_buffer fault to pos from count =
     (if pos < 0 then (Inl EINVAL, to)
      else if int (length to) \<le> pos \<or> count = 0 then (Inr (0, pos), to)
      else let count = (if length to - nat pos < count then length to - nat pos else count);
               ret = fault count;
               to = take (nat pos) to @ take (count - ret) from @ drop (nat pos + (count - ret)) to
           in if ret = count then (Inl EFAULT, to)
              else let count = count - ret in (Inr (count, pos + int count), to))"

definition memory_read_from_buffer :: "nat \<Rightarrow> int \<Rightarrow> u8 list \<Rightarrow> errno + u8 list \<times> int" where
  "memory_read_from_buffer count pos from =
     (if pos < 0 then Inl EINVAL
      else if int (length from) \<le> pos then Inr ([], pos)
      else let count = (if length from - nat pos < count then length from - nat pos else count)
           in Inr (take count (drop (nat pos) from), pos + int count))"

text \<open>The index of the byte where the scan stops.\<close>

fun memscan :: "u8 list \<Rightarrow> int \<Rightarrow> nat \<Rightarrow> nat" where
  "memscan data c 0 = 0"
| "memscan [] c (Suc sz) = 0"
| "memscan (b # data) c (Suc sz) = (if uint b \<noteq> c then Suc (memscan data c sz) else 0)"

text \<open>The string that \<open>strlcpy\<close> leaves in a destination of \<open>size\<close> bytes, and the length of the
  source.\<close>

definition strlcpy :: "string \<Rightarrow> nat \<Rightarrow> string \<times> nat" where
  "strlcpy src sz = (take (sz - 1) src, length src)"

definition strscpy :: "string \<Rightarrow> nat \<Rightarrow> (errno + nat) \<times> string" where
  "strscpy src sz =
     (let (dst, retval) = strlcpy src sz
      in (if sz \<le> retval then Inl E2BIG else Inr retval, dst))"

text \<open>\<open>vsnprintf\<close> returns the length of the whole text.\<close>

definition scnprintf :: "string \<Rightarrow> nat \<Rightarrow> int \<times> string" where
  "scnprintf txt sz = (if sz \<le> length txt then int sz - 1 else int (length txt), take (sz - 1) txt)"

section \<open>Printing numbers\<close>

text \<open>The usual notation of numbers in a base, which the conversions read back.\<close>

definition digit_char :: "nat \<Rightarrow> char" where
  "digit_char d = (if d < 10 then char_of (48 + d) else char_of (87 + d))"

function print_nat :: "nat \<Rightarrow> nat \<Rightarrow> string" where
  "print_nat base n =
     (if n < base \<or> base < 2 then [digit_char n] else print_nat base (n div base) @ [digit_char (n mod base)])"
  by pat_completeness auto
termination
  by (relation "measure snd") (auto intro: div_less_dividend)

declare print_nat.simps [simp del]

definition print_int :: "nat \<Rightarrow> int \<Rightarrow> string" where
  "print_int base v = (if v < 0 then CHR ''-'' # print_nat base (nat (- v)) else print_nat base (nat v))"

lemma of_char_digit: "d < 36 \<Longrightarrow> (of_char (digit_char d) :: nat) = (if d < 10 then 48 + d else 87 + d)"
  by (simp add: digit_char_def)

lemma digit_val_digit [simp]: "d < 36 \<Longrightarrow> digit_val (digit_char d) = Some d"
  by (auto simp: digit_val_def of_char_digit Let_def)

lemma is_digit_digit [simp]: "d < base \<Longrightarrow> base \<le> 36 \<Longrightarrow> is_digit base (digit_char d)"
  by (simp add: is_digit_def)

lemma digits_value_snoc: "digits_value base (ds @ [c]) = digits_value base ds * base + the (digit_val c)"
  by (simp add: digits_value_def)

lemma print_nat_digits:
  assumes "2 \<le> base" "base \<le> 36"
  shows "(\<forall>c \<in> set (print_nat base n). is_digit base c) \<and> digits_value base (print_nat base n) = n \<and> print_nat base n \<noteq> []"
  using assms
proof (induction base n rule: print_nat.induct)
  case (1 base n)
  show ?case
  proof (cases "n < base")
    case True
    then show ?thesis using "1.prems" by (subst (1 2 3) print_nat.simps) (simp add: digits_value_def)
  next
    case False
    then have IH: "(\<forall>c \<in> set (print_nat base (n div base)). is_digit base c) \<and> digits_value base (print_nat base (n div base)) = n div base"
      using "1" by simp
    have "n mod base < base" using "1.prems" by simp
    moreover from this have "n mod base < 36" using "1.prems"(2) by linarith
    ultimately have d: "digit_val (digit_char (n mod base)) = Some (n mod base)" "is_digit base (digit_char (n mod base))"
      using "1.prems" by simp_all
    then show ?thesis using IH False "1.prems" by (subst (1 2 3) print_nat.simps) (auto simp: digits_value_snoc)
  qed
qed

lemma digit_not_space: "is_digit base c \<Longrightarrow> \<not> isspace c \<and> c \<noteq> CHR ''-'' \<and> c \<noteq> CHR ''+''"
  by (auto simp: is_digit_def isspace_def digit_val_def)

lemma not_hex_digit: "\<not> is_digit 16 CHR ''x''" "\<not> is_digit 16 CHR ''X''"
  by (simp_all add: is_digit_def digit_val_def)

text \<open>A string of digits, with or without a sign, is read to its end.\<close>

lemma strto_subject_digits:
  assumes "\<forall>c \<in> set ds. is_digit base c" "ds \<noteq> []"
  shows "strto_subject base ds = Some (False, digits_value base ds, [])"
    and "strto_subject base (CHR ''-'' # ds) = Some (True, digits_value base ds, [])"
proof -
  have hd: "\<not> isspace (hd ds)" "hd ds \<noteq> CHR ''-''" "hd ds \<noteq> CHR ''+''"
    using assms digit_not_space [of base "hd ds"] by auto
  have pre: "\<not> (base = 16 \<and> 2 < length ds \<and> ds ! 0 = CHR ''0'' \<and> (ds ! 1 = CHR ''x'' \<or> ds ! 1 = CHR ''X'') \<and> is_digit base (ds ! 2))"
  proof
    assume a: "base = 16 \<and> 2 < length ds \<and> ds ! 0 = CHR ''0'' \<and> (ds ! 1 = CHR ''x'' \<or> ds ! 1 = CHR ''X'') \<and> is_digit base (ds ! 2)"
    then have "is_digit 16 (ds ! 1)" using assms(1) by (auto simp: nth_mem)
    then show False using a not_hex_digit by auto
  qed
  have tk: "takeWhile (is_digit base) ds = ds" using assms(1) by (simp add: takeWhile_eq_all_conv)
  have dr: "dropWhile isspace ds = ds" using hd(1) assms(2) by (cases ds) simp_all
  have dm: "dropWhile isspace (CHR ''-'' # ds) = CHR ''-'' # ds" by (simp add: isspace_def)
  have s1: "(if ds \<noteq> [] \<and> (hd ds = CHR ''-'' \<or> hd ds = CHR ''+'') then tl ds else ds) = ds" using hd by simp
  have s2: "(if CHR ''-'' # ds \<noteq> [] \<and> (hd (CHR ''-'' # ds) = CHR ''-'' \<or> hd (CHR ''-'' # ds) = CHR ''+'')
      then tl (CHR ''-'' # ds) else CHR ''-'' # ds) = ds" by simp
  show "strto_subject base ds = Some (False, digits_value base ds, [])"
    unfolding strto_subject_def Let_def dr s1 if_not_P [OF pre] tk using hd(2) assms(2) by simp
  show "strto_subject base (CHR ''-'' # ds) = Some (True, digits_value base ds, [])"
    unfolding strto_subject_def Let_def dm s2 if_not_P [OF pre] tk using assms(2) by simp
qed

lemma strto_subject_print_nat:
  "2 \<le> base \<Longrightarrow> base \<le> 36 \<Longrightarrow> strto_subject base (print_nat base n) = Some (False, n, [])"
  using strto_subject_digits(1) [of "print_nat base n" base] print_nat_digits [of base n] by simp

lemma strto_subject_print_int:
  "2 \<le> base \<Longrightarrow> base \<le> 36 \<Longrightarrow> strto_subject base (print_int base v) = Some (v < 0, nat \<bar>v\<bar>, [])"
  using strto_subject_digits(2) [of "print_nat base (nat (- v))" base] print_nat_digits [of base "nat (- v)"]
  by (simp add: print_int_def strto_subject_print_nat)

lemma strtoll_print:
  "2 \<le> base \<Longrightarrow> base \<le> 36 \<Longrightarrow> strtoll base (print_int base v) = (max (- (2 ^ 63)) (min (2 ^ 63 - 1) v), [])"
  by (simp add: strtoll_def strto_subject_print_int)

lemma strtoull_print:
  "2 \<le> base \<Longrightarrow> base \<le> 36 \<Longrightarrow> strtoull base (print_nat base n) = (if n < 2 ^ 64 then of_nat n else - 1, [])"
  by (simp add: strtoull_def strto_subject_print_nat)

lemma sint_of_int_iff:
  "k = sint (of_int k :: 'a::len word) \<longleftrightarrow> - (2 ^ (LENGTH('a) - 1)) \<le> k \<and> k < 2 ^ (LENGTH('a) - 1)"
  using signed_take_bit_int_eq_self_iff [of "LENGTH('a) - 1" k] by (auto simp: signed_of_int)

lemma ucast_ucast_iff: "(t :: u64) = ucast (ucast t :: 'a::len word) \<longleftrightarrow> unat t < 2 ^ LENGTH('a)" if "LENGTH('a) \<le> 64"
proof -
  have "unat (ucast (ucast t :: 'a word) :: u64) = unat t mod 2 ^ LENGTH('a) mod 2 ^ 64"
    by (simp only: unat_ucast_mod) simp
  moreover have "(2 :: nat) ^ LENGTH('a) \<le> 2 ^ 64" using that by (intro power_increasing) simp_all
  then have "unat t mod 2 ^ LENGTH('a) < 2 ^ 64" by (rule less_le_trans [rotated]) simp
  ultimately show ?thesis
    by (metis mod_less mod_less_divisor word_unat_eq_iff zero_less_numeral zero_less_power)
qed


lemma clamp_range:
  fixes v :: int
  assumes "k < 63"
  shows "- (2 ^ k) \<le> max (- (2 ^ 63)) (min (2 ^ 63 - 1) v) \<and> max (- (2 ^ 63)) (min (2 ^ 63 - 1) v) < 2 ^ k \<longleftrightarrow>
    - (2 ^ k) \<le> v \<and> v < 2 ^ k"
    and "- (2 ^ k) \<le> v \<Longrightarrow> v < 2 ^ k \<Longrightarrow> max (- (2 ^ 63)) (min (2 ^ 63 - 1) v) = v"
proof -
  have "(2 :: int) ^ k \<le> 2 ^ 62" using assms by (intro power_increasing) simp_all
  then have k: "(2 :: int) ^ k < 2 ^ 63 - 1" by simp
  show "- (2 ^ k) \<le> max (- (2 ^ 63)) (min (2 ^ 63 - 1) v) \<and> max (- (2 ^ 63)) (min (2 ^ 63 - 1) v) < 2 ^ k \<longleftrightarrow>
      - (2 ^ k) \<le> v \<and> v < 2 ^ k"
    and "- (2 ^ k) \<le> v \<Longrightarrow> v < 2 ^ k \<Longrightarrow> max (- (2 ^ 63)) (min (2 ^ 63 - 1) v) = v"
    using k by (auto simp: max_def min_def)
qed

lemma signed_check:
  assumes "LENGTH('a::len) - 1 = k" "k < 63"
  shows "(let temp = max (- (2 ^ 63)) (min (2 ^ 63 - 1) v) in
      if temp \<noteq> sint (of_int temp :: 'a word) then Inl ERANGE else Inr temp) =
    (if - (2 ^ k) \<le> v \<and> v < 2 ^ k then Inr v else Inl ERANGE)"
proof -
  let ?t = "max (- (2 ^ 63)) (min (2 ^ 63 - 1) v)"
  have "?t = sint (of_int ?t :: 'a word) \<longleftrightarrow> - (2 ^ k) \<le> v \<and> v < 2 ^ k"
    unfolding sint_of_int_iff assms(1) using clamp_range(1) [OF assms(2), of v] .
  then show ?thesis
    unfolding Let_def using clamp_range(2) [OF assms(2), of v] by (cases "- (2 ^ k) \<le> v \<and> v < 2 ^ k") simp_all
qed

lemma unsigned_check:
  assumes "LENGTH('a::len) = k" "k < 64"
  shows "(let temp = (if n < 2 ^ 64 then of_nat n else - 1) :: u64 in
      if temp \<noteq> ucast (ucast temp :: 'a word) then Inl ERANGE else Inr (ucast temp :: 'a word)) =
    (if n < 2 ^ k then Inr (of_nat n) else Inl ERANGE)"
proof -
  let ?t = "(if n < 2 ^ 64 then of_nat n else - 1) :: u64"
  have k: "(2 :: nat) ^ k < 2 ^ 64" using assms(2) by (intro power_strict_increasing) simp_all
  have "unat ?t = (if n < 2 ^ 64 then n else 2 ^ 64 - 1)"
    by (simp add: unsigned_of_nat take_bit_nat_eq_self unsigned_minus_1_eq_mask mask_eq_exp_minus_1)
  then have "unat ?t < 2 ^ k \<longleftrightarrow> n < 2 ^ k" using k by auto
  moreover have "ucast (of_nat n :: u64) = (of_nat n :: 'a word)" if "n < 2 ^ k"
    using that k by (simp add: unsigned_of_nat take_bit_nat_eq_self)
  ultimately show ?thesis
    unfolding Let_def using ucast_ucast_iff [of ?t, where 'a = 'a] assms k by auto
qed

section \<open>Lemmas on buffers\<close>

lemma memscan_result: "memscan data c sz \<le> sz \<and> (sz \<le> length data \<longrightarrow> (\<forall>i < memscan data c sz. uint (data ! i) \<noteq> c) \<and>
    (memscan data c sz < sz \<longrightarrow> uint (data ! memscan data c sz) = c))"
  by (induction data c sz rule: memscan.induct) (auto simp: less_Suc_eq_0_disj)

section \<open>Properties\<close>



text \<open>\<open>simple_write_to_buffer\<close> never writes outside the buffer: its size is kept, the bytes
  before the position and after the bytes reported are kept, and reading that many bytes at
  the same position returns what was written.  Reads return the bytes at the position, at
  most as many as asked for and as there are, and advance the position by their number.\<close>

theorem buffer_write_read:
  assumes "\<And>c. fault c \<le> c" "count \<le> length from"
    and "simple_write_to_buffer fault to pos from count = (Inr (n, pos'), to')"
  shows "length to' = length to \<and> n \<le> count \<and> pos' = pos + int n \<and>
    (\<forall>i < length to. int i < pos \<or> pos + int n \<le> int i \<longrightarrow> to' ! i = to ! i) \<and>
    simple_read_from_buffer (\<lambda>_. 0) n pos to' = Inr (take n from, pos') \<and>
    memory_read_from_buffer n pos to' = Inr (take n from, pos')"
proof (cases "int (length to) \<le> pos \<or> count = 0")
  case True
  then show ?thesis
    using assms(3) by (auto simp: simple_write_to_buffer_def simple_read_from_buffer_def memory_read_from_buffer_def split: if_splits)
next
  case False
  define c where "c = (if length to - nat pos < count then length to - nat pos else count)"
  have pos: "0 \<le> pos" using assms(3) by (auto simp: simple_write_to_buffer_def split: if_splits)
  have c: "c \<le> length to - nat pos" "c \<le> count" "0 < c" using False pos by (auto simp: c_def)
  have w: "simple_write_to_buffer fault to pos from count =
      (let to' = take (nat pos) to @ take (c - fault c) from @ drop (nat pos + (c - fault c)) to
       in if fault c = c then (Inl EFAULT, to') else (Inr (c - fault c, pos + int (c - fault c)), to'))"
    using False pos unfolding simple_write_to_buffer_def c_def Let_def by auto
  then have n: "n = c - fault c" "pos' = pos + int n" "0 < n" and
    to': "to' = take (nat pos) to @ take n from @ drop (nat pos + n) to"
    using assms(3) assms(1) [of c] by (auto simp: Let_def split: if_splits)
  have nn: "n \<le> length from" "nat pos + n \<le> length to" "n \<le> count"
  proof -
    have "n \<le> c" using n(1) by simp
    then show "n \<le> length from" "nat pos + n \<le> length to" "n \<le> count" using c assms(2) by linarith+
  qed
  have "nat pos \<le> length to" using nn by linarith
  then have len: "length to' = length to" using nn by (simp add: to' min_absorb2)
  have "to' ! i = to ! i" if "i < length to" "int i < pos \<or> pos + int n \<le> int i" for i
  proof (cases "int i < pos")
    case True
    then have "i < nat pos" by linarith
    then show ?thesis using that(1) by (simp add: to' nth_append)
  next
    case False
    then have "nat pos + n \<le> i" using that(2) pos by linarith
    then have "\<not> i < nat pos" "\<not> i - nat pos < n" by linarith+
    then show ?thesis using that(1) nn \<open>nat pos \<le> length to\<close> by (simp add: to' nth_append min_absorb2)
  qed
  moreover have "take n (drop (nat pos) to') = take n from" using nn by (simp add: to')
  moreover have "\<not> (length to' - nat pos < n)" "\<not> int (length to') \<le> pos"
    using nn n(3) pos by (simp_all add: len)
  ultimately show ?thesis
    using len nn n pos by (auto simp: simple_read_from_buffer_def memory_read_from_buffer_def)
qed

theorem buffer_write_read_witness:
  "simple_read_from_buffer (\<lambda>_. 0) 2 1 [9, 5, 6, 9] = Inr ([5, 6], 3)"
  using buffer_write_read [of "\<lambda>_. 0" 2 "[5, 6]" "[9, 9, 9, 9]" 1 2 3 "[9, 5, 6, 9]"]
  by (simp add: simple_write_to_buffer_def)

text \<open>\<open>strscpy\<close> copies the whole string when it fits with its terminating zero, and otherwise
  reports \<open>E2BIG\<close> and leaves a prefix that fits.\<close>

lemma strscpy_fits:
  "strscpy src sz = (if length src < sz then (Inr (length src), src) else (Inl E2BIG, take (sz - 1) src))"
  by (auto simp: strscpy_def strlcpy_def)

end
