(* ===== verification/Usb_Match.thy ===== *)
theory Usb_Match
  imports Byte_Order
begin

text \<open>
  USB devices and their descriptors (\<open>kernel/linux_usb.c\<close>): the tables of device identifiers
  with which drivers say what they support, the search for endpoints and descriptors, and
  the reading of endpoint descriptors.  An array that ends with an entry of flags zero is
  the list of its entries, the final one included.
\<close>

section \<open>Device identifiers\<close>

record usb_device_id =
  match_flags :: u16
  idVendor :: u16
  idProduct :: u16
  bcdDevice_lo :: u16
  bcdDevice_hi :: u16
  bDeviceClass :: u8
  bDeviceSubClass :: u8
  bDeviceProtocol :: u8
  bInterfaceClass :: u8
  bInterfaceSubClass :: u8
  bInterfaceProtocol :: u8
  driver_info :: u64

record device_desc =
  d_idVendor :: u16
  d_idProduct :: u16
  d_bcdDevice :: u16
  d_class :: u8
  d_subclass :: u8
  d_protocol :: u8

record interface_desc =
  i_class :: u8
  i_subclass :: u8
  i_protocol :: u8

text \<open>The bits of \<open>match_flags\<close>.\<close>

definition has_flag :: "usb_device_id \<Rightarrow> u16 \<Rightarrow> bool" where
  "has_flag i f = (match_flags i AND f \<noteq> 0)"

definition MATCH_INT_INFO :: u16 where
  "MATCH_INT_INFO = 0x0080 OR 0x0100 OR 0x0200"

text \<open>The search of \<open>usb_linux_lookup_id\<close> in a table; the result is the matching entry.\<close>

fun usb_linux_lookup_id :: "device_desc \<Rightarrow> interface_desc \<Rightarrow> usb_device_id list \<Rightarrow> usb_device_id option" where
  "usb_linux_lookup_id pdd pid [] = None"
| "usb_linux_lookup_id pdd pid (i # ids) =
     (if match_flags i = 0 then None
      else if has_flag i 0x0001 \<and> idVendor i \<noteq> d_idVendor pdd then usb_linux_lookup_id pdd pid ids
      else if has_flag i 0x0002 \<and> idProduct i \<noteq> d_idProduct pdd then usb_linux_lookup_id pdd pid ids
      else if has_flag i 0x0004 \<and> bcdDevice_lo i > d_bcdDevice pdd then usb_linux_lookup_id pdd pid ids
      else if has_flag i 0x0008 \<and> bcdDevice_hi i < d_bcdDevice pdd then usb_linux_lookup_id pdd pid ids
      else if has_flag i 0x0010 \<and> bDeviceClass i \<noteq> d_class pdd then usb_linux_lookup_id pdd pid ids
      else if has_flag i 0x0020 \<and> bDeviceSubClass i \<noteq> d_subclass pdd then usb_linux_lookup_id pdd pid ids
      else if has_flag i 0x0040 \<and> bDeviceProtocol i \<noteq> d_protocol pdd then usb_linux_lookup_id pdd pid ids
      else if d_class pdd = 0xFF \<and> \<not> has_flag i 0x0001 \<and> has_flag i MATCH_INT_INFO then usb_linux_lookup_id pdd pid ids
      else if has_flag i 0x0080 \<and> bInterfaceClass i \<noteq> i_class pid then usb_linux_lookup_id pdd pid ids
      else if has_flag i 0x0100 \<and> bInterfaceSubClass i \<noteq> i_subclass pid then usb_linux_lookup_id pdd pid ids
      else if has_flag i 0x0200 \<and> bInterfaceProtocol i \<noteq> i_protocol pid then usb_linux_lookup_id pdd pid ids
      else Some i)"

text \<open>The functions for drivers, which read the little endian device descriptor; \<open>big\<close> is the
  byte order of the host.\<close>

definition usb_match_device :: "bool \<Rightarrow> device_desc \<Rightarrow> usb_device_id \<Rightarrow> bool" where
  "usb_match_device big dev i =
     (if has_flag i 0x0001 \<and> idVendor i \<noteq> le16toh big (d_idVendor dev) then False
      else if has_flag i 0x0002 \<and> idProduct i \<noteq> le16toh big (d_idProduct dev) then False
      else if has_flag i 0x0004 \<and> bcdDevice_lo i > le16toh big (d_bcdDevice dev) then False
      else if has_flag i 0x0008 \<and> bcdDevice_hi i < le16toh big (d_bcdDevice dev) then False
      else if has_flag i 0x0010 \<and> bDeviceClass i \<noteq> d_class dev then False
      else if has_flag i 0x0020 \<and> bDeviceSubClass i \<noteq> d_subclass dev then False
      else if has_flag i 0x0040 \<and> bDeviceProtocol i \<noteq> d_protocol dev then False
      else True)"

definition usb_match_one_id :: "bool \<Rightarrow> device_desc \<Rightarrow> interface_desc \<Rightarrow> usb_device_id option \<Rightarrow> bool" where
  "usb_match_one_id big dev intf id_opt =
     (case id_opt of
        None \<Rightarrow> False
      | Some i \<Rightarrow>
        if \<not> usb_match_device big dev i then False
        else if d_class dev = 0xFF \<and> \<not> has_flag i 0x0001 \<and> has_flag i MATCH_INT_INFO then False
        else if has_flag i 0x0080 \<and> bInterfaceClass i \<noteq> i_class intf then False
        else if has_flag i 0x0100 \<and> bInterfaceSubClass i \<noteq> i_subclass intf then False
        else if has_flag i 0x0200 \<and> bInterfaceProtocol i \<noteq> i_protocol intf then False
        else True)"

fun usb_match_id :: "bool \<Rightarrow> device_desc \<Rightarrow> interface_desc \<Rightarrow> usb_device_id list \<Rightarrow> usb_device_id option" where
  "usb_match_id big dev intf [] = None"
| "usb_match_id big dev intf (i # ids) =
     (if match_flags i \<noteq> 0 then
        if usb_match_one_id big dev intf (Some i) then Some i else usb_match_id big dev intf ids
      else if driver_info i \<noteq> 0 then Some i
      else None)"

section \<open>Endpoints\<close>

record endpoint_desc =
  bEndpointAddress :: u8
  bmAttributes :: u8
  wMaxPacketSize :: u16

text \<open>An interface is the list of the endpoints of its current alternate setting, or none when
  it has no current setting.\<close>

record 'ep usb_device =
  bsd_iface :: "'ep list option list"
  ep0 :: 'ep

definition usb_endpoint_dir_in :: "endpoint_desc \<Rightarrow> bool" where
  "usb_endpoint_dir_in epd = (bEndpointAddress epd AND 0x80 = 0x80)"

definition usb_endpoint_dir_out :: "endpoint_desc \<Rightarrow> bool" where
  "usb_endpoint_dir_out epd = (bEndpointAddress epd AND 0x80 = 0)"

definition usb_endpoint_xfer_control :: "endpoint_desc \<Rightarrow> bool" where
  "usb_endpoint_xfer_control epd = (bmAttributes epd AND 3 = 0)"

definition usb_endpoint_xfer_isoc :: "endpoint_desc \<Rightarrow> bool" where
  "usb_endpoint_xfer_isoc epd = (bmAttributes epd AND 3 = 1)"

definition usb_endpoint_xfer_bulk :: "endpoint_desc \<Rightarrow> bool" where
  "usb_endpoint_xfer_bulk epd = (bmAttributes epd AND 3 = 2)"

definition usb_endpoint_xfer_int :: "endpoint_desc \<Rightarrow> bool" where
  "usb_endpoint_xfer_int epd = (bmAttributes epd AND 3 = 3)"

definition usb_endpoint_maxp :: "bool \<Rightarrow> endpoint_desc \<Rightarrow> u16" where
  "usb_endpoint_maxp big epd = le16toh big (wMaxPacketSize epd) AND 0x7ff"

definition usb_endpoint_maxp_mult :: "bool \<Rightarrow> endpoint_desc \<Rightarrow> u16" where
  "usb_endpoint_maxp_mult big epd = (drop_bit 11 (le16toh big (wMaxPacketSize epd)) AND 3) + 1"

definition usb_pipetype :: "u32 \<Rightarrow> u8" where
  "usb_pipetype pipe = ucast (drop_bit 30 pipe AND 3)"

definition usb_create_host_endpoint :: "u32 \<Rightarrow> u8 \<Rightarrow> u8 \<Rightarrow> u32" where
  "usb_create_host_endpoint devnum type ep =
     push_bit 30 (ucast type) OR push_bit 15 (ucast ep AND 0xFF) OR push_bit 8 (devnum AND 0x7F) OR (ucast ep AND 0x80)"

text \<open>The search of \<open>usb_find_host_endpoint\<close>; \<open>desc\<close> gives the descriptor of an endpoint.\<close>

definition endpoint_matches :: "('ep \<Rightarrow> endpoint_desc) \<Rightarrow> u8 \<Rightarrow> u8 \<Rightarrow> u8 \<Rightarrow> 'ep \<Rightarrow> bool" where
  "endpoint_matches desc msk ep type uhe =
     (bEndpointAddress (desc uhe) AND msk = ep \<and> bmAttributes (desc uhe) AND 3 = type)"

fun find_in_interfaces :: "('ep \<Rightarrow> bool) \<Rightarrow> 'ep list option list \<Rightarrow> 'ep option" where
  "find_in_interfaces P [] = None"
| "find_in_interfaces P (None # uis) = find_in_interfaces P uis"
| "find_in_interfaces P (Some eps # uis) =
     (case find P eps of Some uhe \<Rightarrow> Some uhe | None \<Rightarrow> find_in_interfaces P uis)"

definition usb_find_host_endpoint :: "('ep \<Rightarrow> endpoint_desc) \<Rightarrow> 'ep usb_device option \<Rightarrow> u32 \<Rightarrow> 'ep option" where
  "usb_find_host_endpoint desc dev pipe =
     (let type = ucast (drop_bit 30 pipe AND 3) :: u8;
          ep = ucast (drop_bit 15 pipe AND 255) :: u8
      in case dev of
           None \<Rightarrow> None
         | Some d \<Rightarrow>
           let msk = (if type = 0 then 0x0f else 0x80 OR 0x0f);
               ep = ep AND msk
           in case find_in_interfaces (endpoint_matches desc msk ep type) (bsd_iface d) of
                Some uhe \<Rightarrow> Some uhe
              | None \<Rightarrow> if type = 0 \<and> ep AND 0x0f = 0 then Some (ep0 d) else None)"

text \<open>The frames of an isochronous transfer; \<open>slow\<close> tells low and full speed.\<close>

definition usb_max_isoc_frames :: "u32 \<Rightarrow> bool \<Rightarrow> u8 \<Rightarrow> u16" where
  "usb_max_isoc_frames min_frames slow bInterval =
     (let frames = 8 * min_frames;
          frames = (if frames = 0 then 8 * 30 else frames)
      in if slow then ucast (frames div 8)
         else let fps_shift = (if 0 < bInterval then bInterval - 1 else bInterval);
                  fps_shift = (if 3 < fps_shift then 3 else fps_shift)
              in ucast (drop_bit (unat fps_shift) frames))"

definition usb_translate_errors :: "errno option \<Rightarrow> errno option" where
  "usb_translate_errors error_code =
     (case error_code of
        None \<Rightarrow> None
      | Some e \<Rightarrow> if e = ENOMEM \<or> e = ENODEV \<or> e = EOPNOTSUPP then Some e else Some EIO)"

section \<open>Extra descriptors\<close>

text \<open>The search for a descriptor in a buffer: the offset where it starts, failure, or a read
  behind the end of the buffer.  The remaining size is a 32-bit number that wraps around.\<close>

datatype extra_result = Found nat | NotFound | ReadsBeyond

function usb_get_extra_descriptor :: "u8 list \<Rightarrow> nat \<Rightarrow> u32 \<Rightarrow> u8 \<Rightarrow> extra_result" where
  "usb_get_extra_descriptor buffer p sz type =
     (if 2 \<le> sz then
        if p + 1 < length buffer then
          let bLength = buffer ! p
          in if bLength < 2 then NotFound
             else if ucast bLength < sz then NotFound
             else if buffer ! (p + 1) = type then Found p
             else usb_get_extra_descriptor buffer (p + unat bLength) (sz - ucast bLength) type
        else ReadsBeyond
      else NotFound)"
  by pat_completeness auto
termination
  by (relation "measure (\<lambda>(buffer, p, sz, type). length buffer - p)")
    (auto simp: word_less_nat_alt)

section \<open>What an identifier means\<close>

text \<open>Every field whose flag is set agrees with the device or the interface, and an entry that
  names an interface but no vendor does not match a device of a vendor specific class.\<close>

definition id_matches :: "device_desc \<Rightarrow> interface_desc \<Rightarrow> usb_device_id \<Rightarrow> bool" where
  "id_matches dev intf i \<longleftrightarrow>
     (has_flag i 0x0001 \<longrightarrow> idVendor i = d_idVendor dev) \<and>
     (has_flag i 0x0002 \<longrightarrow> idProduct i = d_idProduct dev) \<and>
     (has_flag i 0x0004 \<longrightarrow> bcdDevice_lo i \<le> d_bcdDevice dev) \<and>
     (has_flag i 0x0008 \<longrightarrow> d_bcdDevice dev \<le> bcdDevice_hi i) \<and>
     (has_flag i 0x0010 \<longrightarrow> bDeviceClass i = d_class dev) \<and>
     (has_flag i 0x0020 \<longrightarrow> bDeviceSubClass i = d_subclass dev) \<and>
     (has_flag i 0x0040 \<longrightarrow> bDeviceProtocol i = d_protocol dev) \<and>
     (d_class dev = 0xFF \<and> \<not> has_flag i 0x0001 \<longrightarrow> \<not> has_flag i MATCH_INT_INFO) \<and>
     (has_flag i 0x0080 \<longrightarrow> bInterfaceClass i = i_class intf) \<and>
     (has_flag i 0x0100 \<longrightarrow> bInterfaceSubClass i = i_subclass intf) \<and>
     (has_flag i 0x0200 \<longrightarrow> bInterfaceProtocol i = i_protocol intf)"

definition decoded :: "bool \<Rightarrow> device_desc \<Rightarrow> device_desc" where
  "decoded big dev = dev\<lparr>d_idVendor := le16toh big (d_idVendor dev), d_idProduct := le16toh big (d_idProduct dev),
     d_bcdDevice := le16toh big (d_bcdDevice dev)\<rparr>"

lemma if_chain: "(if a then x else if b then x else y) = (if a \<or> b then x else y)"
    "(if a then False else c) = (\<not> a \<and> c)"
  by simp_all

lemmas guard_simps = de_Morgan_disj de_Morgan_conj imp_conv_disj not_not conj_assoc disj_assoc not_less not_le

lemma lookup_id_cons:
  "usb_linux_lookup_id dev intf (i # ids) =
    (if match_flags i = 0 then None else if \<not> id_matches dev intf i then usb_linux_lookup_id dev intf ids else Some i)"
  unfolding usb_linux_lookup_id.simps if_chain id_matches_def
  by (intro if_cong refl) (simp only: guard_simps)

declare usb_linux_lookup_id.simps(2) [simp del]

lemma lookup_id_find: "usb_linux_lookup_id dev intf ids = find (id_matches dev intf) (takeWhile (\<lambda>i. match_flags i \<noteq> 0) ids)"
  by (induction ids) (simp_all add: lookup_id_cons)

lemma decoded_sel:
  "d_idVendor (decoded big dev) = le16toh big (d_idVendor dev)" "d_idProduct (decoded big dev) = le16toh big (d_idProduct dev)"
  "d_bcdDevice (decoded big dev) = le16toh big (d_bcdDevice dev)" "d_class (decoded big dev) = d_class dev"
  "d_subclass (decoded big dev) = d_subclass dev" "d_protocol (decoded big dev) = d_protocol dev"
  by (simp_all add: decoded_def)

lemma match_one_id_matches: "usb_match_one_id big dev intf (Some i) = id_matches (decoded big dev) intf i"
  unfolding usb_match_one_id_def usb_match_device_def id_matches_def decoded_sel option.case if_chain
  by (simp only: guard_simps simp_thms)

lemma match_id_find:
  "usb_match_id big dev intf ids =
    (case find (id_matches (decoded big dev) intf) (takeWhile (\<lambda>i. match_flags i \<noteq> 0) ids) of
       Some i \<Rightarrow> Some i
     | None \<Rightarrow> (case dropWhile (\<lambda>i. match_flags i \<noteq> 0) ids of
         i # _ \<Rightarrow> if driver_info i \<noteq> 0 then Some i else None
       | [] \<Rightarrow> None))"
proof (induction ids)
  case (Cons i ids)
  then show ?case by (cases "match_flags i = 0") (simp_all add: match_one_id_matches split: option.split)
qed simp

section \<open>Endpoint search\<close>

lemma find_in_interfaces_concat:
  "find_in_interfaces P uis = find P (concat (map (\<lambda>ui. case ui of None \<Rightarrow> [] | Some eps \<Rightarrow> eps) uis))"
proof (induction P uis rule: find_in_interfaces.induct)
  case (3 P eps uis)
  have "find P (xs @ ys) = (case find P xs of Some x \<Rightarrow> Some x | None \<Rightarrow> find P ys)" for xs ys
    by (induction xs) simp_all
  then show ?case using 3 by (auto split: option.splits)
qed simp_all

lemma pipe_type: "type < 4 \<Longrightarrow> (ucast (drop_bit 30 (usb_create_host_endpoint devnum type ep) AND 3) :: u8) = type"
proof -
  assume "type < 4"
  then have t: "\<not> bit type n" if "2 \<le> n" for n
  proof -
    have "unat type < 2 ^ 2" using \<open>type < 4\<close> by (simp add: word_less_nat_alt)
    then have "\<not> bit (unat type) n"
      using that by (metis bit_take_bit_iff leD less_le_trans take_bit_nat_eq_self)
    then show ?thesis by (simp add: bit_unsigned_iff)
  qed
  show ?thesis
  proof (rule bit_word_eqI)
    fix n assume "n < LENGTH(8)"
    then consider "n = 0" | "n = 1" | "2 \<le> n" "n < 8" by fastforce
    then show "bit (ucast (drop_bit 30 (usb_create_host_endpoint devnum type ep) AND 3) :: u8) n = bit type n"
      by cases (auto simp: usb_create_host_endpoint_def bit_simps t dest: bit_imp_le_length)
  qed
qed


lemma pipe_ep: "(ucast (drop_bit 15 (usb_create_host_endpoint devnum type ep) AND 255) :: u8) = ep"
proof (rule bit_word_eqI)
  fix n assume "n < LENGTH(8)"
  then have n: "n < 8" by simp
  have m: "bit (255 :: u32) n" using n by (auto simp: numeral_eq_Suc less_Suc_eq)
  have "\<not> bit (0x7F :: u32) (7 + n)" "\<not> bit (0x80 :: u32) (15 + n)"
    using n by (auto simp: numeral_eq_Suc less_Suc_eq)
  with n m show "bit (ucast (drop_bit 15 (usb_create_host_endpoint devnum type ep) AND 255) :: u8) n = bit ep n"
    by (simp add: usb_create_host_endpoint_def bit_simps)
qed

lemma find_Some_first: "find P xs = Some x \<Longrightarrow> P x \<and> x \<in> set xs"
  by (induction xs) (auto split: if_splits)


section \<open>Properties\<close>

text \<open>C13: the search that attaches drivers returns the first entry before the end of the table
  whose every flagged field agrees with the device, and the search that drivers use does
  the same on the device descriptor in the byte order of the bus, for either host; only when
  nothing matches it also returns a final entry that carries driver information.\<close>

theorem usb_id_search:
  "usb_linux_lookup_id dev intf ids = find (id_matches dev intf) (takeWhile (\<lambda>i. match_flags i \<noteq> 0) ids) \<and>
   usb_match_id big dev intf ids =
     (case usb_linux_lookup_id (decoded big dev) intf ids of
        Some i \<Rightarrow> Some i
      | None \<Rightarrow> (case dropWhile (\<lambda>i. match_flags i \<noteq> 0) ids of
          i # _ \<Rightarrow> if driver_info i \<noteq> 0 then Some i else None
        | [] \<Rightarrow> None))"
  using match_id_find [of big dev intf ids] by (simp add: lookup_id_find)

text \<open>A pipe made for a transfer type and an endpoint address finds an endpoint of the
  current settings with that type and number, and that direction unless it is a control
  endpoint; it finds none just when there is no such endpoint, apart from the default
  endpoint for control transfers to endpoint 0.\<close>

theorem usb_pipe_finds_endpoint:
  assumes "type < 4"
    and "eps = concat (map (\<lambda>ui. case ui of None \<Rightarrow> [] | Some es \<Rightarrow> es) (bsd_iface d))"
    and "msk = (if type = 0 then 0x0F else 0x8F)"
  shows "usb_find_host_endpoint desc (Some d) (usb_create_host_endpoint devnum type ep) =
    (case find (\<lambda>e. bEndpointAddress (desc e) AND msk = ep AND msk \<and> bmAttributes (desc e) AND 3 = type) eps of
       Some e \<Rightarrow> Some e
     | None \<Rightarrow> if type = 0 \<and> ep AND 0x0F = 0 then Some (ep0 d) else None)"
proof -
  have "(if type = 0 then 0x0f else 0x80 OR 0x0f) = msk" using assms(3) by simp
  moreover have "type = 0 \<Longrightarrow> ep AND msk AND 0x0F = ep AND 0x0F" using assms(3) by (simp add: and.assoc)
  ultimately show ?thesis
    unfolding usb_find_host_endpoint_def Let_def pipe_type [OF assms(1)] pipe_ep find_in_interfaces_concat assms(2) endpoint_matches_def
    by (auto split: option.split)
qed

theorem usb_pipe_finds_endpoint_witness:
  "usb_find_host_endpoint (\<lambda>e. e) (Some \<lparr>bsd_iface = [None, Some [\<lparr>bEndpointAddress = 0x82, bmAttributes = 2, wMaxPacketSize = 512\<rparr>]],
       ep0 = \<lparr>bEndpointAddress = 0, bmAttributes = 0, wMaxPacketSize = 64\<rparr>\<rparr>) (usb_create_host_endpoint 5 2 0x82) =
     Some \<lparr>bEndpointAddress = 0x82, bmAttributes = 2, wMaxPacketSize = 512\<rparr>"
  by (subst usb_pipe_finds_endpoint [OF _ refl refl]) simp_all

text \<open>\<open>__usb_get_extra_descriptor\<close> looks at the first descriptor only: it finds nothing when
  more descriptors follow, and when the first descriptor claims to be longer than the
  buffer and is of another type, the search goes on behind the end of the buffer.\<close>

theorem usb_extra_descriptor_search:
  assumes "2 \<le> length buffer" "length buffer < 2 ^ 31" "2 \<le> buffer ! 0"
  shows "usb_get_extra_descriptor buffer 0 (of_nat (length buffer)) type =
    (if unat (buffer ! 0) < length buffer then NotFound
     else if buffer ! 1 = type then Found 0
     else if unat (buffer ! 0) = length buffer then NotFound
     else ReadsBeyond)"
proof -
  define n where "n = length buffer"
  define b where "b = buffer ! 0"
  have n: "unat (of_nat n :: u32) = n" using assms(2) by (simp add: n_def unsigned_of_nat take_bit_nat_eq_self)
  have b: "unat (ucast b :: u32) = unat b" using unat_u8_less [of b] by (simp add: unat_ucast_mod)
  have step: "usb_get_extra_descriptor buffer 0 (of_nat n) type =
      (if unat b < n then NotFound else if buffer ! 1 = type then Found 0
       else usb_get_extra_descriptor buffer (unat b) (of_nat n - ucast b) type)"
    using assms n b
    by (subst usb_get_extra_descriptor.simps) (auto simp: n_def b_def word_le_nat_alt word_less_nat_alt Let_def)
  have same: "usb_get_extra_descriptor buffer (unat b) (of_nat n - ucast b) type = NotFound" if "unat b = n"
  proof -
    have "(of_nat n :: u32) = ucast b" using that n b by (metis word_unat_eq_iff)
    then show ?thesis by (subst usb_get_extra_descriptor.simps) simp
  qed
  have beyond: "usb_get_extra_descriptor buffer (unat b) (of_nat n - ucast b) type = ReadsBeyond" if "n < unat b"
  proof -
    have "(of_nat n :: u32) < ucast b" using that n b by (simp add: word_less_nat_alt)
    then have "unat (of_nat n - ucast b :: u32) = n + 2 ^ 32 - unat b" using n b by (simp add: unat_sub_if_size word_size word_less_nat_alt)
    then have "2 \<le> (of_nat n - ucast b :: u32)" using unat_u8_less [of b] by (simp add: word_le_nat_alt)
    then show ?thesis using that by (subst usb_get_extra_descriptor.simps) (simp add: n_def)
  qed
  show ?thesis
    using step same beyond unfolding n_def b_def by (metis linorder_neqE_nat)
qed

theorem usb_extra_descriptor_search_witness:
  "usb_get_extra_descriptor [2, 7, 2, 9] 0 4 9 = NotFound \<and> usb_get_extra_descriptor [9, 7] 0 2 9 = ReadsBeyond"
  using usb_extra_descriptor_search [of "[2, 7, 2, 9]" 9] usb_extra_descriptor_search [of "[9, 7]" 9] by simp

end
