(* ===== verification/Usb_Urb.thy ===== *)
theory Usb_Urb
  imports Webcamd_Prelude
begin

text \<open>
  USB request blocks (\<open>kernel/linux_usb.c\<close>).  The state is that of one endpoint: the queue of
  submitted blocks, the two libusb transfers that work on them, and the fields of the blocks
  that the code changes.  What the code asks of libusb (to start, stop or submit a transfer)
  and the calls of completion functions are recorded as events, in their order.  libusb calls
  the callback of a transfer with the status \<open>START\<close> while the transfer is idle, and with
  another status once for every transfer that was submitted.  The completion functions of
  drivers are the parameter \<open>drv\<close>.
\<close>

section \<open>State\<close>

datatype transfer_status = TRANSFER_START | TRANSFER_COMPLETED | TRANSFER_CANCELLED | TRANSFER_TIMED_OUT | TRANSFER_ERROR

datatype usb_event = Tr_start nat | Tr_stop nat | Tr_submit nat nat bool u32 | Completed nat "errno option"

record iso_packet =
  ip_length :: u16
  ip_actual :: u16
  ip_status :: "errno option"

text \<open>The fields that the driver sets before it submits a block.\<close>

record urb_info =
  transfer_buffer_length :: u32
  short_not_ok :: bool
  zero_packet :: bool
  urb_timeout :: u32
  has_complete :: bool

text \<open>A status is \<open>None\<close> for 0.  \<open>urb_submits\<close> counts the submissions that were put into the
  queue, for the specification only.\<close>

record ep_state =
  bsd_urb_list :: "nat list"
  urb_linked :: "nat \<Rightarrow> bool"
  urb_status :: "nat \<Rightarrow> errno option"
  actual_length :: "nat \<Rightarrow> u32"
  urb_queued :: "nat \<Rightarrow> bool"
  bsd_no_resubmit :: "nat \<Rightarrow> bool"
  urb_reject :: "nat \<Rightarrow> u32"
  number_of_packets :: "nat \<Rightarrow> nat"
  iso_frame_desc :: "nat \<Rightarrow> iso_packet list"
  bsd_xfer :: "nat \<Rightarrow> bool"
  priv_sc1 :: "nat \<Rightarrow> nat option"
  events :: "usb_event list"
  urb_submits :: "nat \<Rightarrow> nat"

type_synonym driver = "nat \<Rightarrow> ep_state \<Rightarrow> ep_state"

definition add_event :: "usb_event \<Rightarrow> ep_state \<Rightarrow> ep_state" where
  "add_event e s = s\<lparr>events := events s @ [e]\<rparr>"

definition set_status :: "nat \<Rightarrow> errno option \<Rightarrow> ep_state \<Rightarrow> ep_state" where
  "set_status u e s = s\<lparr>urb_status := (urb_status s)(u := e)\<rparr>"

definition set_actual :: "nat \<Rightarrow> u32 \<Rightarrow> ep_state \<Rightarrow> ep_state" where
  "set_actual u n s = s\<lparr>actual_length := (actual_length s)(u := n)\<rparr>"

text \<open>The loops over the first \<open>number_of_packets\<close> frames of a block.\<close>

definition map_frames :: "nat \<Rightarrow> (nat \<Rightarrow> iso_packet \<Rightarrow> iso_packet) \<Rightarrow> ep_state \<Rightarrow> ep_state" where
  "map_frames u f s =
     (let ps = iso_frame_desc s u; n = number_of_packets s u
      in s\<lparr>iso_frame_desc := (iso_frame_desc s)
             (u := map (\<lambda>x. if x < n then f x (ps ! x) else ps ! x) [0..<length ps])\<rparr>)"

section \<open>Submission\<close>

text \<open>The buffer size of a bulk or interrupt endpoint in \<open>usb_setup_endpoint\<close>.\<close>

definition usb_setup_bufsize :: "bool \<Rightarrow> bool \<Rightarrow> bool \<Rightarrow> int \<Rightarrow> int \<Rightarrow> int" where
  "usb_setup_bufsize low full int_type min_bufsize bufsize =
     (let bufsize = (if bufsize < 0 then 0 else bufsize);
          bufsize = (if bufsize < min_bufsize then min_bufsize else bufsize)
      in if low then (if bufsize < 256 then 256 else bufsize)
         else if int_type \<or> full then (if bufsize < 4096 then 4096 else bufsize)
         else (if bufsize < 131072 then 131072 else bufsize))"

text \<open>\<open>open0\<close> and \<open>open1\<close> tell whether libusb opens the two transfers; the result is whether the
  endpoint is ready.\<close>

definition usb_setup_endpoint :: "bool \<Rightarrow> bool \<Rightarrow> ep_state \<Rightarrow> bool \<times> ep_state" where
  "usb_setup_endpoint open0 open1 s =
     (if bsd_xfer s 0 \<or> bsd_xfer s 1 then (True, s)
      else if open0 \<and> open1 then (True, s\<lparr>bsd_xfer := (bsd_xfer s)(0 := True, 1 := True)\<rparr>)
      else (False, s\<lparr>bsd_xfer := (bsd_xfer s)(0 := False, 1 := False)\<rparr>))"

definition usb_unsetup_endpoint :: "ep_state \<Rightarrow> ep_state" where
  "usb_unsetup_endpoint s = s\<lparr>bsd_xfer := (bsd_xfer s)(0 := False, 1 := False)\<rparr>"

definition usb_submit_urb_sub :: "nat \<Rightarrow> ep_state \<Rightarrow> ep_state" where
  "usb_submit_urb_sub x s = (if bsd_xfer s x then add_event (Tr_start x) s else s)"

text \<open>\<open>found\<close> tells whether \<open>usb_find_host_endpoint\<close> finds the endpoint of the block.\<close>

definition usb_submit_urb :: "bool \<Rightarrow> bool \<Rightarrow> bool \<Rightarrow> nat option \<Rightarrow> ep_state \<Rightarrow> errno option \<times> ep_state" where
  "usb_submit_urb found open0 open1 urb s =
     (case urb of
        None \<Rightarrow> (Some EINVAL, s)
      | Some u \<Rightarrow>
        if urb_reject s u \<noteq> 0 then (Some ENXIO, s)
        else if \<not> found then (Some EINVAL, s)
        else let (ready, s) = usb_setup_endpoint open0 open1 s
        in if \<not> ready then (Some EPIPE, s)
           else if bsd_xfer s 0 \<or> bsd_xfer s 1 then
             let s = s\<lparr>urb_queued := (urb_queued s)(u := True)\<rparr>;
                 s = (if \<not> urb_linked s u then
                        set_status u (Some EINPROGRESS)
                          (s\<lparr>bsd_urb_list := bsd_urb_list s @ [u], urb_linked := (urb_linked s)(u := True),
                             urb_submits := (urb_submits s)(u := urb_submits s u + 1)\<rparr>)
                      else s);
                 s = (if \<not> bsd_no_resubmit s u then usb_submit_urb_sub 1 (usb_submit_urb_sub 0 s) else s)
             in (None, s)
           else (Some EINVAL, set_status u (Some EINVAL) s))"

definition usb_block_urb :: "nat \<Rightarrow> ep_state \<Rightarrow> ep_state" where
  "usb_block_urb u s = s\<lparr>urb_reject := (urb_reject s)(u := urb_reject s u + 1)\<rparr>"

definition usb_unblock_urb :: "nat \<Rightarrow> ep_state \<Rightarrow> ep_state" where
  "usb_unblock_urb u s = s\<lparr>urb_reject := (urb_reject s)(u := urb_reject s u - 1)\<rparr>"

section \<open>Cancellation\<close>

definition call_complete :: "(nat \<Rightarrow> urb_info) \<Rightarrow> driver \<Rightarrow> nat \<Rightarrow> ep_state \<Rightarrow> ep_state" where
  "call_complete info drv u s =
     (if has_complete (info u) then
        drv u (add_event (Completed u (urb_status s u)) (s\<lparr>urb_queued := (urb_queued s)(u := False)\<rparr>))
      else s)"

text \<open>A pass of \<open>usb_unlink_bsd\<close>: when the transfer works on the block it is restarted, which
  makes libusb cancel it; with \<open>drain\<close> the function repeats this until the transfer works on
  another block.\<close>

definition usb_unlink_bsd :: "nat \<Rightarrow> nat \<Rightarrow> ep_state \<Rightarrow> ep_state" where
  "usb_unlink_bsd x u s =
     (if bsd_xfer s x \<and> priv_sc1 s x = Some u then add_event (Tr_start x) (add_event (Tr_stop x) s) else s)"

definition usb_unlink_urb_sub :: "(nat \<Rightarrow> urb_info) \<Rightarrow> driver \<Rightarrow> bool \<Rightarrow> nat option \<Rightarrow> ep_state \<Rightarrow> errno option \<times> ep_state" where
  "usb_unlink_urb_sub info drv found urb s =
     (case urb of
        None \<Rightarrow> (Some EINVAL, s)
      | Some u \<Rightarrow>
        if \<not> found then (Some EINVAL, s)
        else if urb_linked s u then
          let s = s\<lparr>bsd_urb_list := remove1 u (bsd_urb_list s), urb_linked := (urb_linked s)(u := False)\<rparr>;
              s = set_actual u 0 (set_status u (Some ECONNRESET) s);
              s = map_frames u (\<lambda>x p. p\<lparr>ip_actual := 0\<rparr>) s
          in (None, call_complete info drv u s)
        else (None, usb_unlink_bsd 1 u (usb_unlink_bsd 0 u s)))"

section \<open>Transfer callbacks\<close>

text \<open>The result \<open>None\<close> stands for a null pointer in the transfer and for a callback that does
  not return.\<close>

definition usb_linux_complete :: "(nat \<Rightarrow> urb_info) \<Rightarrow> driver \<Rightarrow> nat \<Rightarrow> ep_state \<Rightarrow> ep_state option" where
  "usb_linux_complete info drv x s =
     (case priv_sc1 s x of
        None \<Rightarrow> None
      | Some u \<Rightarrow> Some (call_complete info drv u (s\<lparr>priv_sc1 := (priv_sc1 s)(x := None)\<rparr>)))"

definition give_back :: "(nat \<Rightarrow> urb_info) \<Rightarrow> driver \<Rightarrow> nat \<Rightarrow> nat \<Rightarrow> ep_state \<Rightarrow> ep_state option" where
  "give_back info drv x u s =
     (let s = s\<lparr>bsd_no_resubmit := (bsd_no_resubmit s)(u := True)\<rparr>
      in map_option (\<lambda>s. s\<lparr>bsd_no_resubmit := (bsd_no_resubmit s)(u := False)\<rparr>) (usb_linux_complete info drv x s))"

text \<open>The part after the label \<open>tr_setup\<close>, for a callback that refuses the blocks which do not
  fit and submits the others to libusb with \<open>prepare\<close>.  The event of a submission holds the
  flag for a short last packet and the time-out; the buffers are those of the block.\<close>

definition start_other :: "nat \<Rightarrow> ep_state \<Rightarrow> ep_state" where
  "start_other x s = (let y = (if x = 0 then 1 else 0) in if bsd_xfer s y then add_event (Tr_start y) s else s)"

definition take_first :: "nat \<Rightarrow> nat \<Rightarrow> ep_state \<Rightarrow> ep_state" where
  "take_first x u s =
     s\<lparr>bsd_urb_list := tl (bsd_urb_list s), urb_linked := (urb_linked s)(u := False), priv_sc1 := (priv_sc1 s)(x := Some u)\<rparr>"

partial_function (option) tr_setup ::
    "(nat \<Rightarrow> urb_info) \<Rightarrow> (nat \<Rightarrow> bool) \<Rightarrow> (nat \<Rightarrow> ep_state \<Rightarrow> ep_state) \<Rightarrow> driver \<Rightarrow> nat \<Rightarrow> ep_state \<Rightarrow> ep_state option" where
  "tr_setup info fits prepare drv x s =
     (case bsd_urb_list s of
        [] \<Rightarrow> Some s
      | u # rest \<Rightarrow>
        (let s = take_first x u s
         in if \<not> fits u then
              Option.bind (give_back info drv x u (set_status u (Some EFBIG) s)) (\<lambda>s. tr_setup info fits prepare drv x s)
            else Some (start_other x (prepare u s))))"

definition bulk_prepare :: "(nat \<Rightarrow> urb_info) \<Rightarrow> nat \<Rightarrow> nat \<Rightarrow> ep_state \<Rightarrow> ep_state" where
  "bulk_prepare info x u s = add_event (Tr_submit x u (zero_packet (info u)) (urb_timeout (info u))) s"

definition bulk_fits :: "(nat \<Rightarrow> urb_info) \<Rightarrow> u32 \<Rightarrow> nat \<Rightarrow> bool" where
  "bulk_fits info max_bulk u = (\<not> transfer_buffer_length (info u) > max_bulk)"

definition short_status :: "(nat \<Rightarrow> urb_info) \<Rightarrow> nat \<Rightarrow> u32 \<Rightarrow> errno option" where
  "short_status info u actlen =
     (if actlen < transfer_buffer_length (info u) then if short_not_ok (info u) then Some EPIPE else None else None)"

definition usb_linux_bulk_intr_callback ::
    "(nat \<Rightarrow> urb_info) \<Rightarrow> u32 \<Rightarrow> driver \<Rightarrow> nat \<Rightarrow> transfer_status \<Rightarrow> u32 \<Rightarrow> ep_state \<Rightarrow> ep_state option" where
  "usb_linux_bulk_intr_callback info max_bulk drv x status actlen s =
     (let next_block = tr_setup info (bulk_fits info max_bulk) (bulk_prepare info x) drv x
      in case status of
           TRANSFER_START \<Rightarrow> next_block s
         | TRANSFER_COMPLETED \<Rightarrow>
             (case priv_sc1 s x of
                None \<Rightarrow> None
              | Some u \<Rightarrow> Option.bind (give_back info drv x u (set_status u (short_status info u actlen) (set_actual u actlen s))) next_block)
         | _ \<Rightarrow>
             (case priv_sc1 s x of
                None \<Rightarrow> None
              | Some u \<Rightarrow>
                let e = (if status = TRANSFER_CANCELLED then ECONNRESET else EPIPE);
                    r = give_back info drv x u (set_actual u 0 (set_status u (Some e) s))
                in if status = TRANSFER_CANCELLED then r else Option.bind r next_block))"

definition ctrl_prepare :: "(nat \<Rightarrow> urb_info) \<Rightarrow> nat \<Rightarrow> nat \<Rightarrow> ep_state \<Rightarrow> ep_state" where
  "ctrl_prepare info x u s = add_event (Tr_submit x u False (urb_timeout (info u))) s"

definition ctrl_fits :: "(nat \<Rightarrow> urb_info) \<Rightarrow> u32 \<Rightarrow> nat \<Rightarrow> bool" where
  "ctrl_fits info max_ctrl u = (\<not> (max_ctrl < 8 \<or> transfer_buffer_length (info u) > max_ctrl - 8))"

definition usb_linux_ctrl_callback ::
    "(nat \<Rightarrow> urb_info) \<Rightarrow> u32 \<Rightarrow> driver \<Rightarrow> nat \<Rightarrow> transfer_status \<Rightarrow> u32 \<Rightarrow> ep_state \<Rightarrow> ep_state option" where
  "usb_linux_ctrl_callback info max_ctrl drv x status actlen s =
     (let next_block = tr_setup info (ctrl_fits info max_ctrl) (ctrl_prepare info x) drv x
      in case status of
           TRANSFER_START \<Rightarrow> next_block s
         | TRANSFER_COMPLETED \<Rightarrow>
             (case priv_sc1 s x of
                None \<Rightarrow> None
              | Some u \<Rightarrow>
                let actlen = (if 8 \<le> actlen then actlen - 8 else 0)
                in Option.bind (give_back info drv x u (set_status u (short_status info u actlen) (set_actual u actlen s))) next_block)
         | _ \<Rightarrow>
             (case priv_sc1 s x of
                None \<Rightarrow> None
              | Some u \<Rightarrow>
                let e = (if status = TRANSFER_CANCELLED then ECONNRESET else EPIPE);
                    r = give_back info drv x u (set_actual u 0 (set_status u (Some e) s))
                in if status = TRANSFER_CANCELLED then r else Option.bind r next_block))"

text \<open>\<open>lens x\<close> is the length of frame \<open>x\<close> as libusb reports it, \<open>max_frames\<close> the greatest number of
  frames of the transfer.\<close>

definition iso_short :: "ep_state \<Rightarrow> (nat \<Rightarrow> u32) \<Rightarrow> nat \<Rightarrow> bool" where
  "iso_short s lens u =
     (\<exists>i \<in> set [0..<number_of_packets s u]. ucast (ip_length (iso_frame_desc s u ! i)) > lens i)"

definition iso_truncate :: "nat \<Rightarrow> nat \<Rightarrow> ep_state \<Rightarrow> ep_state" where
  "iso_truncate max_frames u s =
     (if number_of_packets s u > max_frames then s\<lparr>number_of_packets := (number_of_packets s)(u := max_frames)\<rparr> else s)"

definition isoc_prepare :: "(nat \<Rightarrow> urb_info) \<Rightarrow> nat \<Rightarrow> nat \<Rightarrow> nat \<Rightarrow> ep_state \<Rightarrow> ep_state" where
  "isoc_prepare info max_frames x u s =
     add_event (Tr_submit x u False (if urb_timeout (info u) = 0 then 250 else urb_timeout (info u))) (iso_truncate max_frames u s)"

definition usb_linux_isoc_callback ::
    "(nat \<Rightarrow> urb_info) \<Rightarrow> nat \<Rightarrow> driver \<Rightarrow> nat \<Rightarrow> transfer_status \<Rightarrow> u32 \<Rightarrow> (nat \<Rightarrow> u32) \<Rightarrow> ep_state \<Rightarrow> ep_state option" where
  "usb_linux_isoc_callback info max_frames drv x status actlen lens s =
     (let next_block = tr_setup info (\<lambda>u. True) (isoc_prepare info max_frames x) drv x
      in case status of
           TRANSFER_START \<Rightarrow> next_block s
         | TRANSFER_COMPLETED \<Rightarrow>
             (case priv_sc1 s x of
                None \<Rightarrow> None
              | Some u \<Rightarrow>
                let is_short = iso_short s lens u;
                    s = map_frames u (\<lambda>i p. p\<lparr>ip_status := (if ucast (ip_length p) > lens i then
                          if short_not_ok (info u) then Some EPIPE else None else None), ip_actual := ucast (lens i)\<rparr>) s;
                    s = set_actual u actlen s;
                    e = (if is_short then if short_not_ok (info u) then Some EPIPE else None else None)
                in Option.bind (give_back info drv x u (set_status u e s)) next_block)
         | _ \<Rightarrow>
             (case priv_sc1 s x of
                None \<Rightarrow> None
              | Some u \<Rightarrow>
                let e = (if status = TRANSFER_CANCELLED then Some ECONNRESET
                         else if status = TRANSFER_TIMED_OUT then None else Some EPIPE);
                    s = set_actual u 0 (set_status u e s);
                    r = give_back info drv x u (map_frames u (\<lambda>i p. p\<lparr>ip_actual := 0, ip_status := e\<rparr>) s)
                in if status = TRANSFER_CANCELLED then r else Option.bind r next_block))"

section \<open>Accounting of submissions\<close>

definition completions :: "nat \<Rightarrow> usb_event list \<Rightarrow> nat" where
  "completions u es = length (filter (\<lambda>e. case e of Completed v _ \<Rightarrow> v = u | _ \<Rightarrow> False) es)"

definition in_flight :: "ep_state \<Rightarrow> nat \<Rightarrow> nat" where
  "in_flight s u = of_bool (priv_sc1 s 0 = Some u) + of_bool (priv_sc1 s 1 = Some u)"

text \<open>\<open>owed\<close> is the block that was taken from the queue or a transfer and whose completion
  function is about to be called.\<close>

definition ep_owes :: "nat option \<Rightarrow> ep_state \<Rightarrow> bool" where
  "ep_owes owed s \<longleftrightarrow> distinct (bsd_urb_list s) \<and> (\<forall>u. urb_linked s u \<longleftrightarrow> u \<in> set (bsd_urb_list s)) \<and>
     (\<forall>u. urb_submits s u = completions u (events s) + of_bool (urb_linked s u) + in_flight s u + of_bool (owed = Some u))"

abbreviation ep_inv :: "ep_state \<Rightarrow> bool" where
  "ep_inv \<equiv> ep_owes None"

text \<open>The part of the state that the accounting depends on.\<close>

definition ep_core :: "ep_state \<Rightarrow> nat list \<times> (nat \<Rightarrow> bool) \<times> (nat \<Rightarrow> nat option) \<times> (nat \<Rightarrow> nat) \<times> usb_event list" where
  "ep_core s = (bsd_urb_list s, urb_linked s, priv_sc1 s, urb_submits s, events s)"

lemma ep_owes_core: "ep_core s = ep_core s' \<Longrightarrow> ep_owes w s = ep_owes w s'"
  by (simp add: ep_core_def ep_owes_def in_flight_def)

lemma ep_core_neutral [simp]:
  "ep_core (set_status u e s) = ep_core s" "ep_core (set_actual u n s) = ep_core s" "ep_core (map_frames u f s) = ep_core s"
  "ep_core (iso_truncate k u s) = ep_core s"
  "ep_core (s\<lparr>bsd_no_resubmit := r\<rparr>) = ep_core s" "ep_core (s\<lparr>urb_queued := q\<rparr>) = ep_core s"
  "ep_core (s\<lparr>urb_reject := j\<rparr>) = ep_core s" "ep_core (s\<lparr>bsd_xfer := b\<rparr>) = ep_core s"
  by (simp_all add: ep_core_def set_status_def set_actual_def map_frames_def iso_truncate_def Let_def)

lemma ep_owes_neutral [simp]:
  "ep_owes w (set_status u e s) = ep_owes w s" "ep_owes w (set_actual u n s) = ep_owes w s"
  "ep_owes w (map_frames u f s) = ep_owes w s" "ep_owes w (iso_truncate k u s) = ep_owes w s"
  "ep_owes w (s\<lparr>bsd_no_resubmit := r\<rparr>) = ep_owes w s" "ep_owes w (s\<lparr>urb_queued := q\<rparr>) = ep_owes w s"
  "ep_owes w (s\<lparr>urb_reject := j\<rparr>) = ep_owes w s" "ep_owes w (s\<lparr>bsd_xfer := b\<rparr>) = ep_owes w s"
  by (rule ep_owes_core, simp)+

lemma priv_neutral [simp]:
  "priv_sc1 (set_status u e s) = priv_sc1 s" "priv_sc1 (set_actual u n s) = priv_sc1 s"
  "priv_sc1 (map_frames u f s) = priv_sc1 s" "priv_sc1 (iso_truncate k u s) = priv_sc1 s" "priv_sc1 (add_event ev s) = priv_sc1 s"
  by (simp_all add: set_status_def set_actual_def map_frames_def iso_truncate_def add_event_def Let_def)

lemma list_neutral [simp]:
  "bsd_urb_list (set_status u e s) = bsd_urb_list s" "bsd_urb_list (set_actual u n s) = bsd_urb_list s"
  "bsd_urb_list (map_frames u f s) = bsd_urb_list s" "bsd_urb_list (add_event ev s) = bsd_urb_list s"
  by (simp_all add: set_status_def set_actual_def map_frames_def add_event_def Let_def)

lemma ep_owes_event [simp]:
  "ep_owes w (add_event (Tr_start x) s) = ep_owes w s" "ep_owes w (add_event (Tr_stop x) s) = ep_owes w s"
  "ep_owes w (add_event (Tr_submit x u b d) s) = ep_owes w s"
  by (simp_all add: ep_owes_def add_event_def completions_def in_flight_def)

lemma ep_owes_completed: "ep_owes (Some u) s \<Longrightarrow> ep_inv (add_event (Completed u e) s)"
  by (auto simp: ep_owes_def add_event_def completions_def in_flight_def split: if_splits)

text \<open>Drivers use the endpoint through the functions above: they keep the accounting and leave
  the transfers alone.\<close>

definition good_driver :: "driver \<Rightarrow> bool" where
  "good_driver drv \<longleftrightarrow> (\<forall>u s. (ep_inv s \<longrightarrow> ep_inv (drv u s)) \<and> priv_sc1 (drv u s) = priv_sc1 s)"

lemma call_complete_inv:
  assumes "good_driver drv" "has_complete (info u)" "ep_owes (Some u) s"
  shows "ep_inv (call_complete info drv u s) \<and> priv_sc1 (call_complete info drv u s) = priv_sc1 s"
  using assms ep_owes_completed [of u "s\<lparr>urb_queued := (urb_queued s)(u := False)\<rparr>"]
  by (simp add: call_complete_def good_driver_def)

lemma ep_owes_priv_clear:
  assumes "ep_inv s" "priv_sc1 s x = Some u" "x < 2"
  shows "ep_owes (Some u) (s\<lparr>priv_sc1 := (priv_sc1 s)(x := None)\<rparr>)"
proof -
  have "x = 0 \<or> x = 1" using assms(3) by auto
  then show ?thesis using assms(1,2) by (auto simp: ep_owes_def in_flight_def)
qed

lemma ep_owes_take_first:
  assumes "ep_inv s" "bsd_urb_list s = u # rest" "priv_sc1 s x = None" "x < 2"
  shows "ep_inv (take_first x u s)"
proof -
  have "x = 0 \<or> x = 1" using assms(4) by auto
  then show ?thesis using assms(1-3) by (auto simp: ep_owes_def in_flight_def take_first_def)
qed

lemma give_back_inv:
  assumes "good_driver drv" "\<And>u. has_complete (info u)" "ep_inv s" "priv_sc1 s x = Some u" "x < 2"
  shows "\<exists>s'. give_back info drv x u s = Some s' \<and> ep_inv s' \<and> priv_sc1 s' = (priv_sc1 s)(x := None)"
proof -
  let ?s = "s\<lparr>bsd_no_resubmit := (bsd_no_resubmit s)(u := True)\<rparr>"
  have "ep_owes (Some u) (?s\<lparr>priv_sc1 := (priv_sc1 ?s)(x := None)\<rparr>)"
    using assms(3-5) by (intro ep_owes_priv_clear) simp_all
  from call_complete_inv [OF assms(1,2) this] show ?thesis
    using assms(4) by (simp add: give_back_def usb_linux_complete_def Let_def)
qed

text \<open>What the setup of the next block keeps, whenever it returns.\<close>

lemma tr_setup_inv:
  assumes "good_driver drv" "\<And>u. has_complete (info u)" "\<And>u s. ep_inv (prepare u s) = ep_inv s" "x < 2"
    and "tr_setup info fits prepare drv x s = Some s'" "ep_inv s" "priv_sc1 s x = None"
  shows "ep_inv s'"
proof -
  let ?P = "\<lambda>info' fits' prepare' drv' x' s s'. info' = info \<longrightarrow> prepare' = prepare \<longrightarrow> drv' = drv \<longrightarrow> x' = x \<longrightarrow>
      ep_inv s \<longrightarrow> priv_sc1 s x = None \<longrightarrow> ep_inv s'"
  have "?P info fits prepare drv x s s'"
  proof (rule tr_setup.raw_induct [where P = ?P and xa = "(((((info, fits), prepare), drv), x), s)" and y = s', unfolded prod.case])
    show "tr_setup info fits prepare drv x s = Some s'" by (rule assms(5))
  next
    fix f info' fits' prepare' drv' x' s s'
    assume IH: "\<And>i fits p d x0 s y. f i fits p d x0 s = Some y \<Longrightarrow>
        i = info \<longrightarrow> p = prepare \<longrightarrow> d = drv \<longrightarrow> x0 = x \<longrightarrow> ep_inv s \<longrightarrow> priv_sc1 s x = None \<longrightarrow> ep_inv y"
      and body: "(case bsd_urb_list s of [] \<Rightarrow> Some s
        | u # rest \<Rightarrow> let s = take_first x' u s in
            if \<not> fits' u then Option.bind (give_back info' drv' x' u (set_status u (Some EFBIG) s)) (f info' fits' prepare' drv' x')
            else Some (start_other x' (prepare' u s))) = Some s'"
    show "info' = info \<longrightarrow> prepare' = prepare \<longrightarrow> drv' = drv \<longrightarrow> x' = x \<longrightarrow> ep_inv s \<longrightarrow> priv_sc1 s x = None \<longrightarrow> ep_inv s'"
    proof (intro impI)
      assume eq: "info' = info" "prepare' = prepare" "drv' = drv" "x' = x" and inv: "ep_inv s" and idle: "priv_sc1 s x = None"
      show "ep_inv s'"
      proof (cases "bsd_urb_list s")
        case Nil
        then show ?thesis using body inv by simp
      next
        case (Cons u rest)
        let ?s = "set_status u (Some EFBIG) (take_first x u s)"
        have tf: "ep_inv (take_first x u s)" using inv Cons idle assms(4) by (rule ep_owes_take_first)
        show ?thesis
        proof (cases "fits' u")
          case True
          then show ?thesis using body Cons eq tf assms(3) by (auto simp: start_other_def Let_def)
        next
          case False
          have "priv_sc1 ?s x = Some u" by (simp add: take_first_def)
          then obtain s1 where s1: "give_back info drv x u ?s = Some s1" "ep_inv s1" "priv_sc1 s1 = (priv_sc1 ?s)(x := None)"
            using give_back_inv [where info = info and s = ?s and u = u, OF assms(1,2) _ _ assms(4)] tf by auto
          then have "f info fits' prepare drv x s1 = Some s'" using body Cons eq False by simp
          from IH [OF this] s1 show ?thesis by simp
        qed
      qed
    qed
  qed
  then show ?thesis using assms(6,7) by simp
qed

text \<open>It returns when no block is refused, or when no driver adds to the queue.\<close>

lemma tr_setup_returns:
  assumes "(\<forall>u. fits u) \<or> (\<forall>u s. length (bsd_urb_list (drv u s)) \<le> length (bsd_urb_list s))"
  shows "\<exists>s'. tr_setup info fits prepare drv x s = Some s'"
proof (induction "length (bsd_urb_list s)" arbitrary: s rule: less_induct)
  case less
  show ?case
  proof (cases "bsd_urb_list s")
    case Nil
    then show ?thesis by (subst tr_setup.simps) simp
  next
    case (Cons u rest)
    let ?s = "set_status u (Some EFBIG) (take_first x u s)"
    show ?thesis
    proof (cases "fits u")
      case True
      then show ?thesis using Cons by (subst tr_setup.simps) (simp add: Let_def)
    next
      case False
      then have drv: "\<And>u s. length (bsd_urb_list (drv u s)) \<le> length (bsd_urb_list s)" using assms by auto
      obtain s1 where s1: "give_back info drv x u ?s = Some s1"
        by (simp add: give_back_def usb_linux_complete_def take_first_def Let_def)
      have "length (bsd_urb_list s1) \<le> length rest"
      proof -
        have "length (bsd_urb_list (call_complete info drv u t)) \<le> length (bsd_urb_list t)" for t
          using drv [of u "add_event (Completed u (urb_status t u)) (t\<lparr>urb_queued := (urb_queued t)(u := False)\<rparr>)"]
          by (simp add: call_complete_def)
        from this [of "?s\<lparr>bsd_no_resubmit := (bsd_no_resubmit ?s)(u := True), priv_sc1 := (priv_sc1 ?s)(x := None)\<rparr>"]
        show ?thesis
          using s1 Cons by (auto simp: give_back_def usb_linux_complete_def take_first_def Let_def)
      qed
      then obtain s' where "tr_setup info fits prepare drv x s1 = Some s'" using less [of s1] Cons by auto
      then show ?thesis using Cons False s1 by (subst tr_setup.simps) (simp add: Let_def)
    qed
  qed
qed


section \<open>Threads, drivers and libusb\<close>

text \<open>The steps of an endpoint: requests of drivers, and callbacks of libusb on an idle transfer
  with the status \<open>START\<close>, or on a transfer with a block with another status.\<close>

definition status_allowed :: "nat \<Rightarrow> transfer_status \<Rightarrow> ep_state \<Rightarrow> bool" where
  "status_allowed x status s \<longleftrightarrow> x < 2 \<and> (status = TRANSFER_START \<longleftrightarrow> priv_sc1 s x = None)"

inductive usb_step :: "(nat \<Rightarrow> urb_info) \<Rightarrow> driver \<Rightarrow> ep_state \<Rightarrow> ep_state \<Rightarrow> bool" for info drv where
  step_submit: "usb_submit_urb found open0 open1 urb s = (r, s') \<Longrightarrow> usb_step info drv s s'"
| step_unlink: "usb_unlink_urb_sub info drv found urb s = (r, s') \<Longrightarrow> usb_step info drv s s'"
| step_block: "usb_step info drv s (usb_block_urb u s)"
| step_unblock: "usb_step info drv s (usb_unblock_urb u s)"
| step_unsetup: "usb_step info drv s (usb_unsetup_endpoint s)"
| step_bulk: "status_allowed x status s \<Longrightarrow>
    usb_linux_bulk_intr_callback info max_bulk drv x status actlen s = Some s' \<Longrightarrow> usb_step info drv s s'"
| step_ctrl: "status_allowed x status s \<Longrightarrow>
    usb_linux_ctrl_callback info max_ctrl drv x status actlen s = Some s' \<Longrightarrow> usb_step info drv s s'"
| step_isoc: "status_allowed x status s \<Longrightarrow>
    usb_linux_isoc_callback info max_frames drv x status actlen lens s = Some s' \<Longrightarrow> usb_step info drv s s'"

lemma submit_inv: "ep_inv s \<Longrightarrow> ep_inv (snd (usb_submit_urb found open0 open1 urb s))"
proof -
  have insert: "ep_inv (t\<lparr>urb_queued := q, bsd_urb_list := bsd_urb_list t @ [u], urb_linked := (urb_linked t)(u := True),
      urb_submits := (urb_submits t)(u := urb_submits t u + 1)\<rparr>)" if "ep_inv t" "\<not> urb_linked t u" for t u q
    using that by (auto simp: ep_owes_def in_flight_def)
  have sub: "ep_inv (usb_submit_urb_sub x t) = ep_inv t" for x t
    by (simp add: usb_submit_urb_sub_def)
  have ready: "ep_inv (snd (usb_setup_endpoint open0 open1 t)) = ep_inv t" for t
    by (simp add: usb_setup_endpoint_def)
  assume "ep_inv s"
  then show ?thesis
    using ready [of s] insert
    by (auto simp: usb_submit_urb_def sub Let_def split: option.split prod.split)
qed

lemma unlink_inv:
  assumes "good_driver drv" "\<And>u. has_complete (info u)" "ep_inv s"
  shows "ep_inv (snd (usb_unlink_urb_sub info drv found urb s))"
proof -
  have remove: "ep_owes (Some u) (s\<lparr>bsd_urb_list := remove1 u (bsd_urb_list s), urb_linked := (urb_linked s)(u := False)\<rparr>)"
    if "urb_linked s u" for u
    using assms(3) that by (auto simp: ep_owes_def in_flight_def)
  have unlink: "ep_inv (usb_unlink_bsd x u t) = ep_inv t" for x u t
    by (simp add: usb_unlink_bsd_def)
  show ?thesis
    using call_complete_inv [OF assms(1,2)] remove assms(3)
    by (auto simp: usb_unlink_urb_sub_def unlink Let_def split: option.split)
qed

lemma callback_inv:
  assumes "good_driver drv" "\<And>u. has_complete (info u)" "\<And>u s. ep_inv (prepare u s) = ep_inv s" "x < 2"
    and "ep_inv s" "priv_sc1 s x = Some u"
    and "Option.bind (give_back info drv x u s) (tr_setup info fits prepare drv x) = Some s'"
  shows "ep_inv s'"
proof -
  obtain s1 where s1: "give_back info drv x u s = Some s1" "ep_inv s1" "priv_sc1 s1 = (priv_sc1 s)(x := None)"
    using give_back_inv [where info = info and s = s and u = u, OF assms(1,2,5,6,4)] by blast
  with assms(7) have "tr_setup info fits prepare drv x s1 = Some s'" by simp
  moreover have "priv_sc1 s1 x = None" using s1(3) by simp
  ultimately show ?thesis using s1(2) tr_setup_inv [where info = info and prepare = prepare, OF assms(1-4)] by blast
qed

text \<open>All callbacks have the same shape: they give the block of the transfer back, when there is
  one, and set the next one up.\<close>

definition callback_shape ::
    "(nat \<Rightarrow> urb_info) \<Rightarrow> (nat \<Rightarrow> bool) \<Rightarrow> (nat \<Rightarrow> ep_state \<Rightarrow> ep_state) \<Rightarrow> driver \<Rightarrow> nat \<Rightarrow> ep_state \<Rightarrow> ep_state option \<Rightarrow> bool" where
  "callback_shape info fits prepare drv x s R \<longleftrightarrow>
     (priv_sc1 s x = None \<longrightarrow> R = tr_setup info fits prepare drv x s) \<and>
     (\<forall>u. priv_sc1 s x = Some u \<longrightarrow> (\<exists>t. ep_core t = ep_core s \<and>
        (R = give_back info drv x u t \<or> R = Option.bind (give_back info drv x u t) (tr_setup info fits prepare drv x))))"

lemma callback_shape_inv:
  assumes "good_driver drv" "\<And>u. has_complete (info u)" "\<And>u s. ep_inv (prepare u s) = ep_inv s" "x < 2"
    and "callback_shape info fits prepare drv x s R" "ep_inv s" "R = Some s'"
  shows "ep_inv s'"
proof (cases "priv_sc1 s x")
  case None
  then have "tr_setup info fits prepare drv x s = Some s'" using assms(5,7) by (simp add: callback_shape_def)
  then show ?thesis using tr_setup_inv [where info = info and prepare = prepare, OF assms(1-4)] assms(6) None by blast
next
  case (Some u)
  then obtain t where t: "ep_core t = ep_core s"
    "give_back info drv x u t = Some s' \<or> Option.bind (give_back info drv x u t) (tr_setup info fits prepare drv x) = Some s'"
    using assms(5,7) by (auto simp: callback_shape_def)
  have inv: "ep_inv t" "priv_sc1 t x = Some u"
    using ep_owes_core [OF t(1)] assms(6) t(1) Some by (simp_all add: ep_core_def)
  from t(2) show ?thesis
  proof
    assume "give_back info drv x u t = Some s'"
    then show ?thesis
      using give_back_inv [where info = info and s = t and u = u, OF assms(1,2) inv assms(4)] by auto
  next
    assume "Option.bind (give_back info drv x u t) (tr_setup info fits prepare drv x) = Some s'"
    then show ?thesis
      using callback_inv [where info = info and prepare = prepare, OF assms(1-4) inv] by blast
  qed
qed

lemma callback_shape_returns:
  assumes "(\<forall>u. fits u) \<or> (\<forall>u s. length (bsd_urb_list (drv u s)) \<le> length (bsd_urb_list s))"
    and "callback_shape info fits prepare drv x s R"
  shows "R \<noteq> None"
proof (cases "priv_sc1 s x")
  case None
  then show ?thesis
    using assms(2) tr_setup_returns [OF assms(1), of info prepare x s] by (auto simp: callback_shape_def)
next
  case (Some u)
  then obtain t where t: "ep_core t = ep_core s"
    "R = give_back info drv x u t \<or> R = Option.bind (give_back info drv x u t) (tr_setup info fits prepare drv x)"
    using assms(2) by (auto simp: callback_shape_def)
  then have "priv_sc1 t x = Some u" using Some by (simp add: ep_core_def)
  then obtain s1 where "give_back info drv x u t = Some s1"
    by (auto simp: give_back_def usb_linux_complete_def Let_def)
  then show ?thesis using t(2) tr_setup_returns [OF assms(1), of info prepare x s1] by auto
qed

text \<open>A state that differs from \<open>s\<close> only in fields of the block.\<close>

lemma shape_witness: "ep_core t = ep_core s \<Longrightarrow> R = give_back info drv x u t \<Longrightarrow>
    \<exists>t. ep_core t = ep_core s \<and> (R = give_back info drv x u t \<or> R = Option.bind (give_back info drv x u t) f)"
  "ep_core t = ep_core s \<Longrightarrow> R = Option.bind (give_back info drv x u t) f \<Longrightarrow>
    \<exists>t. ep_core t = ep_core s \<and> (R = give_back info drv x u t \<or> R = Option.bind (give_back info drv x u t) f)"
  by blast+

lemma bulk_shape: "status_allowed x status s \<Longrightarrow> callback_shape info (bulk_fits info max_bulk) (bulk_prepare info x) drv x s
    (usb_linux_bulk_intr_callback info max_bulk drv x status actlen s)"
  by (cases status) (auto simp: callback_shape_def status_allowed_def usb_linux_bulk_intr_callback_def Let_def
      intro!: shape_witness(1) [OF _ refl] shape_witness(2) [OF _ refl])

lemma ctrl_shape: "status_allowed x status s \<Longrightarrow> callback_shape info (ctrl_fits info max_ctrl) (ctrl_prepare info x) drv x s
    (usb_linux_ctrl_callback info max_ctrl drv x status actlen s)"
  by (cases status) (auto simp: callback_shape_def status_allowed_def usb_linux_ctrl_callback_def Let_def
      intro!: shape_witness(1) [OF _ refl] shape_witness(2) [OF _ refl])

lemma isoc_shape: "status_allowed x status s \<Longrightarrow> callback_shape info (\<lambda>u. True) (isoc_prepare info max_frames x) drv x s
    (usb_linux_isoc_callback info max_frames drv x status actlen lens s)"
  by (cases status) (auto simp: callback_shape_def status_allowed_def usb_linux_isoc_callback_def Let_def
      intro!: shape_witness(1) [OF _ refl] shape_witness(2) [OF _ refl])

lemma prepare_inv: "ep_inv (bulk_prepare info x u s) = ep_inv s" "ep_inv (ctrl_prepare info x u s) = ep_inv s"
    "ep_inv (isoc_prepare info k x u s) = ep_inv s"
  by (simp_all add: bulk_prepare_def ctrl_prepare_def isoc_prepare_def)

lemma usb_step_inv:
  assumes "good_driver drv" "\<And>u. has_complete (info u)" "usb_step info drv s s'" "ep_inv s"
  shows "ep_inv s'"
  using assms(3,4)
proof (cases rule: usb_step.cases)
  case (step_submit found open0 open1 urb r)
  then show ?thesis using submit_inv [OF assms(4), of found open0 open1 urb] by simp
next
  case (step_unlink found urb r)
  then show ?thesis using unlink_inv [where info = info, OF assms(1,2,4), of found urb] by simp
next
  case (step_bulk x status max_bulk actlen)
  then show ?thesis
    using callback_shape_inv [where info = info and prepare = "bulk_prepare info x", OF assms(1,2) _ _ bulk_shape assms(4)]
    by (auto simp: status_allowed_def prepare_inv)
next
  case (step_ctrl x status max_ctrl actlen)
  then show ?thesis
    using callback_shape_inv [where info = info and prepare = "ctrl_prepare info x", OF assms(1,2) _ _ ctrl_shape assms(4)]
    by (auto simp: status_allowed_def prepare_inv)
next
  case (step_isoc x status max_frames actlen lens)
  then show ?thesis
    using callback_shape_inv [where info = info and prepare = "isoc_prepare info max_frames x", OF assms(1,2) _ _ isoc_shape assms(4)]
    by (auto simp: status_allowed_def prepare_inv)
qed (simp_all add: usb_block_urb_def usb_unblock_urb_def usb_unsetup_endpoint_def assms(4))


section \<open>Properties\<close>

definition ep_start :: ep_state where
  "ep_start = \<lparr>bsd_urb_list = [], urb_linked = \<lambda>_. False, urb_status = \<lambda>_. None, actual_length = \<lambda>_. 0, urb_queued = \<lambda>_. False,
     bsd_no_resubmit = \<lambda>_. False, urb_reject = \<lambda>_. 0, number_of_packets = \<lambda>_. 0, iso_frame_desc = \<lambda>_. [],
     bsd_xfer = \<lambda>_. False, priv_sc1 = \<lambda>_. None, events = [], urb_submits = \<lambda>_. 0\<rparr>"

lemma usb_reachable_inv:
  assumes "good_driver drv" "\<And>u. has_complete (info u)" "(usb_step info drv)\<^sup>*\<^sup>* ep_start s"
  shows "ep_inv s"
  using assms(3)
proof (induction rule: rtranclp_induct)
  case base
  show ?case by (simp add: ep_start_def ep_owes_def completions_def in_flight_def)
next
  case (step s s')
  show ?case by (rule usb_step_inv [where info = info, OF assms(1,2) step(2,3)])
qed

text \<open>A driver that submits every block again when it is completed.\<close>

lemma resubmit_good: "good_driver (\<lambda>u s. snd (usb_submit_urb True True True (Some u) s))"
  unfolding good_driver_def
proof (intro allI conjI impI)
  fix u s assume "ep_inv s"
  then show "ep_inv (snd (usb_submit_urb True True True (Some u) s))" by (rule submit_inv)
next
  fix u s
  show "priv_sc1 (snd (usb_submit_urb True True True (Some u) s)) = priv_sc1 s"
    by (auto simp: usb_submit_urb_def usb_setup_endpoint_def usb_submit_urb_sub_def Let_def)
qed



text \<open>C16: the callback of isochronous transfers always returns; those of bulk, interrupt and
  control transfers return when the blocks fit into the transfer, or when the completion
  functions do not submit blocks.\<close>

theorem usb_callbacks_return:
  assumes "status_allowed x status s"
  shows "usb_linux_isoc_callback info max_frames drv x status actlen lens s \<noteq> None \<and>
    ((\<forall>u. bulk_fits info max_bulk u) \<or> (\<forall>u s. length (bsd_urb_list (drv u s)) \<le> length (bsd_urb_list s)) \<longrightarrow>
      usb_linux_bulk_intr_callback info max_bulk drv x status actlen s \<noteq> None) \<and>
    ((\<forall>u. ctrl_fits info max_ctrl u) \<or> (\<forall>u s. length (bsd_urb_list (drv u s)) \<le> length (bsd_urb_list s)) \<longrightarrow>
      usb_linux_ctrl_callback info max_ctrl drv x status actlen s \<noteq> None)"
proof (intro conjI impI)
  show "usb_linux_isoc_callback info max_frames drv x status actlen lens s \<noteq> None"
    by (rule callback_shape_returns [OF _ isoc_shape [OF assms]]) simp
  show "usb_linux_bulk_intr_callback info max_bulk drv x status actlen s \<noteq> None"
    if "(\<forall>u. bulk_fits info max_bulk u) \<or> (\<forall>u s. length (bsd_urb_list (drv u s)) \<le> length (bsd_urb_list s))"
    by (rule callback_shape_returns [OF that bulk_shape [OF assms]])
  show "usb_linux_ctrl_callback info max_ctrl drv x status actlen s \<noteq> None"
    if "(\<forall>u. ctrl_fits info max_ctrl u) \<or> (\<forall>u s. length (bsd_urb_list (drv u s)) \<le> length (bsd_urb_list s))"
    by (rule callback_shape_returns [OF that ctrl_shape [OF assms]])
qed

theorem usb_callbacks_return_witness:
  "usb_linux_bulk_intr_callback (\<lambda>_. \<lparr>transfer_buffer_length = 10, short_not_ok = False, zero_packet = False, urb_timeout = 0, has_complete = True\<rparr>) 64
     (\<lambda>u s. snd (usb_submit_urb True True True (Some u) s)) 0 TRANSFER_START 0
     (snd (usb_submit_urb True True True (Some 3) ep_start)) \<noteq> None"
proof -
  have "status_allowed 0 TRANSFER_START (snd (usb_submit_urb True True True (Some 3) ep_start))"
    by (simp add: status_allowed_def ep_start_def usb_submit_urb_def usb_setup_endpoint_def usb_submit_urb_sub_def
        add_event_def set_status_def)
  from usb_callbacks_return [OF this, of "\<lambda>_. \<lparr>transfer_buffer_length = 10, short_not_ok = False, zero_packet = False, urb_timeout = 0, has_complete = True\<rparr>" _ _ _ _ 64]
  show ?thesis by (simp add: bulk_fits_def)
qed

text \<open>C23: a submission that is refused, because the block is blocked, its endpoint is not found
  or cannot be opened, leaves the queue and the transfers alone; an accepted one leaves the
  block at the end of the queue, or where it was, and is in progress.  Unlinking a queued
  block takes it out and calls its completion function with \<open>ECONNRESET\<close>, and unlinking a
  block that a transfer works on stops and restarts that transfer.\<close>

theorem urb_submit_unlink:
  "(usb_submit_urb found open0 open1 urb s = (Some e, s') \<longrightarrow>
      bsd_urb_list s' = bsd_urb_list s \<and> events s' = events s \<and> priv_sc1 s' = priv_sc1 s \<and> urb_submits s' = urb_submits s) \<and>
   (usb_submit_urb found open0 open1 (Some u) s = (None, s') \<longrightarrow>
      urb_reject s u = 0 \<and> urb_linked s' u \<and> bsd_urb_list s' = (if urb_linked s u then bsd_urb_list s else bsd_urb_list s @ [u]) \<and>
      (\<not> urb_linked s u \<longrightarrow> urb_status s' u = Some EINPROGRESS)) \<and>
   (urb_linked s u \<and> has_complete (info u) \<longrightarrow>
      (\<exists>t. usb_unlink_urb_sub info drv True (Some u) s = (None, drv u t) \<and> bsd_urb_list t = remove1 u (bsd_urb_list s) \<and>
         events t = events s @ [Completed u (Some ECONNRESET)] \<and> actual_length t u = 0)) \<and>
   (\<not> urb_linked s u \<and> bsd_xfer s 0 \<and> priv_sc1 s 0 = Some u \<and> priv_sc1 s 1 \<noteq> Some u \<longrightarrow>
      usb_unlink_urb_sub info drv True (Some u) s = (None, s\<lparr>events := events s @ [Tr_stop 0, Tr_start 0]\<rparr>))"
proof (intro conjI impI)
  assume "usb_submit_urb found open0 open1 urb s = (Some e, s')"
  then show "bsd_urb_list s' = bsd_urb_list s" "events s' = events s" "priv_sc1 s' = priv_sc1 s" "urb_submits s' = urb_submits s"
    by (auto simp: usb_submit_urb_def usb_setup_endpoint_def set_status_def Let_def split: option.splits if_splits prod.splits)
next
  assume a: "usb_submit_urb found open0 open1 (Some u) s = (None, s')"
  note defs = usb_submit_urb_def usb_setup_endpoint_def set_status_def usb_submit_urb_sub_def add_event_def
  show "urb_reject s u = 0" using a by (auto simp: defs Let_def split: if_splits prod.splits)
  show "urb_linked s' u" using a by (auto simp: defs Let_def split: if_splits prod.splits)
  show "bsd_urb_list s' = (if urb_linked s u then bsd_urb_list s else bsd_urb_list s @ [u])"
    using a by (auto simp: defs Let_def split: if_splits prod.splits)
  show "urb_status s' u = Some EINPROGRESS" if "\<not> urb_linked s u"
    using a that by (auto simp: defs Let_def split: if_splits prod.splits)
next
  assume "urb_linked s u \<and> has_complete (info u)"
  then show "\<exists>t. usb_unlink_urb_sub info drv True (Some u) s = (None, drv u t) \<and> bsd_urb_list t = remove1 u (bsd_urb_list s) \<and>
      events t = events s @ [Completed u (Some ECONNRESET)] \<and> actual_length t u = 0"
    by (auto simp: usb_unlink_urb_sub_def call_complete_def add_event_def set_status_def set_actual_def map_frames_def Let_def)
next
  assume "\<not> urb_linked s u \<and> bsd_xfer s 0 \<and> priv_sc1 s 0 = Some u \<and> priv_sc1 s 1 \<noteq> Some u"
  then show "usb_unlink_urb_sub info drv True (Some u) s = (None, s\<lparr>events := events s @ [Tr_stop 0, Tr_start 0]\<rparr>)"
    by (simp add: usb_unlink_urb_sub_def usb_unlink_bsd_def add_event_def)
qed

theorem urb_submit_unlink_witness:
  "bsd_urb_list (snd (usb_unlink_urb_sub (\<lambda>_. \<lparr>transfer_buffer_length = 10, short_not_ok = False, zero_packet = False, urb_timeout = 0, has_complete = True\<rparr>) (\<lambda>u s. s) True
     (Some 3) (snd (usb_submit_urb True True True (Some 3) ep_start)))) = []"
proof -
  have s: "urb_linked (snd (usb_submit_urb True True True (Some 3) ep_start)) 3"
    "bsd_urb_list (snd (usb_submit_urb True True True (Some 3) ep_start)) = [3]"
    by (simp_all add: ep_start_def usb_submit_urb_def usb_setup_endpoint_def usb_submit_urb_sub_def add_event_def set_status_def)
  then show ?thesis
    using urb_submit_unlink [of True True True "Some 3" "snd (usb_submit_urb True True True (Some 3) ep_start)" EINVAL ep_start 3
        "\<lambda>_. \<lparr>transfer_buffer_length = 10, short_not_ok = False, zero_packet = False, urb_timeout = 0, has_complete = True\<rparr>" "\<lambda>u s. s"]
    by auto
qed

end
