(* ===== verification/Devices.thy ===== *)
theory Devices
  imports Bit_Ops
begin

text \<open>
  Character devices, device objects, drivers and reference counts (\<open>kernel/linux_func.c\<close>).
  Pointers are 64-bit words, with 0 for \<open>NULL\<close>, and the objects they point to are kept in a
  store.  A device number is a 64-bit \<open>dev_t\<close> with the major number in the bits 16 to 31.  The
  major numbers of the Linux headers are a parameter, as are the functions of a bus.  The
  array \<open>cdev_registry\<close> is read by \<open>webcamd.c\<close> to find the driver of a device that is opened.
\<close>

type_synonym addr = u64

section \<open>Error pointers and reference counts\<close>

definition IS_ERR_VALUE :: "u64 \<Rightarrow> bool" where
  "IS_ERR_VALUE x \<longleftrightarrow> x \<ge> - push_bit 14 1"

definition ERR_PTR :: "int \<Rightarrow> addr" where
  "ERR_PTR error = word_of_int error"

definition PTR_ERR :: "addr \<Rightarrow> int" where
  "PTR_ERR ptr = sint ptr"

definition IS_ERR :: "addr \<Rightarrow> bool" where
  "IS_ERR ptr = IS_ERR_VALUE ptr"

definition PTR_ERR_OR_ZERO :: "addr \<Rightarrow> int" where
  "PTR_ERR_OR_ZERO ptr = (if IS_ERR ptr then PTR_ERR ptr else 0)"

text \<open>A \<open>kref\<close> is its counter; \<open>kref_put\<close> also says whether the release function was called.\<close>

definition kref_init :: "u32 \<Rightarrow> u32" where
  "kref_init kref = 1"

definition kref_get :: "u32 \<Rightarrow> u32" where
  "kref_get kref = snd (atomic_inc kref)"

definition kref_get_unless_zero :: "u32 \<Rightarrow> bool \<times> u32" where
  "kref_get_unless_zero kref = atomic_add_unless kref 1 0"

definition kref_put :: "u32 \<Rightarrow> bool \<times> u32" where
  "kref_put kref = (let (i, kref) = atomic_dec kref in if i = 0 then (True, kref) else (False, kref))"

definition refcount_read :: "u32 \<Rightarrow> u32" where
  "refcount_read r = atomic_read r"

definition refcount_dec_and_test :: "u32 \<Rightarrow> bool \<times> u32" where
  "refcount_dec_and_test r = atomic_dec_and_test r"

definition refcount_set :: "u32 \<Rightarrow> u32 \<Rightarrow> u32" where
  "refcount_set r i = atomic_set r i"

definition refcount_inc :: "u32 \<Rightarrow> u32" where
  "refcount_inc r = snd (atomic_inc r)"

section \<open>Character devices\<close>

definition F_V4B_SUBDEV_MAX :: nat where "F_V4B_SUBDEV_MAX = 8"
definition F_V4B_SUBSUBDEV_MAX :: nat where "F_V4B_SUBSUBDEV_MAX = 4"
definition SUB_MAX :: nat where "SUB_MAX = F_V4B_SUBDEV_MAX * F_V4B_SUBSUBDEV_MAX"

datatype f_v4b =
    F_V4B_VIDEO | F_V4B_DVB_AUDIO | F_V4B_DVB_CA | F_V4B_DVB_DEMUX | F_V4B_DVB_DVR
  | F_V4B_DVB_FRONTEND | F_V4B_DVB_OSD | F_V4B_DVB_SEC | F_V4B_DVB_VIDEO | F_V4B_LIRC
  | F_V4B_EVDEV | F_V4B_JOYDEV | F_V4B_ROCCAT

text \<open>The number of an enumeration value, which indexes the arrays.\<close>

fun f_v4b_num :: "f_v4b \<Rightarrow> nat" where
  "f_v4b_num F_V4B_VIDEO = 0"
| "f_v4b_num F_V4B_DVB_AUDIO = 1"
| "f_v4b_num F_V4B_DVB_CA = 2"
| "f_v4b_num F_V4B_DVB_DEMUX = 3"
| "f_v4b_num F_V4B_DVB_DVR = 4"
| "f_v4b_num F_V4B_DVB_FRONTEND = 5"
| "f_v4b_num F_V4B_DVB_OSD = 6"
| "f_v4b_num F_V4B_DVB_SEC = 7"
| "f_v4b_num F_V4B_DVB_VIDEO = 8"
| "f_v4b_num F_V4B_LIRC = 9"
| "f_v4b_num F_V4B_EVDEV = 10"
| "f_v4b_num F_V4B_JOYDEV = 11"
| "f_v4b_num F_V4B_ROCCAT = 12"

definition F_V4B_MAX :: nat where "F_V4B_MAX = 13"

text \<open>The major numbers that the Linux headers define.\<close>

record majors =
  INPUT_MAJOR :: u64
  VIDEO_MAJOR :: u64
  DVB_MAJOR :: u64

definition ROCCAT_MAJOR :: u64 where "ROCCAT_MAJOR = 35"
definition LIRC_MAJOR :: u64 where "LIRC_MAJOR = 14"
definition EVDEV_MINOR_BASE :: u64 where "EVDEV_MINOR_BASE = 64"
definition JOYDEV_MINOR_BASE :: u64 where "JOYDEV_MINOR_BASE = 0"

definition MKDEV :: "u64 \<Rightarrow> u64 \<Rightarrow> u64" where
  "MKDEV maj mn =
     ucast (ucast (push_bit 16 (maj AND 0xFFFF) OR (mn AND 0xFFFF)) :: u32)"

record cdev =
  cdev_ops :: addr
  mm_start :: u64
  mm_end :: u64
  cdev_kobj_parent :: addr
  is_alloced :: bool

text \<open>The arrays, the module parameter and the objects; \<open>None\<close> is memory that is not (any more)
  allocated.\<close>

record cdev_state =
  cdev_registry :: "nat \<Rightarrow> nat \<Rightarrow> addr"
  cdev_mm :: "nat \<Rightarrow> nat \<Rightarrow> u32"
  dvb_swap_fe :: u32
  cdevs :: "addr \<Rightarrow> cdev option"

text \<open>The two assignments that enter a device into the arrays.\<close>

definition registry_set :: "f_v4b \<Rightarrow> u8 \<Rightarrow> addr \<Rightarrow> u64 \<Rightarrow> cdev_state \<Rightarrow> cdev_state" where
  "registry_set f subdev cdev mm s =
     s\<lparr>cdev_registry := (cdev_registry s)(f_v4b_num f :=
         (cdev_registry s (f_v4b_num f))(unat subdev := cdev)),
       cdev_mm := (cdev_mm s)(f_v4b_num f :=
         (cdev_mm s (f_v4b_num f))(unat subdev := ucast mm))\<rparr>"

text \<open>The inner switch for the devices of a DVB adapter.\<close>

definition dvb_kind :: "majors \<Rightarrow> u64 \<Rightarrow> f_v4b option" where
  "dvb_kind M mm =
     (let c = mm AND 0xFFFF000F in
      if c = MKDEV (DVB_MAJOR M) 1 then Some F_V4B_DVB_AUDIO
      else if c = MKDEV (DVB_MAJOR M) 6 then Some F_V4B_DVB_CA
      else if c = MKDEV (DVB_MAJOR M) 4 then Some F_V4B_DVB_DEMUX
      else if c = MKDEV (DVB_MAJOR M) 5 then Some F_V4B_DVB_DVR
      else if c = MKDEV (DVB_MAJOR M) 3 then Some F_V4B_DVB_FRONTEND
      else if c = MKDEV (DVB_MAJOR M) 8 then Some F_V4B_DVB_OSD
      else if c = MKDEV (DVB_MAJOR M) 2 then Some F_V4B_DVB_SEC
      else if c = MKDEV (DVB_MAJOR M) 0 then Some F_V4B_DVB_VIDEO
      else None)"

definition cdev_set_device :: "majors \<Rightarrow> u64 \<Rightarrow> addr \<Rightarrow> cdev_state \<Rightarrow> cdev_state" where
  "cdev_set_device M mm cdev s =
     (let c = mm AND 0xFFFF0000 in
      if c = MKDEV (INPUT_MAJOR M) 0 then
        (let d = mm AND 0xFFC0; subdev = ucast (mm AND 0x3F) :: u8 in
         if d = EVDEV_MINOR_BASE then
           (if unat subdev \<ge> F_V4B_SUBDEV_MAX then s else registry_set F_V4B_EVDEV subdev cdev mm s)
         else if d = JOYDEV_MINOR_BASE then
           (if unat subdev \<ge> F_V4B_SUBDEV_MAX then s else registry_set F_V4B_JOYDEV subdev cdev mm s)
         else s)
      else if c = MKDEV LIRC_MAJOR 0 then
        (let subdev = ucast (mm AND 0xFF) :: u8 in
         if unat subdev \<ge> F_V4B_SUBDEV_MAX then s else registry_set F_V4B_LIRC subdev cdev mm s)
      else if c = MKDEV ROCCAT_MAJOR 0 then
        (let subdev = ucast (mm AND 0xFF) :: u8 in
         if unat subdev \<ge> F_V4B_SUBDEV_MAX then s else registry_set F_V4B_ROCCAT subdev cdev mm s)
      else if c = MKDEV (VIDEO_MAJOR M) 0 then
        (let subdev = ucast (mm AND 0xFF) :: u8 in
         if unat subdev \<ge> F_V4B_SUBDEV_MAX then s else registry_set F_V4B_VIDEO subdev cdev mm s)
      else if c = MKDEV (DVB_MAJOR M) 0 then
        (let subdev = ucast (drop_bit 6 mm AND 0x3FF) :: u8 in
         if unat subdev \<ge> F_V4B_SUBDEV_MAX then s
         else
           let id = ucast (drop_bit 4 mm AND 0x03) :: u8;
               id = (if mm AND 0xFFFF000F = MKDEV (DVB_MAJOR M) 3
                     then ucast ((ucast id XOR dvb_swap_fe s) AND 0x03) else id);
               subdev = subdev + of_nat F_V4B_SUBDEV_MAX * id
           in case dvb_kind M mm of
                Some f \<Rightarrow> registry_set f subdev cdev mm s
              | None \<Rightarrow> s)
      else s)"

definition cdev_get_device :: "u32 \<Rightarrow> cdev_state \<Rightarrow> addr" where
  "cdev_get_device f_v4b s =
     (let subunit = unat f_v4b mod SUB_MAX; f_v4b = unat f_v4b div SUB_MAX in
      if f_v4b \<ge> F_V4B_MAX then 0 else cdev_registry s f_v4b subunit)"

definition cdev_get_mm :: "u32 \<Rightarrow> cdev_state \<Rightarrow> u32" where
  "cdev_get_mm f_v4b s =
     (let subunit = unat f_v4b mod SUB_MAX; f_v4b = unat f_v4b div SUB_MAX in
      if f_v4b \<ge> F_V4B_MAX then 0 else cdev_mm s f_v4b subunit)"

definition cdev_init :: "addr \<Rightarrow> addr \<Rightarrow> cdev_state \<Rightarrow> cdev_state" where
  "cdev_init cdev fops s =
     s\<lparr>cdevs := (cdevs s)(cdev \<mapsto>
         \<lparr>cdev_ops = fops, mm_start = 0, mm_end = 0, cdev_kobj_parent = 0, is_alloced = False\<rparr>)\<rparr>"

text \<open>An assignment to fields of an object.\<close>

definition cdev_update :: "(cdev \<Rightarrow> cdev) \<Rightarrow> addr \<Rightarrow> cdev_state \<Rightarrow> cdev_state" where
  "cdev_update f cdev s = s\<lparr>cdevs := (cdevs s)(cdev := map_option f (cdevs s cdev))\<rparr>"

text \<open>\<open>mem\<close> is the result of \<open>malloc\<close>.\<close>

definition cdev_alloc :: "addr \<Rightarrow> cdev_state \<Rightarrow> addr \<times> cdev_state" where
  "cdev_alloc mem s =
     (let cdev = mem in
      if cdev = 0 then (cdev, s)
      else (cdev, cdev_update (is_alloced_update (\<lambda>_. True)) cdev (cdev_init cdev 0 s)))"

text \<open>The loop of \<open>cdev_add\<close> and \<open>cdev_del\<close> over the device numbers up to \<open>mm_end\<close>.\<close>

function (sequential) cdev_set_range ::
  "majors \<Rightarrow> u64 \<Rightarrow> u64 \<Rightarrow> addr \<Rightarrow> cdev_state \<Rightarrow> cdev_state" where
  "cdev_set_range M mm mm_e cdev s =
     (if mm \<noteq> mm_e then cdev_set_range M (mm + 1) mm_e cdev (cdev_set_device M mm cdev s) else s)"
  by pat_completeness auto
termination
proof (relation "measure (\<lambda>(M, mm, mm_e, cdev, s). unat (mm_e - mm))", goal_cases)
  case (2 M mm mm_e cdev s)
  then have "mm_e - mm \<noteq> 0" by simp
  then have "unat (mm_e - mm - 1) < unat (mm_e - mm)"
    by (metis add.right_neutral diff_add_cancel measure_unat)
  then show ?case by (simp add: algebra_simps)
qed simp

declare cdev_set_range.simps [simp del]

definition cdev_add :: "majors \<Rightarrow> addr \<Rightarrow> u64 \<Rightarrow> u32 \<Rightarrow> cdev_state \<Rightarrow> cdev_state" where
  "cdev_add M cdev mm count s =
     (let s = cdev_update (\<lambda>c. c\<lparr>mm_start := mm, mm_end := mm + ucast count\<rparr>) cdev s in
      cdev_set_range M mm (mm + ucast count) cdev s)"

definition register_chrdev ::
  "majors \<Rightarrow> addr \<Rightarrow> u64 \<Rightarrow> addr \<Rightarrow> cdev_state \<Rightarrow> bool \<times> cdev_state" where
  "register_chrdev M mem mm fops s =
     (if mm = INPUT_MAJOR M then
        (let (cdev, s) = cdev_alloc mem s in
         if cdev = 0 then (False, s)
         else
           let s = cdev_update (\<lambda>c. c\<lparr>cdev_ops := fops\<rparr>) cdev s
           in (True, cdev_add M cdev (MKDEV mm EVDEV_MINOR_BASE) 32 s))
      else (False, s))"

definition cdev_del :: "majors \<Rightarrow> addr \<Rightarrow> cdev_state \<Rightarrow> cdev_state" where
  "cdev_del M cdev s =
     (if cdev = 0 then s
      else
        let c = the (cdevs s cdev);
            s = cdev_set_range M (mm_start c) (mm_end c) 0 s
        in if is_alloced c then s\<lparr>cdevs := (cdevs s)(cdev := None)\<rparr> else s)"

definition cdev_set_parent :: "addr \<Rightarrow> addr \<Rightarrow> cdev_state \<Rightarrow> cdev_state" where
  "cdev_set_parent p kobj s = cdev_update (\<lambda>c. c\<lparr>cdev_kobj_parent := kobj\<rparr>) p s"

definition alloc_chrdev_region :: "u64 \<Rightarrow> string \<Rightarrow> errno + u64" where
  "alloc_chrdev_region basemin name =
     (if name = ''lirc'' then Inr (MKDEV LIRC_MAJOR basemin)
      else if name = ''roccat'' then Inr (MKDEV ROCCAT_MAJOR basemin)
      else Inl ENOMEM)"

section \<open>Devices, drivers and buses\<close>

record device =
  refcount :: u32
  driver :: addr
  parent :: addr
  bus :: addr
  devt :: u64
  dev_class :: addr
  driver_data :: addr
  dev_nm :: string
  bus_id :: string

text \<open>The functions of a bus, as far as they are set: \<open>match\<close> and \<open>probe\<close> are called for a
  device and the driver that is tried.\<close>

record bus_ops =
  bus_match :: "(addr \<Rightarrow> addr \<Rightarrow> bool) option"
  bus_probe :: "(addr \<Rightarrow> addr \<Rightarrow> errno option) option"

text \<open>The queue of the drivers with the bus of each; a driver is linked when its field
  \<open>tqe_prev\<close> is not null.\<close>

record dev_state = cdev_state +
  devices :: "addr \<Rightarrow> device option"
  device_driver_head :: "addr list"
  driver_bus :: "addr \<Rightarrow> addr"
  driver_linked :: "addr \<Rightarrow> bool"
  bus_type_head :: "addr list"
  bus_linked :: "addr \<Rightarrow> bool"

definition device_update :: "(device \<Rightarrow> device) \<Rightarrow> addr \<Rightarrow> dev_state \<Rightarrow> dev_state" where
  "device_update f dev s = s\<lparr>devices := (devices s)(dev := map_option f (devices s dev))\<rparr>"

definition get_device :: "addr \<Rightarrow> dev_state \<Rightarrow> dev_state" where
  "get_device dev s =
     (if dev \<noteq> 0 then device_update (\<lambda>d. d\<lparr>refcount := kref_get (refcount d)\<rparr>) dev s else s)"

text \<open>The release function \<open>dev_release\<close> is empty.\<close>

definition dev_release :: "addr \<Rightarrow> dev_state \<Rightarrow> dev_state" where
  "dev_release dev s = s"

definition put_device :: "addr \<Rightarrow> dev_state \<Rightarrow> dev_state" where
  "put_device dev s =
     (if dev \<noteq> 0 then
        (let (released, r) = kref_put (refcount (the (devices s dev)));
             s = device_update (\<lambda>d. d\<lparr>refcount := r\<rparr>) dev s
         in if released then dev_release dev s else s)
      else s)"

definition device_move :: "addr \<Rightarrow> addr \<Rightarrow> dev_state \<Rightarrow> dev_state" where
  "device_move dev new_parent s =
     (let p = parent (the (devices s dev));
          s = (if p \<noteq> 0 then put_device p s else s);
          s = device_update (\<lambda>d. d\<lparr>parent := new_parent\<rparr>) dev s
      in if new_parent \<noteq> 0 then get_device new_parent s else s)"

definition driver_register :: "addr \<Rightarrow> dev_state \<Rightarrow> dev_state" where
  "driver_register drv s =
     s\<lparr>device_driver_head := device_driver_head s @ [drv],
       driver_linked := (driver_linked s)(drv := True)\<rparr>"

definition driver_unregister :: "addr \<Rightarrow> dev_state \<Rightarrow> errno option \<times> dev_state" where
  "driver_unregister drv s =
     (if \<not> driver_linked s drv then (Some EINVAL, s)
      else (None, s\<lparr>device_driver_head := remove1 drv (device_driver_head s),
                    driver_linked := (driver_linked s)(drv := False)\<rparr>))"

definition bus_register :: "addr \<Rightarrow> dev_state \<Rightarrow> dev_state" where
  "bus_register b s =
     s\<lparr>bus_type_head := bus_type_head s @ [b], bus_linked := (bus_linked s)(b := True)\<rparr>"

definition bus_unregister :: "addr \<Rightarrow> dev_state \<Rightarrow> errno option \<times> dev_state" where
  "bus_unregister b s =
     (if \<not> bus_linked s b then (Some EINVAL, s)
      else (None, s\<lparr>bus_type_head := remove1 b (bus_type_head s),
                    bus_linked := (bus_linked s)(b := False)\<rparr>))"

text \<open>The loop of \<open>device_add\<close> over the drivers.\<close>

fun device_add_loop ::
  "(addr \<Rightarrow> bus_ops) \<Rightarrow> addr \<Rightarrow> addr list \<Rightarrow> dev_state \<Rightarrow> errno option \<times> dev_state" where
  "device_add_loop B dev [] s = (Some ENXIO, device_update (\<lambda>d. d\<lparr>driver := 0\<rparr>) dev s)"
| "device_add_loop B dev (drv # drvs) s =
     (let b = bus (the (devices s dev)) in
      if driver_bus s drv \<noteq> b then device_add_loop B dev drvs s
      else
        let s = device_update (\<lambda>d. d\<lparr>driver := drv\<rparr>) dev s in
        if (case bus_match (B b) of Some match \<Rightarrow> \<not> match dev drv | None \<Rightarrow> False)
        then device_add_loop B dev drvs s
        else if (case bus_probe (B b) of Some probe \<Rightarrow> probe dev drv \<noteq> None | None \<Rightarrow> False)
        then device_add_loop B dev drvs s
        else (None, get_device dev s))"

definition device_add :: "(addr \<Rightarrow> bus_ops) \<Rightarrow> addr \<Rightarrow> dev_state \<Rightarrow> errno option \<times> dev_state" where
  "device_add B dev s =
     (if bus (the (devices s dev)) = 0 then (None, get_device dev s)
      else device_add_loop B dev (device_driver_head s) s)"

text \<open>The function \<open>remove\<close> of the bus works on data of the driver.\<close>

definition device_del :: "addr \<Rightarrow> dev_state \<Rightarrow> dev_state" where
  "device_del dev s =
     (let s = device_update (\<lambda>d. d\<lparr>driver := 0\<rparr>) dev s in put_device dev s)"

definition device_register ::
  "(addr \<Rightarrow> bus_ops) \<Rightarrow> addr \<Rightarrow> dev_state \<Rightarrow> errno option \<times> dev_state" where
  "device_register B dev s = device_add B dev s"

definition device_unregister :: "addr \<Rightarrow> dev_state \<Rightarrow> dev_state" where
  "device_unregister dev s = device_del dev s"

text \<open>\<open>mem\<close> is the result of \<open>kzalloc\<close>, \<open>class_name\<close> the name of the class (\<open>None\<close> for a null
  pointer) and \<open>txt\<close> the formatted name.  The address of \<open>driver_static\<close>, a field of the
  object, is \<open>drv\<close>.\<close>

definition device_create_vargs ::
  "(addr \<Rightarrow> bus_ops) \<Rightarrow> addr \<Rightarrow> addr \<Rightarrow> addr \<Rightarrow> string option \<Rightarrow> addr \<Rightarrow> u64 \<Rightarrow> addr \<Rightarrow>
   string \<Rightarrow> dev_state \<Rightarrow> (errno + addr) \<times> dev_state" where
  "device_create_vargs B mem drv cls class_name par dt drvdata txt s =
     (if cls = 0 \<or> IS_ERR cls then (Inl ENODEV, put_device 0 s)
      else if mem = 0 then (Inl ENOMEM, put_device 0 s)
      else
        let s = s\<lparr>devices := (devices s)(mem \<mapsto>
              \<lparr>refcount = 0, driver = drv, parent = par, bus = 0, devt = dt, dev_class = cls,
               driver_data = drvdata,
               dev_nm = (case class_name of Some n \<Rightarrow> take 63 (''webcamd.'' @ n) | None \<Rightarrow> []),
               bus_id = take 31 txt\<rparr>)\<rparr>;
            (retval, s) = device_register B mem s
        in case retval of
             Some e \<Rightarrow> (Inl e, put_device mem s)
           | None \<Rightarrow> (Inr mem, s))"

text \<open>A function on the character devices, in the greater state.\<close>

definition on_cdevs :: "(cdev_state \<Rightarrow> cdev_state) \<Rightarrow> dev_state \<Rightarrow> dev_state" where
  "on_cdevs f s = (let c = f (cdev_state.truncate s) in
     s\<lparr>cdev_registry := cdev_registry c, cdev_mm := cdev_mm c, dvb_swap_fe := dvb_swap_fe c,
       cdevs := cdevs c\<rparr>)"

definition cdev_device_add ::
  "(addr \<Rightarrow> bus_ops) \<Rightarrow> majors \<Rightarrow> addr \<Rightarrow> addr \<Rightarrow> dev_state \<Rightarrow> errno option \<times> dev_state" where
  "cdev_device_add B M cdev dev s =
     (let s = (if devt (the (devices s dev)) \<noteq> 0 then
                 on_cdevs (cdev_add M cdev (devt (the (devices s dev))) 1 \<circ> cdev_set_parent cdev dev) s
               else s);
          (rc, s) = device_add B dev s
      in if rc \<noteq> None then (rc, on_cdevs (cdev_del M cdev) s) else (rc, s))"

definition cdev_device_del :: "majors \<Rightarrow> addr \<Rightarrow> addr \<Rightarrow> dev_state \<Rightarrow> dev_state" where
  "cdev_device_del M cdev dev s =
     (let s = device_del dev s in
      if devt (the (devices s dev)) \<noteq> 0 then on_cdevs (cdev_del M cdev) s else s)"

section \<open>Device numbers\<close>

text \<open>The major and the minor number of a device number.\<close>

definition major_of :: "u64 \<Rightarrow> nat" where
  "major_of mm = unat mm div 65536 mod 65536"

definition minor_of :: "u64 \<Rightarrow> nat" where
  "minor_of mm = unat mm mod 65536"

lemma mask_numerals:
  "(0xFFFF :: u64) = mask 16" "(0xFF :: u64) = mask 8" "(0x3F :: u64) = mask 6"
  "(0x3FF :: u64) = mask 10" "(3 :: u64) = mask 2"
  "(0xFFFF0000 :: u64) = push_bit 16 (mask 16)"
  "(0xFFFF000F :: u64) = push_bit 16 (mask 16) OR mask 4"
  "(0xFFC0 :: u64) = push_bit 6 (mask 10)"
  by (simp_all add: mask_eq_exp_minus_1)

lemma unat_join16:
  assumes "n \<le> 16"
  shows "unat (push_bit 16 (a AND mask 16 :: u64) OR (b AND mask n)) =
    65536 * (unat a mod 65536) + unat b mod 2 ^ n"
proof -
  have b: "unat b mod 2 ^ n < 65536"
  proof -
    have "(2 :: nat) ^ n \<le> 65536"
      using assms power_increasing [of n 16 "2 :: nat"] by simp
    then show ?thesis
      using mod_less_divisor [of "2 ^ n" "unat b"] by (metis less_le_trans zero_less_numeral zero_less_power)
  qed
  have less: "65536 * (unat a mod 65536) + unat b mod 2 ^ n < 18446744073709551616"
    using b mod_less_divisor [of 65536 "unat a"] by linarith
  then have p: "unat (push_bit 16 (a AND mask 16)) = 65536 * (unat a mod 65536)"
    by (simp only: unsigned_push_bit_eq)
       (simp add: push_bit_eq_mult take_bit_nat_eq_self unat_and_mask mult.commute)
  have "push_bit 16 (a AND mask 16) OR (b AND mask n) =
      push_bit 16 (a AND mask 16) + (b AND mask n)"
    using assms by (intro disjunctive_add_eq_or [symmetric] bit_eqI) (auto simp: bit_simps)
  then show ?thesis
    using less by (simp only: unat_word_ariths p unat_and_mask) simp
qed

lemma unat_MKDEV: "unat (MKDEV a b) = 65536 * (unat a mod 65536) + unat b mod 65536"
proof -
  let ?w = "push_bit 16 (a AND mask 16) OR (b AND mask 16) :: u64"
  have u: "unat ?w = 65536 * (unat a mod 65536) + unat b mod 65536"
    using unat_join16 [of 16 a b] by simp
  have "65536 * (unat a mod 65536) + unat b mod 65536 < 4294967296"
    using mod_less_divisor [of 65536 "unat a"] mod_less_divisor [of 65536 "unat b"] by linarith
  then show ?thesis
    by (simp only: MKDEV_def mask_numerals unat_ucast_mod u) simp
qed

lemma unat_major_part: "unat (mm AND 0xFFFF0000 :: u64) = 65536 * major_of mm"
proof -
  have "mm AND 0xFFFF0000 = push_bit 16 (drop_bit 16 mm AND mask 16) OR (mm AND mask 0)"
    unfolding mask_numerals by (rule bit_eqI) (auto simp: bit_simps)
  then show ?thesis by (simp only: unat_join16 unat_drop_bit_div major_of_def) simp
qed

lemma unat_dvb_part: "unat (mm AND 0xFFFF000F :: u64) = 65536 * major_of mm + minor_of mm mod 16"
proof -
  have "mm AND 0xFFFF000F = push_bit 16 (drop_bit 16 mm AND mask 16) OR (mm AND mask 4)"
    unfolding mask_numerals by (rule bit_eqI) (auto simp: bit_simps)
  then show ?thesis
    by (simp only: unat_join16 unat_drop_bit_div major_of_def minor_of_def)
       (simp add: mod_mod_cancel)
qed

lemma unat_input_part: "unat (mm AND 0xFFC0 :: u64) = 64 * (minor_of mm div 64)"
proof -
  have "mm AND 0xFFC0 = push_bit 6 (drop_bit 6 mm AND mask 10)"
    unfolding mask_numerals by (rule bit_eqI) (auto simp: bit_simps)
  moreover have "64 * (unat mm div 64 mod 1024) < 18446744073709551616"
    using mod_less_divisor [of 1024 "unat mm div 64"] by linarith
  moreover have "unat mm div 64 mod 1024 = unat mm mod 65536 div 64"
    using div_exp_mod_exp_eq [of "unat mm" 6 10] mod_mult2_eq [of "unat mm" 64 1024] by simp
  ultimately show ?thesis
    by (simp only: unsigned_push_bit_eq unat_and_mask unat_drop_bit_div)
       (simp add: minor_of_def push_bit_eq_mult take_bit_nat_eq_self mult.commute)
qed

lemma unat_and_numerals:
  "unat (mm AND 0x3F :: u64) = minor_of mm mod 64"
  "unat (mm AND 0xFF :: u64) = minor_of mm mod 256"
  "unat (drop_bit 6 mm AND 0x3FF :: u64) = minor_of mm div 64"
  "unat (drop_bit 4 mm AND 3 :: u64) = minor_of mm div 16 mod 4"
  unfolding mask_numerals unat_and_mask unat_drop_bit_div minor_of_def
     apply (simp add: mod_mod_cancel)
    apply (simp add: mod_mod_cancel)
   apply (use div_exp_mod_exp_eq [of "unat mm" 6 10] mod_mult2_eq [of "unat mm" 64 1024] in simp)
  apply (use mod_mult2_eq [of "unat mm" 16 4096] mod_mod_cancel [of 4 4096 "unat mm div 16"] in simp)
  done

lemma two_digits:
  "r < 65536 \<Longrightarrow> k < 65536 \<Longrightarrow> (65536 * a + r = 65536 * m + k) = (a = m \<and> r = (k :: nat))"
  using arg_cong [of "65536 * a + r" "65536 * m + k" "\<lambda>x. x div 65536"]
  by (cases "a = m") auto

lemma major_MKDEV_iff:
  assumes "unat m < 65536"
  shows "mm AND 0xFFFF0000 = MKDEV m 0 \<longleftrightarrow> major_of mm = unat m"
  using assms by (simp only: word_unat_eq_iff unat_major_part unat_MKDEV) simp

lemma dvb_MKDEV_iff:
  assumes "unat m < 65536" and "unat k < 16"
  shows "mm AND 0xFFFF000F = MKDEV m k \<longleftrightarrow> major_of mm = unat m \<and> minor_of mm mod 16 = unat k"
proof -
  have "minor_of mm mod 16 < 65536" by (rule less_trans [of _ 16]) simp_all
  moreover have "unat m mod 65536 = unat m" "unat k mod 65536 = unat k" "unat k < 65536"
    using assms by simp_all
  ultimately show ?thesis
    by (simp only: word_unat_eq_iff unat_dvb_part unat_MKDEV two_digits)
qed

section \<open>Slots\<close>

definition dvb_kinds :: "f_v4b option list" where
  "dvb_kinds = [Some F_V4B_DVB_VIDEO, Some F_V4B_DVB_AUDIO, Some F_V4B_DVB_SEC,
     Some F_V4B_DVB_FRONTEND, Some F_V4B_DVB_DEMUX, Some F_V4B_DVB_DVR, Some F_V4B_DVB_CA, None,
     Some F_V4B_DVB_OSD, None, None, None, None, None, None, None]"

text \<open>Where a device number is registered: the kind of the device and the number among the
  devices of that kind.\<close>

definition small :: "f_v4b \<Rightarrow> nat \<Rightarrow> (f_v4b \<times> nat) option" where
  "small f n = (if n < 8 then Some (f, n) else None)"

definition cdev_slot :: "majors \<Rightarrow> u32 \<Rightarrow> u64 \<Rightarrow> (f_v4b \<times> nat) option" where
  "cdev_slot M fe mm =
     (let maj = major_of mm; mi = minor_of mm in
      if maj = unat (INPUT_MAJOR M) then
        (if mi < 64 then small F_V4B_JOYDEV mi
         else if mi < 128 then small F_V4B_EVDEV (mi - 64)
         else None)
      else if maj = 14 then small F_V4B_LIRC (mi mod 256)
      else if maj = 35 then small F_V4B_ROCCAT (mi mod 256)
      else if maj = unat (VIDEO_MAJOR M) then small F_V4B_VIDEO (mi mod 256)
      else if maj = unat (DVB_MAJOR M) \<and> mi div 64 mod 256 < 8 then
        map_option (\<lambda>f. (f, mi div 64 mod 256 + 8 *
            (if mi mod 16 = 3 then unat ((of_nat (mi div 16 mod 4) XOR fe) AND 3) else mi div 16 mod 4)))
          (dvb_kinds ! (mi mod 16))
      else None)"

text \<open>Major numbers that the switch of the code accepts as different cases.\<close>

definition good_majors :: "majors \<Rightarrow> bool" where
  "good_majors M \<longleftrightarrow>
     distinct [INPUT_MAJOR M, VIDEO_MAJOR M, DVB_MAJOR M, LIRC_MAJOR, ROCCAT_MAJOR] \<and>
     unat (INPUT_MAJOR M) < 65536 \<and> unat (VIDEO_MAJOR M) < 65536 \<and> unat (DVB_MAJOR M) < 65536"


lemma small_Some [simp]: "small f n = Some q \<longleftrightarrow> n < 8 \<and> q = (f, n)"
  by (auto simp: small_def)

lemma unat_u8_ucast: "unat (x :: u64) < 256 \<Longrightarrow> unat (ucast x :: u8) = unat x"
  by (simp add: unat_ucast_mod)

text \<open>The assignments for a slot.\<close>

definition slot_set :: "(f_v4b \<times> nat) option \<Rightarrow> addr \<Rightarrow> u64 \<Rightarrow> cdev_state \<Rightarrow> cdev_state" where
  "slot_set q cdev mm s =
     (case q of None \<Rightarrow> s | Some (f, n) \<Rightarrow> registry_set f (of_nat n) cdev mm s)"

lemma small_set:
  "(if F_V4B_SUBDEV_MAX \<le> unat (u :: u8) then s else registry_set f u cdev mm s) =
   slot_set (small f (unat u)) cdev mm s"
  by (simp add: slot_set_def small_def F_V4B_SUBDEV_MAX_def)

lemma ucast_of_nat: "ucast (x :: 'a::len word) = (of_nat (unat x) :: 'b::len word)"
  by (simp add: word_unat_eq_iff unat_ucast_mod unsigned_of_nat take_bit_eq_mod)

lemma less_16:
  "n < 16 \<Longrightarrow> n \<in> {0, 1, 2, 3, 4, 5, 6, 7, 8, 9, 10, 11, 12, 13, 14, 15 :: nat}"
  by (simp only: insert_iff empty_iff) presburger

lemma dvb_kind_nth:
  assumes "unat (DVB_MAJOR M) < 65536" and "major_of mm = unat (DVB_MAJOR M)"
  shows "dvb_kind M mm = dvb_kinds ! (minor_of mm mod 16)"
proof -
  have k: "mm AND 0xFFFF000F = MKDEV (DVB_MAJOR M) k \<longleftrightarrow> minor_of mm mod 16 = unat k"
    if "unat k < 16" for k
    using dvb_MKDEV_iff [OF assms(1) that] assms(2) by simp
  have "minor_of mm mod 16 \<in> {0, 1, 2, 3, 4, 5, 6, 7, 8, 9, 10, 11, 12, 13, 14, 15}"
    by (rule less_16) simp
  then show ?thesis
    unfolding dvb_kind_def Let_def
    by (elim insertE emptyE) (simp_all add: k dvb_kinds_def)
qed

lemma cdev_set_device_slot:
  assumes "good_majors M"
  shows "cdev_set_device M mm cdev s = slot_set (cdev_slot M (dvb_swap_fe s) mm) cdev mm s"
proof -
  have maj: "mm AND 0xFFFF0000 = MKDEV (INPUT_MAJOR M) 0 \<longleftrightarrow> major_of mm = unat (INPUT_MAJOR M)"
    "mm AND 0xFFFF0000 = MKDEV (VIDEO_MAJOR M) 0 \<longleftrightarrow> major_of mm = unat (VIDEO_MAJOR M)"
    "mm AND 0xFFFF0000 = MKDEV (DVB_MAJOR M) 0 \<longleftrightarrow> major_of mm = unat (DVB_MAJOR M)"
    "mm AND 0xFFFF0000 = MKDEV LIRC_MAJOR 0 \<longleftrightarrow> major_of mm = 14"
    "mm AND 0xFFFF0000 = MKDEV ROCCAT_MAJOR 0 \<longleftrightarrow> major_of mm = 35"
    using assms by (simp_all add: good_majors_def major_MKDEV_iff LIRC_MAJOR_def ROCCAT_MAJOR_def)
  have neq: "unat (INPUT_MAJOR M) \<noteq> 14" "unat (INPUT_MAJOR M) \<noteq> 35" "unat (VIDEO_MAJOR M) \<noteq> 14"
    "unat (VIDEO_MAJOR M) \<noteq> 35" "unat (DVB_MAJOR M) \<noteq> 14" "unat (DVB_MAJOR M) \<noteq> 35"
    "unat (INPUT_MAJOR M) \<noteq> unat (VIDEO_MAJOR M)" "unat (INPUT_MAJOR M) \<noteq> unat (DVB_MAJOR M)"
    "unat (VIDEO_MAJOR M) \<noteq> unat (DVB_MAJOR M)"
    using assms by (auto simp: good_majors_def LIRC_MAJOR_def ROCCAT_MAJOR_def word_unat_eq_iff)
  have u8: "unat (ucast (mm AND 0x3F) :: u8) = minor_of mm mod 64"
    "unat (ucast (mm AND 0xFF) :: u8) = minor_of mm mod 256"
    "unat (ucast (drop_bit 6 mm AND 0x3FF) :: u8) = minor_of mm div 64 mod 256"
    "unat (ucast (drop_bit 4 mm AND 3) :: u8) = minor_of mm div 16 mod 4"
    by (simp_all only: unat_ucast_mod unat_and_numerals) simp_all
  consider (input) "major_of mm = unat (INPUT_MAJOR M)" | (dvb) "major_of mm = unat (DVB_MAJOR M)"
    | (other) "major_of mm \<noteq> unat (INPUT_MAJOR M)" "major_of mm \<noteq> unat (DVB_MAJOR M)" by blast
  then show ?thesis
  proof cases
    case input
    have "mm AND 0xFFC0 = EVDEV_MINOR_BASE \<longleftrightarrow> minor_of mm div 64 = 1"
      "mm AND 0xFFC0 = JOYDEV_MINOR_BASE \<longleftrightarrow> minor_of mm div 64 = 0"
      by (simp_all only: word_unat_eq_iff unat_input_part EVDEV_MINOR_BASE_def JOYDEV_MINOR_BASE_def)
        simp_all
    moreover have "minor_of mm < 64 \<longleftrightarrow> minor_of mm div 64 = 0"
      "\<not> minor_of mm < 64 \<and> minor_of mm < 128 \<longleftrightarrow> minor_of mm div 64 = 1"
      by auto
    moreover have "minor_of mm div 64 = 0 \<Longrightarrow> minor_of mm mod 64 = minor_of mm"
      "minor_of mm div 64 = 1 \<Longrightarrow> minor_of mm mod 64 = minor_of mm - 64"
      using div_mult_mod_eq [of "minor_of mm" 64] by auto
    ultimately show ?thesis
      using input
      by (simp only: cdev_set_device_def cdev_slot_def Let_def maj small_set u8)
        (auto simp: slot_set_def)
  next
    case dvb
    let ?n = "minor_of mm div 64 mod 256" and ?i = "minor_of mm div 16 mod 4"
    have three: "mm AND 0xFFFF000F = MKDEV (DVB_MAJOR M) 3 \<longleftrightarrow> minor_of mm mod 16 = 3"
      using dvb assms dvb_MKDEV_iff [of "DVB_MAJOR M" 3 mm] by (simp add: good_majors_def)
    have sub: "ucast (drop_bit 6 mm AND 0x3FF) = (of_nat ?n :: u8)"
      "ucast (drop_bit 4 mm AND 3) = (of_nat ?i :: u8)"
      by (simp_all only: word_unat_eq_iff u8 unsigned_of_nat) (simp_all add: take_bit_eq_mod)
    have n8: "unat (of_nat ?n :: u8) = ?n" using u8(3) by (simp only: sub)
    have cast: "ucast (of_nat ?i :: u8) = (of_nat ?i :: u32)"
      by (simp only: word_unat_eq_iff unat_ucast_mod unsigned_of_nat) (simp add: take_bit_eq_mod)
    have kind: "dvb_kind M mm = dvb_kinds ! (minor_of mm mod 16)"
      using dvb assms by (simp add: dvb_kind_nth good_majors_def)
    define k where "k = (if minor_of mm mod 16 = 3
      then unat ((of_nat ?i XOR dvb_swap_fe s) AND 3) else ?i)"
    have id: "(if minor_of mm mod 16 = 3 then ucast ((of_nat ?i XOR dvb_swap_fe s) AND 3)
        else of_nat ?i) = (of_nat k :: u8)"
      by (simp only: k_def ucast_of_nat split: if_split) blast
    have "cdev_set_device M mm cdev s =
        (if 8 \<le> ?n then s
         else case dvb_kinds ! (minor_of mm mod 16) of
             Some f \<Rightarrow> registry_set f (of_nat ?n + of_nat 8 * of_nat k) cdev mm s
           | None \<Rightarrow> s)"
      using neq neq [symmetric]
      by (simp only: cdev_set_device_def Let_def maj dvb u8(3) three kind F_V4B_SUBDEV_MAX_def
          sub cast id n8 if_False refl if_True)
    also have "\<dots> = slot_set (cdev_slot M (dvb_swap_fe s) mm) cdev mm s"
      using neq neq [symmetric]
      by (simp only: cdev_slot_def Let_def dvb k_def [symmetric] slot_set_def of_nat_add [symmetric]
          of_nat_mult [symmetric] if_False refl if_True)
        (auto split: option.split)
    finally show ?thesis .
  next
    case other
    then show ?thesis
      by (simp only: cdev_set_device_def cdev_slot_def Let_def maj small_set u8)
        (auto simp: slot_set_def)
  qed
qed


lemma dvb_frontend_less: "(if b then unat ((x :: u32) AND 3) else i mod 4) < 4"
proof -
  have "unat (x AND 3) < 4"
    using unat_and_mask [of x 2] mod_less_divisor [of 4 "unat x"] by (simp add: mask_eq_exp_minus_1)
  then show ?thesis by simp
qed

lemma cdev_slot_bounds:
  assumes "cdev_slot M fe mm = Some (f, n)"
  shows "n < 32"
proof -
  define k where "k = (if minor_of mm mod 16 = 3
    then unat ((of_nat (minor_of mm div 16 mod 4) XOR fe) AND 3) else minor_of mm div 16 mod 4)"
  have "k < 4" unfolding k_def by (rule dvb_frontend_less)
  with assms show ?thesis
    unfolding cdev_slot_def Let_def k_def [symmetric] small_def
    by (auto split: if_split_asm)
qed

lemma f_v4b_num_less: "f_v4b_num f < 13"
  by (cases f) simp_all

lemma f_v4b_num_inj [simp]: "f_v4b_num f = f_v4b_num g \<longleftrightarrow> f = g"
  by (cases f; cases g) simp_all

lemma slot_set_fields [simp]:
  "dvb_swap_fe (slot_set q c mm s) = dvb_swap_fe s" "cdevs (slot_set q c mm s) = cdevs s"
  by (simp_all add: slot_set_def registry_set_def split: option.split prod.split)

lemma slot_set_registry:
  assumes "q = cdev_slot M fe mm"
  shows "cdev_registry (slot_set q c mm s) a b =
    (if \<exists>f. q = Some (f, b) \<and> f_v4b_num f = a then c else cdev_registry s a b)"
    and "cdev_mm (slot_set q c mm s) a b =
    (if \<exists>f. q = Some (f, b) \<and> f_v4b_num f = a then ucast mm else cdev_mm s a b)"
proof -
  have "unat (of_nat n :: u8) = n" if "q = Some (f, n)" for f n
    using that assms cdev_slot_bounds [of M fe mm f n] by (simp add: unsigned_of_nat take_bit_nat_eq_self)
  then show "cdev_registry (slot_set q c mm s) a b =
      (if \<exists>f. q = Some (f, b) \<and> f_v4b_num f = a then c else cdev_registry s a b)"
    "cdev_mm (slot_set q c mm s) a b =
      (if \<exists>f. q = Some (f, b) \<and> f_v4b_num f = a then ucast mm else cdev_mm s a b)"
    by (auto simp: slot_set_def registry_set_def split: option.split)
qed

text \<open>A range of device numbers covers a place of the arrays.\<close>

definition covers :: "majors \<Rightarrow> u32 \<Rightarrow> u64 \<Rightarrow> nat \<Rightarrow> nat \<Rightarrow> nat \<Rightarrow> nat \<Rightarrow> bool" where
  "covers M fe mm k a b i \<longleftrightarrow>
     i < k \<and> (\<exists>f. cdev_slot M fe (mm + of_nat i) = Some (f, b) \<and> f_v4b_num f = a)"

lemma covers_Suc:
  "covers M fe mm (Suc k) a b i \<longleftrightarrow>
   (i = 0 \<and> (\<exists>f. cdev_slot M fe mm = Some (f, b) \<and> f_v4b_num f = a)) \<or>
   (\<exists>j. i = Suc j \<and> covers M fe (mm + 1) k a b j)"
  by (cases i) (auto simp: covers_def add.assoc)

lemma ex_covers_Suc:
  "(\<exists>i. covers M fe mm (Suc k) a b i) \<longleftrightarrow>
   (\<exists>f. cdev_slot M fe mm = Some (f, b) \<and> f_v4b_num f = a) \<or> (\<exists>i. covers M fe (mm + 1) k a b i)"
  unfolding covers_Suc by blast

lemma cdev_set_range_0 [simp]: "cdev_set_range M mm (mm + of_nat 0) c s = s"
  by (subst cdev_set_range.simps) simp

lemma cdev_set_range_Suc:
  assumes "good_majors M" and "Suc k < 2 ^ 64"
  shows "cdev_set_range M mm (mm + of_nat (Suc k)) c s =
    cdev_set_range M (mm + 1) (mm + 1 + of_nat k) c
      (slot_set (cdev_slot M (dvb_swap_fe s) mm) c mm s)"
proof -
  have "(of_nat (Suc k) :: u64) \<noteq> 0"
    using assms(2) by (simp only: word_unat_eq_iff unsigned_of_nat) (simp add: take_bit_nat_eq_self)
  then show ?thesis
    using assms(1) by (subst cdev_set_range.simps) (simp add: cdev_set_device_slot add.assoc)
qed

lemma cdev_set_range_fields:
  assumes M: "good_majors M"
  shows "k < 2 ^ 64 \<Longrightarrow> dvb_swap_fe (cdev_set_range M mm (mm + of_nat k) c s) = dvb_swap_fe s \<and>
    cdevs (cdev_set_range M mm (mm + of_nat k) c s) = cdevs s"
proof (induction k arbitrary: mm s)
  case (Suc k)
  then show ?case by (simp add: cdev_set_range_Suc [OF M] del: of_nat_Suc)
qed (simp only: cdev_set_range_0)

lemma cdev_set_range_registry:
  assumes M: "good_majors M"
  shows "k < 2 ^ 64 \<Longrightarrow> cdev_registry (cdev_set_range M mm (mm + of_nat k) c s) a b =
      (if \<exists>i. covers M (dvb_swap_fe s) mm k a b i then c else cdev_registry s a b)"
proof (induction k arbitrary: mm s)
  case 0
  show ?case by (simp only: cdev_set_range_0) (simp add: covers_def)
next
  case (Suc k)
  then show ?case
    by (simp add: cdev_set_range_Suc [OF M] ex_covers_Suc slot_set_registry [OF refl] del: of_nat_Suc)
      auto
qed

lemma cdev_set_range_mm:
  assumes M: "good_majors M"
  shows "k < 2 ^ 64 \<Longrightarrow> cdev_mm (cdev_set_range M mm (mm + of_nat k) c s) a b = v \<Longrightarrow>
   v = cdev_mm s a b \<and> (\<nexists>i. covers M (dvb_swap_fe s) mm k a b i) \<or>
   (\<exists>i. covers M (dvb_swap_fe s) mm k a b i \<and> v = ucast (mm + of_nat i))"
proof (induction k arbitrary: mm s)
  case 0
  then show ?case by (simp only: cdev_set_range_0) (simp add: covers_def)
next
  case (Suc k)
  let ?here = "\<exists>f. cdev_slot M (dvb_swap_fe s) mm = Some (f, b) \<and> f_v4b_num f = a"
  let ?later = "\<lambda>i. covers M (dvb_swap_fe s) (mm + 1) k a b i"
  have "v = (if ?here then ucast mm else cdev_mm s a b) \<and> (\<nexists>i. ?later i) \<or>
      (\<exists>i. ?later i \<and> v = ucast (mm + 1 + of_nat i))"
    using Suc.IH [of "mm + 1" "slot_set (cdev_slot M (dvb_swap_fe s) mm) c mm s"] Suc.prems
    by (simp add: cdev_set_range_Suc [OF M] slot_set_registry [OF refl] del: of_nat_Suc)
  moreover have "mm + 1 + of_nat i = mm + of_nat (Suc i)" for i by simp
  ultimately show ?case
    unfolding covers_Suc by (cases ?here) (auto simp del: of_nat_Suc intro: exI [of _ 0])
qed


lemma cdev_get_registry:
  assumes "n < 32"
  shows "cdev_get_device (of_nat (f_v4b_num f * 32 + n)) s = cdev_registry s (f_v4b_num f) n"
    and "cdev_get_mm (of_nat (f_v4b_num f * 32 + n)) s = cdev_mm s (f_v4b_num f) n"
proof -
  have "f_v4b_num f * 32 + n < 2 ^ 32" using f_v4b_num_less [of f] assms by simp
  then have "unat (of_nat (f_v4b_num f * 32 + n) :: u32) = f_v4b_num f * 32 + n"
    by (simp only: unsigned_of_nat) (simp add: take_bit_nat_eq_self)
  then show "cdev_get_device (of_nat (f_v4b_num f * 32 + n)) s = cdev_registry s (f_v4b_num f) n"
    "cdev_get_mm (of_nat (f_v4b_num f * 32 + n)) s = cdev_mm s (f_v4b_num f) n"
    using f_v4b_num_less [of f] assms
    by (simp_all only: cdev_get_device_def cdev_get_mm_def SUB_MAX_def F_V4B_SUBDEV_MAX_def
        F_V4B_SUBSUBDEV_MAX_def F_V4B_MAX_def Let_def) simp_all
qed

lemma cdev_update_fields [simp]:
  "dvb_swap_fe (cdev_update g c s) = dvb_swap_fe s"
  "cdev_registry (cdev_update g c s) = cdev_registry s"
  "cdev_mm (cdev_update g c s) = cdev_mm s"
  "cdevs (cdev_update g c s) = (cdevs s)(c := map_option g (cdevs s c))"
  by (simp_all add: cdev_update_def)

lemma ucast_count: "(ucast (n :: u32) :: u64) = of_nat (unat n)" "unat n < 2 ^ 64"
   apply (rule ucast_of_nat)
  using unat_u32_less [of n] by simp

text \<open>The state after \<open>cdev_add\<close>, and the objects after \<open>cdev_add\<close> and \<open>cdev_del\<close>.\<close>

lemma cdev_add_registry:
  assumes "good_majors M"
  shows "cdev_registry (cdev_add M c mm count s) a b =
      (if \<exists>i. covers M (dvb_swap_fe s) mm (unat count) a b i then c else cdev_registry s a b)"
    and "dvb_swap_fe (cdev_add M c mm count s) = dvb_swap_fe s"
    and "cdevs (cdev_add M c mm count s) = (cdevs s)(c :=
      map_option (\<lambda>c. c\<lparr>mm_start := mm, mm_end := mm + ucast count\<rparr>) (cdevs s c))"
  unfolding cdev_add_def Let_def ucast_count(1)
  by (simp_all only: cdev_set_range_registry [OF assms ucast_count(2)]
      cdev_set_range_fields [OF assms ucast_count(2)] cdev_update_fields)

lemma cdev_del_registry:
  assumes "good_majors M" and "c \<noteq> 0" and "cdevs s c = Some d" and "mm_end d = mm_start d + ucast (n :: u32)"
  shows "cdev_registry (cdev_del M c s) a b =
      (if \<exists>i. covers M (dvb_swap_fe s) (mm_start d) (unat n) a b i then 0 else cdev_registry s a b)"
    and "cdevs (cdev_del M c s) = (if is_alloced d then (cdevs s)(c := None) else cdevs s)"
  using assms(2) unfolding cdev_del_def Let_def assms(3) option.sel assms(4) ucast_count(1)
  by (simp_all add: cdev_set_range_registry [OF assms(1) ucast_count(2)]
      cdev_set_range_fields [OF assms(1) ucast_count(2)] del: of_nat_unat)

lemma cdev_registration_parts:
  assumes "good_majors M" and "c \<noteq> 0" and "cdevs s c = Some d" and "n < 32"
  shows "cdev_get_device (of_nat (f_v4b_num f * 32 + n)) (cdev_add M c mm count s) =
      (if \<exists>i<unat count. cdev_slot M (dvb_swap_fe s) (mm + of_nat i) = Some (f, n) then c
       else cdev_get_device (of_nat (f_v4b_num f * 32 + n)) s)"
    and "(\<exists>i<unat count. cdev_slot M (dvb_swap_fe s) (mm + of_nat i) = Some (f, n)) \<Longrightarrow>
      \<exists>i<unat count. cdev_slot M (dvb_swap_fe s) (mm + of_nat i) = Some (f, n) \<and>
        cdev_get_mm (of_nat (f_v4b_num f * 32 + n)) (cdev_add M c mm count s) = ucast (mm + of_nat i)"
    and "cdev_get_device (of_nat (f_v4b_num f * 32 + n)) (cdev_del M c (cdev_add M c mm count s)) =
      (if \<exists>i<unat count. cdev_slot M (dvb_swap_fe s) (mm + of_nat i) = Some (f, n) then 0
       else cdev_get_device (of_nat (f_v4b_num f * 32 + n)) s)"
    and "cdevs (cdev_del M c (cdev_add M c mm count s)) c = None \<longleftrightarrow> is_alloced d"
    and "F_V4B_MAX \<le> a \<or> SUB_MAX \<le> b \<Longrightarrow>
      cdev_registry (cdev_add M c mm count s) a b = cdev_registry s a b \<and>
      cdev_registry (cdev_del M c (cdev_add M c mm count s)) a b = cdev_registry s a b"
proof -
  let ?s = "cdev_add M c mm count s" and ?d = "d\<lparr>mm_start := mm, mm_end := mm + ucast count\<rparr>"
  have cov: "(\<exists>i. covers M fe mm (unat count) (f_v4b_num f) n i) \<longleftrightarrow>
      (\<exists>i<unat count. cdev_slot M fe (mm + of_nat i) = Some (f, n))" for fe
    by (auto simp: covers_def)
  note add = cdev_add_registry [OF assms(1), of c mm count s]
  have d: "cdevs ?s c = Some ?d" using assms(3) by (simp add: add)
  note del = cdev_del_registry [OF assms(1, 2) d, of count, simplified, unfolded add]
  show "cdev_get_device (of_nat (f_v4b_num f * 32 + n)) ?s =
      (if \<exists>i<unat count. cdev_slot M (dvb_swap_fe s) (mm + of_nat i) = Some (f, n) then c
       else cdev_get_device (of_nat (f_v4b_num f * 32 + n)) s)"
    unfolding cdev_get_registry(1) [OF assms(4)] add cov ..
  show "cdev_get_device (of_nat (f_v4b_num f * 32 + n)) (cdev_del M c ?s) =
      (if \<exists>i<unat count. cdev_slot M (dvb_swap_fe s) (mm + of_nat i) = Some (f, n) then 0
       else cdev_get_device (of_nat (f_v4b_num f * 32 + n)) s)"
    unfolding cdev_get_registry(1) [OF assms(4)] del cov by auto
  show "cdevs (cdev_del M c ?s) c = None \<longleftrightarrow> is_alloced d"
    using assms(3) by (simp add: del)
  show "\<exists>i<unat count. cdev_slot M (dvb_swap_fe s) (mm + of_nat i) = Some (f, n) \<and>
      cdev_get_mm (of_nat (f_v4b_num f * 32 + n)) ?s = ucast (mm + of_nat i)"
    if "\<exists>i<unat count. cdev_slot M (dvb_swap_fe s) (mm + of_nat i) = Some (f, n)"
    using that cov [of "dvb_swap_fe s"]
      cdev_set_range_mm [OF assms(1) ucast_count(2) refl, of mm count c
        "cdev_update (\<lambda>c. c\<lparr>mm_start := mm, mm_end := mm + ucast count\<rparr>) c s" "f_v4b_num f" n]
    unfolding cdev_get_registry(2) [OF assms(4)] cdev_add_def Let_def ucast_count(1) [symmetric]
    by (auto simp: covers_def)
  have out: "\<not> covers M fe mm (unat count) a b i" if "F_V4B_MAX \<le> a \<or> SUB_MAX \<le> b" for fe i
  proof
    assume "covers M fe mm (unat count) a b i"
    then obtain g where "cdev_slot M fe (mm + of_nat i) = Some (g, b)" "f_v4b_num g = a"
      by (auto simp: covers_def)
    then have "b < 32" "a < 13"
      using cdev_slot_bounds f_v4b_num_less [of g] by blast+
    with that show False
      by (simp add: F_V4B_MAX_def SUB_MAX_def F_V4B_SUBDEV_MAX_def F_V4B_SUBSUBDEV_MAX_def)
  qed
  show "cdev_registry ?s a b = cdev_registry s a b \<and>
      cdev_registry (cdev_del M c ?s) a b = cdev_registry s a b"
    if "F_V4B_MAX \<le> a \<or> SUB_MAX \<le> b"
    unfolding add del using out [OF that] by auto
qed

text \<open>Device numbers of different devices do not share a place, when the minor numbers are
  those that the kernel hands out.\<close>

definition usual_minor :: "majors \<Rightarrow> u64 \<Rightarrow> bool" where
  "usual_minor M mm \<longleftrightarrow> unat mm < 2 ^ 32 \<and>
     (if major_of mm = unat (DVB_MAJOR M) then minor_of mm < 16384 else minor_of mm < 256)"

lemma dvb_kinds_inj:
  assumes "dvb_kinds ! (i mod 16) = Some f" and "dvb_kinds ! (j mod 16) = Some f"
  shows "i mod 16 = j mod 16"
proof -
  have "\<forall>i\<in>set [0..<16]. \<forall>j\<in>set [0..<16].
      dvb_kinds ! i \<noteq> None \<longrightarrow> dvb_kinds ! i = dvb_kinds ! j \<longrightarrow> i = j"
    by code_simp
  moreover have "i mod 16 \<in> set [0..<16]" "j mod 16 \<in> set [0..<16]" by simp_all
  ultimately show ?thesis using assms by (metis option.discI)
qed

lemma dvb_kinds_only:
  assumes "dvb_kinds ! (i mod 16) = Some f"
  shows "f \<notin> {F_V4B_JOYDEV, F_V4B_EVDEV, F_V4B_LIRC, F_V4B_ROCCAT, F_V4B_VIDEO}"
proof -
  have "\<forall>i\<in>set [0..<16]. \<forall>f\<in>set [F_V4B_JOYDEV, F_V4B_EVDEV, F_V4B_LIRC, F_V4B_ROCCAT, F_V4B_VIDEO].
      dvb_kinds ! i \<noteq> Some f"
    by code_simp
  moreover have "i mod 16 \<in> set [0..<16]" by simp
  ultimately show ?thesis using assms by (metis list.set(1,2))
qed

text \<open>The number of a frontend, which \<open>dvb_swap_fe\<close> exchanges.\<close>

definition dvb_unit :: "u32 \<Rightarrow> nat \<Rightarrow> nat" where
  "dvb_unit fe mi = (if mi mod 16 = 3 then unat ((of_nat (mi div 16 mod 4) XOR fe) AND 3)
     else mi div 16 mod 4)"

lemma dvb_unit_less: "dvb_unit fe mi < 4"
  unfolding dvb_unit_def by (rule dvb_frontend_less)

lemma dvb_unit_inj:
  assumes "dvb_unit fe mi = dvb_unit fe mj" and "mi mod 16 = mj mod 16"
  shows "mi div 16 mod 4 = mj div 16 mod 4"
proof (cases "mi mod 16 = 3")
  case True
  let ?x = "of_nat (mi div 16 mod 4) :: u32" and ?y = "of_nat (mj div 16 mod 4) :: u32"
  have m3: "(3 :: u32) = mask 2" by (simp add: mask_eq_exp_minus_1)
  have "(?x XOR fe) AND mask 2 = (?y XOR fe) AND mask 2"
    using assms True by (simp add: dvb_unit_def word_unat_eq_iff m3)
  then have "?x AND mask 2 = ?y AND mask 2"
    by (auto simp: bit_eq_iff bit_simps)
  then have "unat (?x AND mask 2) = unat (?y AND mask 2)" by simp
  then show ?thesis
    by (simp only: unat_and_mask unsigned_of_nat) (simp add: take_bit_nat_eq_self)
next
  case False
  then show ?thesis using assms by (simp add: dvb_unit_def)
qed

lemma cdev_slot_cases:
  assumes "cdev_slot M fe mm = Some (f, n)"
  obtains "major_of mm = unat (INPUT_MAJOR M)" "f = F_V4B_JOYDEV" "minor_of mm = n" "n < 8"
  | "major_of mm = unat (INPUT_MAJOR M)" "f = F_V4B_EVDEV" "minor_of mm = n + 64" "n < 8"
  | "major_of mm = 14" "f = F_V4B_LIRC" "minor_of mm mod 256 = n"
  | "major_of mm = 35" "f = F_V4B_ROCCAT" "minor_of mm mod 256 = n"
  | "major_of mm = unat (VIDEO_MAJOR M)" "f = F_V4B_VIDEO" "minor_of mm mod 256 = n"
  | "major_of mm = unat (DVB_MAJOR M)" "dvb_kinds ! (minor_of mm mod 16) = Some f"
    "n = minor_of mm div 64 mod 256 + 8 * dvb_unit fe (minor_of mm)" "minor_of mm div 64 mod 256 < 8"
proof -
  note eq = assms [unfolded cdev_slot_def Let_def dvb_unit_def [symmetric]]
  consider "major_of mm = unat (INPUT_MAJOR M)"
    | "major_of mm \<noteq> unat (INPUT_MAJOR M)" "major_of mm \<in> {14, 35, unat (VIDEO_MAJOR M)}"
    | "major_of mm \<notin> {unat (INPUT_MAJOR M), 14, 35, unat (VIDEO_MAJOR M)}" by blast
  then show thesis
  proof cases
    case 1
    show ?thesis
    proof (cases "minor_of mm < 64")
      case True
      then show ?thesis using eq 1 that(1) by simp
    next
      case False
      then have "minor_of mm = n + 64" "n < 8" "f = F_V4B_EVDEV"
        using eq 1 by (simp_all split: if_split_asm)
      then show ?thesis using 1 that(2) by simp
    qed
  next
    case 2
    then show ?thesis using eq that(3-5) by (simp split: if_split_asm)
  next
    case 3
    then have d: "major_of mm = unat (DVB_MAJOR M)" "minor_of mm div 64 mod 256 < 8"
      using eq by (simp_all split: if_split_asm)
    then show ?thesis using eq 3 that(6) by simp
  qed
qed

text \<open>C28: Registration of character devices.  After \<open>cdev_add\<close> the lookup by kind and number
  returns the device for the places that its device numbers denote, and returns what it
  returned before for the others; the device number stored at a place of the device is one
  of its numbers.  \<open>cdev_del\<close> empties the same places and no others, and frees the
  object if \<open>cdev_alloc\<close> allocated it.  The arrays are never written outside of their
  bounds.\<close>

theorem cdev_registration:
  assumes "good_majors M" and "c \<noteq> 0" and "cdevs s c = Some d"
  shows "(\<forall>f n. n < 32 \<longrightarrow>
      cdev_get_device (of_nat (f_v4b_num f * 32 + n)) (cdev_add M c mm count s) =
        (if \<exists>i<unat count. cdev_slot M (dvb_swap_fe s) (mm + of_nat i) = Some (f, n) then c
         else cdev_get_device (of_nat (f_v4b_num f * 32 + n)) s) \<and>
      ((\<exists>i<unat count. cdev_slot M (dvb_swap_fe s) (mm + of_nat i) = Some (f, n)) \<longrightarrow>
       (\<exists>i<unat count. cdev_slot M (dvb_swap_fe s) (mm + of_nat i) = Some (f, n) \<and>
         cdev_get_mm (of_nat (f_v4b_num f * 32 + n)) (cdev_add M c mm count s) =
           ucast (mm + of_nat i))) \<and>
      cdev_get_device (of_nat (f_v4b_num f * 32 + n)) (cdev_del M c (cdev_add M c mm count s)) =
        (if \<exists>i<unat count. cdev_slot M (dvb_swap_fe s) (mm + of_nat i) = Some (f, n) then 0
         else cdev_get_device (of_nat (f_v4b_num f * 32 + n)) s)) \<and>
    (cdevs (cdev_del M c (cdev_add M c mm count s)) c = None \<longleftrightarrow> is_alloced d) \<and>
    (\<forall>a b. F_V4B_MAX \<le> a \<or> SUB_MAX \<le> b \<longrightarrow>
      cdev_registry (cdev_add M c mm count s) a b = cdev_registry s a b \<and>
      cdev_registry (cdev_del M c (cdev_add M c mm count s)) a b = cdev_registry s a b)"
proof (intro conjI allI impI)
  note parts = cdev_registration_parts [OF assms]
  fix f n
  assume n: "n < (32 :: nat)"
  show "cdev_get_device (of_nat (f_v4b_num f * 32 + n)) (cdev_add M c mm count s) =
      (if \<exists>i<unat count. cdev_slot M (dvb_swap_fe s) (mm + of_nat i) = Some (f, n) then c
       else cdev_get_device (of_nat (f_v4b_num f * 32 + n)) s)"
    by (rule parts(1) [OF n])
  show "cdev_get_device (of_nat (f_v4b_num f * 32 + n)) (cdev_del M c (cdev_add M c mm count s)) =
      (if \<exists>i<unat count. cdev_slot M (dvb_swap_fe s) (mm + of_nat i) = Some (f, n) then 0
       else cdev_get_device (of_nat (f_v4b_num f * 32 + n)) s)"
    by (rule parts(3) [OF n])
  show "\<exists>i<unat count. cdev_slot M (dvb_swap_fe s) (mm + of_nat i) = Some (f, n) \<and>
      cdev_get_mm (of_nat (f_v4b_num f * 32 + n)) (cdev_add M c mm count s) = ucast (mm + of_nat i)"
    if "\<exists>i<unat count. cdev_slot M (dvb_swap_fe s) (mm + of_nat i) = Some (f, n)"
    by (rule parts(2) [OF n that])
next
  note parts = cdev_registration_parts [OF assms, of 0, simplified]
  show "cdevs (cdev_del M c (cdev_add M c mm count s)) c = None \<longleftrightarrow> is_alloced d"
    by (rule parts(4))
  fix a b
  assume "F_V4B_MAX \<le> a \<or> SUB_MAX \<le> b"
  then show "cdev_registry (cdev_add M c mm count s) a b = cdev_registry s a b"
    "cdev_registry (cdev_del M c (cdev_add M c mm count s)) a b = cdev_registry s a b"
    using parts(5) by blast+
qed

theorem cdev_registration_witness:
  "cdev_get_device 1 (cdev_add \<lparr>INPUT_MAJOR = 13, VIDEO_MAJOR = 81, DVB_MAJOR = 212\<rparr> 4096 0x510000 2
     \<lparr>cdev_registry = \<lambda>_ _. 0, cdev_mm = \<lambda>_ _. 0, dvb_swap_fe = 0,
      cdevs = [4096 \<mapsto> \<lparr>cdev_ops = 0, mm_start = 0, mm_end = 0, cdev_kobj_parent = 0,
                         is_alloced = False\<rparr>]\<rparr>) = 4096"
proof -
  let ?M = "\<lparr>INPUT_MAJOR = 13, VIDEO_MAJOR = 81, DVB_MAJOR = 212\<rparr>"
  let ?d = "\<lparr>cdev_ops = 0, mm_start = 0, mm_end = 0, cdev_kobj_parent = 0, is_alloced = False\<rparr>"
  let ?s = "\<lparr>cdev_registry = \<lambda>_ _. 0, cdev_mm = \<lambda>_ _. 0, dvb_swap_fe = 0, cdevs = [4096 \<mapsto> ?d]\<rparr>"
  have "good_majors ?M" by (simp add: good_majors_def LIRC_MAJOR_def ROCCAT_MAJOR_def)
  moreover have "cdev_slot ?M 0 (0x510000 + of_nat 1) = Some (F_V4B_VIDEO, 1)"
    by (simp add: cdev_slot_def major_of_def minor_of_def)
  ultimately show ?thesis
    using cdev_registration [of ?M 4096 ?s ?d "0x510000" 2, THEN conjunct1, THEN spec [of _ F_V4B_VIDEO],
        THEN spec [of _ 1]]
    by (auto simp: exI [of _ 1])
qed

text \<open>The device number that belongs to a place, for the devices other than those of DVB.\<close>

fun plain_device :: "majors \<Rightarrow> f_v4b \<Rightarrow> nat \<Rightarrow> nat \<times> nat" where
  "plain_device M F_V4B_JOYDEV n = (unat (INPUT_MAJOR M), n)"
| "plain_device M F_V4B_EVDEV n = (unat (INPUT_MAJOR M), n + 64)"
| "plain_device M F_V4B_LIRC n = (14, n)"
| "plain_device M F_V4B_ROCCAT n = (35, n)"
| "plain_device M _ n = (unat (VIDEO_MAJOR M), n)"

lemma plain_slot:
  assumes "good_majors M" and "usual_minor M mm" and "cdev_slot M fe mm = Some (f, n)"
    and "f \<in> {F_V4B_JOYDEV, F_V4B_EVDEV, F_V4B_LIRC, F_V4B_ROCCAT, F_V4B_VIDEO}"
  shows "(major_of mm, minor_of mm) = plain_device M f n"
proof -
  have neq: "unat (VIDEO_MAJOR M) \<noteq> unat (DVB_MAJOR M)" "unat (DVB_MAJOR M) \<noteq> 14" "unat (DVB_MAJOR M) \<noteq> 35"
    using assms(1) by (auto simp: good_majors_def LIRC_MAJOR_def ROCCAT_MAJOR_def word_unat_eq_iff)
  have "minor_of mm mod 256 = minor_of mm" if "major_of mm \<noteq> unat (DVB_MAJOR M)"
    using assms(2) that by (simp add: usual_minor_def)
  then show ?thesis
    using neq
  proof (cases rule: cdev_slot_cases [OF assms(3)])
    case 6
    then show ?thesis using dvb_kinds_only assms(4) by blast
  qed simp_all
qed

lemma dvb_slot:
  assumes "good_majors M" and "cdev_slot M fe mm = Some (f, n)"
    and "f \<notin> {F_V4B_JOYDEV, F_V4B_EVDEV, F_V4B_LIRC, F_V4B_ROCCAT, F_V4B_VIDEO}"
  shows "major_of mm = unat (DVB_MAJOR M) \<and> dvb_kinds ! (minor_of mm mod 16) = Some f \<and>
    n mod 8 = minor_of mm div 64 mod 256 \<and> n div 8 = dvb_unit fe (minor_of mm)"
  by (cases rule: cdev_slot_cases [OF assms(2)]) (use assms(3) in simp_all)

text \<open>Device numbers with a minor number of the usual range have different places, for every
  value of the parameter \<open>dvb_swap_fe\<close>.\<close>

theorem cdev_slots_unique:
  assumes "good_majors M" and "usual_minor M mm" and "usual_minor M mm'"
    and "cdev_slot M fe mm = Some q" and "cdev_slot M fe mm' = Some q"
  shows "mm = mm'"
proof -
  obtain f n where q: "q = (f, n)" by (cases q)
  have mm: "mm = mm'" if "major_of mm = major_of mm'" "minor_of mm = minor_of mm'"
  proof -
    have "unat x = 65536 * major_of x + minor_of x" if "usual_minor M x" for x
      using that by (simp add: usual_minor_def major_of_def minor_of_def less_mult_imp_div_less mult_div_mod_eq)
    then show ?thesis using that assms(2, 3) by (simp add: word_unat_eq_iff)
  qed
  note slot = assms(4, 5) [unfolded q]
  show ?thesis
  proof (cases "f \<in> {F_V4B_JOYDEV, F_V4B_EVDEV, F_V4B_LIRC, F_V4B_ROCCAT, F_V4B_VIDEO}")
    case True
    then show ?thesis
      using plain_slot [OF assms(1, 2) slot(1)] plain_slot [OF assms(1, 3) slot(2)] mm
      by (metis prod.inject)
  next
    case False
    note dvb = dvb_slot [OF assms(1) slot(1) False] dvb_slot [OF assms(1) slot(2) False]
    then have 16: "minor_of mm mod 16 = minor_of mm' mod 16"
      using dvb_kinds_inj by blast
    then have 4: "minor_of mm div 16 mod 4 = minor_of mm' div 16 mod 4"
      using dvb dvb_unit_inj by metis
    have "minor_of mm div 64 mod 256 = minor_of mm div 64" "minor_of mm' div 64 mod 256 = minor_of mm' div 64"
      using dvb assms(2, 3) by (simp_all add: usual_minor_def less_mult_imp_div_less)
    then have 64: "minor_of mm div 64 = minor_of mm' div 64"
      using dvb by simp
    have "x = 64 * (x div 64) + 16 * (x div 16 mod 4) + x mod 16" for x :: nat
      using mod_mult2_eq [of x 16 4] div_mult_mod_eq [of x 64] by simp
    then show ?thesis using mm 16 4 64 dvb by metis
  qed
qed

theorem cdev_slots_unique_witness:
  "cdev_slot \<lparr>INPUT_MAJOR = 13, VIDEO_MAJOR = 81, DVB_MAJOR = 212\<rparr> 1 0xD40013 \<noteq>
   cdev_slot \<lparr>INPUT_MAJOR = 13, VIDEO_MAJOR = 81, DVB_MAJOR = 212\<rparr> 1 0xD40003"
proof
  let ?M = "\<lparr>INPUT_MAJOR = 13, VIDEO_MAJOR = 81, DVB_MAJOR = 212\<rparr>"
  have "good_majors ?M" by (simp add: good_majors_def LIRC_MAJOR_def ROCCAT_MAJOR_def)
  moreover have "usual_minor ?M 0xD40013" "usual_minor ?M 0xD40003"
    by (simp_all add: usual_minor_def major_of_def minor_of_def)
  moreover have "cdev_slot ?M 1 0xD40003 = Some (F_V4B_DVB_FRONTEND, 8)"
    by (simp add: cdev_slot_def major_of_def minor_of_def dvb_kinds_def)
  moreover assume "cdev_slot ?M 1 0xD40013 = cdev_slot ?M 1 0xD40003"
  ultimately show False
    using cdev_slots_unique [of ?M "0xD40013" "0xD40003" 1 "(F_V4B_DVB_FRONTEND, 8)"] by simp
qed

text \<open>Beyond that range places are shared, since the number of a DVB adapter is cut to eight bits:
  the adapters 0 and 256 have the same places.\<close>

lemma dvb_adapter_256:
  "unat (INPUT_MAJOR M) \<noteq> 212 \<Longrightarrow> cdev_slot M fe 0xD44000 = cdev_slot M fe 0xD40000"
  by (simp add: cdev_slot_def major_of_def minor_of_def)

section \<open>Binding of drivers\<close>

text \<open>The driver belongs to the bus of the device and is accepted by \<open>match\<close> and \<open>probe\<close>.\<close>

definition driver_accepts :: "(addr \<Rightarrow> bus_ops) \<Rightarrow> dev_state \<Rightarrow> addr \<Rightarrow> addr \<Rightarrow> bool" where
  "driver_accepts B s dev drv \<longleftrightarrow>
     driver_bus s drv = bus (the (devices s dev)) \<and>
     (case bus_match (B (bus (the (devices s dev)))) of Some m \<Rightarrow> m dev drv | None \<Rightarrow> True) \<and>
     (case bus_probe (B (bus (the (devices s dev)))) of Some p \<Rightarrow> p dev drv = None | None \<Rightarrow> True)"

lemma kref_get_eq: "kref_get r = r + 1"
  by (simp add: kref_get_def atomic_inc_def Let_def)

lemma device_update_fields [simp]:
  "devices (device_update g dev s) = (devices s)(dev := map_option g (devices s dev))"
  "device_driver_head (device_update g dev s) = device_driver_head s"
  "driver_bus (device_update g dev s) = driver_bus s"
  by (simp_all add: device_update_def)

lemma device_update_twice:
  "device_update f dev (device_update g dev s) = device_update (f \<circ> g) dev s"
  by (simp add: device_update_def option.map_comp)

lemma driver_accepts_update:
  "(\<And>d. bus (g d) = bus d) \<Longrightarrow> devices s dev \<noteq> None \<Longrightarrow>
   driver_accepts B (device_update g dev s) dev = driver_accepts B s dev"
  by (auto simp: driver_accepts_def fun_eq_iff)

lemma device_add_loop_find:
  assumes "dev \<noteq> 0" and "devices s dev = Some d"
  shows "device_add_loop B dev drvs s =
    (case find (driver_accepts B s dev) drvs of
       Some drv \<Rightarrow> (None, device_update (\<lambda>d. d\<lparr>driver := drv, refcount := refcount d + 1\<rparr>) dev s)
     | None \<Rightarrow> (Some ENXIO, device_update (\<lambda>d. d\<lparr>driver := 0\<rparr>) dev s))"
  using assms(2)
proof (induction drvs arbitrary: s d)
  case (Cons drv drvs)
  show ?case
  proof (cases "driver_bus s drv = bus d")
    case False
    then have "\<not> driver_accepts B s dev drv" using Cons.prems by (simp add: driver_accepts_def)
    then show ?thesis using False Cons.prems Cons.IH [OF Cons.prems] by (simp add: Let_def)
  next
    case True
    let ?s = "device_update (\<lambda>d. d\<lparr>driver := drv\<rparr>) dev s"
    have IH: "device_add_loop B dev drvs ?s =
      (case find (driver_accepts B s dev) drvs of
         Some drv \<Rightarrow> (None, device_update (\<lambda>d. d\<lparr>driver := drv, refcount := refcount d + 1\<rparr>) dev ?s)
       | None \<Rightarrow> (Some ENXIO, device_update (\<lambda>d. d\<lparr>driver := 0\<rparr>) dev ?s))"
      using Cons.IH [of ?s] Cons.prems by (simp add: driver_accepts_update)
    show ?thesis
    proof (cases "driver_accepts B s dev drv")
      case acc: True
      then have "device_add_loop B dev (drv # drvs) s = (None, get_device dev ?s)"
        using True Cons.prems by (auto simp: driver_accepts_def Let_def split: option.splits)
      then show ?thesis
        using acc assms(1)
        by (simp add: get_device_def kref_get_eq device_update_twice o_def)
    next
      case False
      then have "device_add_loop B dev (drv # drvs) s = device_add_loop B dev drvs ?s"
        using True Cons.prems by (auto simp: driver_accepts_def Let_def split: option.splits)
      then show ?thesis
        using False IH by (simp add: device_update_twice o_def split: option.split)
    qed
  qed
qed simp



end
