(* ===== verification/Files.thy ===== *)
theory Files
  imports Devices
begin

text \<open>
  The file layer (\<open>kernel/linux_file.c\<close>) and the memory for 32-bit clients
  (\<open>kernel/linux_compat32.c\<close>).  An open file is a handle with a table of memory mappings; its
  operations are functions of a driver and are a parameter.  A thread owns one buffer, in
  which a driver allocates while it serves a 32-bit client, and a flag that says that it does.
  The limit of the address window of CUSE and the page size are parameters.
\<close>

section \<open>Memory for 32-bit clients\<close>

definition WEBCAMD_USER_ALLOC_MAX :: u64 where
  "WEBCAMD_USER_ALLOC_MAX = 4096"

definition WEBCAMD_USER_ALLOC_ADDR :: "u64 \<Rightarrow> u64" where
  "WEBCAMD_USER_ALLOC_ADDR CUSE_BUF_MAX_PTR = CUSE_BUF_MAX_PTR - WEBCAMD_USER_ALLOC_MAX"

text \<open>\<open>struct tls_memory\<close> with the bytes of the buffer, and the flag \<open>in_compat32_call\<close>.\<close>

record tls_memory =
  tls_ptr :: "u8 list option"
  tls_offset :: u64
  in_compat32_call :: bool

definition in_compat_syscall :: "tls_memory \<Rightarrow> bool" where
  "in_compat_syscall t = in_compat32_call t"

text \<open>\<open>memcpy\<close> and \<open>memset\<close> to the buffer: \<open>None\<close> stands for an access outside of it.\<close>

definition mem_write :: "u64 \<Rightarrow> u8 list \<Rightarrow> u8 list \<Rightarrow> u8 list option" where
  "mem_write off bytes m =
     (if unat off + length bytes \<le> length m
      then Some (take (unat off) m @ bytes @ drop (unat off + length bytes) m) else None)"

definition mem_read :: "u64 \<Rightarrow> u64 \<Rightarrow> u8 list \<Rightarrow> u8 list option" where
  "mem_read off len m =
     (if unat off + unat len \<le> length m then Some (take (unat len) (drop (unat off) m)) else None)"

text \<open>\<open>mem\<close> is the result of \<open>malloc\<close>, with arbitrary contents.  The outer \<open>None\<close> is an access
  outside of the buffer; the result 0 is \<open>NULL\<close>.\<close>

definition compat_alloc_user_space ::
  "u64 \<Rightarrow> u8 list option \<Rightarrow> u64 \<Rightarrow> tls_memory \<Rightarrow> (u64 \<times> tls_memory) option" where
  "compat_alloc_user_space MAXP mem len t =
     (if \<not> in_compat_syscall t \<or> len > WEBCAMD_USER_ALLOC_MAX then Some (0, t)
      else
        let t = (if tls_ptr t = None then t\<lparr>tls_ptr := mem, tls_offset := 0\<rparr> else t) in
        case tls_ptr t of
          None \<Rightarrow> Some (0, t)
        | Some m \<Rightarrow>
            let rem = WEBCAMD_USER_ALLOC_MAX - tls_offset t in
            if len > rem then Some (0, t)
            else
              case mem_write (tls_offset t) (replicate (unat len) 0) m of
                None \<Rightarrow> None
              | Some m \<Rightarrow>
                  let ptr = tls_offset t + WEBCAMD_USER_ALLOC_ADDR MAXP
                  in Some (ptr, t\<lparr>tls_ptr := Some m, tls_offset := tls_offset t + len\<rparr>))"

definition compat_free_all_user_space :: "tls_memory \<Rightarrow> tls_memory" where
  "compat_free_all_user_space t = t\<lparr>tls_ptr := None\<rparr>"

text \<open>The test at the beginning of both copy functions.\<close>

definition compat_range_bad :: "u64 \<Rightarrow> u64 \<Rightarrow> u64 \<Rightarrow> bool" where
  "compat_range_bad MAXP p len \<longleftrightarrow>
     len > WEBCAMD_USER_ALLOC_MAX \<or>
     p < WEBCAMD_USER_ALLOC_ADDR MAXP \<or>
     p + len > WEBCAMD_USER_ALLOC_ADDR MAXP + WEBCAMD_USER_ALLOC_MAX"

definition compat_copy_to_user ::
  "u64 \<Rightarrow> u64 \<Rightarrow> u8 list \<Rightarrow> tls_memory \<Rightarrow> (errno option \<times> tls_memory) option" where
  "compat_copy_to_user MAXP to from t =
     (case tls_ptr t of
        None \<Rightarrow> Some (Some ERANGE, t)
      | Some m \<Rightarrow>
          if compat_range_bad MAXP to (of_nat (length from)) then Some (Some ERANGE, t)
          else
            case mem_write (to - WEBCAMD_USER_ALLOC_ADDR MAXP) from m of
              None \<Rightarrow> None
            | Some m \<Rightarrow> Some (None, t\<lparr>tls_ptr := Some m\<rparr>))"

definition compat_copy_from_user ::
  "u64 \<Rightarrow> u64 \<Rightarrow> u64 \<Rightarrow> tls_memory \<Rightarrow> (errno + u8 list) option" where
  "compat_copy_from_user MAXP from len t =
     (case tls_ptr t of
        None \<Rightarrow> Some (Inl ERANGE)
      | Some m \<Rightarrow>
          if compat_range_bad MAXP from len then Some (Inl ERANGE)
          else map_option Inr (mem_read (from - WEBCAMD_USER_ALLOC_ADDR MAXP) len m))"

section \<open>Open files\<close>

definition LINUX_VMA_MAX :: nat where "LINUX_VMA_MAX = 128"

definition MAP_FAILED :: u64 where "MAP_FAILED = - 1"

text \<open>\<open>vm_ops\<close> is \<open>Some True\<close> when there is a function \<open>close\<close>.\<close>

record vm_area_struct =
  vm_start :: u64
  vm_end :: u64
  vm_pgoff :: u64
  vm_ops :: "bool option"
  vm_flags :: u32
  vm_buffer_address :: u64

record cdev_handle =
  f_flags :: u32
  f_op :: addr
  d_inode :: u32
  i_cdev :: addr
  fixed_vma :: "vm_area_struct list"

text \<open>The functions of a driver.  They get the handle, and those that serve a client also the
  memory of the thread, in which they may allocate.\<close>

record file_operations =
  fo_open :: "(cdev_handle \<Rightarrow> int) option"
  fo_release :: "(cdev_handle \<Rightarrow> int) option"
  fo_poll :: "(cdev_handle \<Rightarrow> int) option"
  fo_read :: "(cdev_handle \<Rightarrow> u64 \<Rightarrow> u64 \<Rightarrow> tls_memory \<Rightarrow> int \<times> tls_memory) option"
  fo_write :: "(cdev_handle \<Rightarrow> u64 \<Rightarrow> u64 \<Rightarrow> tls_memory \<Rightarrow> int \<times> tls_memory) option"
  fo_ioctl :: "(cdev_handle \<Rightarrow> u32 \<Rightarrow> u64 \<Rightarrow> tls_memory \<Rightarrow> int \<times> tls_memory) option"
  fo_unlocked_ioctl :: "(cdev_handle \<Rightarrow> u32 \<Rightarrow> u64 \<Rightarrow> tls_memory \<Rightarrow> int \<times> tls_memory) option"
  fo_compat_ioctl :: "(cdev_handle \<Rightarrow> u32 \<Rightarrow> u64 \<Rightarrow> tls_memory \<Rightarrow> int \<times> tls_memory) option"
  fo_mmap :: "(cdev_handle \<Rightarrow> vm_area_struct \<Rightarrow> int \<times> vm_area_struct) option"

text \<open>The flags of a call from CUSE and the flag of an open file, numbers of system headers.\<close>

record flag_numbers =
  CUSE_FFLAG_NONBLOCK :: u32
  CUSE_FFLAG_COMPAT32 :: u32
  O_NONBLOCK :: u32

definition zero_vma :: vm_area_struct where
  "zero_vma = \<lparr>vm_start = 0, vm_end = 0, vm_pgoff = 0, vm_ops = None, vm_flags = 0,
     vm_buffer_address = 0\<rparr>"

text \<open>\<open>got\<close> says whether \<open>malloc\<close> succeeded; \<open>D\<close> gives the operations at an address.\<close>

definition linux_open ::
  "(addr \<Rightarrow> file_operations) \<Rightarrow> bool \<Rightarrow> u32 \<Rightarrow> u32 \<Rightarrow> cdev_state \<Rightarrow> cdev_handle option" where
  "linux_open D got f_v4b fflags s =
     (let cdev = cdev_get_device f_v4b s in
      if cdev = 0 then None
      else if \<not> got then None
      else
        let c = the (cdevs s cdev);
            handle = \<lparr>f_flags = fflags, f_op = cdev_ops c, d_inode = cdev_get_mm f_v4b s,
              i_cdev = cdev, fixed_vma = replicate LINUX_VMA_MAX zero_vma\<rparr>
        in case fo_open (D (cdev_ops c)) of
             None \<Rightarrow> Some handle
           | Some op \<Rightarrow> if - op handle \<noteq> 0 then None else Some handle)"

text \<open>A mapping is in use.\<close>

definition vma_mapped :: "vm_area_struct \<Rightarrow> bool" where
  "vma_mapped v \<longleftrightarrow> vm_buffer_address v \<noteq> 0 \<and> vm_buffer_address v \<noteq> MAP_FAILED"

text \<open>The loop of \<open>linux_close\<close>: the numbers of the mappings for which \<open>close\<close> is called.\<close>

fun linux_close_loop :: "nat \<Rightarrow> vm_area_struct list \<Rightarrow> nat list \<times> vm_area_struct list" where
  "linux_close_loop i [] = ([], [])"
| "linux_close_loop i (v # vs) =
     (let (closed, vs) = linux_close_loop (i + 1) vs in
      if vm_buffer_address v = 0 then (closed, v # vs)
      else if vm_buffer_address v = MAP_FAILED then (closed, v # vs)
      else ((if vm_ops v = Some True then [i] else []) @ closed,
            v\<lparr>vm_buffer_address := 0, vm_ops := None\<rparr> # vs))"

text \<open>The result has the error, the closed mappings and the handle that \<open>release\<close> is called
  with; \<open>None\<close> is a null handle.\<close>

definition linux_close ::
  "(addr \<Rightarrow> file_operations) \<Rightarrow> cdev_handle option \<Rightarrow> int \<times> nat list \<times> cdev_handle option" where
  "linux_close D handle =
     (case handle of
        None \<Rightarrow> (0, [], None)
      | Some h \<Rightarrow>
          let (closed, vs) = linux_close_loop 0 (fixed_vma h);
              h = h\<lparr>fixed_vma := vs\<rparr>
          in case fo_release (D (f_op h)) of
               Some release \<Rightarrow> (release h, closed, Some h)
             | None \<Rightarrow> (0, closed, None))"

definition linux_fix_f_flags :: "flag_numbers \<Rightarrow> cdev_handle \<Rightarrow> u32 \<Rightarrow> cdev_handle" where
  "linux_fix_f_flags N fp fflags =
     (if fflags AND CUSE_FFLAG_NONBLOCK N \<noteq> 0 then
        (if f_flags fp AND O_NONBLOCK N = 0 then fp\<lparr>f_flags := f_flags fp OR O_NONBLOCK N\<rparr> else fp)
      else
        (if f_flags fp AND O_NONBLOCK N \<noteq> 0 then fp\<lparr>f_flags := f_flags fp AND NOT (O_NONBLOCK N)\<rparr>
         else fp))"

text \<open>A call of a driver on behalf of a 32-bit client.\<close>

definition compat_call :: "(tls_memory \<Rightarrow> int \<times> tls_memory) \<Rightarrow> tls_memory \<Rightarrow> int \<times> tls_memory" where
  "compat_call op t =
     (let (retval, t) = op (t\<lparr>in_compat32_call := True\<rparr>)
      in (retval, compat_free_all_user_space (t\<lparr>in_compat32_call := False\<rparr>)))"

text \<open>\<open>iowint\<close> says that the request is an \<open>_IOWINT\<close>, with the number that was copied in, or \<open>None\<close>
  when that failed.\<close>

definition linux_ioctl ::
  "(addr \<Rightarrow> file_operations) \<Rightarrow> flag_numbers \<Rightarrow> cdev_handle option \<Rightarrow> u32 \<Rightarrow> u32 \<Rightarrow> u64 \<Rightarrow>
   u32 option option \<Rightarrow> tls_memory \<Rightarrow> (errno + int) \<times> cdev_handle option \<times> tls_memory" where
  "linux_ioctl D N handle fflags cmd arg iowint t =
     (case handle of
        None \<Rightarrow> (Inl EINVAL, handle, t)
      | Some h \<Rightarrow>
          if iowint = Some None then (Inl EFAULT, handle, t)
          else
            let arg = (case iowint of Some (Some n) \<Rightarrow> scast n | _ \<Rightarrow> arg);
                h = linux_fix_f_flags N h fflags;
                ops = D (f_op h)
            in if fflags AND CUSE_FFLAG_COMPAT32 N \<noteq> 0 \<and> fo_compat_ioctl ops \<noteq> None then
                 (let (retval, t) = compat_call (the (fo_compat_ioctl ops) h cmd arg) t
                  in (Inr retval, Some h, t))
               else
                 case fo_unlocked_ioctl ops of
                   Some op \<Rightarrow> (let (retval, t) = op h cmd arg t in (Inr retval, Some h, t))
                 | None \<Rightarrow>
                     case fo_ioctl ops of
                       Some op \<Rightarrow> (let (retval, t) = op h cmd arg t in (Inr retval, Some h, t))
                     | None \<Rightarrow> (Inl EINVAL, Some h, t))"

text \<open>\<open>None\<close> stands for \<open>POLLNVAL\<close>.\<close>

definition linux_poll :: "(addr \<Rightarrow> file_operations) \<Rightarrow> cdev_handle option \<Rightarrow> int option" where
  "linux_poll D handle =
     (case handle of
        None \<Rightarrow> None
      | Some h \<Rightarrow> case fo_poll (D (f_op h)) of None \<Rightarrow> None | Some poll \<Rightarrow> Some (poll h))"

text \<open>The common body of \<open>linux_read\<close> and \<open>linux_write\<close>.\<close>

definition file_transfer ::
  "(cdev_handle \<Rightarrow> u64 \<Rightarrow> u64 \<Rightarrow> tls_memory \<Rightarrow> int \<times> tls_memory) option \<Rightarrow> flag_numbers \<Rightarrow>
   cdev_handle \<Rightarrow> u32 \<Rightarrow> u64 \<Rightarrow> u64 \<Rightarrow> tls_memory \<Rightarrow>
   (errno + int) \<times> cdev_handle option \<times> tls_memory" where
  "file_transfer fn N h fflags ptr len t =
     (case fn of
        None \<Rightarrow> (Inl EINVAL, Some h, t)
      | Some op \<Rightarrow>
          let h = linux_fix_f_flags N h fflags;
              (retval, t) = (if fflags AND CUSE_FFLAG_COMPAT32 N \<noteq> 0 then compat_call (op h ptr len) t
                             else op h ptr len t)
          in (Inr retval, Some h, t))"

definition linux_read ::
  "(addr \<Rightarrow> file_operations) \<Rightarrow> flag_numbers \<Rightarrow> cdev_handle option \<Rightarrow> u32 \<Rightarrow> u64 \<Rightarrow> u64 \<Rightarrow>
   tls_memory \<Rightarrow> (errno + int) \<times> cdev_handle option \<times> tls_memory" where
  "linux_read D N handle fflags ptr len t =
     (case handle of
        None \<Rightarrow> (Inl EINVAL, handle, t)
      | Some h \<Rightarrow> file_transfer (fo_read (D (f_op h))) N h fflags ptr len t)"

definition linux_write ::
  "(addr \<Rightarrow> file_operations) \<Rightarrow> flag_numbers \<Rightarrow> cdev_handle option \<Rightarrow> u32 \<Rightarrow> u64 \<Rightarrow> u64 \<Rightarrow>
   tls_memory \<Rightarrow> (errno + int) \<times> cdev_handle option \<times> tls_memory" where
  "linux_write D N handle fflags ptr len t =
     (case handle of
        None \<Rightarrow> (Inl EINVAL, handle, t)
      | Some h \<Rightarrow> file_transfer (fo_write (D (f_op h))) N h fflags ptr len t)"

section \<open>Memory mappings\<close>

text \<open>\<open>main\<close> computes \<open>PAGE_MASK\<close> and \<open>PAGE_SHIFT\<close> from the page size of the system; here the
  shift is the parameter.\<close>

definition PAGE_SIZE :: "nat \<Rightarrow> u64" where
  "PAGE_SIZE sh = push_bit sh 1"

definition PAGE_MASK :: "nat \<Rightarrow> u64" where
  "PAGE_MASK sh = NOT (PAGE_SIZE sh - 1)"

definition round_up_page :: "nat \<Rightarrow> u64 \<Rightarrow> u64" where
  "round_up_page sh len =
     (if len AND (PAGE_SIZE sh - 1) \<noteq> 0 then (len + PAGE_SIZE sh) AND PAGE_MASK sh else len)"

text \<open>The test of the loop that looks for a mapping that exists.\<close>

definition same_mapping :: "nat \<Rightarrow> u64 \<Rightarrow> u64 \<Rightarrow> vm_area_struct \<Rightarrow> bool" where
  "same_mapping sh len offset v \<longleftrightarrow>
     vm_end v - vm_start v = len \<and> vm_pgoff v = signed_drop_bit sh offset \<and>
     vm_buffer_address v \<noteq> 0 \<and> vm_buffer_address v \<noteq> MAP_FAILED"

text \<open>A loop over the table that stops at the first element with a property.\<close>

fun first_index :: "('a \<Rightarrow> bool) \<Rightarrow> nat \<Rightarrow> 'a list \<Rightarrow> nat option" where
  "first_index P i [] = None"
| "first_index P i (v # vs) = (if P v then Some i else first_index P (i + 1) vs)"

definition VM_WRITE :: u32 where "VM_WRITE = 1"
definition VM_READ :: u32 where "VM_READ = 2"
definition VM_SHARED :: u32 where "VM_SHARED = 4"

definition linux_mmap ::
  "(addr \<Rightarrow> file_operations) \<Rightarrow> nat \<Rightarrow> cdev_handle option \<Rightarrow> u64 \<Rightarrow> u64 \<Rightarrow> u64 \<Rightarrow>
   u64 \<times> cdev_handle option" where
  "linux_mmap D sh handle addr len offset =
     (case handle of
        None \<Rightarrow> (MAP_FAILED, handle)
      | Some h \<Rightarrow>
          case fo_mmap (D (f_op h)) of
            None \<Rightarrow> (MAP_FAILED, handle)
          | Some mmap \<Rightarrow>
              if len = 0 then (MAP_FAILED, handle)
              else if offset AND (PAGE_SIZE sh - 1) \<noteq> 0 then (MAP_FAILED, handle)
              else
                let len = round_up_page sh len in
                case first_index (same_mapping sh len offset) 0 (fixed_vma h) of
                  Some i \<Rightarrow> (vm_buffer_address (fixed_vma h ! i), handle)
                | None \<Rightarrow>
                    case first_index (\<lambda>v. vm_buffer_address v = 0 \<or> vm_buffer_address v = MAP_FAILED)
                           0 (fixed_vma h) of
                      None \<Rightarrow> (MAP_FAILED, handle)
                    | Some i \<Rightarrow>
                        let v = (fixed_vma h ! i)\<lparr>vm_start := addr, vm_end := addr + len,
                              vm_pgoff := signed_drop_bit sh offset, vm_buffer_address := MAP_FAILED,
                              vm_flags := VM_WRITE OR VM_READ OR VM_SHARED\<rparr>;
                            (err, v) = mmap h v;
                            v = (if err \<noteq> 0 then v\<lparr>vm_buffer_address := MAP_FAILED\<rparr> else v);
                            h = h\<lparr>fixed_vma := (fixed_vma h)[i := v]\<rparr>
                        in (if err \<noteq> 0 then (MAP_FAILED, Some h) else (vm_buffer_address v, Some h)))"

text \<open>The test of \<open>linux_get_user_pages\<close>.\<close>

definition user_pages_in :: "nat \<Rightarrow> u64 \<Rightarrow> int \<Rightarrow> vm_area_struct \<Rightarrow> bool" where
  "user_pages_in sh start npages v \<longleftrightarrow>
     vm_buffer_address v \<noteq> 0 \<and> vm_buffer_address v \<noteq> MAP_FAILED \<and>
     \<not> (start < vm_start v \<or> start > vm_end v) \<and>
     \<not> word_of_int npages > drop_bit sh (vm_end v - start)"

text \<open>The pages that are stored, or \<open>None\<close> for the result \<open>-1\<close>.\<close>

definition linux_get_user_pages ::
  "nat \<Rightarrow> cdev_handle option \<Rightarrow> u64 \<Rightarrow> int \<Rightarrow> u64 list option" where
  "linux_get_user_pages sh handle start npages =
     (if npages \<le> 0 then None
      else if start AND (PAGE_SIZE sh - 1) \<noteq> 0 then None
      else
        case handle of
          None \<Rightarrow> None
        | Some h \<Rightarrow>
            case first_index (user_pages_in sh start npages) 0 (fixed_vma h) of
              None \<Rightarrow> None
            | Some i \<Rightarrow>
                let v = fixed_vma h ! i; off = start - vm_start v
                in Some (map (\<lambda>j. vm_buffer_address v + (off + of_nat j * PAGE_SIZE sh))
                           [0..<nat npages]))"

definition compat_ptr_ioctl ::
  "(addr \<Rightarrow> file_operations) \<Rightarrow> cdev_handle \<Rightarrow> u32 \<Rightarrow> u64 \<Rightarrow> tls_memory \<Rightarrow> (errno + int) \<times> tls_memory" where
  "compat_ptr_ioctl D h cmd arg t =
     (case fo_unlocked_ioctl (D (f_op h)) of
        None \<Rightarrow> (Inl ENOTTY, t)
      | Some op \<Rightarrow> (let (retval, t) = op h cmd (ucast (ucast arg :: u32)) t in (Inr retval, t)))"

section \<open>The memory for 32-bit clients is safe\<close>

text \<open>The window of addresses lies in the address space, and the buffer of a thread has its size.\<close>

definition window_ok :: "u64 \<Rightarrow> bool" where
  "window_ok MAXP \<longleftrightarrow> 4096 < unat MAXP"

definition tls_ok :: "tls_memory \<Rightarrow> bool" where
  "tls_ok t \<longleftrightarrow> (case tls_ptr t of None \<Rightarrow> True | Some m \<Rightarrow> length m = 4096 \<and> unat (tls_offset t) \<le> 4096)"

lemma unat_alloc_addr:
  "window_ok MAXP \<Longrightarrow> unat (WEBCAMD_USER_ALLOC_ADDR MAXP) = unat MAXP - 4096"
  by (simp add: window_ok_def WEBCAMD_USER_ALLOC_ADDR_def WEBCAMD_USER_ALLOC_MAX_def unat_sub_if')

lemma alloc_addr_max: "WEBCAMD_USER_ALLOC_ADDR MAXP + WEBCAMD_USER_ALLOC_MAX = MAXP"
  by (simp add: WEBCAMD_USER_ALLOC_ADDR_def)

lemma unat_add_small: "unat (a :: u64) + unat b < 2 ^ 64 \<Longrightarrow> unat (a + b) = unat a + unat b"
  by (simp add: unat_word_ariths)

definition tls_used :: "tls_memory \<Rightarrow> nat" where
  "tls_used t = (if tls_ptr t = None then 0 else unat (tls_offset t))"

lemma mem_write_Some:
  "unat off + length bytes \<le> length m \<Longrightarrow>
   mem_write off bytes m = Some (take (unat off) m @ bytes @ drop (unat off + length bytes) m)"
  by (simp add: mem_write_def)

text \<open>One allocation: it does not leave the buffer, and a block that is returned is zeroed, lies in
  the window behind the blocks in use and leaves these as they are.\<close>

lemma compat_alloc_step:
  assumes "window_ok MAXP" and "tls_ok t" and "\<And>m. mem = Some m \<Longrightarrow> length m = 4096"
  obtains r t' where "compat_alloc_user_space MAXP mem len t = Some (r, t')" and "tls_ok t'"
    and "in_compat32_call t' = in_compat32_call t"
    and "r = 0 \<Longrightarrow> tls_used t' = tls_used t"
    and "r \<noteq> 0 \<Longrightarrow> unat r = unat MAXP - 4096 + tls_used t \<and> tls_used t' = tls_used t + unat len \<and>
      tls_used t' \<le> 4096 \<and> (\<exists>m'. tls_ptr t' = Some m' \<and>
        take (unat len) (drop (tls_used t) m') = replicate (unat len) 0 \<and>
        (\<forall>m. tls_ptr t = Some m \<longrightarrow> take (tls_used t) m' = take (tls_used t) m))"
proof -
  define u where "u = (if tls_ptr t = None then t\<lparr>tls_ptr := mem, tls_offset := 0\<rparr> else t)"
  have u: "tls_ok u" "in_compat32_call u = in_compat32_call t" "tls_used u = tls_used t"
    "tls_ptr t \<noteq> None \<Longrightarrow> tls_ptr u = tls_ptr t"
    using assms(2, 3) by (auto simp: u_def tls_ok_def tls_used_def split: option.splits)
  show thesis
  proof (cases "\<not> in_compat_syscall t \<or> len > WEBCAMD_USER_ALLOC_MAX")
    case True
    then show ?thesis
      using that [of 0 t] assms(2) by (simp add: compat_alloc_user_space_def)
  next
    case False
    then have alloc: "compat_alloc_user_space MAXP mem len t =
        (case tls_ptr u of
          None \<Rightarrow> Some (0, u)
        | Some m \<Rightarrow>
            if len > WEBCAMD_USER_ALLOC_MAX - tls_offset u then Some (0, u)
            else
              case mem_write (tls_offset u) (replicate (unat len) 0) m of
                None \<Rightarrow> None
              | Some m \<Rightarrow> Some (tls_offset u + WEBCAMD_USER_ALLOC_ADDR MAXP,
                  u\<lparr>tls_ptr := Some m, tls_offset := tls_offset u + len\<rparr>))"
      unfolding compat_alloc_user_space_def Let_def u_def [symmetric] by simp
    show ?thesis
    proof (cases "tls_ptr u")
      case None
      then show ?thesis using that [of 0 u] u alloc by simp
    next
      case (Some m)
      let ?o = "unat (tls_offset u)"
      have m: "length m = 4096" "?o \<le> 4096" using u(1) Some by (simp_all add: tls_ok_def)
      have rem: "unat (WEBCAMD_USER_ALLOC_MAX - tls_offset u) = 4096 - ?o"
        using m by (simp add: WEBCAMD_USER_ALLOC_MAX_def unat_sub_if')
      show ?thesis
      proof (cases "len > WEBCAMD_USER_ALLOC_MAX - tls_offset u")
        case True
        then show ?thesis using that [of 0 u] u alloc Some by simp
      next
        case False
        then have len: "?o + unat len \<le> 4096"
          using m rem by (simp add: word_less_nat_alt)
        let ?r = "tls_offset u + WEBCAMD_USER_ALLOC_ADDR MAXP"
        let ?m = "take ?o m @ replicate (unat len) 0 @ drop (?o + unat len) m"
        let ?t = "u\<lparr>tls_ptr := Some ?m, tls_offset := tls_offset u + len\<rparr>"
        have "compat_alloc_user_space MAXP mem len t = Some (?r, ?t)"
          using alloc Some False m len by (simp add: mem_write_Some)
        moreover have r: "unat ?r = unat MAXP - 4096 + ?o"
          using assms(1) m unat_u64_less [of MAXP]
          by (subst unat_add_small) (simp_all add: unat_alloc_addr window_ok_def)
        moreover have o: "unat (tls_offset u + len) = ?o + unat len"
          using len by (intro unat_add_small) simp
        moreover have used: "?o = tls_used t" using u(3) Some by (simp add: tls_used_def)
        moreover have "?r \<noteq> 0" using r assms(1) by (auto simp: window_ok_def)
        moreover have "tls_ok ?t" "tls_used ?t = ?o + unat len"
          using o len m by (simp_all add: tls_ok_def tls_used_def)
        moreover have "take (unat len) (drop ?o ?m) = replicate (unat len) 0"
          "\<forall>m'. tls_ptr t = Some m' \<longrightarrow> take ?o ?m = take ?o m'"
          using m u(4) Some by auto
        ultimately show ?thesis
          using that [of ?r ?t] u(2) len by simp
      qed
    qed
  qed
qed

text \<open>A sequence of allocations in one call of a driver, with the blocks that were returned.\<close>

fun compat_allocs ::
  "u64 \<Rightarrow> (u8 list option \<times> u64) list \<Rightarrow> tls_memory \<Rightarrow> ((u64 \<times> u64) list \<times> tls_memory) option" where
  "compat_allocs MAXP [] t = Some ([], t)"
| "compat_allocs MAXP ((mem, len) # reqs) t =
     (case compat_alloc_user_space MAXP mem len t of
        None \<Rightarrow> None
      | Some (r, t) \<Rightarrow>
          case compat_allocs MAXP reqs t of
            None \<Rightarrow> None
          | Some (bs, t) \<Rightarrow> Some (if r = 0 then bs else (r, len) # bs, t))"

text \<open>Blocks in ascending order from an address on, without overlap.\<close>

fun ascending :: "nat \<Rightarrow> nat \<Rightarrow> (u64 \<times> u64) list \<Rightarrow> bool" where
  "ascending lo hi [] \<longleftrightarrow> lo \<le> hi"
| "ascending lo hi ((r, len) # bs) \<longleftrightarrow> lo \<le> unat r \<and> ascending (unat r + unat len) hi bs"

lemma compat_allocs_ok:
  assumes "window_ok MAXP" and "\<forall>(mem, len) \<in> set reqs. \<forall>m. mem = Some m \<longrightarrow> length m = 4096"
    and "tls_ok t"
  shows "\<exists>bs t'. compat_allocs MAXP reqs t = Some (bs, t') \<and> tls_ok t' \<and>
    ascending (unat MAXP - 4096 + tls_used t) (unat MAXP) bs"
  using assms(2, 3)
proof (induction reqs arbitrary: t)
  case Nil
  then show ?case
    using assms(1) by (auto simp: window_ok_def tls_used_def tls_ok_def split: option.splits)
next
  case (Cons req reqs)
  obtain mem len where req: "req = (mem, len)" by (cases req)
  obtain r t' where step: "compat_alloc_user_space MAXP mem len t = Some (r, t')" "tls_ok t'"
    "r = 0 \<Longrightarrow> tls_used t' = tls_used t"
    "r \<noteq> 0 \<Longrightarrow> unat r = unat MAXP - 4096 + tls_used t \<and> tls_used t' = tls_used t + unat len"
  proof (rule compat_alloc_step [OF assms(1) Cons.prems(2)])
    show "length m = 4096" if "mem = Some m" for m using Cons.prems(1) req that by simp
  qed blast
  obtain bs t'' where "compat_allocs MAXP reqs t' = Some (bs, t'')" "tls_ok t''"
    "ascending (unat MAXP - 4096 + tls_used t') (unat MAXP) bs"
    using Cons.IH [OF _ step(2)] Cons.prems(1) by auto
  then show ?case
    using step req by (cases "r = 0") (simp_all add: add.assoc)
qed

lemma compat_range:
  assumes "window_ok MAXP" and "unat p + unat len < 2 ^ 64"
  shows "\<not> compat_range_bad MAXP p len \<longleftrightarrow> unat MAXP - 4096 \<le> unat p \<and> unat p + unat len \<le> unat MAXP"
  using assms unfolding compat_range_bad_def alloc_addr_max
  by (auto simp: word_less_nat_alt unat_alloc_addr unat_add_small WEBCAMD_USER_ALLOC_MAX_def
      window_ok_def)

lemma unat_window_offset:
  assumes "window_ok MAXP" and "unat MAXP - 4096 \<le> unat p"
  shows "unat (p - WEBCAMD_USER_ALLOC_ADDR MAXP) = unat p - (unat MAXP - 4096)"
  using assms by (simp add: unat_sub_if' unat_alloc_addr)


text \<open>The sum in the test can wrap around, and then a copy leaves the buffer.\<close>

lemma compat_copy_wraps:
  "compat_copy_to_user 0x40000000 (- 8) (replicate 16 1)
     \<lparr>tls_ptr = Some (replicate 4096 0), tls_offset = 0, in_compat32_call = True\<rparr> = None"
  by (simp add: compat_copy_to_user_def compat_range_bad_def WEBCAMD_USER_ALLOC_ADDR_def
      WEBCAMD_USER_ALLOC_MAX_def mem_write_def)


section \<open>Mappings\<close>

lemma first_index_nth:
  "first_index P i xs = Some k \<Longrightarrow> \<exists>j. k = i + j \<and> j < length xs \<and> P (xs ! j)"
proof (induction xs arbitrary: i)
  case (Cons x xs)
  show ?case
  proof (cases "P x")
    case True
    then show ?thesis using Cons.prems by (intro exI [of _ 0]) simp
  next
    case False
    then obtain j where "k = i + 1 + j" "j < length xs" "P (xs ! j)"
      using Cons.IH [of "i + 1"] Cons.prems by auto
    then show ?thesis by (intro exI [of _ "Suc j"]) simp
  qed
qed simp

lemma first_index_None: "first_index P i xs = None \<longleftrightarrow> (\<forall>x \<in> set xs. \<not> P x)"
  by (induction xs arbitrary: i) auto

lemma first_index_unique:
  "j < length xs \<Longrightarrow> P (xs ! j) \<Longrightarrow> (\<And>k. k < length xs \<Longrightarrow> k \<noteq> j \<Longrightarrow> \<not> P (xs ! k)) \<Longrightarrow>
   first_index P i xs = Some (i + j)"
proof (induction xs arbitrary: i j)
  case (Cons x xs)
  show ?case
  proof (cases j)
    case 0
    then show ?thesis using Cons.prems by simp
  next
    case (Suc l)
    then have "\<not> P x" using Cons.prems(3) [of 0] by simp
    moreover have "\<not> P (xs ! k)" if "k < length xs" "k \<noteq> l" for k
      using Cons.prems(3) [of "Suc k"] Suc that by simp
    then have "first_index P (i + 1) xs = Some (i + 1 + l)"
      using Cons.prems Suc by (intro Cons.IH) auto
    ultimately show ?thesis using Suc by simp
  qed
qed simp

text \<open>What a driver may do with a mapping: it keeps the range and the offset.\<close>

definition keeps_range :: "(cdev_handle \<Rightarrow> vm_area_struct \<Rightarrow> int \<times> vm_area_struct) \<Rightarrow> bool" where
  "keeps_range mmap \<longleftrightarrow> (\<forall>h v. let v' = snd (mmap h v) in
     vm_end v' - vm_start v' = vm_end v - vm_start v \<and> vm_pgoff v' = vm_pgoff v)"



lemma unat_PAGE_SIZE:
  assumes "sh < 63"
  shows "unat (PAGE_SIZE sh) = 2 ^ sh"
proof -
  have "PAGE_SIZE sh = of_nat (2 ^ sh)" by (simp add: PAGE_SIZE_def push_bit_eq_mult)
  moreover have "(2 :: nat) ^ sh < 2 ^ 64" using assms by (intro power_strict_increasing) simp_all
  ultimately show ?thesis using assms by (simp only: unsigned_of_nat) (simp add: take_bit_nat_eq_self)
qed

text \<open>The pages that \<open>linux_get_user_pages\<close> returns lie in the buffer of one mapping, as many as
  were asked for and one behind the other; a misaligned start, a count that is not positive or
  a range that leaves every mapping is refused.\<close>

theorem user_pages_inside:
  assumes "sh < 63" and "npages < 2 ^ 31"
    and "linux_get_user_pages sh (Some h) start npages = Some ps"
  shows "0 < npages \<and> length ps = nat npages \<and>
    (\<exists>v \<in> set (fixed_vma h). vma_mapped v \<and> vm_start v \<le> start \<and>
      (\<forall>j < nat npages. \<exists>k. ps ! j = vm_buffer_address v + of_nat k \<and>
         k = unat start - unat (vm_start v) + j * 2 ^ sh \<and>
         k + 2 ^ sh \<le> unat (vm_end v) - unat (vm_start v)))"
proof -
  note size = unat_PAGE_SIZE [OF assms(1)]
  obtain i where pos: "0 < npages" and i: "first_index (user_pages_in sh start npages) 0 (fixed_vma h) = Some i"
    and ps: "ps = map (\<lambda>j. vm_buffer_address (fixed_vma h ! i) + (start - vm_start (fixed_vma h ! i) +
      of_nat j * PAGE_SIZE sh)) [0..<nat npages]"
    using assms(3) by (auto simp: linux_get_user_pages_def Let_def split: if_splits option.splits)
  let ?v = "fixed_vma h ! i"
  have v: "?v \<in> set (fixed_vma h)" "user_pages_in sh start npages ?v"
    using first_index_nth [OF i] by auto
  then have in_v: "vma_mapped ?v" "unat (vm_start ?v) \<le> unat start" "unat start \<le> unat (vm_end ?v)"
    by (auto simp: user_pages_in_def vma_mapped_def word_le_nat_alt not_less)
  have "nat npages \<le> (unat (vm_end ?v) - unat start) div 2 ^ sh"
  proof -
    have "unat (word_of_int npages :: u64) = nat npages"
      using pos assms(2) by (simp add: unsigned_of_int take_bit_int_eq_self)
    moreover have "unat (vm_end ?v - start) = unat (vm_end ?v) - unat start"
      using in_v by (simp add: unat_sub_if')
    ultimately show ?thesis
      using v(2) by (simp add: user_pages_in_def not_less word_le_nat_alt unat_drop_bit_div)
  qed
  then have room: "nat npages * 2 ^ sh \<le> unat (vm_end ?v) - unat start"
    using div_times_less_eq_dividend mult_le_mono1 order_trans by metis
  have page: "\<exists>k. ps ! j = vm_buffer_address ?v + of_nat k \<and>
      k = unat start - unat (vm_start ?v) + j * 2 ^ sh \<and>
      k + 2 ^ sh \<le> unat (vm_end ?v) - unat (vm_start ?v)" if j: "j < nat npages" for j
  proof (intro exI conjI)
    have "start - vm_start ?v = of_nat (unat start - unat (vm_start ?v))"
      using in_v(2) by (simp add: of_nat_diff)
    moreover have "PAGE_SIZE sh = of_nat (2 ^ sh)" by (simp add: PAGE_SIZE_def push_bit_eq_mult)
    ultimately show "ps ! j = vm_buffer_address ?v + of_nat (unat start - unat (vm_start ?v) + j * 2 ^ sh)"
      using j ps by simp
    have "(j + 1) * 2 ^ sh \<le> nat npages * 2 ^ sh" using j by (intro mult_le_mono1) simp
    then show "unat start - unat (vm_start ?v) + j * 2 ^ sh + 2 ^ sh \<le> unat (vm_end ?v) - unat (vm_start ?v)"
      using room in_v by (simp add: algebra_simps)
  qed simp
  show ?thesis
    using pos ps v(1) in_v page by (auto simp: word_le_nat_alt)
qed

theorem user_pages_inside_witness:
  "linux_get_user_pages 12 (Some \<lparr>f_flags = 0, f_op = 0, d_inode = 0, i_cdev = 0,
      fixed_vma = [zero_vma\<lparr>vm_start := 0x1000, vm_end := 0x4000, vm_buffer_address := 0x70000\<rparr>]\<rparr>) 0x2000 2 =
     Some [0x71000, 0x72000] \<and> length [0x71000 :: u64, 0x72000] = nat 2"
proof -
  let ?h = "\<lparr>f_flags = 0, f_op = 0, d_inode = 0, i_cdev = 0,
      fixed_vma = [zero_vma\<lparr>vm_start := 0x1000, vm_end := 0x4000, vm_buffer_address := 0x70000\<rparr>]\<rparr>"
  have "linux_get_user_pages 12 (Some ?h) 0x2000 2 = Some [0x71000, 0x72000]"
    by (simp add: linux_get_user_pages_def PAGE_SIZE_def user_pages_in_def zero_vma_def MAP_FAILED_def
        upt_rec Let_def)
  then show ?thesis
    using user_pages_inside [of 12 2 ?h "0x2000" "[0x71000, 0x72000]"] by simp
qed

lemma linux_close_loop_result:
  "linux_close_loop i vs = (cs, ws) \<Longrightarrow>
   cs = map fst (filter (\<lambda>(k, v). vma_mapped v \<and> vm_ops v = Some True) (zip [i..<i + length vs] vs)) \<and>
   length ws = length vs \<and> (\<forall>w \<in> set ws. \<not> vma_mapped w)"
proof (induction vs arbitrary: i cs ws)
  case (Cons v vs)
  obtain cs' ws' where rest: "linux_close_loop (i + 1) vs = (cs', ws')" by fastforce
  have "[i..<i + length (v # vs)] = i # [i + 1..<i + 1 + length vs]" by (simp add: upt_rec)
  then show ?case
    using Cons.prems rest Cons.IH [OF rest]
    by (auto simp: vma_mapped_def split: if_splits)
qed simp

text \<open>\<open>linux_close\<close> calls the function \<open>close\<close> of every mapping in use that has one, in the order
  of the table and once, and then \<open>release\<close> with a table in which nothing is mapped.\<close>

theorem linux_close_unmaps:
  "\<exists>ws. linux_close D (Some h) =
     (case fo_release (D (f_op h)) of
        Some release \<Rightarrow> (release (h\<lparr>fixed_vma := ws\<rparr>), closed, Some (h\<lparr>fixed_vma := ws\<rparr>))
      | None \<Rightarrow> (0, closed, None)) \<and>
    length ws = length (fixed_vma h) \<and> (\<forall>w \<in> set ws. \<not> vma_mapped w)"
  if "closed = map fst (filter (\<lambda>(k, v). vma_mapped v \<and> vm_ops v = Some True)
        (zip [0..<length (fixed_vma h)] (fixed_vma h)))"
proof -
  obtain cs ws where loop: "linux_close_loop 0 (fixed_vma h) = (cs, ws)" by fastforce
  then show ?thesis
    using linux_close_loop_result [OF loop] that
    by (intro exI [of _ ws]) (simp add: linux_close_def Let_def split: option.split)
qed

text \<open>Whatever a driver does in a call for a 32-bit client, afterwards the memory that it
  allocated is freed and the thread is no longer in such a call.\<close>

lemma compat_call_frees:
  "snd (compat_call op t) = t' \<Longrightarrow> tls_ptr t' = None \<and> \<not> in_compat32_call t'"
  by (auto simp: compat_call_def compat_free_all_user_space_def split: prod.splits)

end
