(* ===== verification/Mod_Param.thy ===== *)
theory Mod_Param
  imports Str_Conv
begin

text \<open>
  Module parameters (\<open>kernel/linux_mod_param.c\<close>).  The registered parameters are the list
  \<open>mod_param_head\<close>.  A parameter has the name of its type as a string, as the macros store it,
  and the variable behind its pointer is a value of the corresponding constructor.
\<close>

text \<open>\<open>strtoul\<close> of the C library with base 0, which detects the base from the prefix.\<close>

definition detect_base :: "string \<Rightarrow> nat" where
  "detect_base s =
     (let s = dropWhile isspace s;
          s = (if s \<noteq> [] \<and> (hd s = CHR ''-'' \<or> hd s = CHR ''+'') then tl s else s)
      in if s = [] \<or> hd s \<noteq> CHR ''0'' then 10
         else if 2 < length s \<and> (s ! 1 = CHR ''x'' \<or> s ! 1 = CHR ''X'') \<and> is_digit 16 (s ! 2) then 16
         else 8)"

definition strtoul0 :: "string \<Rightarrow> u64" where
  "strtoul0 s = fst (strtoull (detect_base s) s)"

text \<open>\<open>atoi\<close> is \<open>(int)strtol(s, NULL, 10)\<close>.\<close>

definition atoi :: "string \<Rightarrow> int" where
  "atoi s = sint (word_of_int (fst (strtoll 10 s)) :: u32)"

section \<open>Parameters\<close>

datatype param_var =
    String_var string
  | Short_var u16
  | Ushort_var u16
  | Int_var u32
  | Bool_var bool
  | Uint_var u32
  | Charp_var "string option"
  | Other_var

record mod_param =
  param_name :: string
  param_type :: string
  param_desc :: "string option"
  param_ptr :: param_var
  param_size :: u16

text \<open>The assignment through the pointer; \<open>None\<close> for a type that is not known.\<close>

definition param_assign :: "string \<Rightarrow> mod_param \<Rightarrow> mod_param option" where
  "param_assign val p =
     (if param_type p = ''string'' then Some (p\<lparr>param_ptr := String_var (fst (strlcpy val (unat (param_size p))))\<rparr>)
      else if param_type p = ''short'' then Some (p\<lparr>param_ptr := Short_var (ucast (strtoul0 val))\<rparr>)
      else if param_type p = ''ushort'' then Some (p\<lparr>param_ptr := Ushort_var (ucast (strtoul0 val))\<rparr>)
      else if param_type p = ''int'' then Some (p\<lparr>param_ptr := Int_var (ucast (strtoul0 val))\<rparr>)
      else if param_type p = ''bool'' then Some (p\<lparr>param_ptr := Bool_var (strtoul0 val \<noteq> 0)\<rparr>)
      else if param_type p = ''uint'' then Some (p\<lparr>param_ptr := Uint_var (ucast (strtoul0 val))\<rparr>)
      else if param_type p = ''charp'' then Some (p\<lparr>param_ptr := Charp_var (Some val)\<rparr>)
      else None)"

text \<open>The result \<open>False\<close> is \<open>-1\<close>.\<close>

fun mod_set_param :: "string \<Rightarrow> string \<Rightarrow> mod_param list \<Rightarrow> bool \<times> mod_param list" where
  "mod_set_param name val [] = (False, [])"
| "mod_set_param name val (p # ps) =
     (if param_name p = name then
        (case param_assign val p of
           Some p \<Rightarrow> (True, p # ps)
         | None \<Rightarrow> (False, p # ps))
      else let (ok, ps) = mod_set_param name val ps in (ok, p # ps))"

text \<open>The variable read as a certain type.  The macros register a variable together with its
  type; the values for a variable of another type are not used.\<close>

definition as_string :: "param_var \<Rightarrow> string" where
  "as_string v = (case v of String_var s \<Rightarrow> s | _ \<Rightarrow> [])"

definition as_bool :: "param_var \<Rightarrow> int" where
  "as_bool v = (case v of Bool_var b \<Rightarrow> if b then 1 else 0 | _ \<Rightarrow> 0)"

definition as_int :: "param_var \<Rightarrow> u32" where
  "as_int v = (case v of Int_var i \<Rightarrow> i | _ \<Rightarrow> 0)"

definition as_uint :: "param_var \<Rightarrow> u32" where
  "as_uint v = (case v of Uint_var i \<Rightarrow> i | _ \<Rightarrow> 0)"

definition as_short :: "param_var \<Rightarrow> u16" where
  "as_short v = (case v of Short_var i \<Rightarrow> i | _ \<Rightarrow> 0)"

definition as_ushort :: "param_var \<Rightarrow> u16" where
  "as_ushort v = (case v of Ushort_var i \<Rightarrow> i | _ \<Rightarrow> 0)"

definition as_charp :: "param_var \<Rightarrow> string option" where
  "as_charp v = (case v of Charp_var s \<Rightarrow> s | _ \<Rightarrow> None)"

text \<open>The value of a parameter as an \<open>int\<close>.\<close>

definition param_int :: "mod_param \<Rightarrow> int" where
  "param_int p =
     (if param_type p = ''string'' then atoi (as_string (param_ptr p))
      else if param_type p = ''bool'' then as_bool (param_ptr p)
      else if param_type p = ''int'' then sint (as_int (param_ptr p))
      else if param_type p = ''uint'' then sint (as_uint (param_ptr p))
      else if param_type p = ''short'' then sint (as_short (param_ptr p))
      else if param_type p = ''ushort'' then uint (as_ushort (param_ptr p))
      else 0)"

fun mod_get_int_param :: "string \<Rightarrow> mod_param list \<Rightarrow> int" where
  "mod_get_int_param name [] = 0"
| "mod_get_int_param name (p # ps) =
     (if param_name p = name then param_int p else mod_get_int_param name ps)"

text \<open>The text that describes a parameter, with a mark at the beginning of each line.\<close>

definition desc_mark :: string where
  "desc_mark = [CHR 0x09, CHR 0x09, CHR ''>'']"

definition mod_output_desc :: "string option \<Rightarrow> string" where
  "mod_output_desc desc =
     (case desc of
        None \<Rightarrow> []
      | Some d \<Rightarrow> desc_mark @ concat (map (\<lambda>c. if c = CHR 0x0A then CHR 0x0A # desc_mark else [c]) d) @
          [CHR 0x0A, CHR 0x0A])"

definition show_param :: "mod_param \<Rightarrow> string" where
  "show_param p =
     CHR 0x09 # param_name p @ ''='' @
     (if param_type p = ''string'' then ''\"'' @ as_string (param_ptr p) @ ''\" <string>''
      else if param_type p = ''bool'' then print_int 10 (as_bool (param_ptr p)) @ '' <bool>''
      else if param_type p = ''int'' then print_int 10 (sint (as_int (param_ptr p))) @ '' <int>''
      else if param_type p = ''uint'' then print_int 10 (uint (as_uint (param_ptr p))) @ '' <uint>''
      else if param_type p = ''short'' then print_int 10 (sint (as_short (param_ptr p))) @ '' <short>''
      else if param_type p = ''ushort'' then print_int 10 (uint (as_ushort (param_ptr p))) @ '' <ushort>''
      else if param_type p = ''charp'' then
        ''\"'' @ (case as_charp (param_ptr p) of Some s \<Rightarrow> s | None \<Rightarrow> []) @ ''\" <string>''
      else ''<unknown '' @ param_type p @ ''>'') @ [CHR 0x0A] @
     mod_output_desc (param_desc p)"

definition mod_show_params :: "mod_param list \<Rightarrow> string" where
  "mod_show_params ps = concat (map show_param ps)"

definition mod_param_register :: "mod_param \<Rightarrow> mod_param list \<Rightarrow> mod_param list" where
  "mod_param_register p ps = ps @ [p]"

definition mod_param_register_desc :: "mod_param \<Rightarrow> string \<Rightarrow> mod_param" where
  "mod_param_register_desc p desc = p\<lparr>param_desc := Some desc\<rparr>"

section \<open>Properties\<close>

lemma digit_char_0: "digit_char 0 = CHR ''0''"
proof -
  have "char_of (of_char (CHR ''0'') :: nat) = CHR ''0''" by (rule char_of_char)
  then show ?thesis by (simp add: digit_char_def)
qed

lemma digit_char_0_iff: "d < 36 \<Longrightarrow> digit_char d = CHR ''0'' \<longleftrightarrow> d = 0"
proof
  assume d: "d < 36" and "digit_char d = CHR ''0''"
  then have "digit_val (CHR ''0'') = Some d" by (metis digit_val_digit)
  then show "d = 0" by (simp add: digit_val_def)
qed (simp add: digit_char_0)

lemma hd_print_nat: "0 < n \<Longrightarrow> hd (print_nat 10 n) \<noteq> CHR ''0''"
proof (induction n rule: less_induct)
  case (less n)
  show ?case
  proof (cases "n < 10")
    case True
    then show ?thesis using less.prems by (subst print_nat.simps) (simp add: digit_char_0_iff)
  next
    case False
    then have "hd (print_nat 10 (n div 10)) \<noteq> CHR ''0''" by (intro less.IH) simp_all
    moreover have "print_nat 10 (n div 10) \<noteq> []" using print_nat_digits [of 10] by simp
    ultimately show ?thesis using False by (subst print_nat.simps) simp
  qed
qed

lemma detect_base_print: "detect_base (print_int 10 k) = (if k = 0 then 8 else 10)"
proof (cases "k = 0")
  case True
  have "print_nat 10 0 = ''0''" by (simp add: print_nat.simps digit_char_0)
  then show ?thesis using True by (simp add: print_int_def detect_base_def isspace_def)
next
  case False
  let ?ds = "print_nat 10 (nat \<bar>k\<bar>)"
  have ds: "?ds \<noteq> []" "is_digit 10 (hd ?ds)" "hd ?ds \<noteq> CHR ''0''"
    using print_nat_digits [of 10 "nat \<bar>k\<bar>"] hd_print_nat [of "nat \<bar>k\<bar>"] False by auto
  then have sp: "\<not> isspace (hd ?ds)" "hd ?ds \<noteq> CHR ''-''" "hd ?ds \<noteq> CHR ''+''"
    using digit_not_space by blast+
  then have "dropWhile isspace ?ds = ?ds" using ds(1) by (cases ?ds) simp_all
  then show ?thesis
    using False ds sp by (auto simp: print_int_def detect_base_def isspace_def Let_def)
qed

lemma strtoul0_print:
  assumes "- (2 ^ 63) \<le> k" and "k < 2 ^ 63"
  shows "strtoul0 (print_int 10 k) = word_of_int k"
proof (cases "k = 0")
  case True
  have "print_int 10 k = print_int 8 k"
    using True by (simp add: print_int_def print_nat.simps)
  then show ?thesis
    using True strto_subject_print_int [of 8 k] unfolding strtoul0_def detect_base_print strtoull_def by simp
next
  case False
  have "nat \<bar>k\<bar> < 2 ^ 64" using assms by auto
  moreover have "(of_nat (nat \<bar>k\<bar>) :: u64) = word_of_int \<bar>k\<bar>" by simp
  ultimately show ?thesis
    using False strto_subject_print_int [of 10 k]
    by (auto simp: strtoul0_def detect_base_print strtoull_def abs_if)
qed

lemma atoi_print: "- (2 ^ 31) \<le> k \<Longrightarrow> k < 2 ^ 31 \<Longrightarrow> atoi (print_int 10 k) = k"
  by (simp add: atoi_def strtoll_print signed_of_int signed_take_bit_int_eq_self)

text \<open>Integers that a parameter can hold.\<close>

definition param_fits :: "mod_param \<Rightarrow> int \<Rightarrow> bool" where
  "param_fits p k \<longleftrightarrow>
     (if param_type p = ''short'' then - (2 ^ 15) \<le> k \<and> k < 2 ^ 15
      else if param_type p = ''ushort'' then 0 \<le> k \<and> k < 2 ^ 16
      else if param_type p = ''int'' then - (2 ^ 31) \<le> k \<and> k < 2 ^ 31
      else if param_type p = ''uint'' then 0 \<le> k \<and> k < 2 ^ 31
      else if param_type p = ''bool'' then k = 0 \<or> k = 1
      else if param_type p = ''string'' then
        - (2 ^ 31) \<le> k \<and> k < 2 ^ 31 \<and> length (print_int 10 k) < unat (param_size p)
      else False)"

lemma param_assign_int:
  assumes "param_fits p k"
  obtains q where "param_assign (print_int 10 k) p = Some q" "param_int q = k" "param_name q = param_name p"
proof -
  have "- (2 ^ 63) \<le> k \<and> k < 2 ^ 63"
    using assms by (auto simp: param_fits_def split: if_splits)
  note conv = strtoul0_print [OF conjunct1 [OF this] conjunct2 [OF this]]
  have cast: "(ucast (word_of_int k :: u64) :: 'a::len word) = word_of_int k" if "LENGTH('a) \<le> 64"
    using that by (rule_tac bit_word_eqI) (simp add: bit_simps)
  have sg: "signed_take_bit 15 (take_bit 64 k) = signed_take_bit 15 k"
    "signed_take_bit 31 (take_bit 64 k) = signed_take_bit 31 k"
    by (simp_all add: signed_take_bit_take_bit)
  show thesis
    using assms that
    by (auto simp: sg param_fits_def param_assign_def param_int_def conv cast as_bool_def as_int_def as_uint_def
        as_short_def as_ushort_def as_string_def strlcpy_def atoi_print signed_of_int unsigned_of_int
        signed_take_bit_int_eq_self take_bit_int_eq_self split: if_splits)
qed

lemma get_int_other:
  "mod_set_param name val ps = (ok, ps') \<Longrightarrow> n \<noteq> name \<Longrightarrow> mod_get_int_param n ps' = mod_get_int_param n ps"
proof (induction ps arbitrary: ok ps')
  case (Cons p ps)
  have "param_name q = param_name p" if "param_assign val p = Some q" for q
    using that by (auto simp: param_assign_def split: if_splits)
  then show ?case
    using Cons by (auto split: if_splits option.splits prod.splits)
qed simp

lemma get_int_set:
  "find (\<lambda>p. param_name p = name) ps = Some p \<Longrightarrow> param_fits p k \<Longrightarrow>
   \<exists>ps'. mod_set_param name (print_int 10 k) ps = (True, ps') \<and> mod_get_int_param name ps' = k"
proof (induction ps)
  case (Cons q ps)
  show ?case
  proof (cases "param_name q = name")
    case True
    then have p: "q = p" using Cons.prems(1) by simp
    obtain r where "param_assign (print_int 10 k) p = Some r" "param_int r = k" "param_name r = param_name p"
      using param_assign_int [OF Cons.prems(2)] by blast
    then show ?thesis using True p by simp
  next
    case False
    then obtain ps' where "mod_set_param name (print_int 10 k) ps = (True, ps')" "mod_get_int_param name ps' = k"
      using Cons by auto
    then show ?thesis using False by simp
  qed
qed simp

lemma set_param_fails: "fst (mod_set_param name val ps) = False \<Longrightarrow> mod_set_param name val ps = (False, ps)"
  by (induction ps) (auto split: option.splits prod.splits)

lemma set_param_succeeds:
  "fst (mod_set_param name val ps) \<longleftrightarrow>
   (\<exists>p. find (\<lambda>p. param_name p = name) ps = Some p \<and> param_assign val p \<noteq> None)"
  by (induction ps) (auto split: option.splits prod.splits)

lemma param_assign_known:
  "param_assign val p \<noteq> None \<longleftrightarrow>
   param_type p \<in> {''string'', ''short'', ''ushort'', ''int'', ''bool'', ''uint'', ''charp''}"
  by (simp add: param_assign_def)



end
