(* ===== verification/Daemon.thy ===== *)
theory Daemon
  imports Files Tasks Mod_Param
begin

text \<open>
  The daemon (\<open>webcamd.c\<close>): the handlers of the character devices, the search for the USB device
  to use, and the options of the command line.  CUSE, libusb, \<open>getopt\<close>, \<open>sscanf\<close> and the user
  database are not part of the program: what they return is an argument.  The numbers of the
  errors are the parameter \<open>E\<close>.
\<close>

section \<open>Handlers of the character devices\<close>

datatype cuse_err =
    CUSE_ERR_BUSY | CUSE_ERR_WOULDBLOCK | CUSE_ERR_INVALID | CUSE_ERR_NO_MEMORY
  | CUSE_ERR_FAULT | CUSE_ERR_SIGNAL | CUSE_ERR_OTHER

definition v4b_convert_error :: "(errno \<Rightarrow> int) \<Rightarrow> int \<Rightarrow> cuse_err + int" where
  "v4b_convert_error E error =
     (if error < 0 then
        Inl (if error = - E EBUSY then CUSE_ERR_BUSY
             else if error = - E EWOULDBLOCK then CUSE_ERR_WOULDBLOCK
             else if error = - E EINVAL \<or> error = - E ENOENT \<or> error = - E ENOTTY then CUSE_ERR_INVALID
             else if error = - E ENOMEM then CUSE_ERR_NO_MEMORY
             else if error = - E EFAULT then CUSE_ERR_FAULT
             else if error = - E EINTR then CUSE_ERR_SIGNAL
             else CUSE_ERR_OTHER)
      else Inr error)"

text \<open>The \<open>int\<close> that a function of the file layer returns.\<close>

definition int_result :: "(errno \<Rightarrow> int) \<Rightarrow> errno + int \<Rightarrow> int" where
  "int_result E r = (case r of Inl e \<Rightarrow> - E e | Inr n \<Rightarrow> n)"

text \<open>The flags of an open file in CUSE and in Linux, from system headers.\<close>

record open_flags =
  CUSE_FFLAG_READ :: u32
  CUSE_FFLAG_WRITE :: u32
  O_RDONLY :: u32
  O_WRONLY :: u32
  O_RDWR :: u32

text \<open>The second component is the handle that is stored in the CUSE device, the last is the
  counter of \<open>need_timer\<close>.\<close>

definition v4b_open ::
  "(addr \<Rightarrow> file_operations) \<Rightarrow> open_flags \<Rightarrow> bool \<Rightarrow> u32 \<Rightarrow> u32 \<Rightarrow> cdev_state \<Rightarrow> int \<Rightarrow>
   cuse_err option \<times> cdev_handle option \<times> int" where
  "v4b_open D F got f_v4b fflags s timer_needed =
     (let m = fflags AND (CUSE_FFLAG_WRITE F OR CUSE_FFLAG_READ F);
          linux = (if m = (CUSE_FFLAG_WRITE F OR CUSE_FFLAG_READ F) then Some (O_RDWR F)
                   else if m = CUSE_FFLAG_READ F then Some (O_RDONLY F)
                   else if m = CUSE_FFLAG_WRITE F then Some (O_WRONLY F)
                   else None)
      in case linux of
           None \<Rightarrow> (Some CUSE_ERR_INVALID, None, timer_needed)
         | Some fflags_linux \<Rightarrow>
             let timer_needed = snd (need_timer True timer_needed) in
             case linux_open D got f_v4b fflags_linux s of
               None \<Rightarrow> (Some CUSE_ERR_INVALID, None, snd (need_timer False timer_needed))
             | Some handle \<Rightarrow> (None, Some handle, timer_needed))"

definition v4b_close ::
  "(addr \<Rightarrow> file_operations) \<Rightarrow> (errno \<Rightarrow> int) \<Rightarrow> cdev_handle option \<Rightarrow> int \<Rightarrow>
   (cuse_err + int) \<times> int" where
  "v4b_close D E handle timer_needed =
     (let error = fst (linux_close D handle);
          timer_needed = (if error = 0 then snd (need_timer False timer_needed) else timer_needed)
      in (v4b_convert_error E error, timer_needed))"

definition v4b_read ::
  "(addr \<Rightarrow> file_operations) \<Rightarrow> (errno \<Rightarrow> int) \<Rightarrow> flag_numbers \<Rightarrow> cdev_handle option \<Rightarrow> u32 \<Rightarrow> u64 \<Rightarrow>
   u64 \<Rightarrow> tls_memory \<Rightarrow> (cuse_err + int) \<times> cdev_handle option \<times> tls_memory" where
  "v4b_read D E N handle fflags peer_ptr len t =
     (let (r, handle, t) = linux_read D N handle
            (fflags AND (CUSE_FFLAG_NONBLOCK N OR CUSE_FFLAG_COMPAT32 N)) peer_ptr len t
      in (v4b_convert_error E (int_result E r), handle, t))"

definition v4b_write ::
  "(addr \<Rightarrow> file_operations) \<Rightarrow> (errno \<Rightarrow> int) \<Rightarrow> flag_numbers \<Rightarrow> cdev_handle option \<Rightarrow> u32 \<Rightarrow> u64 \<Rightarrow>
   u64 \<Rightarrow> tls_memory \<Rightarrow> (cuse_err + int) \<times> cdev_handle option \<times> tls_memory" where
  "v4b_write D E N handle fflags peer_ptr len t =
     (let (r, handle, t) = linux_write D N handle
            (fflags AND (CUSE_FFLAG_NONBLOCK N OR CUSE_FFLAG_COMPAT32 N)) peer_ptr len t
      in (v4b_convert_error E (int_result E r), handle, t))"

text \<open>The masks of \<open>poll\<close> events and the bits of CUSE.\<close>

record poll_bits =
  POLL_IN_MASK :: u32
  POLL_OUT_MASK :: u32
  POLLNVAL :: u32
  CUSE_POLL_READ :: u32
  CUSE_POLL_WRITE :: u32

definition v4b_poll ::
  "(addr \<Rightarrow> file_operations) \<Rightarrow> poll_bits \<Rightarrow> cdev_handle option \<Rightarrow> u32 \<Rightarrow> u32" where
  "v4b_poll D P handle events =
     (let error = (case linux_poll D handle of None \<Rightarrow> POLLNVAL P | Some e \<Rightarrow> word_of_int e);
          revents = 0;
          revents = (if error AND POLL_IN_MASK P \<noteq> 0 then revents OR (events AND CUSE_POLL_READ P) else revents);
          revents = (if error AND POLL_OUT_MASK P \<noteq> 0 then revents OR (events AND CUSE_POLL_WRITE P) else revents)
      in revents)"

section \<open>Search for the USB device\<close>

definition isalnum :: "char \<Rightarrow> bool" where
  "isalnum c = (digit_val c \<noteq> None)"

definition string_unknown :: string where "string_unknown = ''unknown''"

definition string_filter :: "string \<Rightarrow> string" where
  "string_filter ptr =
     (let ptr = map (\<lambda>ch. if isalnum ch then ch else CHR ''-'') ptr;
          ptr = rev (dropWhile (\<lambda>ch. ch = CHR ''-'') (rev ptr));
          ptr = dropWhile (\<lambda>ch. ch = CHR ''-'') ptr
      in if ptr = [] then string_unknown else ptr)"

record find_match =
  m_ser :: string
  m_txt :: string
  match_num :: nat

text \<open>The number of the match and the changed list.\<close>

definition bump :: "find_match \<Rightarrow> find_match" where
  "bump ptr = ptr\<lparr>match_num := match_num ptr + 1\<rparr>"

fun bump_match :: "string \<Rightarrow> string \<Rightarrow> find_match list \<Rightarrow> (nat \<times> find_match list) option" where
  "bump_match s t [] = None"
| "bump_match s t (ptr # ms) =
     (if m_ser ptr = s \<and> m_txt ptr = t then Some (match_num (bump ptr), bump ptr # ms)
      else map_option (\<lambda>(n, ms). (n, ptr # ms)) (bump_match s t ms))"

definition new_match :: "find_match list \<Rightarrow> string \<Rightarrow> string \<Rightarrow> nat \<times> find_match list" where
  "new_match first s t =
     (case bump_match s t first of
        Some r \<Rightarrow> r
      | None \<Rightarrow> (0, \<lparr>m_ser = s, m_txt = t, match_num = 0\<rparr> # first))"

text \<open>What libusb says about a device: whether it is in host mode, its description, the serial
  number if it could be read, the bus and the address.\<close>

record usb_dev =
  host_mode :: bool
  dev_desc :: "string option"
  dev_serial :: "string option"
  bus_number :: nat
  dev_address :: nat

text \<open>The part of the description between the angle brackets, cut to the buffer.\<close>

definition dev_text :: "usb_dev \<Rightarrow> string" where
  "dev_text d =
     (case dev_desc d of
        None \<Rightarrow> string_unknown
      | Some ptr \<Rightarrow>
          let sub = dropWhile (\<lambda>c. c \<noteq> CHR ''<'') ptr;
              t = (if sub = [] then string_unknown else fst (strlcpy (tl sub) 128))
          in takeWhile (\<lambda>c. c \<noteq> CHR ''>'') t)"

definition dev_name_filtered :: "usb_dev \<Rightarrow> string" where
  "dev_name_filtered d = string_filter (dev_text d)"

definition dev_serial_filtered :: "usb_dev \<Rightarrow> string" where
  "dev_serial_filtered d =
     string_filter (case dev_serial d of None \<Rightarrow> string_unknown | Some s \<Rightarrow> s)"

text \<open>The lines that are printed with \<open>-l\<close>: bus, address and the arguments for \<open>-N\<close>, \<open>-S\<close>, \<open>-M\<close>.\<close>

fun list_devices ::
  "usb_dev list \<Rightarrow> find_match list \<Rightarrow> (nat \<times> nat \<times> string \<times> string \<times> nat) list" where
  "list_devices [] first_match = []"
| "list_devices (pdev # devs) first_match =
     (if \<not> host_mode pdev then list_devices devs first_match
      else
        let t = dev_name_filtered pdev; s = dev_serial_filtered pdev;
            (n, first_match) = new_match first_match s t
        in (bus_number pdev, dev_address pdev, t, s, n) # list_devices devs first_match)"

record find_opts =
  u_unit :: nat
  u_addr :: nat
  u_devicename :: "string option"
  u_serialname :: "string option"
  u_match_index :: nat

definition device_wanted :: "find_opts \<Rightarrow> usb_dev \<Rightarrow> bool" where
  "device_wanted p pdev \<longleftrightarrow>
     (case u_devicename p of None \<Rightarrow> True | Some n \<Rightarrow> dev_name_filtered pdev = n) \<and>
     (case u_serialname p of None \<Rightarrow> True | Some n \<Rightarrow> dev_serial_filtered pdev = n) \<and>
     (u_addr p = 0 \<or> dev_address pdev = u_addr p \<and> bus_number pdev = u_unit p)"

text \<open>The search without \<open>-l\<close>; \<open>None\<close> is the exit ``No USB device match found''.\<close>

fun select_device :: "find_opts \<Rightarrow> usb_dev list \<Rightarrow> nat \<Rightarrow> (nat \<times> nat) option" where
  "select_device p [] found = None"
| "select_device p (pdev # devs) found =
     (if \<not> host_mode pdev then select_device p devs found
      else if device_wanted p pdev then
        (if found = u_match_index p then Some (bus_number pdev, dev_address pdev)
         else select_device p devs (found + 1))
      else select_device p devs found)"

section \<open>Options\<close>

text \<open>\<open>sscanf(ptr, "%d.%d", ...)\<close> when it reads both numbers.\<close>

definition scan_int :: "string \<Rightarrow> (int \<times> string) option" where
  "scan_int s =
     (case strto_subject 10 s of
        None \<Rightarrow> None
      | Some (neg, n, rest) \<Rightarrow> Some (sint (word_of_int (if neg then - int n else int n) :: u32), rest))"

definition scan_unit :: "string \<Rightarrow> (int \<times> int) option" where
  "scan_unit s =
     (case scan_int s of
        Some (u, c # rest) \<Rightarrow>
          if c = CHR ''.'' then map_option (\<lambda>(a, _). (u, a)) (scan_int rest) else None
      | _ \<Rightarrow> None)"

record options =
  o_unit :: int
  o_addr :: int
  o_index :: int
  o_videodev :: int
  o_match_index :: int
  o_devicename :: "string option"
  o_serialname :: "string option"
  do_list :: bool
  do_fork :: bool
  do_realtime :: bool
  do_v4l2loopback :: bool
  opt_valid :: bool
  global_fw_prefix :: string
  o_uid :: "u32 option"
  o_gid :: "u32 option"

text \<open>What surrounds the program: the configuration and the user database.\<close>

record surroundings =
  CONFIG_V4L2LOOPBACK :: bool
  getpwnam :: "string \<Rightarrow> u32 option"
  getgrnam :: "string \<Rightarrow> u32 option"

text \<open>The function \<open>id\<close>; \<open>None\<close> is the exit for an illegal name.\<close>

definition parse_id :: "string \<Rightarrow> u32 option" where
  "parse_id name = (let (val, ep) = strtoull 10 name in if ep \<noteq> [] then None else Some (ucast val))"

definition a_uid :: "surroundings \<Rightarrow> string \<Rightarrow> options \<Rightarrow> options option" where
  "a_uid W s p =
     (case (case getpwnam W s of Some u \<Rightarrow> Some u | None \<Rightarrow> parse_id s) of
        None \<Rightarrow> None
      | Some u \<Rightarrow> Some (p\<lparr>o_uid := Some u\<rparr>))"

definition a_gid :: "surroundings \<Rightarrow> string \<Rightarrow> options \<Rightarrow> options option" where
  "a_gid W s p =
     (case (case getgrnam W s of Some g \<Rightarrow> Some g | None \<Rightarrow> parse_id s) of
        None \<Rightarrow> None
      | Some g \<Rightarrow> Some (p\<lparr>o_gid := Some g\<rparr>))"

text \<open>One round of the first loop over the options; \<open>None\<close> ends the program.\<close>

definition first_option :: "surroundings \<Rightarrow> char \<Rightarrow> string \<Rightarrow> options \<Rightarrow> options option" where
  "first_option W opt optarg p =
     (if opt = CHR ''c'' then
        (if optarg = ''v4l2loopback'' \<and> CONFIG_V4L2LOOPBACK W
         then Some (p\<lparr>opt_valid := True, do_v4l2loopback := True, do_list := False\<rparr>) else None)
      else if opt = CHR ''d'' then
        (let ptr = (if take 4 optarg = ''ugen'' then drop 4 optarg else optarg)
         in map_option (\<lambda>(u, a). p\<lparr>o_unit := u, o_addr := a\<rparr>) (scan_unit ptr))
      else if opt = CHR ''M'' then Some (p\<lparr>o_match_index := atoi optarg\<rparr>)
      else if opt = CHR ''N'' then Some (p\<lparr>o_devicename := Some optarg\<rparr>)
      else if opt = CHR ''S'' then Some (p\<lparr>o_serialname := Some optarg\<rparr>)
      else if opt = CHR ''l'' then Some (p\<lparr>do_list := True\<rparr>)
      else if opt = CHR ''i'' then Some (p\<lparr>o_index := atoi optarg\<rparr>)
      else if opt = CHR ''D'' \<or> opt = CHR ''L'' \<or> opt = CHR ''s'' then Some (p\<lparr>opt_valid := True\<rparr>)
      else if opt = CHR ''m'' then Some p
      else if opt = CHR ''v'' then Some (p\<lparr>o_videodev := atoi optarg\<rparr>)
      else if opt = CHR ''B'' then Some (p\<lparr>do_fork := True\<rparr>)
      else if opt = CHR ''f'' then Some (p\<lparr>global_fw_prefix := fst (strlcpy optarg 128)\<rparr>)
      else if opt = CHR ''r'' then Some (p\<lparr>do_realtime := False\<rparr>)
      else if opt = CHR ''H'' then Some p
      else if opt = CHR ''U'' then a_uid W optarg p
      else if opt = CHR ''G'' then a_gid W optarg p
      else None)"

fun first_options :: "surroundings \<Rightarrow> (char \<times> string) list \<Rightarrow> options \<Rightarrow> options option" where
  "first_options W [] p = Some p"
| "first_options W ((opt, optarg) # os) p =
     (case first_option W opt optarg p of None \<Rightarrow> None | Some p \<Rightarrow> first_options W os p)"

text \<open>\<open>strstr\<close> with a string of one character: the parts before and behind it.\<close>

definition split_at :: "char \<Rightarrow> string \<Rightarrow> (string \<times> string) option" where
  "split_at c s = (if c \<in> set s then Some (takeWhile (\<lambda>x. x \<noteq> c) s, tl (dropWhile (\<lambda>x. x \<noteq> c) s)) else None)"

text \<open>The argument of \<open>-D\<close> and \<open>-L\<close>, for the module \<open>m\<close>.\<close>

definition vtuner_option :: "string \<Rightarrow> string \<Rightarrow> mod_param list \<Rightarrow> mod_param list option" where
  "vtuner_option m optarg ps =
     (case split_at (CHR '':'') optarg of
        None \<Rightarrow> None
      | Some (host, port) \<Rightarrow>
          case split_at (CHR '':'') port of
            None \<Rightarrow> None
          | Some (port, ndev) \<Rightarrow>
              let ndev = takeWhile (\<lambda>x. x \<noteq> CHR '':'') ndev;
                  (ok1, ps) = mod_set_param (m @ ''.devices'') ndev ps
              in if \<not> ok1 then None
                 else
                   let (ok2, ps) = mod_set_param (m @ ''.host'') host ps in
                   if \<not> ok2 then None
                   else
                     let (ok3, ps) = mod_set_param (m @ ''.port'') port ps in
                     if \<not> ok3 then None else Some ps)"

text \<open>One round of the second loop; the option \<open>-s\<close> prints the parameters and ends.\<close>

definition second_option :: "char \<Rightarrow> string \<Rightarrow> mod_param list \<Rightarrow> mod_param list option" where
  "second_option opt optarg ps =
     (if opt = CHR ''m'' then
        (case split_at (CHR ''='') optarg of
           None \<Rightarrow> None
         | Some (name, v) \<Rightarrow> Some (snd (mod_set_param name v ps)))
      else if opt = CHR ''D'' then vtuner_option ''vtuner_client'' optarg ps
      else if opt = CHR ''L'' then vtuner_option ''vtuner_server'' optarg ps
      else if opt = CHR ''s'' then None
      else Some ps)"

fun second_options :: "(char \<times> string) list \<Rightarrow> mod_param list \<Rightarrow> mod_param list option" where
  "second_options [] ps = Some ps"
| "second_options ((opt, optarg) # os) ps =
     (case second_option opt optarg ps of None \<Rightarrow> None | Some ps \<Rightarrow> second_options os ps)"

text \<open>The start as client or as server of a network tuner; \<open>None\<close> when both are asked for.\<close>

definition vtuner_mode :: "mod_param list \<Rightarrow> (bool \<times> bool) option" where
  "vtuner_mode ps =
     (let client = mod_get_int_param ''vtuner_client.devices'' ps \<noteq> 0;
          server = mod_get_int_param ''vtuner_server.devices'' ps \<noteq> 0
      in if client \<and> server then None else Some (client, server))"

section \<open>Properties\<close>

text \<open>How many devices have been counted under a serial number and a name.\<close>

definition counted :: "find_match list \<Rightarrow> string \<Rightarrow> string \<Rightarrow> nat" where
  "counted ms s t = (case find (\<lambda>m. m_ser m = s \<and> m_txt m = t) ms of None \<Rightarrow> 0 | Some m \<Rightarrow> match_num m + 1)"

definition same_key :: "string \<Rightarrow> string \<Rightarrow> usb_dev \<Rightarrow> bool" where
  "same_key s t d \<longleftrightarrow> host_mode d \<and> dev_serial_filtered d = s \<and> dev_name_filtered d = t"

lemma counted_Cons:
  "counted (m # ms) s t = (if m_ser m = s \<and> m_txt m = t then match_num m + 1 else counted ms s t)"
  by (simp add: counted_def)

lemma bump_match_counted:
  "bump_match s t ms = Some (n, ms') \<Longrightarrow> n = counted ms s t \<and>
     counted ms' a b = counted ms a b + (if a = s \<and> b = t then 1 else 0)"
  by (induction ms arbitrary: n ms') (auto simp: bump_def counted_Cons split: if_splits)

lemma bump_match_None: "bump_match s t ms = None \<Longrightarrow> counted ms s t = 0"
  by (induction ms) (auto simp: counted_def split: if_splits)

lemma new_match_counted:
  assumes "new_match ms s t = (n, ms')"
  shows "n = counted ms s t \<and> counted ms' a b = counted ms a b + (if a = s \<and> b = t then 1 else 0)"
proof (cases "bump_match s t ms")
  case None
  then show ?thesis
    using assms bump_match_None [OF None] by (auto simp: new_match_def counted_Cons)
next
  case (Some r)
  then have "bump_match s t ms = Some (n, ms')" using assms by (simp add: new_match_def)
  then show ?thesis by (rule bump_match_counted)
qed

text \<open>A line of the list is chosen again by its arguments.\<close>

lemma list_select:
  assumes "u_devicename p = Some t" and "u_serialname p = Some s" and "u_addr p = 0"
    and "(b, a, t, s, n) \<in> set (list_devices devs ms)" and "u_match_index p = n"
  shows "select_device p devs (counted ms s t) = Some (b, a) \<and> counted ms s t \<le> n"
  using assms(4)
proof (induction devs arbitrary: ms)
  case (Cons d devs)
  show ?case
  proof (cases "host_mode d")
    case False
    then show ?thesis using Cons by simp
  next
    case True
    obtain k ms' where m: "new_match ms (dev_serial_filtered d) (dev_name_filtered d) = (k, ms')" by fastforce
    note count = new_match_counted [OF m]
    have w: "device_wanted p d \<longleftrightarrow> dev_name_filtered d = t \<and> dev_serial_filtered d = s"
      using assms by (auto simp: device_wanted_def)
    consider (here) "b = bus_number d" "a = dev_address d" "t = dev_name_filtered d" "s = dev_serial_filtered d" "n = k"
      | (later) "(b, a, t, s, n) \<in> set (list_devices devs ms')"
      using Cons.prems True m by auto
    then show ?thesis
    proof cases
      case here
      then show ?thesis using True w count assms(5) by simp
    next
      case later
      note IH = Cons.IH [OF later]
      show ?thesis
      proof (cases "device_wanted p d")
        case wanted: True
        then have "counted ms' s t = counted ms s t + 1" using count [of s t] w by simp
        then show ?thesis using IH True wanted assms(5) by simp
      next
        case False
        then have "counted ms' s t = counted ms s t" using count [of s t] w by auto
        then show ?thesis using IH True False by simp
      qed
    qed
  qed
qed simp

lemma trimmed:
  assumes "y = dropWhile P (rev (dropWhile P (rev m)))" and "y \<noteq> []"
  shows "\<not> P (hd y) \<and> \<not> P (last y) \<and> set y \<subseteq> set m"
proof -
  have ne: "dropWhile P (rev m) \<noteq> []" using assms by (metis dropWhile.simps(1) rev.simps(1))
  have "last y = last (rev (dropWhile P (rev m)))"
    using assms by (metis last_appendR takeWhile_dropWhile_id)
  then have "last y = hd (dropWhile P (rev m))" by (simp add: last_rev)
  moreover have "set y \<subseteq> set m"
    using assms(1) by (auto dest!: set_dropWhileD)
  ultimately show ?thesis
    using hd_dropWhile [OF ne] hd_dropWhile [of P "rev (dropWhile P (rev m))"] assms by simp
qed

lemma string_filter_shape:
  "string_filter x \<noteq> [] \<and> hd (string_filter x) \<noteq> CHR ''-'' \<and> last (string_filter x) \<noteq> CHR ''-'' \<and>
   (\<forall>c \<in> set (string_filter x). isalnum c \<or> c = CHR ''-'')"
proof -
  define m where "m = map (\<lambda>ch. if isalnum ch then ch else CHR ''-'') x"
  define y where "y = dropWhile (\<lambda>c. c = CHR ''-'') (rev (dropWhile (\<lambda>c. c = CHR ''-'') (rev m)))"
  have "string_filter x = (if y = [] then string_unknown else y)"
    unfolding string_filter_def Let_def m_def y_def ..
  moreover have "\<forall>c \<in> set m. isalnum c \<or> c = CHR ''-''" by (auto simp: m_def)
  moreover have "string_unknown \<noteq> [] \<and> hd string_unknown \<noteq> CHR ''-'' \<and>
    last string_unknown \<noteq> CHR ''-'' \<and> (\<forall>c \<in> set string_unknown. isalnum c \<or> c = CHR ''-'')"
    by code_simp
  ultimately show ?thesis
    using trimmed [OF y_def] by (cases "y = []") auto
qed



text \<open>An error is reported to CUSE as an error, and a result that is no error is passed on.\<close>

lemma v4b_convert_error_cases:
  "(\<exists>e. v4b_convert_error E error = Inl e) \<longleftrightarrow> error < 0" "0 \<le> error \<Longrightarrow> v4b_convert_error E error = Inr error"
  by (auto simp: v4b_convert_error_def)

text \<open>Opening and closing a device leaves the count of needed timers as it was, when \<open>release\<close>
  succeeds; a failing \<open>release\<close> leaves one timer too many, although the handle is gone.\<close>

theorem v4b_open_close_timer:
  "(v4b_open D F got f_v4b fflags s n = (Some e, h, n') \<longrightarrow> n' = n \<and> h = None) \<and>
   (v4b_open D F got f_v4b fflags s n = (None, h, n') \<longrightarrow> h \<noteq> None \<and> n' = n + 1 \<and>
      snd (v4b_close D E h n') = (if fst (linux_close D h) = 0 then n else n + 1))"
  by (auto simp: v4b_open_def v4b_close_def need_timer_def Let_def split: if_splits option.splits)

lemma split_at_join: "c \<notin> set x \<Longrightarrow> split_at c (x @ c # y) = Some (x, y)"
  unfolding split_at_def by (induction x) auto

text \<open>The argument \<open>host:port:n\<close> sets the three parameters of the module, and then the number of
  devices is read back.\<close>

theorem vtuner_option_sets:
  assumes "CHR '':'' \<notin> set host" and "CHR '':'' \<notin> set port"
    and "vtuner_option m (host @ '':'' @ port @ '':'' @ print_int 10 k) ps = Some ps'"
    and "find (\<lambda>p. param_name p = m @ ''.devices'') ps = Some p" and "param_fits p k"
    and "CHR '':'' \<notin> set (print_int 10 k)"
  shows "mod_get_int_param (m @ ''.devices'') ps' = k"
proof -
  obtain ps1 where ps1: "mod_set_param (m @ ''.devices'') (print_int 10 k) ps = (True, ps1)"
    "mod_get_int_param (m @ ''.devices'') ps1 = k"
    using get_int_set [OF assms(4, 5)] by blast
  have nd: "takeWhile (\<lambda>x. x \<noteq> CHR '':'') (print_int 10 k) = print_int 10 k"
    unfolding takeWhile_eq_all_conv using assms(6) by blast
  have neq: "m @ ''.devices'' \<noteq> m @ ''.host''" "m @ ''.devices'' \<noteq> m @ ''.port''" by simp_all
  obtain ok2 ps2 where ps2: "mod_set_param (m @ ''.host'') host ps1 = (ok2, ps2)" by fastforce
  obtain ok3 ps3 where ps3: "mod_set_param (m @ ''.port'') port ps2 = (ok3, ps3)" by fastforce
  have split: "split_at (CHR '':'') (host @ '':'' @ port @ '':'' @ print_int 10 k) =
      Some (host, port @ '':'' @ print_int 10 k)"
    "split_at (CHR '':'') (port @ '':'' @ print_int 10 k) = Some (port, print_int 10 k)"
    using split_at_join [OF assms(1), of "port @ '':'' @ print_int 10 k"]
      split_at_join [OF assms(2), of "print_int 10 k"] by (simp_all only: append.simps)
  have "ps' = ps3"
    using assms(3)
    unfolding vtuner_option_def split option.case prod.case Let_def nd ps1(1) ps2 ps3
    by (simp split: if_splits)
  moreover have "mod_get_int_param (m @ ''.devices'') ps3 = mod_get_int_param (m @ ''.devices'') ps1"
    unfolding get_int_other [OF ps3 neq(2)] get_int_other [OF ps2 neq(1)] ..
  ultimately show ?thesis using ps1(2) by simp
qed

end
