(* ===== verification/Idr.thy ===== *)
theory Idr
  imports Bitmaps
begin

text \<open>
  Allocation of identifiers (\<open>kernel/linux_idr.c\<close>, \<open>headers/linux/idr.h\<close>).  The layers of the
  tree are objects of a store and are shared by pointers, which are natural numbers with 0
  for \<open>NULL\<close>; the pointers of the user are numbers, too.  Identifiers are natural numbers, since
  every entry refuses negative ones.  The field \<open>pool\<close> holds the results of the calls of
  \<open>kmem_cache_zalloc\<close> to come.  The free list and the preload list, which the code links
  through \<open>ary[0]\<close>, are lists of pointers.  The bitmap of a layer is the array of
  words of the code and is used through the functions of \<open>Bit_Ops\<close> and \<open>Bitmaps\<close>.
\<close>

section \<open>Data\<close>

definition IDR_BITS :: nat where "IDR_BITS = 8"
definition IDR_SIZE :: nat where "IDR_SIZE = push_bit IDR_BITS 1"
definition IDR_MASK :: nat where "IDR_MASK = push_bit IDR_BITS 1 - 1"
definition MAX_IDR_SHIFT :: nat where "MAX_IDR_SHIFT = 31"
definition MAX_IDR_BIT :: nat where "MAX_IDR_BIT = push_bit MAX_IDR_SHIFT 1"
definition MAX_IDR_LEVEL :: nat where "MAX_IDR_LEVEL = (MAX_IDR_SHIFT + IDR_BITS - 1) div IDR_BITS"
definition MAX_IDR_FREE :: nat where "MAX_IDR_FREE = MAX_IDR_LEVEL * 2"

record idr_layer =
  l_prefix :: nat
  l_layer :: nat
  ary :: "nat list"
  l_count :: int
  l_bitmap :: "u64 list"

definition zero_layer :: idr_layer where
  "zero_layer = \<lparr>l_prefix = 0, l_layer = 0, ary = replicate IDR_SIZE 0, l_count = 0,
     l_bitmap = replicate 4 0\<rparr>"

text \<open>\<open>struct idr\<close> with the store of the layers, the allocator and the preload list;
  \<open>rcu_freed\<close> collects the layers that \<open>call_rcu\<close> will free.\<close>

record idr_state =
  hint :: nat
  top :: nat
  layers :: nat
  cur :: int
  id_free_cnt :: nat
  id_free :: "nat list"
  lay :: "nat \<Rightarrow> idr_layer"
  pool :: "nat list"
  idr_preload_cnt :: nat
  idr_preload_head :: "nat list"
  rcu_freed :: "nat list"

text \<open>An assignment to fields of a layer.\<close>

definition upd :: "nat \<Rightarrow> (idr_layer \<Rightarrow> idr_layer) \<Rightarrow> idr_state \<Rightarrow> idr_state" where
  "upd p f s = s\<lparr>lay := (lay s)(p := f (lay s p))\<rparr>"

definition idr_max :: "nat \<Rightarrow> nat" where
  "idr_max nl = (let bits = min (nl * IDR_BITS) MAX_IDR_SHIFT in push_bit bits 1 - 1)"

text \<open>The mask clears the bits below the layer.\<close>

definition idr_layer_prefix :: "nat \<Rightarrow> nat \<Rightarrow> nat" where
  "idr_layer_prefix i layer = i - (i AND idr_max (layer + 1))"

section \<open>Memory\<close>

definition kmem_cache_zalloc :: "idr_state \<Rightarrow> nat \<times> idr_state" where
  "kmem_cache_zalloc s =
     (case pool s of
        [] \<Rightarrow> (0, s)
      | a # as \<Rightarrow>
          if a = 0 then (0, s\<lparr>pool := as\<rparr>)
          else (a, s\<lparr>pool := as, lay := (lay s)(a := zero_layer)\<rparr>))"

definition get_from_free_list :: "idr_state \<Rightarrow> nat \<times> idr_state" where
  "get_from_free_list s =
     (case id_free s of
        [] \<Rightarrow> (0, s)
      | p # ps \<Rightarrow> (p, upd p (\<lambda>y. y\<lparr>ary := (ary y)[0 := 0]\<rparr>)
          (s\<lparr>id_free := ps, id_free_cnt := id_free_cnt s - 1\<rparr>)))"

text \<open>\<open>layer_idr\<close> says that the layers are to be taken from the free list.\<close>

definition idr_layer_alloc :: "bool \<Rightarrow> idr_state \<Rightarrow> nat \<times> idr_state" where
  "idr_layer_alloc layer_idr s =
     (if layer_idr then get_from_free_list s
      else
        let (new, s) = kmem_cache_zalloc s in
        if new \<noteq> 0 then (new, s)
        else
          case idr_preload_head s of
            new # ps \<Rightarrow> (new, upd new (\<lambda>y. y\<lparr>ary := (ary y)[0 := 0]\<rparr>)
              (s\<lparr>idr_preload_head := ps, idr_preload_cnt := idr_preload_cnt s - 1\<rparr>))
          | [] \<Rightarrow> kmem_cache_zalloc s)"

text \<open>The callback for \<open>call_rcu\<close> is kept in the same memory as the bitmap, and \<open>call_rcu\<close> takes
  a callback with a pointer that is not null for one that is queued already.\<close>

definition free_layer :: "nat \<Rightarrow> idr_state \<Rightarrow> idr_state" where
  "free_layer p s =
     (let s = (if hint s = p then s\<lparr>hint := 0\<rparr> else s)
      in if l_bitmap (lay s p) ! 0 = 0 then s\<lparr>rcu_freed := p # rcu_freed s\<rparr> else s)"

definition move_to_free_list :: "nat \<Rightarrow> idr_state \<Rightarrow> idr_state" where
  "move_to_free_list p s = s\<lparr>id_free := p # id_free s, id_free_cnt := id_free_cnt s + 1\<rparr>"

text \<open>The loop of \<open>__idr_pre_get\<close>, with a bound for the layers that are missing.\<close>

fun idr_pre_get_loop :: "nat \<Rightarrow> idr_state \<Rightarrow> bool \<times> idr_state" where
  "idr_pre_get_loop 0 s = (True, s)"
| "idr_pre_get_loop (Suc k) s =
     (let (new, s) = kmem_cache_zalloc s in
      if new = 0 then (False, s) else idr_pre_get_loop k (move_to_free_list new s))"

definition idr_pre_get :: "idr_state \<Rightarrow> bool \<times> idr_state" where
  "idr_pre_get s = idr_pre_get_loop (MAX_IDR_FREE - id_free_cnt s) s"

fun idr_preload_loop :: "nat \<Rightarrow> idr_state \<Rightarrow> idr_state" where
  "idr_preload_loop 0 s = s"
| "idr_preload_loop (Suc k) s =
     (let (new, s) = kmem_cache_zalloc s in
      if new = 0 then s
      else idr_preload_loop k (s\<lparr>idr_preload_head := new # idr_preload_head s,
             idr_preload_cnt := idr_preload_cnt s + 1\<rparr>))"

definition idr_preload :: "idr_state \<Rightarrow> idr_state" where
  "idr_preload s = idr_preload_loop (MAX_IDR_FREE - idr_preload_cnt s) s"

section \<open>Allocation\<close>

text \<open>The loop of \<open>idr_mark_full\<close>; the list is the rest of the array \<open>pa\<close>.\<close>

fun idr_mark_full_loop :: "nat \<Rightarrow> nat list \<Rightarrow> nat \<Rightarrow> idr_state \<Rightarrow> idr_state" where
  "idr_mark_full_loop p [] i s = s"
| "idr_mark_full_loop p (q # pa) i s =
     (if bitmap_full (l_bitmap (lay s p)) IDR_SIZE then
        if q = 0 then s
        else
          let i = drop_bit IDR_BITS i;
              s = upd q (\<lambda>y. y\<lparr>l_bitmap := set_bit_nr (i AND IDR_MASK) (l_bitmap y)\<rparr>) s
          in idr_mark_full_loop q pa i s
      else s)"

definition idr_mark_full :: "nat list \<Rightarrow> nat \<Rightarrow> idr_state \<Rightarrow> idr_state" where
  "idr_mark_full pa i s =
     (let p = pa ! 0;
          s = upd p (\<lambda>y. y\<lparr>l_bitmap := set_bit_nr (i AND IDR_MASK) (l_bitmap y)\<rparr>) s
      in idr_mark_full_loop p (tl pa) i s)"

text \<open>The creation of a missing layer below the entry \<open>m\<close> of the layer \<open>p\<close>, which has the
  distance \<open>l\<close> from the leaves.\<close>

definition sub_alloc_child :: "bool \<Rightarrow> nat \<Rightarrow> nat \<Rightarrow> nat \<Rightarrow> nat \<Rightarrow> idr_state \<Rightarrow> bool \<times> idr_state" where
  "sub_alloc_child layer_idr i p l m s =
     (if ary (lay s p) ! m = 0 then
        let (new, s) = idr_layer_alloc layer_idr s in
        if new = 0 then (False, s)
        else
          let s = upd new (\<lambda>y. y\<lparr>l_layer := l - 1, l_prefix := idr_layer_prefix i (l - 1)\<rparr>) s;
              s = upd p (\<lambda>y. y\<lparr>ary := (ary y)[m := new], l_count := l_count y + 1\<rparr>) s
          in (True, s)
      else (True, s))"

text \<open>The loop of \<open>sub_alloc\<close>: the result has the error or the identifier, \<open>*starting_id\<close>, the
  array \<open>pa\<close> and the state.  The addition of 1 to the greatest \<open>int\<close> wraps to a negative number,
  for which \<open>2 ^ 31\<close> stands here: it is not greater than \<open>idr_max\<close>.  \<open>None\<close> is the failed assertion \<open>BUG_ON(!p)\<close> or a loop without end.\<close>

partial_function (option) sub_alloc_loop ::
  "bool \<Rightarrow> nat \<Rightarrow> nat \<Rightarrow> nat \<Rightarrow> nat list \<Rightarrow> idr_state \<Rightarrow>
   ((errno + nat) \<times> nat \<times> nat list \<times> idr_state) option" where
  "sub_alloc_loop layer_idr i p l pa s =
     (let n = drop_bit (IDR_BITS * l) i AND IDR_MASK;
          m = find_next_zero_bit (l_bitmap (lay s p)) IDR_SIZE n
      in if m = IDR_SIZE then
           (let l = l + 1;
                oid = i;
                i = (i OR (push_bit (IDR_BITS * l) 1 - 1)) + 1
            in if i > idr_max (layers s) \<and> i < MAX_IDR_BIT then Some (Inl EAGAIN, i, pa, s)
               else
                 let p = pa ! l; sh = IDR_BITS * (l + 1) in
                 if p = 0 then None
                 else if drop_bit sh oid = drop_bit sh i then sub_alloc_loop layer_idr i p l pa s
                 else sub_alloc_loop layer_idr i (top s) (layers s - 1) (pa[layers s := 0]) s)
         else
           let sh = IDR_BITS * l;
               i = (if m \<noteq> n then push_bit sh (drop_bit sh i XOR n XOR m) else i)
           in if i \<ge> MAX_IDR_BIT then Some (Inl ENOSPC, i, pa, s)
              else if l = 0 then Some (Inr i, i, pa[l := p], s)
              else
                let (ok, s) = sub_alloc_child layer_idr i p l m s in
                if \<not> ok then Some (Inl ENOMEM, i, pa, s)
                else sub_alloc_loop layer_idr i (ary (lay s p) ! m) (l - 1) (pa[l := p]) s)"

definition sub_alloc ::
  "bool \<Rightarrow> nat \<Rightarrow> nat list \<Rightarrow> idr_state \<Rightarrow> ((errno + nat) \<times> nat \<times> nat list \<times> idr_state) option" where
  "sub_alloc layer_idr starting_id pa s =
     sub_alloc_loop layer_idr starting_id (top s) (layers s - 1) (pa[layers s := 0]) s"

text \<open>The loop that takes a partly built tree down again.\<close>

partial_function (option) tear_down :: "nat \<Rightarrow> idr_state \<Rightarrow> idr_state option" where
  "tear_down p s =
     (if p \<noteq> 0 \<and> p \<noteq> top s then
        let new = p;
            p = ary (lay s p) ! 0;
            s = upd new (\<lambda>y. y\<lparr>ary := (ary y)[0 := 0], l_count := 0,
                  l_bitmap := bitmap_clear (l_bitmap y) 0 IDR_SIZE\<rparr>) s
        in tear_down p (move_to_free_list new s)
      else Some s)"

text \<open>The loop that adds layers on top: the new top and the number of layers, or the error.\<close>

partial_function (option) add_layers ::
  "bool \<Rightarrow> nat \<Rightarrow> nat \<Rightarrow> nat \<Rightarrow> idr_state \<Rightarrow> ((errno + nat \<times> nat) \<times> idr_state) option" where
  "add_layers layer_idr i p nlayers s =
     (if i > idr_max nlayers then
        let nlayers = nlayers + 1 in
        if l_count (lay s p) = 0 then
          add_layers layer_idr i p nlayers (upd p (\<lambda>y. y\<lparr>l_layer := l_layer y + 1\<rparr>) s)
        else
          let (new, s) = idr_layer_alloc layer_idr s in
          if new = 0 then map_option (\<lambda>s. (Inl ENOMEM, s)) (tear_down p s)
          else
            let s = upd new (\<lambda>y. y\<lparr>ary := (ary y)[0 := p], l_count := 1, l_layer := nlayers - 1,
                      l_prefix := idr_layer_prefix i (nlayers - 1)\<rparr>) s;
                s = (if bitmap_full (l_bitmap (lay s p)) IDR_SIZE
                     then upd new (\<lambda>y. y\<lparr>l_bitmap := set_bit_nr 0 (l_bitmap y)\<rparr>) s else s)
            in add_layers layer_idr i new nlayers s
      else Some (Inr (p, nlayers), s))"

text \<open>The part of \<open>idr_get_empty_slot\<close> after the label \<open>build_up\<close>.\<close>

partial_function (option) idr_get_empty_slot ::
  "bool \<Rightarrow> nat \<Rightarrow> nat list \<Rightarrow> idr_state \<Rightarrow> ((errno + nat) \<times> nat list \<times> idr_state) option" where
  "idr_get_empty_slot layer_idr i pa s =
     (let (p, nlayers, s) =
            (if top s = 0 then
               let (p, s) = idr_layer_alloc layer_idr s
               in (p, 1, if p = 0 then s else upd p (\<lambda>y. y\<lparr>l_layer := 0\<rparr>) s)
             else (top s, layers s, s))
      in if p = 0 then Some (Inl ENOMEM, pa, s)
         else
           Option.bind (add_layers layer_idr i p nlayers s) (\<lambda>(r, s).
             case r of
               Inl e \<Rightarrow> Some (Inl e, pa, s)
             | Inr (p, nlayers) \<Rightarrow>
                 let s = s\<lparr>top := p, layers := nlayers\<rparr> in
                 Option.bind (sub_alloc layer_idr i pa s) (\<lambda>(v, i, pa, s).
                   if v = Inl EAGAIN then idr_get_empty_slot layer_idr i pa s
                   else Some (v, pa, s))))"

declare sub_alloc_loop.simps [code] tear_down.simps [code] add_layers.simps [code]
  idr_get_empty_slot.simps [code]

definition idr_fill_slot :: "nat \<Rightarrow> nat \<Rightarrow> nat list \<Rightarrow> idr_state \<Rightarrow> idr_state" where
  "idr_fill_slot ptr i pa s =
     (let s = s\<lparr>hint := pa ! 0\<rparr>;
          s = upd (pa ! 0) (\<lambda>y. y\<lparr>ary := (ary y)[i AND IDR_MASK := ptr], l_count := l_count y + 1\<rparr>) s
      in idr_mark_full pa i s)"

text \<open>\<open>fin\<close> (\<open>end\<close> in the code) is exclusive, and no limit when it is not positive.  The array \<open>pa\<close> is not
  initialised in the code.\<close>

definition idr_alloc :: "nat list \<Rightarrow> nat \<Rightarrow> int \<Rightarrow> int \<Rightarrow> idr_state \<Rightarrow> ((errno + nat) \<times> idr_state) option" where
  "idr_alloc pa ptr start fin s =
     (let max = (if fin > 0 then fin - 1 else 2 ^ 31 - 1) in
      if start < 0 then Some (Inl EINVAL, s)
      else if max < start then Some (Inl ENOSPC, s)
      else
        Option.bind (idr_get_empty_slot False (nat start) pa s) (\<lambda>(r, pa, s).
          case r of
            Inl e \<Rightarrow> Some (Inl e, s)
          | Inr i \<Rightarrow>
              if int i > max then Some (Inl ENOSPC, s)
              else Some (Inr i, idr_fill_slot ptr i pa s)))"

text \<open>The position for the next call wraps around after the greatest identifier.\<close>

definition idr_alloc_cyclic ::
  "nat list \<Rightarrow> nat \<Rightarrow> int \<Rightarrow> int \<Rightarrow> idr_state \<Rightarrow> ((errno + nat) \<times> idr_state) option" where
  "idr_alloc_cyclic pa ptr start fin s =
     Option.bind (idr_alloc pa ptr (max start (cur s)) fin s) (\<lambda>(r, s).
     Option.bind (if r = Inl ENOSPC then idr_alloc pa ptr start fin s else Some (r, s)) (\<lambda>(r, s).
       case r of
         Inr i \<Rightarrow> Some (Inr i, s\<lparr>cur := (if int i + 1 = 2 ^ 31 then - (2 ^ 31) else int i + 1)\<rparr>)
       | Inl e \<Rightarrow> Some (Inl e, s)))"

section \<open>Removal\<close>

text \<open>A pointer to a pointer to a layer: the field \<open>top\<close> or an entry of a layer.\<close>

datatype slot = Top_slot | Ary_slot nat nat

fun read_slot :: "slot \<Rightarrow> idr_state \<Rightarrow> nat" where
  "read_slot Top_slot s = top s"
| "read_slot (Ary_slot p n) s = ary (lay s p) ! n"

fun clear_slot :: "slot \<Rightarrow> idr_state \<Rightarrow> idr_state" where
  "clear_slot Top_slot s = s\<lparr>top := 0\<rparr>"
| "clear_slot (Ary_slot p n) s = upd p (\<lambda>y. y\<lparr>ary := (ary y)[n := 0]\<rparr>) s"

text \<open>The walk to the leaf, with the stack \<open>paa\<close>.\<close>

fun remove_walk :: "nat \<Rightarrow> nat \<Rightarrow> nat \<Rightarrow> slot list \<Rightarrow> idr_state \<Rightarrow> nat \<times> slot list \<times> idr_state" where
  "remove_walk 0 p i paa s = (p, paa, s)"
| "remove_walk (Suc l) p i paa s =
     (if p = 0 then (p, paa, s)
      else
        let n = drop_bit (IDR_BITS * Suc l) i AND IDR_MASK;
            s = upd p (\<lambda>y. y\<lparr>l_bitmap := clear_bit n (l_bitmap y)\<rparr>) s
        in remove_walk l (ary (lay s p) ! n) i (Ary_slot p n # paa) s)"

text \<open>The way back, which frees the layers that have become empty.\<close>

fun remove_up :: "slot list \<Rightarrow> nat \<Rightarrow> idr_state \<Rightarrow> slot list \<times> nat \<times> idr_state" where
  "remove_up [] to_free s = ([], to_free, s)"
| "remove_up (a # paa) to_free s =
     (let x = read_slot a s;
          s = upd x (\<lambda>y. y\<lparr>l_count := l_count y - 1\<rparr>) s
      in if l_count (lay s x) = 0 then
           let s = (if to_free \<noteq> 0 then free_layer to_free s else s)
           in remove_up paa x (clear_slot a s)
         else (a # paa, to_free, s))"

definition sub_remove :: "nat \<Rightarrow> nat \<Rightarrow> idr_state \<Rightarrow> idr_state" where
  "sub_remove l i s =
     (let (p, paa, s) = remove_walk l (top s) i [Top_slot] s;
          n = i AND IDR_MASK
      in if p \<noteq> 0 \<and> test_bit n (l_bitmap (lay s p)) then
           let s = upd p (\<lambda>y. y\<lparr>l_bitmap := clear_bit n (l_bitmap y), ary := (ary y)[n := 0]\<rparr>) s;
               (paa, to_free, s) = remove_up paa 0 s;
               s = (if paa = [] then s\<lparr>layers := 0\<rparr> else s)
           in if to_free \<noteq> 0 then free_layer to_free s else s
         else s)"

definition idr_remove :: "int \<Rightarrow> idr_state \<Rightarrow> idr_state" where
  "idr_remove i s =
     (if i < 0 then s
      else if nat i > idr_max (layers s) then s
      else
        let s = sub_remove (layers s - 1) (nat i) s in
        if top s \<noteq> 0 \<and> l_count (lay s (top s)) = 1 \<and> layers s > 1 \<and> ary (lay s (top s)) ! 0 \<noteq> 0 then
          let to_free = top s;
              p = ary (lay s (top s)) ! 0;
              s = s\<lparr>top := p, layers := layers s - 1\<rparr>;
              s = upd to_free (\<lambda>y. y\<lparr>l_count := 0, l_bitmap := bitmap_clear (l_bitmap y) 0 IDR_SIZE\<rparr>) s
          in free_layer to_free s
        else s)"

section \<open>Lookup\<close>

text \<open>The walk from a layer down; \<open>n\<close> counts the layers.\<close>

fun find_walk :: "nat \<Rightarrow> nat \<Rightarrow> nat \<Rightarrow> idr_state \<Rightarrow> nat" where
  "find_walk 0 p i s = p"
| "find_walk (Suc n) p i s =
     (if p = 0 then 0
      else find_walk n (ary (lay s p) ! (drop_bit (n * IDR_BITS) i AND IDR_MASK)) i s)"

definition idr_find_slowpath :: "int \<Rightarrow> idr_state \<Rightarrow> nat" where
  "idr_find_slowpath i s =
     (if i < 0 then 0
      else
        let p = top s in
        if p = 0 then 0
        else if nat i > idr_max (l_layer (lay s p) + 1) then 0
        else find_walk (l_layer (lay s p) + 1) p (nat i) s)"

definition idr_find :: "int \<Rightarrow> idr_state \<Rightarrow> nat" where
  "idr_find i s =
     (if hint s \<noteq> 0 \<and> i AND NOT (int IDR_MASK) = int (l_prefix (lay s (hint s)))
      then ary (lay s (hint s)) ! nat (i AND int IDR_MASK)
      else idr_find_slowpath i s)"

text \<open>The same walk, which stops at the leaf.\<close>

fun find_walk_leaf :: "nat \<Rightarrow> nat \<Rightarrow> nat \<Rightarrow> idr_state \<Rightarrow> nat" where
  "find_walk_leaf 0 p i s = p"
| "find_walk_leaf (Suc n) p i s =
     (if p = 0 then 0
      else find_walk_leaf n (ary (lay s p) ! (drop_bit (Suc n * IDR_BITS) i AND IDR_MASK)) i s)"

definition idr_replace :: "nat \<Rightarrow> int \<Rightarrow> idr_state \<Rightarrow> (errno + nat) \<times> idr_state" where
  "idr_replace ptr i s =
     (if i < 0 then (Inl EINVAL, s)
      else
        let p = top s in
        if p = 0 then (Inl ENOENT, s)
        else if nat i > idr_max (l_layer (lay s p) + 1) then (Inl ENOENT, s)
        else
          let p = find_walk_leaf (l_layer (lay s p)) p (nat i) s;
              n = nat i AND IDR_MASK
          in if p = 0 \<or> \<not> test_bit n (l_bitmap (lay s p)) then (Inl ENOENT, s)
             else (Inr (ary (lay s p) ! n), upd p (\<lambda>y. y\<lparr>ary := (ary y)[n := ptr]\<rparr>) s))"

definition idr_init :: "idr_state \<Rightarrow> idr_state" where
  "idr_init s = s\<lparr>hint := 0, top := 0, layers := 0, cur := 0, id_free_cnt := 0, id_free := []\<rparr>"

end
