(* ===== verification/Idr_Tree.thy ===== *)
theory Idr_Tree
  imports Idr
begin

text \<open>
  The tree of layers of \<open>Idr\<close> as a map from identifiers to pointers: the invariant of the layers, the
  memory they come from, and the two ways a tree grows.
\<close>

section \<open>Arithmetic of identifiers\<close>

lemma idr_constants:
  "IDR_BITS = 8" "IDR_SIZE = 256" "IDR_MASK = 255" "MAX_IDR_BIT = 2 ^ 31" "MAX_IDR_LEVEL = 4"
  by (simp_all add: IDR_BITS_def IDR_SIZE_def IDR_MASK_def MAX_IDR_BIT_def MAX_IDR_SHIFT_def MAX_IDR_LEVEL_def)

lemma and_255: "x AND 255 = x mod (256 :: nat)"
  using take_bit_eq_mask [of 8 x] by (simp add: take_bit_eq_mod mask_eq_exp_minus_1)

lemma shift_digits: "drop_bit (8 * l) i = i div 256 ^ l" for i :: nat
  by (simp add: drop_bit_eq_div power_mult)

lemma digit_eq: "drop_bit (IDR_BITS * l) i AND IDR_MASK = i div 256 ^ l mod 256" for i :: nat
  by (simp add: idr_constants shift_digits and_255)

lemma next_block: "(i OR (push_bit (IDR_BITS * k) 1 - 1)) + 1 = (i div 256 ^ k + 1) * 256 ^ k" for i :: nat
proof -
  have p: "push_bit (8 * k) (1 :: nat) = 256 ^ k" by (simp add: push_bit_eq_mult power_mult)
  have m: "push_bit (8 * k) 1 - 1 = (mask (8 * k) :: nat)" by (simp add: mask_nat_def push_bit_eq_mult)
  have "i OR mask (8 * k) = push_bit (8 * k) (drop_bit (8 * k) i) + mask (8 * k)"
  proof -
    have "i OR mask (8 * k) = push_bit (8 * k) (drop_bit (8 * k) i) OR mask (8 * k)"
      by (rule bit_eqI) (auto simp: bit_simps)
    also have "\<dots> = push_bit (8 * k) (drop_bit (8 * k) i) + mask (8 * k)"
      by (rule disjunctive_add_eq_or [symmetric], rule bit_eqI) (auto simp: bit_simps)
    finally show ?thesis .
  qed
  then have "i OR (push_bit (8 * k) 1 - 1) = i div 256 ^ k * 256 ^ k + (256 ^ k - 1)"
    unfolding m by (simp add: shift_digits push_bit_eq_mult power_mult mask_nat_def)
  then show ?thesis by (simp add: idr_constants algebra_simps)
qed

lemma set_digit:
  fixes i :: nat
  assumes "n = i div 256 ^ l mod 256" and "m < 256"
  shows "push_bit (IDR_BITS * l) (drop_bit (IDR_BITS * l) i XOR n XOR m) = (i div 256 ^ (l + 1) * 256 + m) * 256 ^ l"
proof -
  define x where "x = drop_bit (8 * l) i"
  have n: "n = take_bit 8 x" using assms(1) by (simp add: x_def shift_digits take_bit_eq_mod)
  have "m = take_bit 8 m" using assms(2) by (simp add: take_bit_nat_eq_self)
  then have mb: "bit m j \<Longrightarrow> j < 8" for j by (metis bit_take_bit_iff)
  have "x XOR n XOR m = push_bit 8 (drop_bit 8 x) OR m"
    unfolding n by (rule bit_eqI) (auto simp: bit_simps dest: mb)
  also have "\<dots> = push_bit 8 (drop_bit 8 x) + m"
    by (rule disjunctive_add_eq_or [symmetric], rule bit_eqI) (auto simp: bit_simps dest: mb)
  also have "drop_bit 8 x = i div 256 ^ (l + 1)"
    unfolding x_def shift_digits by (simp add: drop_bit_eq_div div_mult2_eq [symmetric] mult.commute)
  finally have "x XOR n XOR m = i div 256 ^ (l + 1) * 256 + m" by (simp add: push_bit_eq_mult)
  then show ?thesis by (simp add: idr_constants x_def push_bit_eq_mult power_mult)
qed

lemma idr_max_eq: "idr_max n = (if n < 4 then 256 ^ n - 1 else 2 ^ 31 - 1)"
proof -
  have "min (n * 8) 31 = (if n < 4 then 8 * n else 31)" by auto
  then show ?thesis
    by (simp add: idr_max_def idr_constants MAX_IDR_SHIFT_def push_bit_eq_mult power_mult)
qed

lemma prefix_leaf: "idr_layer_prefix i 0 = i div 256 * 256"
proof -
  have "idr_max 1 = 255" by (simp add: idr_max_eq)
  then show ?thesis
    by (simp add: idr_layer_prefix_def and_255 minus_mod_eq_div_mult)
qed

section \<open>The tree\<close>

text \<open>
  The placement \<open>L l q\<close> is the address of the layer that has the distance \<open>l\<close> from the leaves
  and covers the identifiers \<open>i\<close> with \<open>i div 256 ^ (l + 1) = q\<close>, and 0 when there is none.
  \<open>M\<close> maps the identifiers in use to the pointers of the user.
\<close>

type_synonym placement = "nat \<Rightarrow> nat \<Rightarrow> nat"

text \<open>All identifiers of the block \<open>b\<close> of the size \<open>256 ^ l\<close> are in use.\<close>

definition block_full :: "(nat \<rightharpoonup> nat) \<Rightarrow> nat \<Rightarrow> nat \<Rightarrow> bool" where
  "block_full M l b \<longleftrightarrow> (\<forall>i. i div 256 ^ l = b \<longrightarrow> M i \<noteq> None)"

definition child :: "placement \<Rightarrow> (nat \<rightharpoonup> nat) \<Rightarrow> nat \<Rightarrow> nat \<Rightarrow> nat" where
  "child L M l b = (if l = 0 then (case M b of None \<Rightarrow> 0 | Some v \<Rightarrow> v) else L (l - 1) b)"

definition present :: "placement \<Rightarrow> (nat \<rightharpoonup> nat) \<Rightarrow> nat \<Rightarrow> nat \<Rightarrow> bool" where
  "present L M l b \<longleftrightarrow> (if l = 0 then M b \<noteq> None else L (l - 1) b \<noteq> 0)"

definition children :: "placement \<Rightarrow> (nat \<rightharpoonup> nat) \<Rightarrow> nat \<Rightarrow> nat \<Rightarrow> nat set" where
  "children L M l q = {m. m < 256 \<and> present L M l (q * 256 + m)}"

text \<open>The contents of a layer.  While an identifier is entered or removed, the bits of a layer belong
  to another map \<open>N\<close> than its entries, and its count is off by \<open>d\<close>.\<close>

definition node_ok ::
  "placement \<Rightarrow> (nat \<rightharpoonup> nat) \<Rightarrow> (nat \<rightharpoonup> nat) \<Rightarrow> int \<Rightarrow> nat \<Rightarrow> nat \<Rightarrow> idr_layer \<Rightarrow> bool" where
  "node_ok L M N d l q y \<longleftrightarrow>
     length (ary y) = 256 \<and> length (l_bitmap y) = 4 \<and> l_layer y = l \<and> (l = 0 \<longrightarrow> l_prefix y = q * 256) \<and>
     (\<forall>m < 256. ary y ! m = child L M l (q * 256 + m)) \<and>
     (\<forall>m < 256. test_bit m (l_bitmap y) = block_full N l (q * 256 + m)) \<and>
     l_count y = int (card (children L M l q)) + d"

definition nodes ::
  "placement \<Rightarrow> (nat \<rightharpoonup> nat) \<Rightarrow> (nat \<Rightarrow> nat \<rightharpoonup> nat) \<Rightarrow> (nat \<Rightarrow> nat \<Rightarrow> int) \<Rightarrow> (nat \<Rightarrow> idr_layer) \<Rightarrow> bool" where
  "nodes L M N D h \<longleftrightarrow> (\<forall>l q. L l q \<noteq> 0 \<longrightarrow> node_ok L M (N l) (D l q) l q (h (L l q)))"

text \<open>The shape of a tree with \<open>n\<close> layers.\<close>

definition placed :: "placement \<Rightarrow> (nat \<rightharpoonup> nat) \<Rightarrow> nat \<Rightarrow> bool" where
  "placed L M n \<longleftrightarrow>
     0 < n \<and> n \<le> 4 \<and> L (n - 1) 0 \<noteq> 0 \<and>
     (\<forall>l q. L l q \<noteq> 0 \<longrightarrow> l < n \<and> q < 256 ^ (n - 1 - l) \<and> (l + 1 < n \<longrightarrow> L (l + 1) (q div 256) \<noteq> 0)) \<and>
     (\<forall>l q l' q'. L l q \<noteq> 0 \<longrightarrow> L l q = L l' q' \<longrightarrow> l = l' \<and> q = q') \<and>
     (\<forall>i. M i \<noteq> None \<longrightarrow> i < 2 ^ 31 \<and> L 0 (i div 256) \<noteq> 0)"

definition tree :: "placement \<Rightarrow> (nat \<rightharpoonup> nat) \<Rightarrow> nat \<Rightarrow> (nat \<Rightarrow> idr_layer) \<Rightarrow> bool" where
  "tree L M n h \<longleftrightarrow> placed L M n \<and> nodes L M (\<lambda>_. M) (\<lambda>_ _. 0) h"

lemma placedD:
  assumes "placed L M n"
  shows "0 < n" "n \<le> 4" "L (n - 1) 0 \<noteq> 0"
    and "L l q \<noteq> 0 \<Longrightarrow> l < n" "L l q \<noteq> 0 \<Longrightarrow> q < 256 ^ (n - 1 - l)"
    and "L l q \<noteq> 0 \<Longrightarrow> l + 1 < n \<Longrightarrow> L (l + 1) (q div 256) \<noteq> 0"
    and "L l q \<noteq> 0 \<Longrightarrow> L l q = L l' q' \<Longrightarrow> l = l' \<and> q = q'"
    and "M i \<noteq> None \<Longrightarrow> i < 2 ^ 31" "M i \<noteq> None \<Longrightarrow> L 0 (i div 256) \<noteq> 0"
  using assms unfolding placed_def by blast+

lemma div_pow: "i div 256 ^ l div 256 = i div 256 ^ (l + 1)" for i :: nat
  by (simp add: div_mult2_eq [symmetric] mult.commute)

lemma div_digit: "i div 256 ^ l = i div 256 ^ (l + 1) * 256 + i div 256 ^ l mod 256" for i :: nat
  unfolding div_pow [symmetric] by simp

text \<open>The layers above a layer exist.\<close>

lemma ancestor:
  assumes "placed L M n" "L l q \<noteq> 0" "l + k < n"
  shows "L (l + k) (q div 256 ^ k) \<noteq> 0"
  using assms(3)
proof (induction k)
  case (Suc k)
  then show ?case
    using placedD(6) [OF assms(1), of "l + k" "q div 256 ^ k"] by (simp add: div_pow)
qed (use assms(2) in simp)

lemma used_path:
  assumes "placed L M n" "M i \<noteq> None" "k < n"
  shows "L k (i div 256 ^ (k + 1)) \<noteq> 0"
  using ancestor [OF assms(1) placedD(9) [OF assms(1,2)], of k] assms(3)
  by (simp add: div_mult2_eq [symmetric])

lemma used_bound:
  assumes "placed L M n" "M i \<noteq> None"
  shows "i < 256 ^ n"
proof -
  have "i div 256 < 256 ^ (n - 1 - 0)" by (rule placedD(5) [OF assms(1) placedD(9) [OF assms]])
  then have "i < 256 ^ (n - 1) * 256" by (simp add: less_mult_imp_div_less div_less_iff_less_mult)
  then show ?thesis using placedD(1) [OF assms(1)] by (simp add: power_eq_if mult.commute)
qed

lemma block_full_0 [simp]: "block_full M 0 b \<longleftrightarrow> M b \<noteq> None"
  by (simp add: block_full_def)

lemma block_full_Suc: "block_full M (l + 1) q \<longleftrightarrow> (\<forall>m < 256. block_full M l (q * 256 + m))"
proof
  assume full: "block_full M (l + 1) q"
  show "\<forall>m < 256. block_full M l (q * 256 + m)"
    unfolding block_full_def
  proof (intro allI impI)
    fix m i assume "m < (256 :: nat)" "i div 256 ^ l = q * 256 + m"
    then have "i div 256 ^ (l + 1) = q" unfolding div_pow [symmetric] by simp
    then show "M i \<noteq> None" using full by (simp add: block_full_def)
  qed
next
  assume all: "\<forall>m < 256. block_full M l (q * 256 + m)"
  show "block_full M (l + 1) q"
    unfolding block_full_def
  proof (intro allI impI)
    fix i assume "i div 256 ^ (l + 1) = q"
    then have "i div 256 ^ l = q * 256 + i div 256 ^ l mod 256" using div_digit [of i l] by simp
    then show "M i \<noteq> None" using all [rule_format, of "i div 256 ^ l mod 256"] by (simp add: block_full_def)
  qed
qed

lemma block_first: "block_full M l b \<Longrightarrow> M (b * 256 ^ l) \<noteq> None"
  by (simp add: block_full_def)

lemma nodes_at: "nodes L M N D h \<Longrightarrow> L l q \<noteq> 0 \<Longrightarrow> node_ok L M (N l) (D l q) l q (h (L l q))"
  by (simp add: nodes_def)

text \<open>The contents depend on what is below the layer only.\<close>

lemma node_ok_cong:
  assumes "\<And>m. m < 256 \<Longrightarrow> child L' M' l (q * 256 + m) = child L M l (q * 256 + m)"
    and "\<And>m. m < 256 \<Longrightarrow> present L' M' l (q * 256 + m) = present L M l (q * 256 + m)"
    and "\<And>m. m < 256 \<Longrightarrow> block_full N' l (q * 256 + m) = block_full N l (q * 256 + m)"
  shows "node_ok L' M' N' d l q y = node_ok L M N d l q y"
proof -
  have "children L' M' l q = children L M l q" using assms(2) by (auto simp: children_def)
  then show ?thesis using assms(1,3) by (simp add: node_ok_def)
qed

text \<open>A write to one layer of the tree.\<close>

lemma nodes_upd:
  assumes placed: "placed L M0 n" and lq: "L l q \<noteq> 0" and new: "node_ok L' M' (N' l) (D' l q) l q y"
    and rest: "\<And>l' q'. L l' q' \<noteq> 0 \<Longrightarrow> (l', q') \<noteq> (l, q) \<Longrightarrow> node_ok L' M' (N' l') (D' l' q') l' q' (h (L l' q'))"
    and L': "\<And>l' q'. L' l' q' \<noteq> 0 \<Longrightarrow> L l' q' = L' l' q'"
  shows "nodes L' M' N' D' (h(L l q := y))"
  unfolding nodes_def
proof (intro allI impI)
  fix l' q' assume "L' l' q' \<noteq> 0"
  then have l': "L l' q' \<noteq> 0" and eq: "L' l' q' = L l' q'" using L' by metis+
  show "node_ok L' M' (N' l') (D' l' q') l' q' ((h(L l q := y)) (L' l' q'))"
  proof (cases "(l', q') = (l, q)")
    case False
    then have "L l' q' \<noteq> L l q" using placedD(7) [OF placed l', of l q] by auto
    then show ?thesis using rest [OF l' False] eq by simp
  qed (use new eq in simp)
qed

text \<open>Below a place without a layer there is nothing.\<close>

lemma nothing_below:
  assumes "placed L M n" "L l q = 0" "l < n" "m < 256"
  shows "\<not> present L M l (q * 256 + m)" "\<not> block_full M l (q * 256 + m)" "child L M l (q * 256 + m) = 0"
proof -
  have div: "(q * 256 + m) div 256 = q" using assms(4) by simp
  show "\<not> present L M l (q * 256 + m)"
  proof (cases l)
    case 0
    then have "M (q * 256 + m) = None" using placedD(9) [OF assms(1), of "q * 256 + m"] assms(2) div by metis
    then show ?thesis using 0 by (simp add: present_def)
  next
    case (Suc k)
    then show ?thesis
      using placedD(6) [OF assms(1), of k "q * 256 + m"] assms(2,3) div by (auto simp: present_def)
  qed
  then show "child L M l (q * 256 + m) = 0" by (auto simp: present_def child_def)
  show "\<not> block_full M l (q * 256 + m)"
  proof
    assume "block_full M l (q * 256 + m)"
    from used_path [OF assms(1) block_first [OF this] assms(3)]
    show False using assms(2) div div_pow [of "(q * 256 + m) * 256 ^ l" l] by simp
  qed
qed

section \<open>Memory\<close>

text \<open>The layers of the preload list are zeroed and not in use; neither are those that
  \<open>kmem_cache_zalloc\<close> is going to return.  Layers that wait for \<open>call_rcu\<close> to free them are
  not in use, either, and wait once only.\<close>

definition used :: "placement \<Rightarrow> nat set" where
  "used L = {a. a \<noteq> 0 \<and> (\<exists>l q. L l q = a)}"

definition preload_ok :: "nat set \<Rightarrow> idr_state \<Rightarrow> bool" where
  "preload_ok U s \<longleftrightarrow>
     distinct (idr_preload_head s) \<and> idr_preload_cnt s = length (idr_preload_head s) \<and>
     (\<forall>a \<in> set (idr_preload_head s). a \<noteq> 0 \<and> a \<notin> U \<and> a \<notin> set (rcu_freed s) \<and> lay s a = zero_layer)"

definition pool_ok :: "nat set \<Rightarrow> idr_state \<Rightarrow> bool" where
  "pool_ok U s \<longleftrightarrow>
     distinct (filter (\<lambda>a. a \<noteq> 0) (pool s)) \<and>
     (\<forall>a \<in> set (pool s). a \<noteq> 0 \<longrightarrow> a \<notin> U \<and> a \<notin> set (rcu_freed s) \<and> a \<notin> set (idr_preload_head s))"

definition freed_ok :: "nat set \<Rightarrow> idr_state \<Rightarrow> bool" where
  "freed_ok U s \<longleftrightarrow> distinct (rcu_freed s) \<and> (\<forall>a \<in> set (rcu_freed s). a \<notin> U)"

definition mem_ok :: "nat set \<Rightarrow> idr_state \<Rightarrow> bool" where
  "mem_ok U s \<longleftrightarrow> preload_ok U s \<and> pool_ok U s \<and> freed_ok U s"

lemmas mem_defs = mem_ok_def preload_ok_def pool_ok_def freed_ok_def

text \<open>Everything but the layers, the memory and the free list is kept.\<close>

definition kept :: "idr_state \<Rightarrow> idr_state \<Rightarrow> bool" where
  "kept s s' \<longleftrightarrow> hint s' = hint s \<and> top s' = top s \<and> layers s' = layers s \<and> cur s' = cur s \<and> rcu_freed s' = rcu_freed s"

lemma kept_refl [simp]: "kept s s"
  by (simp add: kept_def)

lemma kept_trans: "kept s s' \<Longrightarrow> kept s' s'' \<Longrightarrow> kept s s''"
  by (simp add: kept_def)

lemma upd_fields [simp]:
  "hint (upd p f s) = hint s" "top (upd p f s) = top s" "layers (upd p f s) = layers s"
  "cur (upd p f s) = cur s" "id_free (upd p f s) = id_free s" "id_free_cnt (upd p f s) = id_free_cnt s"
  "pool (upd p f s) = pool s" "idr_preload_cnt (upd p f s) = idr_preload_cnt s"
  "idr_preload_head (upd p f s) = idr_preload_head s" "rcu_freed (upd p f s) = rcu_freed s"
  "lay (upd p f s) = (lay s)(p := f (lay s p))"
  by (simp_all add: upd_def)

lemma kept_upd [simp]: "kept s (upd p f s') = kept s s'"
  by (simp add: kept_def)

lemma mem_upd: "mem_ok U s \<Longrightarrow> p \<in> U \<Longrightarrow> mem_ok U (upd p f s)"
  unfolding mem_defs by auto

lemma mem_subset: "mem_ok U s \<Longrightarrow> V \<subseteq> U \<Longrightarrow> mem_ok V s"
  unfolding mem_defs by blast

lemma mem_frame:
  assumes mem: "mem_ok U s" and sub: "V \<subseteq> U"
    and same: "pool s' = pool s" "idr_preload_head s' = idr_preload_head s" "idr_preload_cnt s' = idr_preload_cnt s"
      "rcu_freed s' = rcu_freed s"
    and lay: "\<And>a. lay s' a \<noteq> lay s a \<Longrightarrow> a \<in> U"
  shows "mem_ok V s'"
proof -
  have "lay s' a = zero_layer" if "a \<in> set (idr_preload_head s)" for a
    using that mem lay [of a] by (cases "lay s' a = lay s a") (auto simp: mem_defs)
  then show ?thesis using mem_subset [OF mem sub] unfolding mem_defs same by auto
qed

lemma zero_layer_fields [simp]:
  "length (ary zero_layer) = 256" "m < 256 \<Longrightarrow> ary zero_layer ! m = 0" "length (l_bitmap zero_layer) = 4"
  "m < 256 \<Longrightarrow> \<not> test_bit m (l_bitmap zero_layer)" "l_count zero_layer = 0"
  by (simp_all add: zero_layer_def idr_constants test_bit_bit)

lemma zero_layer_list: "(ary zero_layer)[0 := 0] = ary zero_layer"
  by (simp add: zero_layer_def IDR_SIZE_def IDR_BITS_def list_update_same_conv)

lemma zalloc_fresh:
  assumes "mem_ok U s" "kmem_cache_zalloc s = (a, s')"
  shows "kept s s' \<and> idr_preload_head s' = idr_preload_head s \<and>
    (if a = 0 then lay s' = lay s \<and> mem_ok U s'
     else a \<notin> U \<and> lay s' = (lay s)(a := zero_layer) \<and> mem_ok (insert a U) s')"
proof (cases "pool s")
  case Nil
  then show ?thesis using assms by (simp add: kmem_cache_zalloc_def)
next
  case (Cons b bs)
  show ?thesis
  proof (cases "b = 0")
    case True
    then show ?thesis
      using assms Cons by (auto simp: kmem_cache_zalloc_def kept_def mem_defs)
  next
    case False
    then have a: "a = b" "s' = s\<lparr>pool := bs, lay := (lay s)(b := zero_layer)\<rparr>"
      using assms(2) Cons by (auto simp: kmem_cache_zalloc_def)
    have "mem_ok (insert b U) s'"
      using assms(1) Cons False unfolding a mem_defs by (simp, blast)
    then show ?thesis
      using assms(1) Cons False by (simp add: a kept_def mem_defs)
  qed
qed

text \<open>A new layer is zeroed and was not in use; only with an empty preload list does the
  allocation fail.\<close>

lemma layer_alloc_fresh:
  assumes mem: "mem_ok U s" and alloc: "idr_layer_alloc False s = (a, s')"
  shows "kept s s'"
    and "a = 0 \<Longrightarrow> lay s' = lay s \<and> mem_ok U s' \<and> idr_preload_head s = [] \<and> idr_preload_head s' = []"
    and "a \<noteq> 0 \<Longrightarrow> a \<notin> U \<and> lay s' = (lay s)(a := zero_layer) \<and> mem_ok (insert a U) s' \<and>
      length (idr_preload_head s) \<le> length (idr_preload_head s') + 1"
proof -
  obtain b s1 where z: "kmem_cache_zalloc s = (b, s1)" by fastforce
  note f = zalloc_fresh [OF mem z]
  have all: "kept s s' \<and> (if a = 0 then lay s' = lay s \<and> mem_ok U s' \<and> idr_preload_head s = [] \<and> idr_preload_head s' = []
    else a \<notin> U \<and> lay s' = (lay s)(a := zero_layer) \<and> mem_ok (insert a U) s' \<and>
      length (idr_preload_head s) \<le> length (idr_preload_head s') + 1)"
  proof (cases "b = 0")
    case False
    then show ?thesis using f alloc z by (auto simp: idr_layer_alloc_def)
  next
    case b: True
    then have m1: "mem_ok U s1" and l1: "lay s1 = lay s" and h1: "idr_preload_head s1 = idr_preload_head s"
      and k1: "kept s s1" using f by auto
    show ?thesis
    proof (cases "idr_preload_head s1")
      case Nil
      then have "kmem_cache_zalloc s1 = (a, s')" using alloc z b by (simp add: idr_layer_alloc_def)
      from zalloc_fresh [OF m1 this] show ?thesis
        using Nil h1 l1 k1 by (auto intro: kept_trans)
    next
      case (Cons x xs)
      then have x: "lay s1 x = zero_layer" "x \<noteq> 0" "x \<notin> U"
        using m1 by (auto simp: mem_defs)
      have s': "a = x" "s' = upd x (\<lambda>y. y\<lparr>ary := (ary y)[0 := 0]\<rparr>)
          (s1\<lparr>idr_preload_head := xs, idr_preload_cnt := idr_preload_cnt s1 - 1\<rparr>)"
        using alloc z b Cons by (auto simp: idr_layer_alloc_def)
      have "lay s' = (lay s)(a := zero_layer)"
        using x(1) l1 s' by (simp add: zero_layer_list)
      moreover have "mem_ok (insert x U) s'"
        using m1 Cons s' x unfolding mem_defs by auto
      ultimately show ?thesis using s' x h1 [symmetric] k1 Cons by (simp add: kept_def)
    qed
  qed
  from all show "kept s s'" by blast
  from all show "a = 0 \<Longrightarrow> lay s' = lay s \<and> mem_ok U s' \<and> idr_preload_head s = [] \<and> idr_preload_head s' = []" by simp
  from all show "a \<noteq> 0 \<Longrightarrow> a \<notin> U \<and> lay s' = (lay s)(a := zero_layer) \<and> mem_ok (insert a U) s' \<and>
      length (idr_preload_head s) \<le> length (idr_preload_head s') + 1" by simp
qed

section \<open>Growth of the tree\<close>

lemma present_upd:
  "present (L(k := (L k)(b := a))) M l c = (if l = k + 1 \<and> c = b then a \<noteq> 0 else present L M l c)"
  by (auto simp: present_def)

lemma child_upd:
  "child (L(k := (L k)(b := a))) M l c = (if l = k + 1 \<and> c = b then a else child L M l c)"
  by (auto simp: child_def)

lemma digit_unique:
  fixes q m q' m' :: nat
  assumes "q * 256 + m = q' * 256 + m'" "m < 256" "m' < 256"
  shows "q = q' \<and> m = m'"
proof -
  have "q = (q * 256 + m) div 256" "q' = (q' * 256 + m') div 256" using assms(2,3) by simp_all
  then have "q = q'" using assms(1) by metis
  then show ?thesis using assms(1) by simp
qed

text \<open>A layer without contents.\<close>

definition blank :: "nat \<Rightarrow> nat \<Rightarrow> idr_layer" where
  "blank l pf = zero_layer\<lparr>l_layer := l, l_prefix := pf\<rparr>"

lemma blank_ok:
  assumes "placed L M n" "L l q = 0" "l < n" "l = 0 \<longrightarrow> pf = q * 256"
  shows "node_ok L M M 0 l q (blank l pf)"
  using nothing_below [OF assms(1-3)] assms(4)
  by (simp add: node_ok_def blank_def children_def)

text \<open>A new layer below the entry \<open>m\<close> of a layer.\<close>

lemma add_child_placed:
  assumes placed: "placed L M n" and p: "L (k + 1) q \<noteq> 0" and m: "m < 256" and a: "a \<noteq> 0" "a \<notin> used L"
  defines "L' \<equiv> L(k := (L k)(q * 256 + m := a))"
  shows "placed L' M n"
  unfolding placed_def
proof (intro conjI allI impI)
  have kn: "k + 1 < n" by (rule placedD(4) [OF placed p])
  have fresh: "L l b \<noteq> a" for l b using a by (auto simp: used_def)
  have up: "(q * 256 + m) div 256 = q" using m by simp
  have "q < 256 ^ (n - 1 - (k + 1))" by (rule placedD(5) [OF placed p])
  then have "q * 256 + m < 256 * 256 ^ (n - 1 - (k + 1))" using m by linarith
  also have "\<dots> = 256 ^ (n - 1 - k)" using kn by (simp add: Suc_diff_Suc power_Suc [symmetric] del: power_Suc)
  finally have bound: "q * 256 + m < 256 ^ (n - 1 - k)" .
  show "0 < n" "n \<le> 4" by (rule placedD [OF placed])+
  show "L' (n - 1) 0 \<noteq> 0" using placedD(3) [OF placed] a(1) by (auto simp: L'_def)
  fix l b assume l: "L' l b \<noteq> 0"
  show "l < n" using l kn placedD(4) [OF placed, of l b] by (auto simp: L'_def split: if_splits)
  show "b < 256 ^ (n - 1 - l)" using l bound placedD(5) [OF placed, of l b] by (auto simp: L'_def split: if_splits)
  show "L' (l + 1) (b div 256) \<noteq> 0" if "l + 1 < n"
    using l that p up a(1) placedD(6) [OF placed, of l b] by (auto simp: L'_def split: if_splits)
  show "l = l'" if "L' l b = L' l' b'" for l' b'
    using l that fresh placedD(7) [OF placed, of l b l' b'] by (auto simp: L'_def split: if_splits)
  show "b = b'" if "L' l b = L' l' b'" for l' b'
    using l that fresh placedD(7) [OF placed, of l b l' b'] by (auto simp: L'_def split: if_splits)
next
  fix i assume i: "M i \<noteq> None"
  show "i < 2 ^ 31" by (rule placedD(8) [OF placed i])
  show "L' 0 (i div 256) \<noteq> 0" using placedD(9) [OF placed i] a(1) by (auto simp: L'_def)
qed

lemma add_child:
  assumes tree: "tree L M n h" and p: "L (k + 1) q \<noteq> 0" and m: "m < 256" and free: "L k (q * 256 + m) = 0"
    and a: "a \<noteq> 0" "a \<notin> used L" and pf: "k = 0 \<longrightarrow> pf = (q * 256 + m) * 256"
  defines "L' \<equiv> L(k := (L k)(q * 256 + m := a))"
    and "y \<equiv> h (L (k + 1) q)"
  shows "tree L' M n (h(a := blank k pf, L (k + 1) q := y\<lparr>ary := (ary y)[m := a], l_count := l_count y + 1\<rparr>))"
proof -
  have placed: "placed L M n" and nodes: "nodes L M (\<lambda>_. M) (\<lambda>_ _. 0) h" using tree by (simp_all add: tree_def)
  have kn: "k + 1 < n" by (rule placedD(4) [OF placed p])
  have fresh: "L l b \<noteq> a" for l b using a by (auto simp: used_def)
  have "nodes L' M (\<lambda>_. M) (\<lambda>_ _. 0) (h(a := blank k pf, L (k + 1) q := y\<lparr>ary := (ary y)[m := a], l_count := l_count y + 1\<rparr>))"
    unfolding nodes_def
  proof (intro allI impI)
    fix l b assume l: "L' l b \<noteq> 0"
    let ?h = "h(a := blank k pf, L (k + 1) q := y\<lparr>ary := (ary y)[m := a], l_count := l_count y + 1\<rparr>)"
    consider (new) "l = k" "b = q * 256 + m" | (parent) "l = k + 1" "b = q"
      | (old) "(l, b) \<noteq> (k, q * 256 + m)" "(l, b) \<noteq> (k + 1, q)" by blast
    then show "node_ok L' M M 0 l b (?h (L' l b))"
    proof cases
      case new
      have "node_ok L' M M 0 l b (blank k pf) = node_ok L M M 0 l b (blank k pf)"
        using new by (intro node_ok_cong) (simp_all add: L'_def present_upd child_upd)
      then show ?thesis using blank_ok [OF placed free _ pf] kn new fresh [of "k + 1" q] by (simp add: L'_def)
    next
      case parent
      have ok: "node_ok L M M 0 (k + 1) q y" using nodes_at [OF nodes p] by (simp add: y_def)
      have ch: "children L' M (k + 1) q = insert m (children L M (k + 1) q)"
        using m a(1) by (auto simp: children_def L'_def present_upd)
      have "m \<notin> children L M (k + 1) q" "finite (children L M (k + 1) q)"
        using free by (auto simp: children_def present_def)
      then have "int (card (children L' M (k + 1) q)) = l_count y + 1"
        using ok ch by (simp add: node_ok_def)
      moreover have "L' (k + 1) q = L (k + 1) q" by (simp add: L'_def)
      ultimately show ?thesis
        using ok parent m by (auto simp: node_ok_def L'_def child_upd nth_list_update)
    next
      case old
      then have Ll: "L' l b = L l b" "L l b \<noteq> 0" using l by (auto simp: L'_def split: if_splits)
      have "L l b \<noteq> L (k + 1) q" using placedD(7) [OF placed Ll(2), of "k + 1" q] old(2) by auto
      moreover have "node_ok L' M M 0 l b (h (L l b)) = node_ok L M M 0 l b (h (L l b))"
        using old(2) m by (intro node_ok_cong) (auto simp: L'_def present_upd child_upd dest: digit_unique)
      ultimately show ?thesis using nodes_at [OF nodes Ll(2)] Ll fresh [of l b] by simp
    qed
  qed
  then show ?thesis using add_child_placed [OF placed p m a] by (simp add: tree_def L'_def)
qed

text \<open>The bits of a layer.\<close>

lemma full_node:
  assumes "node_ok L M N d l q y"
  shows "bitmap_full (l_bitmap y) IDR_SIZE \<longleftrightarrow> block_full N (l + 1) q"
  unfolding block_full_Suc using assms by (simp add: full_bits node_ok_def idr_constants)

lemma layer_bits:
  assumes "length bm = 4" "k < 256"
  shows "test_bit m (set_bit_nr k bm) \<longleftrightarrow> m = k \<or> test_bit m bm"
    "test_bit m (clear_bit k bm) \<longleftrightarrow> m \<noteq> k \<and> test_bit m bm"
    "length (set_bit_nr k bm) = 4" "length (clear_bit k bm) = 4"
  using assms test_bit_writes(1,2) [of k bm m] by (auto simp: set_bit_nr_def clear_bit_def)

text \<open>A new layer on top.\<close>

definition new_top :: "nat \<Rightarrow> nat \<Rightarrow> nat \<Rightarrow> bool \<Rightarrow> idr_layer" where
  "new_top p l pf full = (blank l pf)\<lparr>ary := (ary zero_layer)[0 := p], l_count := 1,
     l_bitmap := (if full then set_bit_nr 0 (l_bitmap zero_layer) else l_bitmap zero_layer)\<rparr>"

lemma new_top_ok:
  assumes placed: "placed L M n" and full: "full \<longleftrightarrow> block_full M n 0"
  shows "node_ok L M M 0 n 0 (new_top (L (n - 1) 0) n pf full)"
proof -
  have n: "0 < n" by (rule placedD(1) [OF placed])
  have only: "L (n - 1) m \<noteq> 0 \<Longrightarrow> m = 0" for m using placedD(5) [OF placed, of "n - 1" m] by simp
  then have "children L M n 0 = {0}"
    using n placedD(3) [OF placed] by (auto simp: children_def present_def)
  moreover have "child L M n m = (if m = 0 then L (n - 1) 0 else 0)" for m
    using n only [of m] by (auto simp: child_def)
  moreover have "\<not> block_full M n m" if "m \<noteq> 0" for m
  proof
    assume "block_full M n m"
    from used_bound [OF placed block_first [OF this]] show False using that by simp
  qed
  then have "test_bit m (l_bitmap (new_top p n pf full)) = block_full M n m" if "m < 256" for m p
    using that full by (cases "m = 0") (simp_all add: new_top_def layer_bits)
  ultimately show ?thesis
    using n by (simp add: node_ok_def) (simp add: new_top_def blank_def nth_list_update layer_bits)
qed

lemma add_top:
  assumes tree: "tree L M n h" and n: "n < 4" and a: "a \<noteq> 0" "a \<notin> used L" and full: "full \<longleftrightarrow> block_full M n 0"
  defines "L' \<equiv> L(n := (L n)(0 := a))"
  shows "tree L' M (n + 1) (h(a := new_top (L (n - 1) 0) n pf full))"
proof -
  have placed: "placed L M n" and nodes: "nodes L M (\<lambda>_. M) (\<lambda>_ _. 0) h" using tree by (simp_all add: tree_def)
  have fresh: "L l b \<noteq> a" for l b using a by (auto simp: used_def)
  have Ln: "L n b = 0" for b using placedD(4) [OF placed, of n b] by auto
  have L': "L' l b = (if l = n \<and> b = 0 then a else L l b)" for l b by (simp add: L'_def)
  have "placed L' M (n + 1)"
    unfolding placed_def
  proof (intro conjI allI impI)
    show "0 < n + 1" "n + 1 \<le> 4" "L' (n + 1 - 1) 0 \<noteq> 0" using n a(1) by (simp_all add: L')
    fix l b assume l: "L' l b \<noteq> 0"
    show "l < n + 1" using l placedD(4) [OF placed, of l b] by (auto simp: L' split: if_splits)
    show "b < 256 ^ (n + 1 - 1 - l)"
    proof (cases "l = n")
      case False
      then have "b < 256 ^ (n - 1 - l)" using l placedD(5) [OF placed, of l b] by (simp add: L')
      also have "\<dots> \<le> 256 ^ (n + 1 - 1 - l)" by (rule power_increasing) simp_all
      finally show ?thesis .
    qed (use l Ln in \<open>auto simp: L' split: if_splits\<close>)
    show "L' (l + 1) (b div 256) \<noteq> 0" if l1: "l + 1 < n + 1"
    proof (cases "l + 1 = n")
      case True
      then show ?thesis using l placedD(5) [OF placed, of l b] a(1) by (auto simp: L')
    next
      case False
      then show ?thesis using l l1 placedD(6) [OF placed, of l b] a(1) by (auto simp: L')
    qed
    show "l = l'" "b = b'" if "L' l b = L' l' b'" for l' b'
      using l that fresh placedD(7) [OF placed, of l b l' b'] by (auto simp: L' split: if_splits)
  next
    fix i assume i: "M i \<noteq> None"
    show "i < 2 ^ 31" by (rule placedD(8) [OF placed i])
    show "L' 0 (i div 256) \<noteq> 0" using placedD(9) [OF placed i] a(1) by (auto simp: L')
  qed
  moreover have "nodes L' M (\<lambda>_. M) (\<lambda>_ _. 0) (h(a := new_top (L (n - 1) 0) n pf full))"
    unfolding nodes_def
  proof (intro allI impI)
    fix l b assume l: "L' l b \<noteq> 0"
    then have ln: "l \<le> n" using placedD(4) [OF placed, of l b] by (auto simp: L' split: if_splits)
    have "node_ok L' M M 0 l b y = node_ok L M M 0 l b y" for y
      using ln by (intro node_ok_cong) (auto simp: L'_def present_upd child_upd)
    then show "node_ok L' M M 0 l b ((h(a := new_top (L (n - 1) 0) n pf full)) (L' l b))"
      using l Ln new_top_ok [OF placed full, of pf] nodes_at [OF nodes, of l b] fresh [of l b] by (auto simp: L')
  qed
  ultimately show ?thesis by (simp add: tree_def)
qed

text \<open>An empty tree is moved up.\<close>

lemma empty_top:
  assumes tree: "tree L M n h" and c: "l_count (h (L (n - 1) 0)) = 0"
  shows "M i = None" "L l q \<noteq> 0 \<Longrightarrow> l = n - 1 \<and> q = 0"
proof -
  have placed: "placed L M n" using tree by (simp add: tree_def)
  then have ok: "node_ok L M M 0 (n - 1) 0 (h (L (n - 1) 0))"
    using nodes_at [of L M "\<lambda>_. M" "\<lambda>_ _. 0" h "n - 1" 0] placedD(3) [OF placed] tree by (simp add: tree_def)
  have "finite (children L M (n - 1) 0)" by (simp add: children_def)
  then have none: "\<not> present L M (n - 1) m" if "m < 256" for m
    using ok c that by (auto simp: node_ok_def children_def)
  have n: "0 < n" by (rule placedD(1) [OF placed])
  have below: "L k q = 0" if k: "k < n - 1" for k q
  proof (rule ccontr)
    assume Lk: "L k q \<noteq> 0"
    let ?b = "q div 256 ^ (n - 2 - k)"
    have "L (n - 2) ?b \<noteq> 0" using ancestor [OF placed Lk, of "n - 2 - k"] k by simp
    moreover from this have "?b < 256" using placedD(5) [OF placed, of "n - 2" ?b] k by (simp add: Suc_diff_Suc numeral_2_eq_2)
    moreover have "n - 1 \<noteq> 0" "n - 1 - 1 = n - 2" using k by simp_all
    ultimately show False using none [of ?b] by (simp add: present_def)
  qed
  show "L l q \<noteq> 0 \<Longrightarrow> l = n - 1 \<and> q = 0"
    using below [of l q] placedD(4,5) [OF placed, of l q] by (cases "l < n - 1") auto
  show "M i = None"
  proof (rule ccontr)
    assume i: "M i \<noteq> None"
    show False
    proof (cases "n = 1")
      case True
      then show ?thesis using none [of i] used_bound [OF placed i] i by (simp add: present_def)
    next
      case False
      then show ?thesis using below [of 0] placedD(9) [OF placed i] n by simp
    qed
  qed
qed

definition only_top :: "nat \<Rightarrow> nat \<Rightarrow> placement" where
  "only_top n a = (\<lambda>l q. if l = n - 1 \<and> q = 0 then a else 0)"

definition empty_layer :: "idr_layer \<Rightarrow> bool" where
  "empty_layer y \<longleftrightarrow> length (ary y) = 256 \<and> length (l_bitmap y) = 4 \<and> l_count y = 0 \<and>
     (\<forall>m < 256. ary y ! m = 0 \<and> \<not> test_bit m (l_bitmap y))"

lemma only_top_tree:
  assumes "0 < n" "n \<le> 4" "a \<noteq> 0" "empty_layer (h a)" "l_layer (h a) = n - 1" "n = 1 \<longrightarrow> l_prefix (h a) = 0"
  shows "tree (only_top n a) Map.empty n h"
proof -
  have "children (only_top n a) Map.empty l q = {}" if "l < n" for l q
    using that by (auto simp: children_def present_def only_top_def)
  moreover have "\<not> block_full Map.empty l b" for l b using block_first [of Map.empty l b] by auto
  moreover have "child (only_top n a) Map.empty l b = 0" if "l < n" for l b
    using that by (auto simp: child_def only_top_def)
  ultimately have "node_ok (only_top n a) Map.empty Map.empty 0 (n - 1) 0 (h a)"
    using assms by (simp add: node_ok_def empty_layer_def)
  then show ?thesis
    using assms by (auto simp: tree_def placed_def nodes_def only_top_def split: if_splits)
qed

lemma empty_top_layer:
  assumes tree: "tree L M n h" and c: "l_count (h (L (n - 1) 0)) = 0"
  shows "empty_layer (h (L (n - 1) 0))" "n = 1 \<longrightarrow> l_prefix (h (L (n - 1) 0)) = 0" "l_layer (h (L (n - 1) 0)) = n - 1"
    "M = Map.empty"
proof -
  have placed: "placed L M n" using tree by (simp add: tree_def)
  have ok: "node_ok L M M 0 (n - 1) 0 (h (L (n - 1) 0))"
    using nodes_at [of L M "\<lambda>_. M" "\<lambda>_ _. 0" h "n - 1" 0] placedD(3) [OF placed] tree by (simp add: tree_def)
  show M: "M = Map.empty" using empty_top(1) [OF tree c] by auto
  have "L (n - 1 - 1) m = 0" if "n \<noteq> 1" for m
    using empty_top(2) [OF tree c, of "n - 1 - 1" m] that placedD(1) [OF placed] by linarith
  then show "empty_layer (h (L (n - 1) 0))"
    using ok c M block_first [of Map.empty "n - 1"] by (auto simp: node_ok_def empty_layer_def child_def)
  show "n = 1 \<longrightarrow> l_prefix (h (L (n - 1) 0)) = 0" "l_layer (h (L (n - 1) 0)) = n - 1"
    using ok by (simp_all add: node_ok_def)
qed

end
