(* ===== verification/Idr_Search.thy ===== *)
theory Idr_Search
  imports Idr_Tree
begin

text \<open>
  The search of \<open>sub_alloc\<close>: it ends, and finds the least free identifier from a start on, or
  finds out that the tree, or the whole range, is full.
\<close>

section \<open>The search for a free identifier\<close>

lemma first_zero:
  assumes "length bm = 4" "d \<le> 256"
  defines "m \<equiv> find_next_zero_bit bm 256 d"
  shows "d \<le> m" "m \<le> 256" "m < 256 \<Longrightarrow> \<not> test_bit m bm" "d \<le> k \<Longrightarrow> k < m \<Longrightarrow> test_bit k bm"
proof -
  have "\<not> test_bit n bm \<longleftrightarrow> bit (NOT (bm ! (n div 64))) (n mod 64)" for n
    by (simp add: test_bit_bit bit_not_iff)
  note r = find_next_result [where val = "\<lambda>w. NOT w" and sz = 256 and addr = bm, OF _ assms(2) this find_next_zero_bit_def]
  then show "d \<le> m" "m \<le> 256" "m < 256 \<Longrightarrow> \<not> test_bit m bm" "d \<le> k \<Longrightarrow> k < m \<Longrightarrow> test_bit k bm"
    using assms(1) unfolding m_def by auto
qed

text \<open>All identifiers from \<open>i\<close> up to \<open>b\<close> are in use.\<close>

definition in_use :: "(nat \<rightharpoonup> nat) \<Rightarrow> nat \<Rightarrow> nat \<Rightarrow> bool" where
  "in_use M i b \<longleftrightarrow> (\<forall>k. i \<le> k \<and> k < b \<longrightarrow> M k \<noteq> None)"

lemma in_use_join: "in_use M i j \<Longrightarrow> in_use M j b \<Longrightarrow> in_use M i b"
  unfolding in_use_def using not_le by metis

text \<open>The blocks of a layer from the one of \<open>i\<close> up to the block \<open>m\<close> are in use.\<close>

definition full_upto :: "(nat \<rightharpoonup> nat) \<Rightarrow> nat \<Rightarrow> nat \<Rightarrow> nat \<Rightarrow> bool" where
  "full_upto M l i m \<longleftrightarrow>
     (\<forall>k. i div 256 ^ l mod 256 \<le> k \<and> k < m \<longrightarrow> block_full M l (i div 256 ^ (l + 1) * 256 + k))"

text \<open>The identifiers of the blocks that are passed over are in use.\<close>

lemma skipped:
  assumes full: "full_upto M l i m"
  shows "in_use M i ((i div 256 ^ (l + 1) * 256 + m) * 256 ^ l)"
  unfolding in_use_def
proof (intro allI impI, elim conjE)
  fix j assume j: "i \<le> j" "j < (i div 256 ^ (l + 1) * 256 + m) * 256 ^ l"
  let ?q = "i div 256 ^ (l + 1)"
  have lo: "?q * 256 + i div 256 ^ l mod 256 \<le> j div 256 ^ l"
    using div_le_mono [OF j(1), of "256 ^ l"] div_digit [of i l] by simp
  have hi: "j div 256 ^ l < ?q * 256 + m" using j(2) by (simp add: div_less_iff_less_mult)
  define k where "k = j div 256 ^ l - ?q * 256"
  have jk: "j div 256 ^ l = ?q * 256 + k" using lo by (simp add: k_def)
  have "i div 256 ^ l mod 256 \<le> k" "k < m" using lo hi unfolding jk by linarith+
  then show "M j \<noteq> None" using full jk by (simp add: full_upto_def block_full_def)
qed

text \<open>The position of the search: \<open>pa\<close> holds the layers above the current one.\<close>

definition search :: "placement \<Rightarrow> nat \<Rightarrow> nat \<Rightarrow> nat \<Rightarrow> nat \<Rightarrow> nat list \<Rightarrow> bool" where
  "search L n i l p pa \<longleftrightarrow>
     l < n \<and> p = L l (i div 256 ^ (l + 1)) \<and> p \<noteq> 0 \<and> length pa = 5 \<and> pa ! n = 0 \<and>
     (\<forall>k. l < k \<longrightarrow> k < n \<longrightarrow> pa ! k = L k (i div 256 ^ (k + 1))) \<and>
     i < 256 ^ n \<and> (i < 2 ^ 31 \<or> i = 2 ^ 31 \<and> l = 3)"

lemma next_start:
  fixes i B c :: nat
  assumes "i < c * B" "0 < B"
  shows "(i div B + 1) * B \<le> c * B" "i < (i div B + 1) * B"
proof -
  have "i div B < c" using assms by (simp add: div_less_iff_less_mult)
  then show "(i div B + 1) * B \<le> c * B" by (intro mult_le_mono1) simp
  show "i < (i div B + 1) * B" using dividend_less_div_times [OF assms(2), of i] by simp
qed

lemma searchD:
  assumes "search L n i l p pa"
  shows "l < n" "p = L l (i div 256 ^ (l + 1))" "L l (i div 256 ^ (l + 1)) \<noteq> 0" "length pa = 5" "pa ! n = 0"
    and "\<And>k. l < k \<Longrightarrow> k < n \<Longrightarrow> pa ! k = L k (i div 256 ^ (k + 1))"
    and "i < 256 ^ n" "i < 2 ^ 31 \<or> i = 2 ^ 31 \<and> l = 3"
  using assms by (auto simp: search_def)

lemma pow_split: "k \<le> n \<Longrightarrow> 256 ^ n = 256 ^ (n - k) * (256 ^ k :: nat)"
  by (simp add: power_add [symmetric])

lemma max_split: "k \<le> 3 \<Longrightarrow> 2 ^ 31 = (2 ^ 7 * 256 ^ (3 - k)) * (256 ^ k :: nat)"
  by (simp add: mult.assoc power_add [symmetric])

text \<open>After a layer without a free entry the search goes on behind it: the tree has to grow, or
  there is a layer above.\<close>

lemma behind:
  assumes placed: "placed L M n" and search: "search L n i l p pa"
    and full: "full_upto M l i 256"
    and i': "i' = (i div 256 ^ (l + 1) + 1) * 256 ^ (l + 1)"
  shows "i < i'" "in_use M i i'" "i' \<le> 2 ^ 31" "i < 2 ^ 31"
    and "i' > idr_max n \<Longrightarrow> i' < 2 ^ 31 \<Longrightarrow> n < 4 \<and> i' = 256 ^ n"
    and "\<not> (i' > idr_max n \<and> i' < 2 ^ 31) \<Longrightarrow> l + 1 < n \<and> i' < 256 ^ n \<and> (i' = 2 ^ 31 \<longrightarrow> n = 4)"
proof -
  note n = placedD(1,2) [OF placed]
  note l = searchD(1) [OF search] and i = searchD(7,8) [OF search]
  have le: "i' \<le> 256 ^ n" and lt: "i < i'"
    using next_start [of i "256 ^ (n - (l + 1))" "256 ^ (l + 1)"] i(1) pow_split [of "l + 1" n] l unfolding i' by simp_all
  show "i < i'" by (rule lt)
  have i'_eq: "i' = (i div 256 ^ (l + 1) * 256 + 256) * 256 ^ l" by (simp add: i' algebra_simps)
  show "in_use M i i'" unfolding i'_eq by (rule skipped [OF full])
  have small: "n < 4 \<Longrightarrow> 256 ^ n \<le> (2 ^ 24 :: nat)"
    using power_increasing [of n 3 "256 :: nat"] by simp
  have last: "\<not> (l = 3 \<and> n = 4)"
  proof
    assume e: "l = 3 \<and> n = 4"
    then have "i div 256 ^ (l + 1) = 0" using i(1) by simp
    then have "block_full M 3 255" using full e by (simp add: full_upto_def)
    from placedD(8) [OF placed block_first [OF this]] show False by simp
  qed
  then have l3: "l + 1 \<le> 3" using l n by simp
  show i31: "i < 2 ^ 31" using i(2) l3 by auto
  show i'31: "i' \<le> 2 ^ 31"
    using next_start(1) [of i _ "256 ^ (l + 1)", OF i31 [unfolded max_split [OF l3]]]
    unfolding max_split [OF l3] i' by simp
  show "n < 4 \<and> i' = 256 ^ n" if "i' > idr_max n" "i' < 2 ^ 31"
    using that le n by (cases "n < 4") (auto simp: idr_max_eq)
  assume go: "\<not> (i' > idr_max n \<and> i' < 2 ^ 31)"
  have i'n: "i' < 256 ^ n"
  proof (cases "n < 4")
    case True
    then have "i' \<le> 256 ^ n - 1" using go le small by (auto simp: idr_max_eq)
    then show ?thesis by (simp add: less_eq_Suc_le [symmetric] Suc_leI le_imp_less_Suc flip: less_Suc_eq_le)
  next
    case False
    then have "n = 4" using n by simp
    then show ?thesis using i'31 by simp
  qed
  moreover have "l + 1 < n"
  proof (rule ccontr)
    assume "\<not> l + 1 < n"
    then have "l + 1 = n" using l by simp
    then show False using i(1) i'n unfolding i' by auto
  qed
  moreover have "i' = 2 ^ 31 \<longrightarrow> n = 4" using le small n by (cases "n < 4") auto
  ultimately show "l + 1 < n \<and> i' < 256 ^ n \<and> (i' = 2 ^ 31 \<longrightarrow> n = 4)" by blast
qed

lemma search_up:
  assumes placed: "placed L M n" and search: "search L n i l p pa"
    and i': "l + 1 < n" "i < 2 ^ 31" "i' \<le> 2 ^ 31" "i' < 256 ^ n" "i' = 2 ^ 31 \<longrightarrow> n = 4"
  shows "pa ! (l + 1) \<noteq> 0"
    and "i div 256 ^ (l + 2) = i' div 256 ^ (l + 2) \<Longrightarrow> search L n i' (l + 1) (pa ! (l + 1)) pa"
    and "search L n i' (n - 1) (L (n - 1) 0) (pa[n := 0])"
proof -
  have up: "pa ! (l + 1) = L (l + 1) (i div 256 ^ (l + 2))" using searchD(6) [OF search, of "l + 1"] i'(1) by simp
  show nz: "pa ! (l + 1) \<noteq> 0"
    using placedD(6) [OF placed searchD(3) [OF search] i'(1)] up by (simp add: div_mult2_eq [symmetric] mult.commute)
  show "search L n i' (l + 1) (pa ! (l + 1)) pa" if same: "i div 256 ^ (l + 2) = i' div 256 ^ (l + 2)"
  proof -
    have "i div 256 ^ (k + 1) = i' div 256 ^ (k + 1)" if k: "l + 1 < k" for k
    proof -
      have "256 ^ (k + 1) = (256 ^ (l + 2) :: nat) * 256 ^ (k - (l + 1))"
        using k by (simp add: power_add [symmetric] del: power_Suc)
      then show ?thesis using same by (simp only: div_mult2_eq)
    qed
    moreover have "i' < 2 ^ 31 \<or> i' = 2 ^ 31 \<and> l + 1 = 3"
    proof (rule ccontr)
      assume "\<not> ?thesis"
      then have e: "i' = 2 ^ 31" and l: "l + 2 \<le> 3" using i' by auto
      have "i' div 256 ^ (l + 2) = 2 ^ 7 * 256 ^ (3 - (l + 2))" unfolding e max_split [OF l] by simp
      moreover have "i div 256 ^ (l + 2) < 2 ^ 7 * 256 ^ (3 - (l + 2))"
        using i'(2) max_split [OF l] by (simp only: div_less_iff_less_mult zero_less_power zero_less_numeral)
      ultimately show False using same by simp
    qed
    ultimately show ?thesis
      using i' nz searchD(4-6) [OF search] same up by (simp add: search_def)
  qed
  show "search L n i' (n - 1) (L (n - 1) 0) (pa[n := 0])"
    using placedD(1-3) [OF placed] searchD(4) [OF search] i' by (auto simp: search_def)
qed

lemma search_down:
  assumes search: "search L n i l p pa" and m: "i div 256 ^ l mod 256 \<le> m" "m < 256"
    and full: "full_upto M l i m"
  defines "i' \<equiv> (if m \<noteq> i div 256 ^ l mod 256 then (i div 256 ^ (l + 1) * 256 + m) * 256 ^ l else i)"
  shows "i \<le> i'" "in_use M i i'" "i' div 256 ^ l = i div 256 ^ (l + 1) * 256 + m"
    and "\<And>k. l \<le> k \<Longrightarrow> i' div 256 ^ (k + 1) = i div 256 ^ (k + 1)" "i' < 256 ^ n"
proof -
  let ?q = "i div 256 ^ (l + 1)"
  have l: "l < n" and i: "i < 256 ^ n" using searchD [OF search] by blast+
  show d: "i' div 256 ^ l = ?q * 256 + m" using div_digit [of i l] by (auto simp: i'_def)
  have q: "i' div 256 ^ (l + 1) = ?q" using d m(2) unfolding div_pow [symmetric] by simp
  show up: "i' div 256 ^ (k + 1) = i div 256 ^ (k + 1)" if "l \<le> k" for k
  proof -
    have "256 ^ (k + 1) = (256 ^ (l + 1) :: nat) * 256 ^ (k - l)"
      using that by (simp add: power_add [symmetric] del: power_Suc)
    then show ?thesis using q by (simp only: div_mult2_eq)
  qed
  show "i \<le> i'"
  proof (cases "m = i div 256 ^ l mod 256")
    case False
    then have "i div 256 ^ l < ?q * 256 + m" using m div_digit [of i l] by linarith
    then have "i < (?q * 256 + m) * 256 ^ l" by (simp add: div_less_iff_less_mult)
    then show ?thesis using False by (simp add: i'_def)
  qed (simp add: i'_def)
  show "in_use M i i'"
    using skipped [OF full] by (auto simp: i'_def in_use_def)
  have "i' div 256 ^ n = 0" using up [of "n - 1"] l i by simp
  then show "i' < 256 ^ n" by (simp add: div_eq_0_iff)
qed

definition block_empty :: "(nat \<rightharpoonup> nat) \<Rightarrow> nat \<Rightarrow> nat \<Rightarrow> bool" where
  "block_empty M l q \<longleftrightarrow> (\<forall>i. i div 256 ^ (l + 1) = q \<longrightarrow> M i = None)"

lemma block_empty_down: "block_empty M (l + 1) q \<Longrightarrow> m < 256 \<Longrightarrow> block_empty M l (q * 256 + m)"
  unfolding block_empty_def
proof (intro allI impI)
  fix i assume "\<forall>i. i div 256 ^ (l + 1 + 1) = q \<longrightarrow> M i = None" "m < 256" "i div 256 ^ (l + 1) = q * 256 + m"
  then show "M i = None" using div_pow [of i "l + 1"] by simp
qed

lemma missing_empty:
  assumes "placed L M n" "L l q = 0" "l < n"
  shows "block_empty M l q"
  unfolding block_empty_def using used_path [OF assms(1) _ assms(3)] assms(2) by blast

text \<open>The path from the leaf of an identifier to the top.\<close>

definition path :: "placement \<Rightarrow> nat \<Rightarrow> nat \<Rightarrow> nat list \<Rightarrow> bool" where
  "path L n i pa \<longleftrightarrow> length pa = 5 \<and> pa ! n = 0 \<and> (\<forall>k < n. pa ! k = L k (i div 256 ^ (k + 1)) \<and> pa ! k \<noteq> 0)"

text \<open>What a search from \<open>i\<close> finds: the least free identifier, or none in the tree, or none at all.\<close>

fun result_ok :: "placement \<Rightarrow> (nat \<rightharpoonup> nat) \<Rightarrow> nat \<Rightarrow> nat \<Rightarrow> errno + nat \<Rightarrow> nat \<Rightarrow> nat list \<Rightarrow> bool" where
  "result_ok L M n i (Inr j) i' pa \<longleftrightarrow>
     i \<le> j \<and> j < 2 ^ 31 \<and> M j = None \<and> in_use M i j \<and> path L n j pa"
| "result_ok L M n i (Inl e) i' pa \<longleftrightarrow>
     e = EAGAIN \<and> n < 4 \<and> i' = 256 ^ n \<and> length pa = 5 \<and> in_use M i (256 ^ n) \<or>
     e = ENOSPC \<and> in_use M i (2 ^ 31) \<or> e = ENOMEM"

lemma result_ok_mono:
  assumes "result_ok L M n i' r r' pa" "i \<le> i'" "in_use M i i'"
  shows "result_ok L M n i r r' pa"
  using assms by (cases r) (auto intro: in_use_join)

definition extends :: "placement \<Rightarrow> placement \<Rightarrow> bool" where
  "extends L L' \<longleftrightarrow> (\<forall>l q. L l q \<noteq> 0 \<longrightarrow> L' l q = L l q)"

lemma extends_refl [simp]: "extends L L" by (simp add: extends_def)

lemma extends_trans: "extends L L' \<Longrightarrow> extends L' L'' \<Longrightarrow> extends L L''"
  by (simp add: extends_def)

text \<open>The state after a search: the map is the same, and layers may have been added.  A search in an empty
  block succeeds, unless memory is missing.\<close>

definition search_post ::
  "placement \<Rightarrow> (nat \<rightharpoonup> nat) \<Rightarrow> nat \<Rightarrow> nat \<Rightarrow> nat \<Rightarrow> idr_state \<Rightarrow> errno + nat \<Rightarrow> nat \<Rightarrow> nat list \<Rightarrow> idr_state \<Rightarrow> bool" where
  "search_post L M n i l s r i' pa s' \<longleftrightarrow>
     kept s s' \<and> (\<exists>L'. extends L L' \<and> tree L' M n (lay s') \<and> mem_ok (used L') s' \<and> result_ok L' M n i r i' pa) \<and>
     (r = Inl EAGAIN \<longrightarrow> s' = s) \<and>
     (r = Inl ENOMEM \<longrightarrow> length (idr_preload_head s) < n - 1) \<and>
     (block_empty M l (i div 256 ^ (l + 1)) \<longrightarrow>
       r \<noteq> Inl EAGAIN \<and> (r = Inl ENOMEM \<longrightarrow> length (idr_preload_head s) < l))"

lemma usedI: "L l q = x \<Longrightarrow> x \<noteq> 0 \<Longrightarrow> x \<in> used L"
  by (auto simp: used_def)

lemma used_insert:
  assumes "L k b = 0" "a \<noteq> 0"
  shows "used (L(k := (L k)(b := a))) = insert a (used L)"
proof (intro set_eqI iffI)
  let ?L = "L(k := (L k)(b := a))"
  fix x assume "x \<in> insert a (used L)"
  then consider "x = a" | l q where "L l q = x" "x \<noteq> 0" by (auto simp: used_def)
  then show "x \<in> used ?L"
  proof cases
    case 1
    then show ?thesis using assms(2) by (intro usedI [of ?L k b]) simp_all
  next
    case (2 l q)
    then show ?thesis using assms(1) by (intro usedI [of ?L l q]) auto
  qed
qed (auto simp: used_def split: if_splits)

lemma extends_insert: "L k b = 0 \<Longrightarrow> extends L (L(k := (L k)(b := a)))"
  by (simp add: extends_def)

lemma tree_node:
  assumes "tree L M n h" "L l q \<noteq> 0"
  shows "node_ok L M M 0 l q (h (L l q))"
  using assms nodes_at [of L M "\<lambda>_. M" "\<lambda>_ _. 0" h l q] by (simp add: tree_def)

lemma child_step:
  assumes tree: "tree L M n (lay s)" and mem: "mem_ok (used L) s" and p: "L (k + 1) q \<noteq> 0" "p = L (k + 1) q"
    and m: "m < 256" "i div 256 ^ (k + 1) = q * 256 + m"
    and child: "sub_alloc_child False i p (k + 1) m s = (ok, s')"
  shows "kept s s'"
    and "\<not> ok \<Longrightarrow> tree L M n (lay s') \<and> mem_ok (used L) s' \<and> idr_preload_head s = []"
    and "ok \<Longrightarrow> \<exists>L'. extends L L' \<and> tree L' M n (lay s') \<and> mem_ok (used L') s' \<and>
      L' k (q * 256 + m) \<noteq> 0 \<and> ary (lay s' p) ! m = L' k (q * 256 + m) \<and>
      (if L k (q * 256 + m) \<noteq> 0 then s' = s
       else length (idr_preload_head s) \<le> length (idr_preload_head s') + 1)"
proof -
  let ?b = "q * 256 + m"
  have ok_p: "node_ok L M M 0 (k + 1) q (lay s p)" using tree_node [OF tree p(1)] p(2) by simp
  then have entry: "ary (lay s p) ! m = L k ?b" using m(1) by (simp add: node_ok_def child_def)
  obtain a s1 where alloc: "idr_layer_alloc False s = (a, s1)" by fastforce
  note fresh = layer_alloc_fresh [OF mem alloc]
  have pf: "k = 0 \<longrightarrow> idr_layer_prefix i k = ?b * 256" using m(2) by (auto simp: prefix_leaf)
  have "kept s s' \<and> (\<not> ok \<longrightarrow> tree L M n (lay s') \<and> mem_ok (used L) s' \<and> idr_preload_head s = []) \<and>
    (ok \<longrightarrow> (\<exists>L'. extends L L' \<and> tree L' M n (lay s') \<and> mem_ok (used L') s' \<and>
      L' k ?b \<noteq> 0 \<and> ary (lay s' p) ! m = L' k ?b \<and>
      (if L k ?b \<noteq> 0 then s' = s else length (idr_preload_head s) \<le> length (idr_preload_head s') + 1)))"
  proof (cases "L k ?b = 0")
    case False
    then have "ok" "s' = s" using child entry by (auto simp: sub_alloc_child_def)
    then show ?thesis using False tree mem entry by (auto intro!: exI [of _ L])
  next
    case free: True
    show ?thesis
    proof (cases "a = 0")
      case True
      then have "\<not> ok" "s' = s1" using child entry free alloc by (auto simp: sub_alloc_child_def)
      then show ?thesis using fresh(1) fresh(2) [OF True] tree by simp
    next
      case False
      note new = fresh(3) [OF False]
      have pa: "p \<noteq> a" "p \<in> used L" using new p by (auto simp: used_def)
      define L' where "L' = L(k := (L k)(?b := a))"
      have s': "ok" "s' = upd p (\<lambda>y. y\<lparr>ary := (ary y)[m := a], l_count := l_count y + 1\<rparr>)
          (upd a (\<lambda>y. y\<lparr>l_layer := k, l_prefix := idr_layer_prefix i k\<rparr>) s1)"
        using child entry free alloc False by (auto simp: sub_alloc_child_def)
      have lay: "lay s' = (lay s)(a := blank k (idr_layer_prefix i k),
          p := (lay s p)\<lparr>ary := (ary (lay s p))[m := a], l_count := l_count (lay s p) + 1\<rparr>)"
        using new pa(1) by (simp add: s' blank_def)
      have "tree L' M n (lay s')"
        unfolding L'_def lay p(2) using new by (intro add_child [OF tree p(1) m(1) free False _ pf]) blast
      moreover have "mem_ok (used L') s'"
        unfolding L'_def used_insert [of L k, OF free False] s' using new pa by (intro mem_upd) auto
      moreover have "ary (lay s' p) ! m = a" using ok_p m(1) by (simp add: lay node_ok_def)
      ultimately show ?thesis
        using s'(1) free False fresh(1) new extends_insert [of L k, OF free, of a]
        by (auto intro!: exI [of _ L'] simp: L'_def s'(2))
    qed
  qed
  then show "kept s s'"
    and "\<not> ok \<Longrightarrow> tree L M n (lay s') \<and> mem_ok (used L) s' \<and> idr_preload_head s = []"
    and "ok \<Longrightarrow> \<exists>L'. extends L L' \<and> tree L' M n (lay s') \<and> mem_ok (used L') s' \<and>
      L' k ?b \<noteq> 0 \<and> ary (lay s' p) ! m = L' k ?b \<and>
      (if L k ?b \<noteq> 0 then s' = s else length (idr_preload_head s) \<le> length (idr_preload_head s') + 1)"
    by blast+
qed

text \<open>The two branches of the loop, with the shifts and masks as divisions.\<close>

lemma loop_up:
  assumes "find_next_zero_bit (l_bitmap (lay s p)) 256 (i div 256 ^ l mod 256) = 256"
  defines "i' \<equiv> (i div 256 ^ (l + 1) + 1) * 256 ^ (l + 1)"
  shows "sub_alloc_loop b i p l pa s =
    (if i' > idr_max (layers s) \<and> i' < 2 ^ 31 then Some (Inl EAGAIN, i', pa, s)
     else if pa ! (l + 1) = 0 then None
     else if i div 256 ^ (l + 2) = i' div 256 ^ (l + 2) then sub_alloc_loop b i' (pa ! (l + 1)) (l + 1) pa s
     else sub_alloc_loop b i' (top s) (layers s - 1) (pa[layers s := 0]) s)"
proof -
  have sh: "drop_bit (8 * (l + 1 + 1)) j = j div 256 ^ (l + 2)" for j :: nat
    using shift_digits [of "l + 2" j] by simp
  have nb: "(i OR (push_bit (8 * (l + 1)) 1 - 1)) + 1 = i'"
    using next_block [of i "l + 1"] by (simp only: idr_constants i'_def)
  show ?thesis
    unfolding sub_alloc_loop.simps [of b i p l pa s] digit_eq
    using assms(1) by (simp only: Let_def nb sh idr_constants if_True simp_thms)
qed

lemma loop_down:
  assumes "find_next_zero_bit (l_bitmap (lay s p)) 256 (i div 256 ^ l mod 256) = m" "m < 256"
  defines "i' \<equiv> (if m \<noteq> i div 256 ^ l mod 256 then (i div 256 ^ (l + 1) * 256 + m) * 256 ^ l else i)"
  shows "sub_alloc_loop b i p l pa s =
    (if 2 ^ 31 \<le> i' then Some (Inl ENOSPC, i', pa, s)
     else if l = 0 then Some (Inr i', i', pa[l := p], s)
     else let (ok, s') = sub_alloc_child b i' p l m s in
       if \<not> ok then Some (Inl ENOMEM, i', pa, s')
       else sub_alloc_loop b i' (ary (lay s' p) ! m) (l - 1) (pa[l := p]) s')"
proof -
  have "(if m \<noteq> i div 256 ^ l mod 256
      then push_bit (IDR_BITS * l) (drop_bit (IDR_BITS * l) i XOR (i div 256 ^ l mod 256) XOR m) else i) = i'"
    using set_digit [OF refl assms(2), of l i] by (simp only: i'_def)
  then show ?thesis
    unfolding sub_alloc_loop.simps [of b i p l pa s] digit_eq
    using assms(1,2) by (simp only: Let_def idr_constants) simp
qed

lemma search_post_step:
  assumes post: "search_post L' M n i' l' s1 r r' pa' s'" and "kept s s1" "extends L L'" "i \<le> i'" "in_use M i i'"
    and same: "r = Inl EAGAIN \<Longrightarrow> s1 = s"
    and mem: "r = Inl ENOMEM \<Longrightarrow> length (idr_preload_head s) < n - 1"
    and empty: "block_empty M l (i div 256 ^ (l + 1)) \<Longrightarrow>
      r \<noteq> Inl EAGAIN \<and> (r = Inl ENOMEM \<longrightarrow> length (idr_preload_head s) < l)"
  shows "search_post L M n i l s r r' pa' s'"
proof -
  from post obtain L'' where "extends L' L''" "tree L'' M n (lay s')" "mem_ok (used L'') s'" "result_ok L'' M n i' r r' pa'"
    unfolding search_post_def by blast
  then have "\<exists>L'. extends L L' \<and> tree L' M n (lay s') \<and> mem_ok (used L') s' \<and> result_ok L' M n i r r' pa'"
    using assms(3-5) by (blast intro: extends_trans result_ok_mono)
  moreover have "kept s s'" using post assms(2) by (auto simp: search_post_def intro: kept_trans)
  moreover have "r = Inl EAGAIN \<longrightarrow> s' = s" using post same by (simp add: search_post_def)
  ultimately show ?thesis using mem empty by (auto simp: search_post_def)
qed

lemma search_post_here:
  assumes "tree L M n (lay s')" "mem_ok (used L) s'" "kept s s'" "result_ok L M n i r r' pa'"
    and "r = Inl EAGAIN \<Longrightarrow> s' = s \<and> \<not> block_empty M l (i div 256 ^ (l + 1))"
    and "r = Inl ENOMEM \<Longrightarrow> length (idr_preload_head s) < l" "l < n"
  shows "search_post L M n i l s r r' pa' s'"
proof -
  have "\<exists>L'. extends L L' \<and> tree L' M n (lay s') \<and> mem_ok (used L') s' \<and> result_ok L' M n i r r' pa'"
    using assms(1,2,4) by (intro exI [of _ L]) simp
  then show ?thesis using assms(3,5-7) by (fastforce simp: search_post_def)
qed

lemma not_empty: "block_full M l (i div 256 ^ l) \<Longrightarrow> \<not> block_empty M l (i div 256 ^ (l + 1))"
  by (auto simp: block_full_def block_empty_def)

definition search_ok :: "placement \<Rightarrow> (nat \<rightharpoonup> nat) \<Rightarrow> nat \<Rightarrow> nat \<Rightarrow> nat \<Rightarrow> nat \<Rightarrow> nat list \<Rightarrow> idr_state \<Rightarrow> bool" where
  "search_ok L M n i l p pa s \<longleftrightarrow> (\<exists>r i' pa' s'.
     sub_alloc_loop False i p l pa s = Some (r, i', pa', s') \<and> search_post L M n i l s r i' pa' s')"

text \<open>The state of the loop.\<close>

definition loop_inv :: "placement \<Rightarrow> (nat \<rightharpoonup> nat) \<Rightarrow> nat \<Rightarrow> nat \<Rightarrow> nat \<Rightarrow> nat \<Rightarrow> nat list \<Rightarrow> idr_state \<Rightarrow> bool" where
  "loop_inv L M n i l p pa s \<longleftrightarrow> tree L M n (lay s) \<and> mem_ok (used L) s \<and> search L n i l p pa \<and>
     layers s = n \<and> top s = L (n - 1) 0"

lemma loop_invD:
  assumes "loop_inv L M n i l p pa s"
  shows "tree L M n (lay s)" "mem_ok (used L) s" "search L n i l p pa" "layers s = n" "top s = L (n - 1) 0"
    "placed L M n" "node_ok L M M 0 l (i div 256 ^ (l + 1)) (lay s p)" "l < n" "n \<le> 4"
proof -
  show i: "tree L M n (lay s)" "mem_ok (used L) s" "search L n i l p pa" "layers s = n" "top s = L (n - 1) 0"
    using assms by (simp_all add: loop_inv_def)
  then show "placed L M n" by (simp add: tree_def)
  then show "n \<le> 4" by (rule placedD)
  show "node_ok L M M 0 l (i div 256 ^ (l + 1)) (lay s p)" "l < n"
    using tree_node [OF i(1) searchD(3) [OF i(3)]] searchD(1,2) [OF i(3)] by simp_all
qed

lemma loop_zero:
  assumes inv: "loop_inv L M n i l p pa s"
  defines "m \<equiv> find_next_zero_bit (l_bitmap (lay s p)) 256 (i div 256 ^ l mod 256)"
  shows "i div 256 ^ l mod 256 \<le> m" "m \<le> 256"
    and "full_upto M l i m"
    and "m < 256 \<Longrightarrow> \<not> block_full M l (i div 256 ^ (l + 1) * 256 + m)"
proof -
  have len: "length (l_bitmap (lay s p)) = 4"
    and bits: "\<And>k. k < 256 \<Longrightarrow> test_bit k (l_bitmap (lay s p)) = block_full M l (i div 256 ^ (l + 1) * 256 + k)"
    using loop_invD(7) [OF inv] by (simp_all add: node_ok_def)
  note fz = first_zero [OF len, of "i div 256 ^ l mod 256", folded m_def]
  show "i div 256 ^ l mod 256 \<le> m" "m \<le> 256" using fz by simp_all
  show "full_upto M l i m" using fz bits by (simp add: full_upto_def)
  show "m < 256 \<Longrightarrow> \<not> block_full M l (i div 256 ^ (l + 1) * 256 + m)" using fz(3) bits [of m] by simp
qed

lemma up_step:
  assumes inv: "loop_inv L M n i l p pa s"
    and m: "find_next_zero_bit (l_bitmap (lay s p)) 256 (i div 256 ^ l mod 256) = 256"
    and IH: "\<And>i' l' p' pa'. loop_inv L M n i' l' p' pa' s \<Longrightarrow> i < i' \<Longrightarrow> i' \<le> 2 ^ 31 \<Longrightarrow> search_ok L M n i' l' p' pa' s"
  shows "search_ok L M n i l p pa s"
proof -
  let ?q = "i div 256 ^ (l + 1)" and ?d = "i div 256 ^ l mod 256"
  note I = loop_invD [OF inv] and full = loop_zero(3) [OF inv, unfolded m]
  define i' where "i' = (?q + 1) * 256 ^ (l + 1)"
  note bh = behind [OF I(6,3) full i'_def]
  note eq = loop_up [of s p i l False pa, folded i'_def, OF m, unfolded I(4,5)]
  have "block_full M l (?q * 256 + ?d)" using full by (simp add: full_upto_def)
  then have "block_full M l (i div 256 ^ l)" unfolding div_digit [of i l, symmetric] .
  then have ne: "\<not> block_empty M l ?q" by (rule not_empty)
  show ?thesis
  proof (cases "i' > idr_max n \<and> i' < 2 ^ 31")
    case True
    then have "result_ok L M n i (Inl EAGAIN) i' pa" using bh searchD(4) [OF I(3)] by simp
    then have "search_post L M n i l s (Inl EAGAIN) i' pa s" using ne I by (intro search_post_here) simp_all
    then show ?thesis using eq True by (simp add: search_ok_def)
  next
    case False
    from bh(6) [OF False] have go: "l + 1 < n" "i' < 256 ^ n" "i' = 2 ^ 31 \<longrightarrow> n = 4" by blast+
    note su = search_up [OF I(6,3) go(1) bh(4,3) go(2,3)]
    define l' p' pa1 where "l' = (if i div 256 ^ (l + 2) = i' div 256 ^ (l + 2) then l + 1 else n - 1)"
      and "p' = (if i div 256 ^ (l + 2) = i' div 256 ^ (l + 2) then pa ! (l + 1) else L (n - 1) 0)"
      and "pa1 = (if i div 256 ^ (l + 2) = i' div 256 ^ (l + 2) then pa else pa[n := 0])"
    have "loop_inv L M n i' l' p' pa1 s" using su(2,3) I by (simp add: loop_inv_def l'_def p'_def pa1_def)
    from IH [OF this bh(1,3)] obtain r r' pa' s'
      where r: "sub_alloc_loop False i' p' l' pa1 s = Some (r, r', pa', s')"
        and post: "search_post L M n i' l' s r r' pa' s'" by (auto simp: search_ok_def)
    have "sub_alloc_loop False i p l pa s = Some (r, r', pa', s')"
      using eq False su(1) r by (simp only: l'_def p'_def pa1_def split: if_splits) simp_all
    moreover have "search_post L M n i l s r r' pa' s'"
      using bh(1,2) ne post by (intro search_post_step [OF post]) (simp_all add: search_post_def)
    ultimately show ?thesis by (auto simp: search_ok_def)
  qed
qed

lemma leaf_path:
  assumes inv: "loop_inv L M n i 0 p pa s" and i': "\<And>k. i' div 256 ^ (k + 1) = i div 256 ^ (k + 1)"
  shows "path L n i' (pa[0 := p])"
  unfolding path_def
proof (intro conjI allI impI)
  note I = loop_invD [OF inv]
  show "length (pa[0 := p]) = 5" "pa[0 := p] ! n = 0" using searchD(4,5) [OF I(3)] I(8) by simp_all
  fix k assume k: "k < n"
  have eq: "pa[0 := p] ! k = L k (i div 256 ^ (k + 1))"
    using searchD(2,4,6) [OF I(3)] k by (cases "k = 0") simp_all
  then show "pa[0 := p] ! k = L k (i' div 256 ^ (k + 1))" using i' by simp
  have "L (0 + k) (i div 256 ^ (0 + 1) div 256 ^ k) \<noteq> 0"
    using ancestor [OF I(6) searchD(3) [OF I(3)]] k by simp
  then show "pa[0 := p] ! k \<noteq> 0" using eq by (simp add: div_mult2_eq [symmetric])
qed

lemma down_step:
  assumes inv: "loop_inv L M n i l p pa s" and "l = k + 1" "i' < 2 ^ 31"
    and sd: "i \<le> i'" "in_use M i i'" "i' div 256 ^ l = i div 256 ^ (l + 1) * 256 + m"
      "\<And>k. l \<le> k \<Longrightarrow> i' div 256 ^ (k + 1) = i div 256 ^ (k + 1)" "i' < 256 ^ n" and m: "m < 256"
    and child: "sub_alloc_child False i' p l m s = (ok, s1)"
    and IH: "\<And>L' pa' p'. loop_inv L' M n i' k p' pa' s1 \<Longrightarrow> search_ok L' M n i' k p' pa' s1"
    and eq: "sub_alloc_loop False i p l pa s = (if \<not> ok then Some (Inl ENOMEM, i', pa, s1)
       else sub_alloc_loop False i' (ary (lay s1 p) ! m) k (pa[l := p]) s1)"
  shows "search_ok L M n i l p pa s"
proof -
  let ?q = "i div 256 ^ (l + 1)" and ?b = "i' div 256 ^ l"
  note I = loop_invD [OF inv]
  have p: "p = L (k + 1) ?q" "L (k + 1) ?q \<noteq> 0" using searchD(2,3) [OF I(3)] assms(2) by simp_all
  note cs = child_step [OF I(1,2) p(2,1) m _ child [unfolded assms(2)], folded assms(2), OF sd(3), folded sd(3)]
  show ?thesis
  proof (cases ok)
    case False
    then have "search_post L M n i l s (Inl ENOMEM) i' pa s1"
      using cs(1) cs(2) [OF False] I(8) assms(2) by (intro search_post_here) simp_all
    then show ?thesis using eq False by (simp add: search_ok_def)
  next
    case True
    from cs(3) [OF True] obtain L' where L': "extends L L'" "tree L' M n (lay s1)" "mem_ok (used L') s1"
      "L' k ?b \<noteq> 0" "ary (lay s1 p) ! m = L' k ?b"
      and s1: "if L k ?b \<noteq> 0 then s1 = s else length (idr_preload_head s) \<le> length (idr_preload_head s1) + 1" by blast
    have above: "L' j (i' div 256 ^ (j + 1)) = L j (i div 256 ^ (j + 1))" if "l \<le> j" "j < n" for j
    proof -
      have "L (l + (j - l)) (?q div 256 ^ (j - l)) \<noteq> 0"
        using ancestor [OF I(6) searchD(3) [OF I(3)], of "j - l"] that by simp
      moreover have "?q div 256 ^ (j - l) = i div 256 ^ (j + 1)"
        using that by (simp add: div_mult2_eq [symmetric] power_add [symmetric] del: power_Suc)
      ultimately have "L j (i div 256 ^ (j + 1)) \<noteq> 0" using that by simp
      then show ?thesis using L'(1) sd(4) [OF that(1)] by (simp add: extends_def)
    qed
    have "search L' n i' k (ary (lay s1 p) ! m) (pa[l := p])"
      unfolding search_def
      using searchD(4-6) [OF I(3)] I(8,9) L'(4,5) assms(2,3) sd(5) above p(1)
      by (auto simp: nth_list_update)
    moreover have "top s1 = L' (n - 1) 0"
      using cs(1) I(5) L'(1) placedD(3) [OF I(6)] by (simp add: kept_def extends_def)
    ultimately have "loop_inv L' M n i' k (ary (lay s1 p) ! m) (pa[l := p]) s1"
      using L' cs(1) I(4) by (simp add: loop_inv_def kept_def)
    from IH [OF this] obtain r r' pa' s'
      where r: "sub_alloc_loop False i' (ary (lay s1 p) ! m) k (pa[l := p]) s1 = Some (r, r', pa', s')"
        and post: "search_post L' M n i' k s1 r r' pa' s'" by (auto simp: search_ok_def)
    have new: "L k ?b = 0 \<Longrightarrow> block_empty M k ?b" using missing_empty [OF I(6)] I(8) assms(2) by simp
    have down: "block_empty M l ?q \<Longrightarrow> block_empty M k ?b"
      using block_empty_down [of M k ?q m] m sd(3) assms(2) by simp
    have "search_post L M n i l s r r' pa' s'"
      using post s1 new down assms(2) I(8)
      by (intro search_post_step [OF post cs(1) L'(1) sd(1,2)]) (auto simp: search_post_def split: if_splits)
    then show ?thesis using eq True r by (auto simp: search_ok_def)
  qed
qed

theorem sub_alloc_loop_ok: "loop_inv L M n i l p pa s \<Longrightarrow> search_ok L M n i l p pa s"
proof (induction "(2 ^ 31 + 1 - i) * 5 + l" arbitrary: L i l p pa s rule: less_induct)
  case less
  note inv = less.prems and I = loop_invD [OF less.prems]
  let ?q = "i div 256 ^ (l + 1)" and ?d = "i div 256 ^ l mod 256"
  define m where "m = find_next_zero_bit (l_bitmap (lay s p)) 256 ?d"
  note zero = loop_zero [OF inv, folded m_def]
  show ?case
  proof (cases "m = 256")
    case True
    show ?thesis
    proof (rule up_step [OF inv True [unfolded m_def]])
      fix i' l' p' pa' assume i': "loop_inv L M n i' l' p' pa' s" "i < i'" "i' \<le> 2 ^ 31"
      then have "(2 ^ 31 + 1 - i') * 5 + l' < (2 ^ 31 + 1 - i) * 5 + l"
        using loop_invD(8) [OF i'(1)] I(9) by linarith
      then show "search_ok L M n i' l' p' pa' s" using i'(1) by (rule less.hyps)
    qed
  next
    case False
    then have m: "m < 256" using zero(2) by simp
    define i' where "i' = (if m \<noteq> ?d then (?q * 256 + m) * 256 ^ l else i)"
    note sd = search_down [OF I(3) zero(1) m zero(3), folded i'_def]
    note eq = loop_down [of s p i l m False pa, folded i'_def m_def, OF refl m]
    consider (nospace) "2 ^ 31 \<le> i'" | (leaf) "i' < 2 ^ 31" "l = 0" | (inner) k where "i' < 2 ^ 31" "l = k + 1"
      by (metis Suc_eq_plus1 not_le not0_implies_Suc)
    then show ?thesis
    proof cases
      case nospace
      then have "in_use M i (2 ^ 31)" using sd(2) by (auto simp: in_use_def)
      then have "search_post L M n i l s (Inl ENOSPC) i' pa s" using I by (intro search_post_here) simp_all
      then show ?thesis using eq nospace by (simp add: search_ok_def)
    next
      case leaf
      have "M i' = None" using zero(4) [OF m] sd(3) leaf(2) by simp
      moreover have "path L n i' (pa[0 := p])" using leaf_path [of L M n i p pa s i'] inv sd(4) leaf(2) by simp
      ultimately have "search_post L M n i l s (Inr i') i' (pa[0 := p]) s"
        using sd(1,2) leaf(1) I by (intro search_post_here) simp_all
      then show ?thesis using eq leaf by (simp add: search_ok_def)
    next
      case (inner k)
      obtain ok s1 where child: "sub_alloc_child False i' p l m s = (ok, s1)" by fastforce
      have "(2 ^ 31 + 1 - i') * 5 + k < (2 ^ 31 + 1 - i) * 5 + l" using sd(1) inner(2) by linarith
      then show ?thesis
        using eq child inner by (intro down_step [OF inv inner(2,1) sd m child less.hyps]) simp_all
    qed
  qed
qed

end
