(* ===== verification/Idr_Alloc.thy ===== *)
theory Idr_Alloc
  imports Idr_Search
begin

text \<open>
  Growing the tree (\<open>idr_get_empty_slot\<close>), entering an identifier (\<open>idr_fill_slot\<close>) and the
  outcome of \<open>idr_alloc\<close>.
\<close>

section \<open>Growth of the tree\<close>

lemma idr_max_top: "4 \<le> n \<Longrightarrow> idr_max n = 2 ^ 31 - 1"
  by (simp add: idr_max_eq)

text \<open>An empty top is moved up.\<close>

lemma move_up:
  assumes "l_count (lay s p) = 0" "1 \<le> n" "n \<le> 4" "i < 2 ^ 31"
  shows "\<exists>n' s'. add_layers False i p n s = Some (Inr (p, n'), s') \<and> n \<le> n' \<and> n' \<le> 4 \<and> i \<le> idr_max n' \<and>
    s' = upd p (\<lambda>y. y\<lparr>l_layer := l_layer y + (n' - n)\<rparr>) s"
  using assms
proof (induction "4 - n" arbitrary: n s)
  case 0
  then have n: "n = 4" by simp
  have "add_layers False i p n s = Some (Inr (p, n), s)"
    using \<open>i < 2 ^ 31\<close> by (subst add_layers.simps) (simp add: n idr_max_top)
  moreover have "s = upd p (\<lambda>y. y\<lparr>l_layer := l_layer y + (n - n)\<rparr>) s" by (simp add: upd_def)
  ultimately show ?case using \<open>i < 2 ^ 31\<close> by (intro exI conjI) (assumption | simp add: n idr_max_top)+
next
  case (Suc x)
  show ?case
  proof (cases "i > idr_max n")
    case False
    then show ?thesis using Suc.prems by (auto simp: add_layers.simps [of False i p n s] upd_def)
  next
    case True
    define s1 where "s1 = upd p (\<lambda>y. y\<lparr>l_layer := l_layer y + 1\<rparr>) s"
    have eq: "add_layers False i p n s = add_layers False i p (n + 1) s1"
      using True Suc.prems by (simp add: add_layers.simps [of False i p n s] s1_def)
    have "x = 4 - (n + 1)" "n + 1 \<le> 4" using Suc.hyps(2) by simp_all
    moreover have "l_count (lay s1 p) = 0" using Suc.prems by (simp add: s1_def)
    ultimately obtain n' where "add_layers False i p (n + 1) s1 =
        Some (Inr (p, n'), upd p (\<lambda>y. y\<lparr>l_layer := l_layer y + (n' - (n + 1))\<rparr>) s1)"
      "n + 1 \<le> n'" "n' \<le> 4" "i \<le> idr_max n'"
      using Suc.hyps(1) [of "n + 1" s1] Suc.prems(4) by auto
    moreover from this have "upd p (\<lambda>y. y\<lparr>l_layer := l_layer y + (n' - (n + 1))\<rparr>) s1 =
        upd p (\<lambda>y. y\<lparr>l_layer := l_layer y + (n' - n)\<rparr>) s"
      by (simp add: s1_def upd_def)
    ultimately show ?thesis using eq by auto
  qed
qed

text \<open>The layers that were added are taken down again when memory runs out.\<close>

lemma tear_down_ok:
  assumes "placed L M n" "placed L0 M n0" "extends L0 L" "top s = L0 (n0 - 1) 0" "n0 \<le> k + 1" "k < n"
    and "\<And>j. n0 \<le> j \<Longrightarrow> j \<le> k \<Longrightarrow> L j 0 \<noteq> 0 \<and> ary (lay s (L j 0)) ! 0 = L (j - 1) 0"
  shows "\<exists>s'. tear_down (L k 0) s = Some s' \<and> kept s s' \<and> pool s' = pool s \<and>
    idr_preload_head s' = idr_preload_head s \<and> idr_preload_cnt s' = idr_preload_cnt s \<and>
    (\<forall>a. lay s' a \<noteq> lay s a \<longrightarrow> a \<in> used L \<and> a \<notin> used L0)"
  using assms(4-7)
proof (induction k arbitrary: s)
  case 0
  then have "n0 = 1" using placedD(1) [OF assms(2)] by simp
  then have "L 0 0 = top s" using assms(3) placedD(3) [OF assms(2)] 0 by (simp add: extends_def)
  then show ?case by (simp add: tear_down.simps)
next
  case (Suc k)
  show ?case
  proof (cases "n0 = Suc k + 1")
    case True
    then have "L (Suc k) 0 = top s" using assms(3) placedD(3) [OF assms(2)] Suc.prems by (simp add: extends_def)
    then show ?thesis by (simp add: tear_down.simps)
  next
    case False
    let ?p = "L (Suc k) 0"
    have p: "?p \<noteq> 0" "ary (lay s ?p) ! 0 = L k 0" using Suc.prems(4) [of "Suc k"] Suc.prems(2) False by simp_all
    have new: "?p \<notin> used L0"
    proof
      assume "?p \<in> used L0"
      then obtain l q where l: "L0 l q = ?p" "L0 l q \<noteq> 0" by (auto simp: used_def)
      then have "L l q = ?p" using assms(3) by (simp add: extends_def)
      then have "l = Suc k" using placedD(7) [OF assms(1) p(1), of l q] by simp
      then show False using placedD(4) [OF assms(2) l(2)] Suc.prems(2) False by simp
    qed
    have top: "?p \<noteq> top s" using new usedI [of L0 "n0 - 1" 0 "top s"] placedD(3) [OF assms(2)] Suc.prems(1) by auto
    define s1 where "s1 = move_to_free_list ?p (upd ?p (\<lambda>y. y\<lparr>ary := (ary y)[0 := 0], l_count := 0,
        l_bitmap := bitmap_clear (l_bitmap y) 0 IDR_SIZE\<rparr>) s)"
    have eq: "tear_down ?p s = tear_down (L k 0) s1"
      using p top by (simp add: tear_down.simps [of ?p s] s1_def Let_def)
    have lay1: "lay s1 a = lay s a" if "a \<noteq> ?p" for a using that by (simp add: s1_def move_to_free_list_def)
    have "L j 0 \<noteq> 0 \<and> ary (lay s1 (L j 0)) ! 0 = L (j - 1) 0" if "n0 \<le> j" "j \<le> k" for j
    proof -
      have "L j 0 \<noteq> ?p" using placedD(7) [OF assms(1) p(1), of j 0] that by auto
      then show ?thesis using Suc.prems(4) [of j] that lay1 [of "L j 0"] by simp
    qed
    moreover have "top s1 = top s" "kept s s1" "pool s1 = pool s" "idr_preload_head s1 = idr_preload_head s"
      "idr_preload_cnt s1 = idr_preload_cnt s"
      by (simp_all add: s1_def move_to_free_list_def kept_def)
    ultimately obtain s' where s': "tear_down (L k 0) s1 = Some s'" "kept s1 s'" "pool s' = pool s"
        "idr_preload_head s' = idr_preload_head s" "idr_preload_cnt s' = idr_preload_cnt s"
        "\<forall>a. lay s' a \<noteq> lay s1 a \<longrightarrow> a \<in> used L \<and> a \<notin> used L0"
      using Suc.IH [of s1] Suc.prems False by auto
    have "a \<in> used L \<and> a \<notin> used L0" if "lay s' a \<noteq> lay s a" for a
      using s'(6) that lay1 [of a] new usedI [of L, OF refl p(1)] by (cases "a = ?p") auto
    then show ?thesis using eq s' \<open>kept s s1\<close> kept_trans by auto
  qed
qed

text \<open>A tree with contents gets new layers on top.\<close>

definition grow_inv :: "placement \<Rightarrow> nat \<Rightarrow> placement \<Rightarrow> nat \<Rightarrow> (nat \<rightharpoonup> nat) \<Rightarrow> idr_state \<Rightarrow> bool" where
  "grow_inv L0 n0 L n M s \<longleftrightarrow> tree L0 M n0 (lay s) \<and> tree L M n (lay s) \<and> mem_ok (used L) s \<and>
     extends L0 L \<and> n0 \<le> n \<and> top s = L0 (n0 - 1) 0 \<and> l_count (lay s (L (n - 1) 0)) \<noteq> 0"

lemma tree_frame: "tree L M n h \<Longrightarrow> (\<And>a. a \<in> used L \<Longrightarrow> h' a = h a) \<Longrightarrow> tree L M n h'"
  by (auto simp: tree_def nodes_def usedI)

lemma grow_fails:
  assumes inv: "grow_inv L0 n0 L n M s" and "lay s1 = lay s" "mem_ok (used L) s1" "kept s s1"
  shows "\<exists>s'. tear_down (L (n - 1) 0) s1 = Some s' \<and> kept s s' \<and> tree L0 M n0 (lay s') \<and> mem_ok (used L0) s'"
proof -
  have p: "placed L0 M n0" "placed L M n" and ext: "extends L0 L" and top: "top s = L0 (n0 - 1) 0" and le: "n0 \<le> n"
    and trees: "tree L0 M n0 (lay s)" "tree L M n (lay s)"
    using inv by (simp_all add: grow_inv_def tree_def)
  have "L j 0 \<noteq> 0 \<and> ary (lay s1 (L j 0)) ! 0 = L (j - 1) 0" if j: "n0 \<le> j" "j \<le> n - 1" for j
  proof -
    have "L (n0 - 1) 0 \<noteq> 0" using ext placedD(3) [OF p(1)] by (simp add: extends_def)
    then have "L j 0 \<noteq> 0"
      using ancestor [OF p(2), of "n0 - 1" 0 "j - (n0 - 1)"] j placedD(1) [OF p(1)] placedD(1) [OF p(2)] by simp
    then show ?thesis
      using tree_node [OF trees(2), of j 0] j placedD(1) [OF p(1)] assms(2) by (simp add: node_ok_def child_def)
  qed
  then obtain s' where s': "tear_down (L (n - 1) 0) s1 = Some s'" "kept s1 s'" "pool s' = pool s1"
    "idr_preload_head s' = idr_preload_head s1" "idr_preload_cnt s' = idr_preload_cnt s1"
    "\<And>a. lay s' a \<noteq> lay s1 a \<Longrightarrow> a \<in> used L \<and> a \<notin> used L0"
    using tear_down_ok [OF p(2,1) ext, of s1 "n - 1"] top le assms(4) placedD(1) [OF p(2)] by (auto simp: kept_def)
  have "tree L0 M n0 (lay s')" using s'(6) assms(2) by (intro tree_frame [OF trees(1)]) force
  moreover have "used L0 \<subseteq> used L" using ext by (force simp: used_def extends_def)
  then have "mem_ok (used L0) s'"
    using s' by (intro mem_frame [OF assms(3)]) (auto simp: kept_def)
  ultimately show ?thesis using s'(1,2) assms(4) kept_trans by blast
qed

lemma add_layer_step:
  assumes inv: "grow_inv L0 n0 L n M s" and n3: "n < 4" and alloc: "idr_layer_alloc False s = (a, s1)" and a: "a \<noteq> 0"
    and i: "i > idr_max n"
  shows "\<exists>L' s2. grow_inv L0 n0 L' (n + 1) M s2 \<and> L' n 0 = a \<and> kept s s2 \<and>
    length (idr_preload_head s) \<le> length (idr_preload_head s2) + 1 \<and>
    add_layers False i (L (n - 1) 0) n s = add_layers False i a (n + 1) s2"
proof -
  let ?p = "L (n - 1) 0"
  have tree: "tree L M n (lay s)" and mem: "mem_ok (used L) s" and ext: "extends L0 L"
    and top: "top s = L0 (n0 - 1) 0" and cnt: "l_count (lay s ?p) \<noteq> 0" and le: "n0 \<le> n"
    and tree0: "tree L0 M n0 (lay s)" and placed: "placed L M n"
    using inv by (simp_all add: grow_inv_def tree_def)
  note n = placedD(1-3) [OF placed]
  note fresh = layer_alloc_fresh [OF mem alloc] and new = layer_alloc_fresh(3) [OF mem alloc a]
  have pa: "?p \<noteq> a" using new n(3) usedI [of L, OF refl n(3)] by auto
  define full where "full = bitmap_full (l_bitmap (lay s ?p)) IDR_SIZE"
  have full: "full \<longleftrightarrow> block_full M n 0"
    using full_node [OF tree_node [OF tree n(3)]] n(1) by (simp add: full_def)
  define s2 where "s2 = upd a (\<lambda>_. new_top ?p n (idr_layer_prefix i n) full) s1"
  define L' where "L' = L(n := (L n)(0 := a))"
  have Ln: "L n 0 = 0" using placedD(4) [OF placed, of n 0] by auto
  have tree': "tree L' M (n + 1) (lay s2)"
    using add_top [OF tree n3 a _ full, of "idr_layer_prefix i n"] new by (simp add: L'_def s2_def)
  have used': "used L' = insert a (used L)" unfolding L'_def by (rule used_insert [of L n, OF Ln a])
  have "grow_inv L0 n0 L' (n + 1) M s2"
    unfolding grow_inv_def
  proof (intro conjI)
    have "used L0 \<subseteq> used L" using ext by (force simp: used_def extends_def)
    then show "tree L0 M n0 (lay s2)" using new by (intro tree_frame [OF tree0]) (auto simp: s2_def)
    show "mem_ok (used L') s2" unfolding used' s2_def using new by (intro mem_upd) auto
    show "extends L0 L'" using ext extends_insert [of L n, OF Ln, of a] by (auto simp: L'_def intro: extends_trans)
    show "top s2 = L0 (n0 - 1) 0" using top fresh(1) by (simp add: s2_def kept_def)
    show "l_count (lay s2 (L' (n + 1 - 1) 0)) \<noteq> 0" by (simp add: s2_def L'_def new_top_def)
  qed (use tree' le in simp_all)
  moreover obtain p where p: "p = ?p" by blast
  have "add_layers False i ?p n s = add_layers False i a (n + 1) s2"
    using i cnt alloc a new pa unfolding s2_def full_def p [symmetric]
    by (simp add: add_layers.simps [of False i p n s] upd_def new_top_def blank_def zero_layer_def)
  moreover have "length (idr_preload_head s) \<le> length (idr_preload_head s2) + 1" using new by (simp add: s2_def)
  moreover have "kept s s2" "L' n 0 = a" using fresh(1) by (simp_all add: s2_def L'_def)
  ultimately show ?thesis by blast
qed

text \<open>The outcome of growing from \<open>n\<close> layers on.\<close>

fun grow_post ::
  "placement \<Rightarrow> nat \<Rightarrow> (nat \<rightharpoonup> nat) \<Rightarrow> nat \<Rightarrow> nat \<Rightarrow> idr_state \<Rightarrow> errno + nat \<times> nat \<Rightarrow> idr_state \<Rightarrow> bool" where
  "grow_post L0 n0 M n i s (Inl e) s' \<longleftrightarrow> e = ENOMEM \<and> kept s s' \<and>
     tree L0 M n0 (lay s') \<and> mem_ok (used L0) s' \<and> length (idr_preload_head s) < 4 - n"
| "grow_post L0 n0 M n i s (Inr (p, n')) s' \<longleftrightarrow> kept s s' \<and> n \<le> n' \<and> i \<le> idr_max n' \<and>
     length (idr_preload_head s) \<le> length (idr_preload_head s') + (n' - n) \<and>
     (\<exists>L'. (M \<noteq> Map.empty \<longrightarrow> extends L0 L') \<and> tree L' M n' (lay s') \<and> mem_ok (used L') s' \<and> p = L' (n' - 1) 0)"

lemma grow_post_step:
  assumes "grow_post L0 n0 M (n + 1) i s2 r s'" "kept s s2" "n < 4"
    "length (idr_preload_head s) \<le> length (idr_preload_head s2) + 1"
  shows "grow_post L0 n0 M n i s r s'"
  using assms kept_trans [of s s2 s'] by (cases "(L0, n0, M, n, i, s, r, s')" rule: grow_post.cases) auto

lemma grow_ok:
  assumes "grow_inv L0 n0 L n M s" "i < 2 ^ 31"
  shows "\<exists>r s'. add_layers False i (L (n - 1) 0) n s = Some (r, s') \<and> grow_post L0 n0 M n i s r s'"
  using assms
proof (induction "4 - n" arbitrary: n L s rule: less_induct)
  case less
  note inv = less.prems(1)
  have tree: "tree L M n (lay s)" and mem: "mem_ok (used L) s" and ext: "extends L0 L"
    and cnt: "l_count (lay s (L (n - 1) 0)) \<noteq> 0" and placed: "placed L M n"
    using inv by (simp_all add: grow_inv_def tree_def)
  show ?case
  proof (cases "i > idr_max n")
    case False
    then have "grow_post L0 n0 M n i s (Inr (L (n - 1) 0, n)) s" using tree mem ext by auto
    then show ?thesis using False by (auto simp: add_layers.simps [of False i _ n s])
  next
    case True
    then have n3: "n < 4" using less.prems(2) placedD(2) [OF placed] by (cases "n = 4") (auto simp: idr_max_top)
    obtain a s1 where alloc: "idr_layer_alloc False s = (a, s1)" by fastforce
    note fresh = layer_alloc_fresh [OF mem alloc]
    show ?thesis
    proof (cases "a = 0")
      case a: True
      then obtain s' where s': "tear_down (L (n - 1) 0) s1 = Some s'" "kept s s'" "tree L0 M n0 (lay s')" "mem_ok (used L0) s'"
        using grow_fails [OF inv, of s1] fresh(1) fresh(2) [OF a] by blast
      then have "grow_post L0 n0 M n i s (Inl ENOMEM) s'" using fresh(2) [OF a] n3 by simp
      then show ?thesis
        using True cnt alloc a fresh(2) [OF a] s'(1) by (auto simp: add_layers.simps [of False i _ n s])
    next
      case False
      from add_layer_step [OF inv n3 alloc False True] obtain L' s2 where g: "grow_inv L0 n0 L' (n + 1) M s2" "L' n 0 = a"
        "kept s s2" "length (idr_preload_head s) \<le> length (idr_preload_head s2) + 1"
        "add_layers False i (L (n - 1) 0) n s = add_layers False i a (n + 1) s2" by blast
      have "4 - (n + 1) < 4 - n" using n3 by simp
      from less.hyps [OF this g(1) less.prems(2)] g(2)
      obtain r s' where "add_layers False i a (n + 1) s2 = Some (r, s')" "grow_post L0 n0 M (n + 1) i s2 r s'" by auto
      then show ?thesis using grow_post_step [OF _ g(3) n3 g(4)] g(5) by auto
    qed
  qed
qed

lemma add_layers_ok:
  assumes tree: "tree L M n (lay s)" and mem: "mem_ok (used L) s" and i: "i < 2 ^ 31"
    and top: "top s = L (n - 1) 0 \<or> l_count (lay s (L (n - 1) 0)) = 0"
  shows "\<exists>r s'. add_layers False i (L (n - 1) 0) n s = Some (r, s') \<and> grow_post L n M n i s r s' \<and>
    (\<forall>e. r = Inl e \<longrightarrow> top s = L (n - 1) 0)"
proof (cases "l_count (lay s (L (n - 1) 0)) = 0")
  case False
  then have "grow_inv L n L n M s" using tree mem top by (simp add: grow_inv_def)
  from grow_ok [OF this i] show ?thesis using False top by blast
next
  case True
  let ?p = "L (n - 1) 0"
  have placed: "placed L M n" using tree by (simp add: tree_def)
  note n = placedD(1-3) [OF placed] and e = empty_top_layer [OF tree True]
  obtain n' s' where a: "add_layers False i ?p n s = Some (Inr (?p, n'), s')" "n \<le> n'" "n' \<le> 4" "i \<le> idr_max n'"
    and s': "s' = upd ?p (\<lambda>y. y\<lparr>l_layer := l_layer y + (n' - n)\<rparr>) s"
    using move_up [OF True _ n(2) i] n(1) by auto
  have "tree (only_top n' ?p) M n' (lay s')"
    unfolding e(4)
    by (rule only_top_tree) (use n a(2,3) e in \<open>auto simp: s' empty_layer_def\<close>)
  moreover have "used (only_top n' ?p) \<subseteq> used L" using usedI [of L, OF refl n(3)] by (auto simp: used_def only_top_def)
  then have "mem_ok (used (only_top n' ?p)) s'"
    unfolding s' using usedI [of L, OF refl n(3)] mem by (blast intro: mem_subset mem_upd)
  moreover have "only_top n' ?p (n' - 1) 0 = ?p" by (simp add: only_top_def)
  ultimately have "grow_post L n M n i s (Inr (?p, n')) s'"
    using a e(4) by (auto simp: s' intro!: exI [of _ "only_top n' ?p"])
  then show ?thesis using a(1) by blast
qed

section \<open>Allocation\<close>

text \<open>The state of an \<open>idr\<close>.\<close>

definition rep :: "placement \<Rightarrow> (nat \<rightharpoonup> nat) \<Rightarrow> idr_state \<Rightarrow> bool" where
  "rep L M s \<longleftrightarrow>
     (if top s = 0 then layers s = 0 \<and> M = Map.empty \<and> L = (\<lambda>_ _. 0)
      else tree L M (layers s) (lay s) \<and> top s = L (layers s - 1) 0)"

text \<open>What \<open>idr_get_empty_slot\<close> leaves, when the tree has \<open>n\<close> layers: the map is the same.  With seven
  layers in the preload list memory does not run out.\<close>

fun slot_result :: "placement \<Rightarrow> (nat \<rightharpoonup> nat) \<Rightarrow> nat \<Rightarrow> nat \<Rightarrow> idr_state \<Rightarrow> errno + nat \<Rightarrow> nat list \<Rightarrow> idr_state \<Rightarrow> bool" where
  "slot_result L M i n s (Inr j) pa s' \<longleftrightarrow>
     i \<le> j \<and> j < 2 ^ 31 \<and> M j = None \<and> in_use M i j \<and> top s' \<noteq> 0 \<and> path L (layers s') j pa"
| "slot_result L M i n s (Inl e) pa s' \<longleftrightarrow>
     e = ENOSPC \<and> in_use M i (2 ^ 31) \<or> e = ENOMEM \<and> length (idr_preload_head s) < 7 - n"

definition slot_post ::
  "placement \<Rightarrow> (nat \<rightharpoonup> nat) \<Rightarrow> nat \<Rightarrow> nat \<Rightarrow> idr_state \<Rightarrow> errno + nat \<Rightarrow> nat list \<Rightarrow> idr_state \<Rightarrow> bool" where
  "slot_post L M i n s v pa s' \<longleftrightarrow>
     hint s' = hint s \<and> cur s' = cur s \<and> rcu_freed s' = rcu_freed s \<and>
     (\<exists>L'. rep L' M s' \<and> mem_ok (used L') s' \<and> (M \<noteq> Map.empty \<longrightarrow> extends L L') \<and> slot_result L' M i n s v pa s')"

lemma slot_post_step:
  assumes post: "slot_post L' M i' n' s3 v pa s'" and "M \<noteq> Map.empty \<longrightarrow> extends L L'" "i \<le> i'" "in_use M i i'"
    "hint s3 = hint s" "cur s3 = cur s" "rcu_freed s3 = rcu_freed s" "n \<le> n'" "n' < 4"
    "length (idr_preload_head s) \<le> length (idr_preload_head s3) + (n' - n)"
  shows "slot_post L M i n s v pa s'"
proof -
  from post obtain L'' where L'': "rep L'' M s'" "mem_ok (used L'') s'" "M \<noteq> Map.empty \<longrightarrow> extends L' L''"
    "slot_result L'' M i' n' s3 v pa s'" unfolding slot_post_def by blast
  then have "slot_result L'' M i n s v pa s'"
    using assms(3,4,8-10) by (cases v) (auto intro: in_use_join)
  then show ?thesis
    using L'' post assms(2,5-7) unfolding slot_post_def by (auto intro: extends_trans)
qed

text \<open>The part of \<open>idr_get_empty_slot\<close> from the loop on.\<close>

definition slot_rest :: "nat \<Rightarrow> nat list \<Rightarrow> nat \<Rightarrow> nat \<Rightarrow> idr_state \<Rightarrow> ((errno + nat) \<times> nat list \<times> idr_state) option" where
  "slot_rest i pa p nlayers s =
     Option.bind (add_layers False i p nlayers s) (\<lambda>(r, s).
       case r of
         Inl e \<Rightarrow> Some (Inl e, pa, s)
       | Inr (p, nlayers) \<Rightarrow>
           let s = s\<lparr>top := p, layers := nlayers\<rparr> in
           Option.bind (sub_alloc False i pa s) (\<lambda>(v, i, pa, s).
             if v = Inl EAGAIN then idr_get_empty_slot False i pa s else Some (v, pa, s)))"

lemma slot_unfold:
  "top s \<noteq> 0 \<Longrightarrow> idr_get_empty_slot False i pa s = slot_rest i pa (top s) (layers s) s"
  "top s = 0 \<Longrightarrow> idr_layer_alloc False s = (a, s1) \<Longrightarrow> idr_get_empty_slot False i pa s =
     (if a = 0 then Some (Inl ENOMEM, pa, s1) else slot_rest i pa a 1 (upd a (\<lambda>y. y\<lparr>l_layer := 0\<rparr>) s1))"
  by (simp_all add: idr_get_empty_slot.simps [of False i pa s] slot_rest_def Let_def)

lemma sub_alloc_ok:
  assumes tree: "tree L M n (lay s)" and mem: "mem_ok (used L) s" and top: "top s = L (n - 1) 0" "layers s = n"
    and i: "i \<le> idr_max n" "i < 2 ^ 31" and pa: "length pa = 5"
  shows "\<exists>r i' pa' s'. sub_alloc False i pa s = Some (r, i', pa', s') \<and> search_post L M n i (n - 1) s r i' pa' s'"
proof -
  have placed: "placed L M n" using tree by (simp add: tree_def)
  note n = placedD(1-3) [OF placed]
  have "i < 256 ^ n"
  proof (cases "n < 4")
    case True
    then have "i \<le> 256 ^ n - 1" using i(1) by (simp add: idr_max_eq)
    moreover have "(0 :: nat) < 256 ^ n" by simp
    ultimately show ?thesis by linarith
  next
    case False
    then have "n = 4" using n by simp
    then show ?thesis using i(2) by simp
  qed
  then have "search L n i (n - 1) (L (n - 1) 0) (pa[n := 0])"
    using n i(2) pa by (auto simp: search_def)
  then have "loop_inv L M n i (n - 1) (L (n - 1) 0) (pa[n := 0]) s"
    using tree mem top by (simp add: loop_inv_def)
  from sub_alloc_loop_ok [OF this] show ?thesis by (auto simp: sub_alloc_def search_ok_def top)
qed

lemma rest_ok:
  assumes tree: "tree L M n (lay s)" and mem: "mem_ok (used L) s" and i: "i < 2 ^ 31" and pa: "length pa = 5"
    and top: "top s = L (n - 1) 0 \<and> layers s = n \<or> l_count (lay s (L (n - 1) 0)) = 0 \<and> top s = 0"
    and IH: "\<And>i' L' pa' s'. i < i' \<Longrightarrow> i' < 2 ^ 31 \<Longrightarrow> length pa' = 5 \<Longrightarrow> rep L' M s' \<Longrightarrow> mem_ok (used L') s' \<Longrightarrow>
      \<exists>v pa'' s''. idr_get_empty_slot False i' pa' s' = Some (v, pa'', s'') \<and> slot_post L' M i' (layers s') s' v pa'' s''"
  shows "\<exists>v pa' s'. slot_rest i pa (L (n - 1) 0) n s = Some (v, pa', s') \<and> slot_post L M i n s v pa' s'"
proof -
  have placed: "placed L M n" using tree by (simp add: tree_def)
  note n = placedD(1-3) [OF placed]
  from add_layers_ok [OF tree mem i] top
  obtain r s1 where add: "add_layers False i (L (n - 1) 0) n s = Some (r, s1)" and g: "grow_post L n M n i s r s1"
    and fail: "\<And>e. r = Inl e \<Longrightarrow> top s = L (n - 1) 0" by blast
  show ?thesis
  proof (cases r)
    case (Inl e)
    then have "rep L M s1" using fail [OF Inl] g n(3) top by (auto simp: rep_def kept_def)
    then have "slot_post L M i n s (Inl e) pa s1"
      using g Inl unfolding slot_post_def by (auto simp: kept_def intro!: exI [of _ L])
    then show ?thesis using add Inl by (simp add: slot_rest_def)
  next
    case (Inr pn)
    obtain p n' where pn: "pn = (p, n')" by fastforce
    from g [unfolded Inr pn grow_post.simps] obtain L' where L': "M \<noteq> Map.empty \<longrightarrow> extends L L'" "tree L' M n' (lay s1)" "mem_ok (used L') s1"
      "p = L' (n' - 1) 0" and k: "kept s s1" "n \<le> n'" "i \<le> idr_max n'"
      "length (idr_preload_head s) \<le> length (idr_preload_head s1) + (n' - n)" by blast
    define s2 where "s2 = s1\<lparr>top := p, layers := n'\<rparr>"
    have mem2: "mem_ok (used L') s2" using L'(3) by (simp add: s2_def mem_defs)
    have s2: "tree L' M n' (lay s2)" "top s2 = L' (n' - 1) 0" "layers s2 = n'" using L' by (simp_all add: s2_def)
    have placed': "placed L' M n'" using L'(2) by (simp add: tree_def)
    have rep2: "rep L' M s2" using s2 placedD(3) [OF placed'] by (simp add: rep_def)
    from sub_alloc_ok [OF s2(1) mem2 s2(2,3) k(3) i pa] obtain v i' pa' s3
      where sub: "sub_alloc False i pa s2 = Some (v, i', pa', s3)" and post: "search_post L' M n' i (n' - 1) s2 v i' pa' s3"
      by blast
    have eq: "slot_rest i pa (L (n - 1) 0) n s =
        (if v = Inl EAGAIN then idr_get_empty_slot False i' pa' s3 else Some (v, pa', s3))"
      using add Inr pn sub by (simp add: slot_rest_def s2_def)
    from post obtain L'' where L'': "extends L' L''" "tree L'' M n' (lay s3)" "mem_ok (used L'') s3"
      and res: "result_ok L'' M n' i v i' pa'" and k3: "kept s2 s3" unfolding search_post_def by blast
    have pre: "length (idr_preload_head s2) = length (idr_preload_head s1)" by (simp add: s2_def)
    show ?thesis
    proof (cases "v = Inl EAGAIN")
      case True
      then have e: "s3 = s2" "n' < 4" "i' = 256 ^ n'" "length pa' = 5" "in_use M i (256 ^ n')"
        using post res by (auto simp: search_post_def)
      have "i < i'" using k(3) e(2) unfolding e(3) by (auto simp: idr_max_eq le_less_trans)
      moreover have "i' < 2 ^ 31" using e(2) power_increasing [of n' 3 "256 :: nat"] by (simp add: e(3))
      ultimately obtain v1 pa1 s4 where r: "idr_get_empty_slot False i' pa' s2 = Some (v1, pa1, s4)"
        "slot_post L' M i' (layers s2) s2 v1 pa1 s4"
        using IH [OF _ _ e(4) rep2 mem2] by blast
      have "slot_post L M i n s v1 pa1 s4"
        by (rule slot_post_step [OF r(2) L'(1)])
          (use \<open>i < i'\<close> e k s2(3) in \<open>auto simp: s2_def kept_def\<close>)
      then show ?thesis using eq True r(1) e(1) by simp
    next
      case False
      have "rep L'' M s3" using L'' k3 s2 placedD(3) [OF placed'] by (auto simp: rep_def kept_def extends_def)
      moreover have "slot_result L'' M i n s v pa' s3"
        using res False k3 s2 placedD(2,3) [OF placed'] post k(2,4) pre
        by (cases v) (auto simp: kept_def search_post_def)
      ultimately have "slot_post L M i n s v pa' s3"
        using L'' L'(1) k3 k(1) unfolding slot_post_def
        by (auto simp: s2_def kept_def intro!: exI [of _ L''] intro: extends_trans)
      then show ?thesis using eq False by simp
    qed
  qed
qed

theorem get_empty_slot_ok:
  assumes "i < 2 ^ 31" "length pa = 5" "rep L M s" "mem_ok (used L) s"
  shows "\<exists>v pa' s'. idr_get_empty_slot False i pa s = Some (v, pa', s') \<and> slot_post L M i (layers s) s v pa' s'"
  using assms
proof (induction "2 ^ 31 - i" arbitrary: i pa L s rule: less_induct)
  case less
  note i = less.prems(1) and pa = less.prems(2) and rep = less.prems(3) and mem = less.prems(4)
  have IH: "\<exists>v pa'' s''. idr_get_empty_slot False i' pa' s' = Some (v, pa'', s'') \<and> slot_post L' M i' (layers s') s' v pa'' s''"
    if "i < i'" "i' < 2 ^ 31" "length pa' = 5" "rep L' M s'" "mem_ok (used L') s'" for i' L' pa' s'
    by (rule less.hyps [OF _ that(2-5)]) (rule diff_less_mono2 [OF that(1) i])
  show ?case
  proof (cases "top s = 0")
    case False
    then have t: "tree L M (layers s) (lay s)" "top s = L (layers s - 1) 0" using rep by (simp_all add: rep_def)
    show ?thesis
      unfolding slot_unfold(1) [OF False] t(2)
      by (rule rest_ok [OF t(1) mem i pa]) (use t(2) IH in blast)+
  next
    case True
    then have M: "M = Map.empty" "L = (\<lambda>_ _. 0)" "layers s = 0" using rep by (simp_all add: rep_def)
    obtain a s1 where alloc: "idr_layer_alloc False s = (a, s1)" by fastforce
    note fresh = layer_alloc_fresh [OF mem alloc]
    show ?thesis
    proof (cases "a = 0")
      case a: True
      then have "rep L M s1" using True M fresh(1) by (simp add: rep_def kept_def)
      then have "slot_post L M i 0 s (Inl ENOMEM) pa s1"
        using fresh(1) fresh(2) [OF a] by (auto simp: slot_post_def kept_def intro!: exI [of _ L])
      then show ?thesis using slot_unfold(2) [OF True alloc] a M by simp
    next
      case False
      note new = fresh(3) [OF False]
      define s2 where "s2 = upd a (\<lambda>y. y\<lparr>l_layer := 0\<rparr>) s1"
      have "l_prefix zero_layer = 0" by (simp add: zero_layer_def)
      then have "tree (only_top 1 a) M 1 (lay s2)"
        unfolding M(1) by (intro only_top_tree) (use False new in \<open>simp_all add: s2_def empty_layer_def\<close>)
      moreover have "used (only_top 1 a) \<subseteq> insert a (used L)" by (auto simp: used_def only_top_def)
      then have "mem_ok (used (only_top 1 a)) s2"
        using new mem_upd [of "insert a (used L)" s1 a] by (auto simp: s2_def intro: mem_subset)
      moreover have "l_count (lay s2 (only_top 1 a (1 - 1) 0)) = 0" "top s2 = 0"
        using new fresh(1) True by (simp_all add: s2_def only_top_def kept_def)
      ultimately obtain v pa' s' where r: "slot_rest i pa (only_top 1 a (1 - 1) 0) 1 s2 = Some (v, pa', s')"
        "slot_post (only_top 1 a) M i 1 s2 v pa' s'"
        using rest_ok [of "only_top 1 a" M 1 s2 i pa] i pa IH by blast
      have "slot_post L M i 0 s v pa' s'"
      proof -
        from r(2) obtain L' where L': "rep L' M s'" "mem_ok (used L') s'" "slot_result L' M i 1 s2 v pa' s'"
          unfolding slot_post_def by blast
        have "length (idr_preload_head s) \<le> length (idr_preload_head s2) + 1" using new by (simp add: s2_def)
        then have "slot_result L' M i 0 s v pa' s'" using L'(3) by (cases v) auto
        then show ?thesis
          using L' r(2) fresh(1) M(1) unfolding slot_post_def by (auto simp: s2_def kept_def intro!: exI [of _ L'])
      qed
      then show ?thesis
        using slot_unfold(2) [OF True alloc] False r(1) M(3) by (simp add: s2_def only_top_def)
    qed
  qed
qed

section \<open>Entering an identifier\<close>

lemma block_full_other: "b \<noteq> j div 256 ^ l \<Longrightarrow> block_full (M(j := v)) l b = block_full M l b"
  by (auto simp: block_full_def)

lemma block_full_in: "M j = None \<Longrightarrow> \<not> block_full M l (j div 256 ^ l)"
  by (auto simp: block_full_def)

lemma block_full_sub:
  assumes "block_full M l (j div 256 ^ l)" "k \<le> l"
  shows "block_full M k (j div 256 ^ k)"
  unfolding block_full_def
proof (intro allI impI)
  fix i assume i: "i div 256 ^ k = j div 256 ^ k"
  have "i div 256 ^ l = i div 256 ^ k div 256 ^ (l - k)" "j div 256 ^ l = j div 256 ^ k div 256 ^ (l - k)"
    using assms(2) by (simp_all add: div_mult2_eq [symmetric] power_add [symmetric])
  then show "M i \<noteq> None" using assms(1) i by (simp add: block_full_def)
qed

text \<open>The bits of the layers up to the level \<open>k\<close> show the new identifier already.\<close>

definition bits_upto :: "(nat \<rightharpoonup> nat) \<Rightarrow> (nat \<rightharpoonup> nat) \<Rightarrow> nat \<Rightarrow> nat \<Rightarrow> nat \<rightharpoonup> nat" where
  "bits_upto M M' k = (\<lambda>l. if l \<le> k then M' else M)"

lemma child_other: "l \<noteq> 0 \<Longrightarrow> child L M' l b = child L M l b" "l \<noteq> 0 \<Longrightarrow> present L M' l b = present L M l b"
  by (simp_all add: child_def present_def)

lemma fill_leaf:
  fixes ptr :: nat
  assumes tree: "tree L M n h" and q: "L 0 (j div 256) \<noteq> 0" and j: "M j = None" "j < 2 ^ 31"
  defines "M' \<equiv> M(j \<mapsto> ptr)" and "y \<equiv> h (L 0 (j div 256))"
  shows "placed L M' n"
    and "nodes L M' (bits_upto M M' 0) (\<lambda>_ _. 0) (h(L 0 (j div 256) := y\<lparr>ary := (ary y)[j mod 256 := ptr],
      l_count := l_count y + 1, l_bitmap := set_bit_nr (j mod 256) (l_bitmap y)\<rparr>))"
proof -
  have placed: "placed L M n" and nodes: "nodes L M (\<lambda>_. M) (\<lambda>_ _. 0) h" using tree by (simp_all add: tree_def)
  show placed': "placed L M' n"
    using placed q j unfolding placed_def M'_def by (auto split: if_splits)
  let ?q = "j div 256" and ?m = "j mod 256"
  have ok: "node_ok L M M 0 0 ?q y" using tree_node [OF tree q] by (simp add: y_def)
  have jq: "?q * 256 + m = j \<longleftrightarrow> m = ?m" for m using div_mult_mod_eq [of j 256] by linarith
  have "children L M' 0 ?q = insert ?m (children L M 0 ?q)" "?m \<notin> children L M 0 ?q" "finite (children L M 0 ?q)"
    using j(1) by (auto simp: children_def present_def M'_def jq)
  then have "int (card (children L M' 0 ?q)) = l_count y + 1" using ok by (simp add: node_ok_def)
  then have new: "node_ok L M' (bits_upto M M' 0 0) 0 0 ?q (y\<lparr>ary := (ary y)[?m := ptr],
      l_count := l_count y + 1, l_bitmap := set_bit_nr ?m (l_bitmap y)\<rparr>)"
    using ok by (auto simp: node_ok_def layer_bits bits_upto_def nth_list_update child_def M'_def jq)
  show "nodes L M' (bits_upto M M' 0) (\<lambda>_ _. 0) (h(L 0 ?q := y\<lparr>ary := (ary y)[?m := ptr],
      l_count := l_count y + 1, l_bitmap := set_bit_nr ?m (l_bitmap y)\<rparr>))"
  proof (rule nodes_upd [of L, OF placed q])
    show "node_ok L M' (bits_upto M M' 0 0) 0 0 ?q (y\<lparr>ary := (ary y)[?m := ptr],
      l_count := l_count y + 1, l_bitmap := set_bit_nr ?m (l_bitmap y)\<rparr>)" by (rule new)
    fix l b assume l: "L l b \<noteq> 0" "(l, b) \<noteq> (0, ?q)"
    have neq: "b * 256 + m \<noteq> j" if "l = 0" "m < 256" for m
      using l(2) that div_mult_self3 [of 256 b m] by auto
    have "node_ok L M' (bits_upto M M' 0 l) 0 l b (h (L l b)) = node_ok L M M 0 l b (h (L l b))"
      using neq by (intro node_ok_cong) (auto simp: child_def present_def bits_upto_def M'_def block_full_def)
    then show "node_ok L M' (bits_upto M M' 0 l) 0 l b (h (L l b))" using tree_node [OF tree l(1)] by simp
  qed simp
qed

text \<open>The loop of \<open>idr_mark_full\<close>.\<close>

lemma mark_step:
  assumes placed: "placed L M' n" and nodes: "nodes L M' (bits_upto M M' k) (\<lambda>_ _. 0) h"
    and q: "L (k + 1) (j div 256 ^ (k + 2)) \<noteq> 0" and M': "M' = M(j \<mapsto> ptr)"
    and full: "block_full M' (k + 1) (j div 256 ^ (k + 1))"
  defines "p \<equiv> L (k + 1) (j div 256 ^ (k + 2))"
  shows "nodes L M' (bits_upto M M' (k + 1)) (\<lambda>_ _. 0)
    (h(p := (h p)\<lparr>l_bitmap := set_bit_nr (j div 256 ^ (k + 1) mod 256) (l_bitmap (h p))\<rparr>))"
  unfolding p_def
proof (rule nodes_upd [of L, OF placed q])
  let ?q = "j div 256 ^ (k + 2)" and ?m = "j div 256 ^ (k + 1) mod 256" and ?b = "j div 256 ^ (k + 1)"
  have b: "?b = ?q * 256 + ?m" using div_digit [of j "k + 1"] by simp
  have ok: "node_ok L M' M 0 (k + 1) ?q (h p)" using nodes_at [OF nodes q] by (simp add: bits_upto_def p_def)
  have "block_full M' (k + 1) (?q * 256 + m) \<longleftrightarrow> m = ?m \<or> block_full M (k + 1) (?q * 256 + m)" for m
  proof (cases "m = ?m")
    case True
    then show ?thesis using full b by simp
  next
    case False
    then have "?q * 256 + m \<noteq> ?b" using b by linarith
    then show ?thesis using False block_full_other [of "?q * 256 + m" j "k + 1" M "Some ptr"] M' by simp
  qed
  then show "node_ok L M' (bits_upto M M' (k + 1) (k + 1)) 0 (k + 1) ?q
      ((h (L (k + 1) ?q))\<lparr>l_bitmap := set_bit_nr ?m (l_bitmap (h (L (k + 1) ?q)))\<rparr>)"
    using ok by (simp add: node_ok_def bits_upto_def p_def layer_bits)
  fix l c assume l: "L l c \<noteq> 0" "(l, c) \<noteq> (k + 1, ?q)"
  have "c * 256 + m \<noteq> ?b" if "l = k + 1" "m < 256" for m
    using l(2) that b digit_unique [of c m ?q ?m] by auto
  then have "node_ok L M' (bits_upto M M' (k + 1) l) 0 l c (h (L l c)) = node_ok L M' (bits_upto M M' k l) 0 l c (h (L l c))"
    by (intro node_ok_cong) (auto simp: bits_upto_def M' block_full_other le_Suc_eq)
  then show "node_ok L M' (bits_upto M M' (k + 1) l) 0 l c (h (L l c))" using nodes_at [OF nodes l(1)] by simp
qed simp

lemma mark_done:
  assumes nodes: "nodes L M' (bits_upto M M' k) (\<lambda>_ _. 0) h" and M': "M' = M(j \<mapsto> ptr)" "M j = None"
    and stop: "(\<forall>l q. L l q \<noteq> 0 \<longrightarrow> l \<le> k) \<or> \<not> block_full M' (k + 1) (j div 256 ^ (k + 1))"
  shows "nodes L M' (\<lambda>_. M') (\<lambda>_ _. 0) h"
  unfolding nodes_def
proof (intro allI impI)
  fix l q assume l: "L l q \<noteq> 0"
  have "block_full M' l b = block_full M l b" if "\<not> l \<le> k" for b
  proof (cases "b = j div 256 ^ l")
    case False
    then show ?thesis using M' block_full_other by simp
  next
    case True
    have "\<not> block_full M' (k + 1) (j div 256 ^ (k + 1))" using stop l that by blast
    then have "\<not> block_full M' l b" using block_full_sub [of M' l j "k + 1"] that True by auto
    then show ?thesis using block_full_in [of M j, OF M'(2)] True by simp
  qed
  then have "node_ok L M' M' 0 l q (h (L l q)) = node_ok L M' (bits_upto M M' k l) 0 l q (h (L l q))"
    by (intro node_ok_cong) (auto simp: bits_upto_def)
  then show "node_ok L M' M' 0 l q (h (L l q))" using nodes_at [OF nodes l] by simp
qed

text \<open>A change of layers of the tree only.\<close>

definition writes :: "placement \<Rightarrow> idr_state \<Rightarrow> idr_state \<Rightarrow> bool" where
  "writes L s s' \<longleftrightarrow> s' = s\<lparr>lay := lay s'\<rparr> \<and> (\<forall>a. a \<notin> used L \<longrightarrow> lay s' a = lay s a)"

lemma writes_refl [simp]: "writes L s s"
  by (simp add: writes_def)

lemma writes_trans: "writes L s s' \<Longrightarrow> writes L s' s'' \<Longrightarrow> writes L s s''"
  unfolding writes_def by (metis idr_state.update_convs(7) idr_state.surjective)

lemma writes_upd: "p \<in> used L \<Longrightarrow> writes L s (upd p f s)"
  by (auto simp: writes_def upd_def)

lemma writesD:
  assumes "writes L s s'"
  shows "hint s' = hint s" "top s' = top s" "layers s' = layers s" "cur s' = cur s" "rcu_freed s' = rcu_freed s"
    "pool s' = pool s" "idr_preload_head s' = idr_preload_head s" "idr_preload_cnt s' = idr_preload_cnt s"
    "a \<notin> used L \<Longrightarrow> lay s' a = lay s a"
proof -
  have eq: "s' = s\<lparr>lay := lay s'\<rparr>" using assms by (simp add: writes_def)
  show "hint s' = hint s" "top s' = top s" "layers s' = layers s" "cur s' = cur s" "rcu_freed s' = rcu_freed s"
    "pool s' = pool s" "idr_preload_head s' = idr_preload_head s" "idr_preload_cnt s' = idr_preload_cnt s"
    by (subst eq, simp)+
  show "a \<notin> used L \<Longrightarrow> lay s' a = lay s a" using assms by (simp add: writes_def)
qed

lemma writes_mem: "writes L s s' \<Longrightarrow> mem_ok (used L) s \<Longrightarrow> mem_ok (used L) s'"
  using writesD [of L s s'] unfolding mem_defs by auto

lemma pathD:
  assumes "path L n j pa" "k < n"
  shows "pa ! k = L k (j div 256 ^ (k + 1))" "L k (j div 256 ^ (k + 1)) \<noteq> 0" "pa ! k \<in> used L"
proof -
  show eq: "pa ! k = L k (j div 256 ^ (k + 1))" and nz: "L k (j div 256 ^ (k + 1)) \<noteq> 0"
    using assms unfolding path_def by metis+
  show "pa ! k \<in> used L" using usedI [of L, OF eq [symmetric]] nz eq by simp
qed

lemma mark_loop_ok:
  assumes placed: "placed L M' n" and path: "path L n j pa" and M': "M' = M(j \<mapsto> ptr)" "M j = None"
    and "k < n" "nodes L M' (bits_upto M M' k) (\<lambda>_ _. 0) (lay s)"
  shows "\<exists>s'. idr_mark_full_loop (pa ! k) (drop (k + 1) pa) (j div 256 ^ k) s = s' \<and>
    nodes L M' (\<lambda>_. M') (\<lambda>_ _. 0) (lay s') \<and> writes L s s'"
  using assms(5,6)
proof (induction "n - k" arbitrary: k s rule: less_induct)
  case less
  note k = less.prems(1) and nodes = less.prems(2)
  have n4: "n \<le> 4" by (rule placedD(2) [OF placed])
  have len: "length pa = 5" "pa ! n = 0" using path by (simp_all add: path_def)
  have rest: "drop (k + 1) pa = pa ! (k + 1) # drop (k + 2) pa"
    using Cons_nth_drop_Suc [of "k + 1" pa] len k n4 by simp
  have ok: "node_ok L M' M' 0 k (j div 256 ^ (k + 1)) (lay s (pa ! k))"
    using nodes_at [OF nodes pathD(2) [OF path k]] pathD(1) [OF path k] by (simp add: bits_upto_def)
  note full = full_node [OF ok]
  consider (top) "k + 1 = n" | (stop) "\<not> block_full M' (k + 1) (j div 256 ^ (k + 1))"
    | (up) "k + 1 < n" "block_full M' (k + 1) (j div 256 ^ (k + 1))" using k by linarith
  then show ?case
  proof cases
    case top
    have "\<forall>l q. L l q \<noteq> 0 \<longrightarrow> l \<le> k" using placedD(4) [OF placed] top by (metis Suc_eq_plus1 less_Suc_eq_le)
    then have "nodes L M' (\<lambda>_. M') (\<lambda>_ _. 0) (lay s)" using mark_done [OF nodes M'] by blast
    then show ?thesis using rest top len(2) by simp
  next
    case stop
    then have "nodes L M' (\<lambda>_. M') (\<lambda>_ _. 0) (lay s)" using mark_done [OF nodes M'] by blast
    then show ?thesis using rest stop full by simp
  next
    case up
    let ?p = "pa ! (k + 1)"
    note p = pathD [OF path up(1)]
    define s1 where "s1 = upd ?p (\<lambda>y. y\<lparr>l_bitmap := set_bit_nr (j div 256 ^ (k + 1) mod 256) (l_bitmap y)\<rparr>) s"
    have sh: "drop_bit IDR_BITS (j div 256 ^ k) = j div 256 ^ (k + 1)"
      by (simp add: idr_constants drop_bit_eq_div div_mult2_eq [symmetric] mult.commute)
    have "nodes L M' (bits_upto M M' (k + 1)) (\<lambda>_ _. 0) (lay s1)"
      using mark_step [OF placed nodes _ M'(1) up(2)] p by (simp add: s1_def)
    moreover have "n - (k + 1) < n - k" using up(1) by simp
    ultimately obtain s' where s': "idr_mark_full_loop ?p (drop (k + 1 + 1) pa) (j div 256 ^ (k + 1)) s1 = s'"
      "nodes L M' (\<lambda>_. M') (\<lambda>_ _. 0) (lay s')" "writes L s1 s'"
      using less.hyps [of "k + 1" s1] up(1) by blast
    have "idr_mark_full_loop (pa ! k) (drop (k + 1) pa) (j div 256 ^ k) s = s'"
      using rest up full p s'(1) sh by (simp add: s1_def idr_constants and_255 Let_def)
    moreover have "writes L s s'" using s'(3) writes_upd [OF p(3)] by (auto simp: s1_def intro: writes_trans)
    ultimately show ?thesis using s'(2) by blast
  qed
qed

text \<open>The entry of a free identifier into the map.\<close>

lemma fill_slot_ok:
  assumes tree: "tree L M n (lay s)" and path: "path L n j pa" and j: "M j = None" "j < 2 ^ 31"
  shows "tree L (M(j \<mapsto> ptr)) n (lay (idr_fill_slot ptr j pa s))"
    and "writes L (s\<lparr>hint := L 0 (j div 256)\<rparr>) (idr_fill_slot ptr j pa s)"
proof -
  have n: "0 < n" using tree by (auto simp: tree_def dest: placedD(1))
  have pa: "pa \<noteq> []" using path by (auto simp: path_def)
  note p = pathD [OF path n]
  define M' where "M' = M(j \<mapsto> ptr)"
  define s1 where "s1 = upd (pa ! 0) (\<lambda>y. y\<lparr>ary := (ary y)[j mod 256 := ptr], l_count := l_count y + 1,
      l_bitmap := set_bit_nr (j mod 256) (l_bitmap y)\<rparr>) (s\<lparr>hint := pa ! 0\<rparr>)"
  have s1: "nodes L M' (bits_upto M M' 0) (\<lambda>_ _. 0) (lay s1)" and placed': "placed L M' n"
    using fill_leaf [OF tree _ j, of ptr] p by (simp_all add: s1_def M'_def)
  from mark_loop_ok [OF placed' path M'_def j(1) n s1]
  obtain s' where s': "idr_mark_full_loop (pa ! 0) (drop 1 pa) j s1 = s'"
    "nodes L M' (\<lambda>_. M') (\<lambda>_ _. 0) (lay s')" "writes L s1 s'" by auto
  have "idr_fill_slot ptr j pa s = s'"
    using s'(1) by (simp add: idr_fill_slot_def idr_mark_full_def s1_def Let_def idr_constants and_255 drop_Suc upd_def)
  moreover have "writes L (s\<lparr>hint := L 0 (j div 256)\<rparr>) s'"
    using s'(3) writes_upd [OF p(3)] p(1) by (auto simp: s1_def intro: writes_trans)
  ultimately show "tree L (M(j \<mapsto> ptr)) n (lay (idr_fill_slot ptr j pa s))"
    and "writes L (s\<lparr>hint := L 0 (j div 256)\<rparr>) (idr_fill_slot ptr j pa s)"
    using s'(2) placed' by (simp_all add: tree_def M'_def)
qed

section \<open>The invariant of an idr\<close>

text \<open>The hint is the leaf of an identifier in use.\<close>

definition hint_ok :: "placement \<Rightarrow> (nat \<rightharpoonup> nat) \<Rightarrow> idr_state \<Rightarrow> bool" where
  "hint_ok L M s \<longleftrightarrow> hint s = 0 \<or> (\<exists>j. M j \<noteq> None \<and> hint s = L 0 (j div 256))"

text \<open>The state \<open>s\<close> stands for the map \<open>M\<close> from identifiers to pointers.\<close>

definition idr_inv :: "(nat \<rightharpoonup> nat) \<Rightarrow> idr_state \<Rightarrow> bool" where
  "idr_inv M s \<longleftrightarrow> (\<exists>L. rep L M s \<and> mem_ok (used L) s \<and> hint_ok L M s)"

lemma hint_extends:
  assumes "rep L M s" "hint_ok L M s" "M \<noteq> Map.empty \<longrightarrow> extends L L'" "hint s' = hint s"
  shows "hint_ok L' M s'"
proof (cases "hint s = 0")
  case False
  then obtain j where j: "M j \<noteq> None" "hint s = L 0 (j div 256)" using assms(2) by (auto simp: hint_ok_def)
  then have "M \<noteq> Map.empty" by auto
  then have "extends L L'" using assms(3) by blast
  then have "hint s' = L' 0 (j div 256)" using j False assms(4) by (simp add: extends_def)
  then show ?thesis using j(1) by (auto simp: hint_ok_def)
qed (use assms(4) in \<open>simp add: hint_ok_def\<close>)

text \<open>A search from a start; \<open>idr_alloc\<close> and the old interface share it.\<close>

lemma slot_inv:
  assumes "idr_inv M s" "i < 2 ^ 31" "length pa = 5"
  obtains L v pa' s' where "idr_get_empty_slot False i pa s = Some (v, pa', s')" "rep L M s'" "mem_ok (used L) s'"
    "hint_ok L M s'" "slot_result L M i (layers s) s v pa' s'" "cur s' = cur s" "rcu_freed s' = rcu_freed s"
proof -
  from assms(1) obtain L where L: "rep L M s" "mem_ok (used L) s" "hint_ok L M s" by (auto simp: idr_inv_def)
  from get_empty_slot_ok [OF assms(2,3) L(1,2)] obtain v pa' s'
    where r: "idr_get_empty_slot False i pa s = Some (v, pa', s')" and p: "slot_post L M i (layers s) s v pa' s'" by blast
  from p obtain L' where "rep L' M s'" "mem_ok (used L') s'" "M \<noteq> Map.empty \<longrightarrow> extends L L'"
    "slot_result L' M i (layers s) s v pa' s'" "hint s' = hint s" "cur s' = cur s" "rcu_freed s' = rcu_freed s"
    unfolding slot_post_def by blast
  then show thesis using that [OF r] hint_extends [OF L(1,3)] by blast
qed

lemma fill_inv:
  assumes "rep L M s" "mem_ok (used L) s" "slot_result L M i n s0 (Inr j) pa s"
  shows "idr_inv (M(j \<mapsto> ptr)) (idr_fill_slot ptr j pa s)"
proof -
  have top: "top s \<noteq> 0" and path: "path L (layers s) j pa" and j: "M j = None" "j < 2 ^ 31" using assms(3) by auto
  have tree: "tree L M (layers s) (lay s)" "top s = L (layers s - 1) 0" using assms(1) top by (simp_all add: rep_def)
  let ?s = "idr_fill_slot ptr j pa s"
  note f = fill_slot_ok [OF tree(1) path j, of ptr] and w = writesD [OF fill_slot_ok(2) [OF tree(1) path j, of ptr]]
  have "rep L (M(j \<mapsto> ptr)) ?s" using f(1) w top tree(2) by (simp add: rep_def)
  moreover have "mem_ok (used L) (s\<lparr>hint := L 0 (j div 256)\<rparr>)" using assms(2) by (simp add: mem_defs)
  then have "mem_ok (used L) ?s" using f(2) writes_mem by blast
  moreover have "hint_ok L (M(j \<mapsto> ptr)) ?s" unfolding hint_ok_def w by auto
  ultimately show ?thesis by (auto simp: idr_inv_def)
qed

text \<open>What an allocation from \<open>start\<close> below \<open>limit\<close> promises: the least free identifier, or an error
  that leaves the map as it is.\<close>

fun alloc_result :: "(nat \<rightharpoonup> nat) \<Rightarrow> nat \<Rightarrow> int \<Rightarrow> int \<Rightarrow> idr_state \<Rightarrow> errno + nat \<Rightarrow> idr_state \<Rightarrow> bool" where
  "alloc_result M ptr start limit s (Inr i) s' \<longleftrightarrow>
     start \<le> int i \<and> int i < limit \<and> M i = None \<and> (\<forall>k < i. start \<le> int k \<longrightarrow> M k \<noteq> None) \<and>
     idr_inv (M(i \<mapsto> ptr)) s'"
| "alloc_result M ptr start limit s (Inl e) s' \<longleftrightarrow> idr_inv M s' \<and>
     (e = EINVAL \<and> start < 0 \<or>
      e = ENOSPC \<and> 0 \<le> start \<and> (\<forall>k. start \<le> int k \<and> int k < limit \<longrightarrow> M k \<noteq> None) \<or>
      e = ENOMEM \<and> 0 \<le> start \<and> length (idr_preload_head s) < 7)"

lemma in_use_from:
  assumes "in_use M (nat start) b" "start \<le> int k" "k < b"
  shows "M k \<noteq> None"
  using assms unfolding in_use_def by auto

lemma alloc_search:
  assumes inv: "idr_inv M s" and pa: "length pa = 5" and start: "0 \<le> start" "start < 2 ^ 31" "start < limit"
    and limit: "limit \<le> 2 ^ 31"
    and eq: "idr_alloc pa ptr start fin s = Option.bind (idr_get_empty_slot False (nat start) pa s) (\<lambda>(r, pa, s).
        case r of Inl e \<Rightarrow> Some (Inl e, s)
        | Inr i \<Rightarrow> if int i \<ge> limit then Some (Inl ENOSPC, s) else Some (Inr i, idr_fill_slot ptr i pa s))"
  shows "\<exists>r s'. idr_alloc pa ptr start fin s = Some (r, s') \<and> cur s' = cur s \<and> rcu_freed s' = rcu_freed s \<and>
    alloc_result M ptr start limit s r s'"
proof -
  have i: "nat start < 2 ^ 31" using start by (simp add: nat_less_iff)
  obtain L v pa' s1 where r: "idr_get_empty_slot False (nat start) pa s = Some (v, pa', s1)" and rep: "rep L M s1"
    and mem: "mem_ok (used L) s1" and hint: "hint_ok L M s1" and res: "slot_result L M (nat start) (layers s) s v pa' s1"
    and same: "cur s1 = cur s" "rcu_freed s1 = rcu_freed s"
    by (rule slot_inv [OF inv i pa])
  have inv1: "idr_inv M s1" using rep mem hint by (auto simp: idr_inv_def)
  show ?thesis
  proof (cases v)
    case (Inl e)
    have "M k \<noteq> None" if "in_use M (nat start) (2 ^ 31)" "start \<le> int k" "int k < limit" for k
      using in_use_from [OF that(1,2)] that(3) limit by simp
    then have "alloc_result M ptr start limit s (Inl e) s1" using res Inl start(1) inv1 by auto
    then show ?thesis using eq r Inl same by simp
  next
    case (Inr j)
    then have top: "top s1 \<noteq> 0" and path: "path L (layers s1) j pa'" and j: "M j = None" "j < 2 ^ 31" "nat start \<le> j"
      and before: "in_use M (nat start) j" using res by auto
    show ?thesis
    proof (cases "int j \<ge> limit")
      case True
      have "M k \<noteq> None" if "start \<le> int k" "int k < limit" for k
        using in_use_from [OF before that(1)] that(2) True by simp
      then have "alloc_result M ptr start limit s (Inl ENOSPC) s1" using start(1) inv1 by simp
      then show ?thesis using eq r Inr True same by simp
    next
      case False
      have tree: "tree L M (layers s1) (lay s1)" using rep top by (simp add: rep_def)
      note w = writesD [OF fill_slot_ok(2) [OF tree path j(1,2), of ptr]]
      have "idr_inv (M(j \<mapsto> ptr)) (idr_fill_slot ptr j pa' s1)" using fill_inv [OF rep mem] res Inr by blast
      then have "alloc_result M ptr start limit s (Inr j) (idr_fill_slot ptr j pa' s1)"
        using j(1,3) start(1) False in_use_from [OF before] by simp
      then show ?thesis using eq r Inr False same w(4,5) by simp
    qed
  qed
qed

lemma idr_alloc_spec:
  assumes inv: "idr_inv M s" and pa: "length pa = MAX_IDR_LEVEL + 1" and int: "start < 2 ^ 31" "fin < 2 ^ 31"
  shows "\<exists>r s'. idr_alloc pa ptr start fin s = Some (r, s') \<and> cur s' = cur s \<and> rcu_freed s' = rcu_freed s \<and>
    alloc_result M ptr start (if fin > 0 then fin else 2 ^ 31) s r s'"
proof -
  define limit where "limit = (if fin > 0 then fin else 2 ^ 31)"
  consider (neg) "start < 0" | (over) "0 \<le> start" "limit \<le> start" | (search) "0 \<le> start" "start < limit" by linarith
  then show ?thesis
  proof cases
    case neg
    then show ?thesis using inv by (simp add: idr_alloc_def)
  next
    case over
    then have "idr_alloc pa ptr start fin s = Some (Inl ENOSPC, s)" by (auto simp: idr_alloc_def limit_def)
    moreover have "M k \<noteq> None" if "start \<le> int k" "int k < limit" for k using that over by linarith
    ultimately show ?thesis using inv over(1) by (simp add: limit_def)
  next
    case search
    have "limit \<le> 2 ^ 31" using int(2) by (simp add: limit_def)
    moreover have "idr_alloc pa ptr start fin s = Option.bind (idr_get_empty_slot False (nat start) pa s) (\<lambda>(r, pa, s).
        case r of Inl e \<Rightarrow> Some (Inl e, s)
        | Inr i \<Rightarrow> if int i \<ge> limit then Some (Inl ENOSPC, s) else Some (Inr i, idr_fill_slot ptr i pa s))"
      using search by (auto simp: idr_alloc_def limit_def Let_def intro!: Option.bind_cong split: sum.split)
    ultimately show ?thesis
      using alloc_search [OF inv _ search(1) int(1) search(2)] pa by (simp add: idr_constants limit_def)
  qed
qed

end
