(* ===== verification/Idr_Remove.thy ===== *)
theory Idr_Remove
  imports Idr_Alloc
begin

text \<open>
  Lookup and replacement, and the removal of an identifier: the layers on its path lose their bits and counts,
  empty layers are taken out and freed, and the tree may lose its top.
\<close>

section \<open>Lookup\<close>

definition ptr_of :: "nat option \<Rightarrow> nat" where
  "ptr_of v = (case v of None \<Rightarrow> 0 | Some p \<Rightarrow> p)"

lemma child_0: "child L M 0 i = ptr_of (M i)"
  by (simp add: child_def ptr_of_def)

lemma node_entry:
  assumes "tree L M n (lay s)" "L k (i div 256 ^ (k + 1)) \<noteq> 0"
  shows "ary (lay s (L k (i div 256 ^ (k + 1)))) ! (i div 256 ^ k mod 256) = child L M k (i div 256 ^ k)"
    "test_bit (i div 256 ^ k mod 256) (l_bitmap (lay s (L k (i div 256 ^ (k + 1))))) = block_full M k (i div 256 ^ k)"
proof -
  have "node_ok L M M 0 k (i div 256 ^ (k + 1)) (lay s (L k (i div 256 ^ (k + 1))))" by (rule tree_node [OF assms])
  then have "ary (lay s (L k (i div 256 ^ (k + 1)))) ! m = child L M k (i div 256 ^ (k + 1) * 256 + m)"
    "test_bit m (l_bitmap (lay s (L k (i div 256 ^ (k + 1))))) = block_full M k (i div 256 ^ (k + 1) * 256 + m)"
    if "m < 256" for m using that by (simp_all add: node_ok_def)
  from this [of "i div 256 ^ k mod 256", folded div_digit [of i k]]
  show "ary (lay s (L k (i div 256 ^ (k + 1)))) ! (i div 256 ^ k mod 256) = child L M k (i div 256 ^ k)"
    "test_bit (i div 256 ^ k mod 256) (l_bitmap (lay s (L k (i div 256 ^ (k + 1))))) = block_full M k (i div 256 ^ k)"
    by simp_all
qed

lemma find_walk_ok:
  assumes tree: "tree L M n (lay s)" and "k \<le> n"
  shows "find_walk k (child L M k (i div 256 ^ k)) i s = ptr_of (M i)"
  using assms(2)
proof (induction k)
  case 0
  then show ?case by (simp add: child_0)
next
  case (Suc k)
  let ?p = "L k (i div 256 ^ (k + 1))"
  have p: "child L M (Suc k) (i div 256 ^ Suc k) = ?p" by (simp add: child_def)
  have digit: "drop_bit (k * IDR_BITS) i AND IDR_MASK = i div 256 ^ k mod 256"
    using digit_eq [of k i] by (simp add: mult.commute)
  show ?case
  proof (cases "?p = 0")
    case True
    have "placed L M n" using tree by (simp add: tree_def)
    then have "M i = None" using used_path [of L M n i k] Suc.prems True by (metis Suc_le_lessD)
    then show ?thesis using p True by (simp add: ptr_of_def)
  next
    case False
    have "find_walk (Suc k) ?p i s = find_walk k (child L M k (i div 256 ^ k)) i s"
      using False node_entry(1) [OF tree False] by (simp add: digit)
    then show ?thesis using Suc p by simp
  qed
qed

lemma find_walk_leaf_ok:
  assumes tree: "tree L M n (lay s)" and "k < n"
  shows "find_walk_leaf k (L k (i div 256 ^ (k + 1))) i s = L 0 (i div 256)"
  using assms(2)
proof (induction k)
  case (Suc k)
  let ?p = "L (Suc k) (i div 256 ^ (Suc k + 1))"
  have digit: "drop_bit (Suc k * IDR_BITS) i AND IDR_MASK = i div 256 ^ Suc k mod 256"
    using digit_eq [of "Suc k" i] by (simp add: mult.commute)
  have placed: "placed L M n" using tree by (simp add: tree_def)
  show ?case
  proof (cases "?p = 0")
    case True
    have "L 0 (i div 256) = 0"
    proof (rule ccontr)
      assume "L 0 (i div 256) \<noteq> 0"
      then have "L (0 + Suc k) (i div 256 div 256 ^ Suc k) \<noteq> 0" using ancestor [OF placed, of 0 "i div 256" "Suc k"] Suc.prems by simp
      then show False using True by (simp add: div_mult2_eq [symmetric])
    qed
    then show ?thesis using True by simp
  next
    case False
    have "find_walk_leaf (Suc k) ?p i s = find_walk_leaf k (L k (i div 256 ^ (k + 1))) i s"
      using False node_entry(1) [OF tree False] by (simp add: digit child_def del: mult_Suc)
    then show ?thesis using Suc by simp
  qed
qed simp

lemma rep_top:
  assumes "rep L M s" "top s \<noteq> 0"
  shows "tree L M (layers s) (lay s)" "top s = L (layers s - 1) 0" "0 < layers s" "l_layer (lay s (top s)) + 1 = layers s"
proof -
  show t: "tree L M (layers s) (lay s)" and top: "top s = L (layers s - 1) 0" using assms by (simp_all add: rep_def)
  then show n: "0 < layers s" by (auto simp: tree_def dest: placedD(1))
  have "node_ok L M M 0 (layers s - 1) 0 (lay s (top s))" using tree_node [OF t, of "layers s - 1" 0] top assms(2) by simp
  then show "l_layer (lay s (top s)) + 1 = layers s" using n by (simp add: node_ok_def)
qed

lemma above_max:
  assumes "placed L M n" "i > idr_max n"
  shows "M i = None"
proof (rule ccontr)
  assume i: "M i \<noteq> None"
  have "(0 :: nat) < 256 ^ n" by simp
  then show False
    using used_bound [OF assms(1) i] placedD(8) [OF assms(1) i] assms(2) by (auto simp: idr_max_eq split: if_splits)
qed

lemma below_max: "i \<le> idr_max n \<Longrightarrow> n \<le> 4 \<Longrightarrow> i < 256 ^ n"
proof (cases "n < 4")
  case True
  assume "i \<le> idr_max n"
  then have "i \<le> 256 ^ n - 1" using True by (simp add: idr_max_eq)
  moreover have "(0 :: nat) < 256 ^ n" by simp
  ultimately show ?thesis by linarith
next
  case False
  assume "i \<le> idr_max n" "n \<le> 4"
  then have "n = 4" "i \<le> 2 ^ 31 - 1" using False by (simp_all add: idr_max_eq)
  then show ?thesis by simp
qed

lemma slowpath_ok:
  assumes "rep L M s"
  shows "idr_find_slowpath i s = (if i < 0 then 0 else ptr_of (M (nat i)))"
proof (cases "i < 0 \<or> top s = 0")
  case True
  then show ?thesis using assms by (auto simp: idr_find_slowpath_def rep_def ptr_of_def)
next
  case False
  have top: "top s \<noteq> 0" and i: "\<not> i < 0" using False by auto
  note t = rep_top [OF assms top]
  have placed: "placed L M (layers s)" using t(1) by (simp add: tree_def)
  show ?thesis
  proof (cases "nat i > idr_max (layers s)")
    case True
    then have "M (nat i) = None" by (rule above_max [OF placed])
    then show ?thesis using True i t(4) by (simp add: idr_find_slowpath_def ptr_of_def Let_def)
  next
    case le: False
    then have "nat i div 256 ^ layers s = 0" using below_max [of "nat i" "layers s"] placedD(2) [OF placed] by simp
    then have "top s = child L M (layers s) (nat i div 256 ^ layers s)" using t(2,3) by (simp add: child_def)
    then have "find_walk (layers s) (top s) (nat i) s = ptr_of (M (nat i))" using find_walk_ok [OF t(1)] by simp
    then show ?thesis using le i t(4) top by (simp add: idr_find_slowpath_def Let_def)
  qed
qed

lemma mask_int: "i AND int IDR_MASK = i mod 256" "i AND NOT (int IDR_MASK) = i div 256 * 256"
proof -
  have m: "int IDR_MASK = mask 8" by (simp add: idr_constants mask_eq_exp_minus_1)
  then show "i AND int IDR_MASK = i mod 256" by (simp add: take_bit_eq_mask [symmetric] take_bit_eq_mod)
  have "i AND NOT (mask 8) = push_bit 8 (drop_bit 8 i)" by (rule bit_eqI) (auto simp: bit_simps)
  then show "i AND NOT (int IDR_MASK) = i div 256 * 256" by (simp add: m push_bit_eq_mult drop_bit_eq_div)
qed

text \<open>The hint shortens the way for identifiers of the same leaf.\<close>

lemma find_ok:
  assumes "idr_inv M s"
  shows "idr_find i s = (if i < 0 then 0 else ptr_of (M (nat i)))"
proof -
  from assms obtain L where rep: "rep L M s" and hint: "hint_ok L M s" by (auto simp: idr_inv_def)
  show ?thesis
  proof (cases "hint s \<noteq> 0 \<and> i AND NOT (int IDR_MASK) = int (l_prefix (lay s (hint s)))")
    case True
    then obtain j where j: "M j \<noteq> None" "hint s = L 0 (j div 256)" using hint by (auto simp: hint_ok_def)
    have "top s \<noteq> 0" using rep j(1) by (cases "top s = 0") (auto simp: rep_def)
    note t = rep_top [OF rep this]
    have ok: "node_ok L M M 0 0 (j div 256) (lay s (hint s))" using tree_node [OF t(1), of 0] j True by auto
    have "i div 256 * 256 = int (j div 256) * 256" using True ok mask_int(2) [of i] by (simp add: node_ok_def)
    then have d: "i div 256 = int (j div 256)" by simp
    then have pos: "0 \<le> i" using pos_imp_zdiv_nonneg_iff [of 256 i] by simp
    then have i: "i = int (nat i)" by simp
    then have q: "nat i div 256 = j div 256" using d by (metis of_nat_eq_iff of_nat_numeral zdiv_int)
    have "nat (i mod 256) = nat i mod 256" using i by (metis nat_int of_nat_numeral zmod_int)
    then have "ary (lay s (hint s)) ! nat (i AND int IDR_MASK) = ptr_of (M (nat i))"
      using node_entry(1) [OF t(1), of 0 "nat i"] True j(2) q by (simp add: mask_int(1) child_0)
    then show ?thesis using True pos by (simp add: idr_find_def)
  qed (use slowpath_ok [OF rep] in \<open>auto simp: idr_find_def\<close>)
qed

section \<open>Replacement\<close>

lemma replace_tree:
  assumes tree: "tree L M n h" and j: "M j \<noteq> None"
  defines "p \<equiv> L 0 (j div 256)"
  shows "tree L (M(j \<mapsto> ptr)) n (h(p := (h p)\<lparr>ary := (ary (h p))[j mod 256 := ptr]\<rparr>))"
proof -
  let ?M = "M(j \<mapsto> ptr)"
  have placed: "placed L M n" using tree by (simp add: tree_def)
  have p: "L 0 (j div 256) \<noteq> 0" by (rule placedD(9) [OF placed j])
  have dom: "?M i \<noteq> None \<longleftrightarrow> M i \<noteq> None" for i using j by auto
  have full: "block_full ?M l b = block_full M l b" "present L ?M l b = present L M l b" for l b
    unfolding block_full_def present_def dom by simp_all
  have "placed L ?M n" using placed unfolding placed_def dom .
  moreover have "nodes L ?M (\<lambda>_. ?M) (\<lambda>_ _. 0) (h(p := (h p)\<lparr>ary := (ary (h p))[j mod 256 := ptr]\<rparr>))"
    unfolding p_def
  proof (rule nodes_upd [of L, OF placed p])
    have jq: "j div 256 * 256 + m = j \<longleftrightarrow> m = j mod 256" for m using div_mult_mod_eq [of j 256] by linarith
    show "node_ok L ?M ?M 0 0 (j div 256) ((h (L 0 (j div 256)))\<lparr>ary := (ary (h (L 0 (j div 256))))[j mod 256 := ptr]\<rparr>)"
      using tree_node [OF tree p] unfolding node_ok_def full children_def
      by (simp add: child_def nth_list_update jq)
    fix l q assume l: "L l q \<noteq> 0" "(l, q) \<noteq> (0, j div 256)"
    have "q * 256 + m \<noteq> j" if "l = 0" "m < 256" for m using l(2) that div_mult_self3 [of 256 q m] by auto
    then have "node_ok L ?M ?M 0 l q (h (L l q)) = node_ok L M M 0 l q (h (L l q))"
      by (intro node_ok_cong) (simp_all only: full, auto simp: child_def)
    then show "node_ok L ?M ?M 0 l q (h (L l q))" using tree_node [OF tree l(1)] by simp
  qed simp
  ultimately show ?thesis by (simp add: tree_def)
qed

lemma hint_dom:
  "hint_ok L M s \<Longrightarrow> (\<And>j. M j \<noteq> None \<Longrightarrow> M' j \<noteq> None) \<Longrightarrow> hint s' = hint s \<Longrightarrow> hint_ok L M' s'"
  unfolding hint_ok_def by metis

lemma replace_ok:
  assumes inv: "idr_inv M s" "0 \<le> i"
  shows "case M (nat i) of
      None \<Rightarrow> idr_replace ptr i s = (Inl ENOENT, s)
    | Some old \<Rightarrow> \<exists>s'. idr_replace ptr i s = (Inr old, s') \<and> idr_inv (M(nat i \<mapsto> ptr)) s'"
proof -
  from inv obtain L where rep: "rep L M s" and mem: "mem_ok (used L) s" and hint: "hint_ok L M s" by (auto simp: idr_inv_def)
  let ?i = "nat i"
  show ?thesis
  proof (cases "top s = 0 \<or> ?i > idr_max (layers s)")
    case True
    have "M ?i = None \<and> idr_replace ptr i s = (Inl ENOENT, s)"
    proof (cases "top s = 0")
      case True
      then show ?thesis using rep inv(2) by (simp add: rep_def idr_replace_def)
    next
      case False
      note t = rep_top [OF rep False]
      then have "M ?i = None" using True False above_max [of L M "layers s" ?i] by (simp add: tree_def)
      then show ?thesis using True False t(4) inv(2) by (simp add: idr_replace_def Let_def)
    qed
    then show ?thesis by simp
  next
    case False
    then have top: "top s \<noteq> 0" and le: "?i \<le> idr_max (layers s)" by auto
    note t = rep_top [OF rep top]
    have placed: "placed L M (layers s)" using t(1) by (simp add: tree_def)
    define p where "p = L 0 (?i div 256)"
    have "?i div 256 ^ layers s = 0" using below_max [OF le placedD(2) [OF placed]] by simp
    then have top_at: "top s = L (layers s - 1) (?i div 256 ^ (layers s - 1 + 1))" using t(2,3) by simp
    have "l_layer (lay s (top s)) = layers s - 1" using t(4) by simp
    then have walk: "find_walk_leaf (l_layer (lay s (top s))) (top s) ?i s = p"
      using find_walk_leaf_ok [OF t(1), of "layers s - 1" ?i, folded top_at] t(3) by (simp add: p_def)
    have bit: "p \<noteq> 0 \<Longrightarrow> test_bit (?i AND IDR_MASK) (l_bitmap (lay s p)) = (M ?i \<noteq> None)"
      and entry: "p \<noteq> 0 \<Longrightarrow> ary (lay s p) ! (?i AND IDR_MASK) = ptr_of (M ?i)"
      using node_entry [OF t(1), of 0 ?i] by (simp_all add: p_def idr_constants and_255 child_0)
    have eq: "idr_replace ptr i s = (if p = 0 \<or> M ?i = None then (Inl ENOENT, s)
        else (Inr (ptr_of (M ?i)), upd p (\<lambda>y. y\<lparr>ary := (ary y)[?i mod 256 := ptr]\<rparr>) s))"
      using top le t(4) inv(2) walk bit entry by (auto simp: idr_replace_def Let_def idr_constants and_255)
    show ?thesis
    proof (cases "M ?i")
      case None
      then show ?thesis using eq by simp
    next
      case (Some old)
      then have p: "p \<noteq> 0" using placedD(9) [OF placed, of ?i] by (simp add: p_def)
      define s' where "s' = upd p (\<lambda>y. y\<lparr>ary := (ary y)[?i mod 256 := ptr]\<rparr>) s"
      have "rep L (M(?i \<mapsto> ptr)) s'"
        using replace_tree [OF t(1), of ?i ptr] Some top t(2) by (simp add: rep_def s'_def p_def)
      moreover have "mem_ok (used L) s'" unfolding s'_def using mem usedI [of L, OF p_def [symmetric] p] by (rule mem_upd)
      moreover have "hint_ok L (M(?i \<mapsto> ptr)) s'" by (rule hint_dom [OF hint]) (simp_all add: s'_def)
      ultimately have "idr_inv (M(?i \<mapsto> ptr)) s'" by (auto simp: idr_inv_def)
      then show ?thesis using eq Some p by (simp add: s'_def ptr_of_def)
    qed
  qed
qed

section \<open>Removal\<close>

text \<open>The pointers to the layers of the path of \<open>i\<close>, from the leaf up.\<close>

definition slot_at :: "placement \<Rightarrow> nat \<Rightarrow> nat \<Rightarrow> nat \<Rightarrow> slot" where
  "slot_at L n i k = (if k + 1 < n then Ary_slot (L (k + 1) (i div 256 ^ (k + 2))) (i div 256 ^ (k + 1) mod 256) else Top_slot)"

text \<open>The bits of the layers above the level \<open>k\<close> do not show the identifier any more.\<close>

definition bits_above :: "(nat \<rightharpoonup> nat) \<Rightarrow> (nat \<rightharpoonup> nat) \<Rightarrow> nat \<Rightarrow> nat \<Rightarrow> nat \<rightharpoonup> nat" where
  "bits_above M M' k = (\<lambda>l. if k < l then M' else M)"

lemma clear_step:
  assumes placed: "placed L M n" and nodes: "nodes L M (bits_above M M' (k + 1)) (\<lambda>_ _. 0) h"
    and q: "L (k + 1) (i div 256 ^ (k + 2)) \<noteq> 0" and M': "M' = M(i := None)"
  defines "p \<equiv> L (k + 1) (i div 256 ^ (k + 2))"
  shows "nodes L M (bits_above M M' k) (\<lambda>_ _. 0)
    (h(p := (h p)\<lparr>l_bitmap := clear_bit (i div 256 ^ (k + 1) mod 256) (l_bitmap (h p))\<rparr>))"
  unfolding p_def
proof (rule nodes_upd [of L, OF placed q])
  let ?q = "i div 256 ^ (k + 2)" and ?m = "i div 256 ^ (k + 1) mod 256" and ?b = "i div 256 ^ (k + 1)"
  have b: "?b = ?q * 256 + ?m" using div_digit [of i "k + 1"] by simp
  have ok: "node_ok L M M 0 (k + 1) ?q (h p)" using nodes_at [OF nodes q] by (simp add: bits_above_def p_def)
  have "block_full M' (k + 1) (?q * 256 + m) \<longleftrightarrow> m \<noteq> ?m \<and> block_full M (k + 1) (?q * 256 + m)" for m
  proof (cases "m = ?m")
    case True
    then show ?thesis using block_full_in [of M' i "k + 1"] b M' by simp
  next
    case False
    then have "?q * 256 + m \<noteq> ?b" using b by linarith
    then show ?thesis using False block_full_other [of "?q * 256 + m" i "k + 1" M None] M' by simp
  qed
  then show "node_ok L M (bits_above M M' k (k + 1)) 0 (k + 1) ?q
      ((h (L (k + 1) ?q))\<lparr>l_bitmap := clear_bit ?m (l_bitmap (h (L (k + 1) ?q)))\<rparr>)"
    using ok by (simp add: node_ok_def bits_above_def p_def layer_bits)
  fix l c assume l: "L l c \<noteq> 0" "(l, c) \<noteq> (k + 1, ?q)"
  have "block_full (bits_above M M' k l) l (c * 256 + m) = block_full (bits_above M M' (k + 1) l) l (c * 256 + m)"
    if m: "m < 256" for m
  proof (cases "l = k + 1")
    case True
    then have "c * 256 + m \<noteq> i div 256 ^ l" using l(2) m b digit_unique [of c m ?q ?m] by auto
    then show ?thesis using True block_full_other [of _ i l M None] M' by (simp add: bits_above_def)
  next
    case False
    then have "k < l \<longleftrightarrow> k + 1 < l" by auto
    then show ?thesis by (simp add: bits_above_def)
  qed
  then have "node_ok L M (bits_above M M' k l) 0 l c (h (L l c)) = node_ok L M (bits_above M M' (k + 1) l) 0 l c (h (L l c))"
    by (intro node_ok_cong) simp_all
  then show "node_ok L M (bits_above M M' k l) 0 l c (h (L l c))" using nodes_at [OF nodes l(1)] by simp
qed simp

lemma leaf_missing:
  assumes "placed L M n" "L k (i div 256 ^ (k + 1)) = 0" "k < n"
  shows "L 0 (i div 256) = 0"
proof (rule ccontr)
  assume "L 0 (i div 256) \<noteq> 0"
  then have "L (0 + k) (i div 256 div 256 ^ k) \<noteq> 0" using ancestor [OF assms(1), of 0 "i div 256" k] assms(3) by simp
  then show False using assms(2) by (simp add: div_mult2_eq [symmetric])
qed

lemma walk_ok:
  assumes placed: "placed L M n" and M': "M' = M(i := None)"
  shows "k < n \<Longrightarrow> nodes L M (bits_above M M' k) (\<lambda>_ _. 0) (lay s) \<Longrightarrow>
    remove_walk k (L k (i div 256 ^ (k + 1))) i (map (slot_at L n i) [k..<n]) s = (p, paa, s') \<Longrightarrow>
    p = L 0 (i div 256) \<and> nodes L M (bits_above M M' 0) (\<lambda>_ _. 0) (lay s') \<and> writes L s s' \<and>
    (p \<noteq> 0 \<longrightarrow> paa = map (slot_at L n i) [0..<n])"
proof (induction k arbitrary: s)
  case (Suc k)
  let ?p = "L (Suc k) (i div 256 ^ (Suc k + 1))" and ?m = "i div 256 ^ Suc k mod 256"
  show ?case
  proof (cases "?p = 0")
    case True
    have "nodes L M (bits_above M M' 0) (\<lambda>_ _. 0) (lay s)"
    proof -
      have "M i = None" using placedD(9) [OF placed, of i] leaf_missing [OF placed True Suc.prems(1)] by blast
      then have "M' = M" using M' by auto
      then show ?thesis using Suc.prems(2) by (simp add: bits_above_def cong: if_cong)
    qed
    then show ?thesis using Suc.prems True leaf_missing [OF placed True Suc.prems(1)] by simp
  next
    case False
    define s1 where "s1 = upd ?p (\<lambda>y. y\<lparr>l_bitmap := clear_bit ?m (l_bitmap y)\<rparr>) s"
    have ok: "node_ok L M M 0 (Suc k) (i div 256 ^ (Suc k + 1)) (lay s ?p)"
      using nodes_at [OF Suc.prems(2) False] by (simp add: bits_above_def)
    have below: "ary (lay s ?p) ! ?m = L k (i div 256 ^ (k + 1))"
      using ok div_digit [of i "Suc k"] by (simp add: node_ok_def child_def)
    have n1: "nodes L M (bits_above M M' k) (\<lambda>_ _. 0) (lay s1)"
      using clear_step [OF placed _ _ M', of k "lay s"] Suc.prems(2) False by (simp add: s1_def)
    have slots: "Ary_slot ?p ?m # map (slot_at L n i) [Suc k..<n] = map (slot_at L n i) [k..<n]"
      using Suc.prems(1) by (simp add: upt_conv_Cons slot_at_def)
    have "remove_walk k (L k (i div 256 ^ (k + 1))) i (map (slot_at L n i) [k..<n]) s1 = (p, paa, s')"
      using Suc.prems(3) False below slots digit_eq [of "Suc k" i] by (simp add: s1_def Let_def)
    moreover have "writes L s s1" unfolding s1_def by (rule writes_upd) (rule usedI [of L, OF refl False])
    ultimately show ?thesis using Suc.IH [OF _ n1] Suc.prems(1) writes_trans by auto
  qed
qed auto

text \<open>The count of the layer at the level \<open>k\<close> of the path is one too high.\<close>

definition off_at :: "nat \<Rightarrow> nat \<Rightarrow> nat \<Rightarrow> nat \<Rightarrow> int" where
  "off_at i k = (\<lambda>l q. if l = k \<and> q = i div 256 ^ (k + 1) then 1 else 0)"

lemma remove_leaf:
  assumes placed: "placed L M n" and i: "M i \<noteq> None" and M': "M' = M(i := None)"
    and nodes: "nodes L M (bits_above M M' 0) (\<lambda>_ _. 0) h"
  defines "p \<equiv> L 0 (i div 256)"
  shows "placed L M' n"
    and "nodes L M' (\<lambda>_. M') (off_at i 0)
      (h(p := (h p)\<lparr>l_bitmap := clear_bit (i mod 256) (l_bitmap (h p)), ary := (ary (h p))[i mod 256 := 0]\<rparr>))"
proof -
  let ?q = "i div 256" and ?m = "i mod 256"
  have p: "L 0 ?q \<noteq> 0" by (rule placedD(9) [OF placed i])
  show "placed L M' n" using placed unfolding placed_def M' by (auto split: if_splits)
  have ok: "node_ok L M M 0 0 ?q (h p)" using nodes_at [OF nodes p] by (simp add: bits_above_def p_def)
  have iq: "?q * 256 + m = i \<longleftrightarrow> m = ?m" for m using div_mult_mod_eq [of i 256] by linarith
  have "children L M 0 ?q = insert ?m (children L M' 0 ?q)" "?m \<notin> children L M' 0 ?q" "finite (children L M' 0 ?q)"
    using i by (auto simp: children_def present_def M' iq)
  then have cnt: "l_count (h p) = int (card (children L M' 0 ?q)) + 1" using ok by (simp add: node_ok_def)
  show "nodes L M' (\<lambda>_. M') (off_at i 0)
      (h(p := (h p)\<lparr>l_bitmap := clear_bit ?m (l_bitmap (h p)), ary := (ary (h p))[?m := 0]\<rparr>))"
    unfolding p_def
  proof (rule nodes_upd [of L, OF placed p])
    show "node_ok L M' M' (off_at i 0 0 ?q) 0 ?q
        ((h (L 0 ?q))\<lparr>l_bitmap := clear_bit ?m (l_bitmap (h (L 0 ?q))), ary := (ary (h (L 0 ?q)))[?m := 0]\<rparr>)"
      using ok cnt unfolding p_def
      by (auto simp: node_ok_def off_at_def layer_bits nth_list_update child_def M' iq)
    fix l b assume l: "L l b \<noteq> 0" "(l, b) \<noteq> (0, ?q)"
    have neq: "b * 256 + m \<noteq> i" if "l = 0" "m < 256" for m
      using l(2) that div_mult_self3 [of 256 b m] by auto
    have "node_ok L M' M' 0 l b (h (L l b)) = node_ok L M (bits_above M M' 0 l) 0 l b (h (L l b))"
      using neq by (intro node_ok_cong) (auto simp: child_def present_def bits_above_def M' block_full_def)
    moreover have "off_at i 0 l b = 0" using l(2) by (auto simp: off_at_def)
    ultimately show "node_ok L M' M' (off_at i 0 l b) l b (h (L l b))" using nodes_at [OF nodes l(1)] by simp
  qed simp
qed

text \<open>A layer without contents has no bits.\<close>

lemma full_present:
  assumes "placed L M n" "block_full M l b" "l < n"
  shows "present L M l b"
proof (cases l)
  case 0
  then show ?thesis using assms(2) by (simp add: present_def)
next
  case (Suc k)
  have "L k (b * 256 ^ l div 256 ^ (k + 1)) \<noteq> 0"
    using used_path [OF assms(1) block_first [OF assms(2)], of k] assms(3) Suc by simp
  then show ?thesis using Suc by (simp add: present_def)
qed

lemma empty_bits_word:
  assumes "placed L M n" "node_ok L M M d l q y" "children L M l q = {}" "l < n"
  shows "l_bitmap y ! 0 = 0"
proof -
  have "\<not> block_full M l (q * 256 + m)" if "m < 256" for m
    using full_present [OF assms(1) _ assms(4)] assms(3) that by (auto simp: children_def)
  then have "\<not> test_bit (64 * 0 + m) (l_bitmap y)" if "m < 64" for m using assms(2) that by (simp add: node_ok_def)
  then have "\<not> bit (l_bitmap y ! 0) m" if "m < 64" for m using test_bit_word [of m 0 "l_bitmap y"] that by simp
  then show ?thesis by (simp add: word_zero_iff)
qed

text \<open>The layer at the level \<open>k\<close> of the path is taken out of the tree.\<close>

lemma unlink_placed:
  assumes placed: "placed L M n" and kn: "k + 1 < n" and empty: "children L M k q = {}"
  defines "L' \<equiv> L(k := (L k)(q := 0))"
  shows "placed L' M n"
  unfolding placed_def
proof (intro conjI allI impI)
  have L': "L' l b = (if l = k \<and> b = q then 0 else L l b)" for l b by (simp add: L'_def)
  have none: "\<not> present L M k b" if "b div 256 = q" for b
  proof
    assume "present L M k b"
    moreover have "b = q * 256 + b mod 256" using that div_mult_mod_eq [of b 256] by simp
    ultimately have "b mod 256 \<in> children L M k q" by (simp add: children_def)
    then show False using empty by simp
  qed
  show "0 < n" "n \<le> 4" by (rule placedD [OF placed])+
  show "L' (n - 1) 0 \<noteq> 0" using placedD(3) [OF placed] kn by (auto simp: L')
  show "i < 2 ^ 31" if "M i \<noteq> None" for i by (rule placedD(8) [OF placed that])
  show "L' 0 (i div 256) \<noteq> 0" if i: "M i \<noteq> None" for i
    using placedD(9) [OF placed i] none [of i] i by (auto simp: L' present_def)
  fix l b assume "L' l b \<noteq> 0"
  then have l: "L l b \<noteq> 0" "L' l b = L l b" by (auto simp: L' split: if_splits)
  show "l < n" by (rule placedD(4) [OF placed l(1)])
  show "b < 256 ^ (n - 1 - l)" by (rule placedD(5) [OF placed l(1)])
  show "L' (l + 1) (b div 256) \<noteq> 0" if l1: "l + 1 < n"
    using placedD(6) [OF placed l(1) l1] none [of b] l(1) by (auto simp: L' present_def)
  have same: "l = l' \<and> b = b'" if "L' l b = L' l' b'" for l' b'
  proof -
    have "L l b = L l' b'" using that l by (simp add: L' split: if_splits)
    then show ?thesis by (rule placedD(7) [OF placed l(1)])
  qed
  then show "l = l'" "b = b'" if "L' l b = L' l' b'" for l' b' using that by blast+
qed

lemma unlink_children:
  assumes "L k b \<noteq> 0" "b = q * 256 + m" "m < 256"
  shows "children L M (k + 1) q = insert m (children (L(k := (L k)(b := 0))) M (k + 1) q)"
    "m \<notin> children (L(k := (L k)(b := 0))) M (k + 1) q" "finite (children (L(k := (L k)(b := 0))) M (k + 1) q)"
proof -
  have "present L M (k + 1) (q * 256 + m)" using assms(1,2) by (simp add: present_def)
  then show "children L M (k + 1) q = insert m (children (L(k := (L k)(b := 0))) M (k + 1) q)"
    using assms(2,3) unfolding children_def present_upd by auto
qed (use assms(2) in \<open>simp_all add: children_def present_upd\<close>)

lemma unlink_nodes:
  assumes placed: "placed L M n" and nodes: "nodes L M (\<lambda>_. M) (\<lambda>_ _. 0) h"
    and x: "L k (q * 256 + m) \<noteq> 0" and m: "m < 256" and p: "L (k + 1) q \<noteq> 0"
  defines "L' \<equiv> L(k := (L k)(q * 256 + m := 0))" and "y \<equiv> h (L (k + 1) q)"
  shows "nodes L' M (\<lambda>_. M) (\<lambda>l c. if l = k + 1 \<and> c = q then 1 else 0) (h(L (k + 1) q := y\<lparr>ary := (ary y)[m := 0]\<rparr>))"
proof (rule nodes_upd [of L, OF placed p])
  have ok: "node_ok L M M 0 (k + 1) q y" using nodes_at [OF nodes p] by (simp add: y_def)
  have pres: "present L' M l c = (present L M l c \<and> \<not> (l = k + 1 \<and> c = q * 256 + m))"
    and chl: "child L' M l c = (if l = k + 1 \<and> c = q * 256 + m then 0 else child L M l c)" for l c
    by (auto simp: L'_def present_upd child_upd)
  note ch = unlink_children [of L k, OF x refl m, folded L'_def]
  have "l_count y = int (card (children L' M (k + 1) q)) + 1" using ok ch by (simp add: node_ok_def)
  then show "node_ok L' M M (if k + 1 = k + 1 \<and> q = q then 1 else 0) (k + 1) q (y\<lparr>ary := (ary y)[m := 0]\<rparr>)"
    using ok by (auto simp: node_ok_def nth_list_update chl)
  fix l c assume l: "L l c \<noteq> 0" "(l, c) \<noteq> (k + 1, q)"
  have "c * 256 + m' \<noteq> q * 256 + m" if "l = k + 1" "m' < 256" for m'
    using l(2) that m digit_unique [of c m' q m] by auto
  then have "node_ok L' M M 0 l c (h (L l c)) = node_ok L M M 0 l c (h (L l c))"
    by (intro node_ok_cong) (auto simp: pres chl)
  then show "node_ok L' M M (if l = k + 1 \<and> c = q then 1 else 0) l c (h (L l c))"
    using nodes_at [OF nodes l(1)] l(2) by auto
qed (auto simp: L'_def split: if_splits)

text \<open>A layer \<open>t\<close> that was taken out of the tree waits to be freed.  The hint may still be that layer, or a
  leaf \<open>a\<close> that has lost its last identifier.\<close>

definition waiting :: "placement \<Rightarrow> (nat \<rightharpoonup> nat) \<Rightarrow> nat \<Rightarrow> nat \<Rightarrow> idr_state \<Rightarrow> bool" where
  "waiting L M t a s \<longleftrightarrow> mem_ok (used L \<union> ({t} - {0})) s \<and>
     (t \<noteq> 0 \<longrightarrow> t \<notin> used L \<and> l_bitmap (lay s t) ! 0 = 0) \<and>
     (hint s = t \<or> hint s = a \<or> hint_ok L M s)"

definition freed :: "nat \<Rightarrow> idr_state \<Rightarrow> idr_state" where
  "freed t s = (if t \<noteq> 0 then free_layer t s else s)"

lemma freed_fields [simp]:
  "top (freed t s) = top s" "layers (freed t s) = layers s" "cur (freed t s) = cur s" "lay (freed t s) = lay s"
  "pool (freed t s) = pool s" "idr_preload_head (freed t s) = idr_preload_head s"
  by (auto simp: freed_def free_layer_def Let_def)

lemma freed_waiting:
  assumes "waiting L M t a s"
  shows "mem_ok (used L) (freed t s)" "hint (freed t s) = a \<or> hint_ok L M (freed t s)"
proof -
  have "mem_ok (used L) (freed t s) \<and> (hint (freed t s) = a \<or> hint_ok L M (freed t s))"
  proof (cases "t = 0")
    case True
    then show ?thesis using assms by (auto simp: waiting_def freed_def hint_ok_def)
  next
    case False
    then have eq: "freed t s = s\<lparr>hint := (if hint s = t then 0 else hint s), rcu_freed := t # rcu_freed s\<rparr>"
      using assms by (simp add: waiting_def freed_def free_layer_def Let_def)
    have "mem_ok (used L) (freed t s)"
      using assms False unfolding eq waiting_def mem_defs by auto
    moreover have "hint (freed t s) = a \<or> hint_ok L M (freed t s)"
      using assms unfolding eq waiting_def hint_ok_def by auto
    ultimately show ?thesis by blast
  qed
  then show "mem_ok (used L) (freed t s)" "hint (freed t s) = a \<or> hint_ok L M (freed t s)" by blast+
qed

text \<open>The state of the loop on the way up, before the count at the level \<open>k\<close> is decremented.\<close>

definition up_inv :: "placement \<Rightarrow> (nat \<rightharpoonup> nat) \<Rightarrow> nat \<Rightarrow> nat \<Rightarrow> nat \<Rightarrow> nat \<Rightarrow> idr_state \<Rightarrow> bool" where
  "up_inv L M n i k t s \<longleftrightarrow> placed L M n \<and> nodes L M (\<lambda>_. M) (off_at i k) (lay s) \<and> top s = L (n - 1) 0 \<and>
     k < n \<and> i < 256 ^ n \<and> L k (i div 256 ^ (k + 1)) \<noteq> 0 \<and>
     waiting L M t (if k = 0 then L k (i div 256 ^ (k + 1)) else 0) s"

definition up_post :: "placement \<Rightarrow> (nat \<rightharpoonup> nat) \<Rightarrow> nat \<Rightarrow> slot list \<Rightarrow> nat \<Rightarrow> idr_state \<Rightarrow> bool" where
  "up_post L M n paa t s \<longleftrightarrow> waiting L M t 0 s \<and>
     (if paa = [] then L = (\<lambda>_ _. 0) \<and> M = Map.empty \<and> top s = 0 else tree L M n (lay s) \<and> top s = L (n - 1) 0)"

lemma read_slot_at:
  assumes "up_inv L M n i k t s"
  shows "read_slot (slot_at L n i k) s = L k (i div 256 ^ (k + 1))"
proof (cases "k + 1 < n")
  case True
  let ?q = "i div 256 ^ (k + 2)"
  have placed: "placed L M n" and nodes: "nodes L M (\<lambda>_. M) (off_at i k) (lay s)"
    and x: "L k (i div 256 ^ (k + 1)) \<noteq> 0" using assms by (simp_all add: up_inv_def)
  have p: "L (k + 1) ?q \<noteq> 0" using placedD(6) [OF placed x True] div_pow [of i "k + 1"] by simp
  have "ary (lay s (L (k + 1) ?q)) ! (i div 256 ^ (k + 1) mod 256) = child L M (k + 1) (?q * 256 + i div 256 ^ (k + 1) mod 256)"
    using nodes_at [OF nodes p] by (simp add: node_ok_def)
  then show ?thesis using True div_digit [of i "k + 1"] by (simp add: slot_at_def child_def)
next
  case False
  then have n: "n = k + 1" using assms by (simp add: up_inv_def)
  then have "i div 256 ^ (k + 1) = 0" "top s = L k 0" using assms by (simp_all add: up_inv_def)
  then show ?thesis using n by (simp add: slot_at_def)
qed

text \<open>The count is decremented.\<close>

lemma count_down:
  assumes inv: "up_inv L M n i k t s"
  defines "x \<equiv> L k (i div 256 ^ (k + 1))"
  defines "s1 \<equiv> upd x (\<lambda>y. y\<lparr>l_count := l_count y - 1\<rparr>) s"
  shows "tree L M n (lay s1)" "waiting L M t (if k = 0 then x else 0) s1" "l_count (lay s1 x) = int (card (children L M k (i div 256 ^ (k + 1))))"
    "x \<in> used L"
proof -
  let ?q = "i div 256 ^ (k + 1)"
  have placed: "placed L M n" and nodes: "nodes L M (\<lambda>_. M) (off_at i k) (lay s)" and x: "L k ?q \<noteq> 0"
    and w: "waiting L M t (if k = 0 then x else 0) s" using inv unfolding up_inv_def x_def by blast+
  show used: "x \<in> used L" unfolding x_def by (rule usedI [of L, OF refl x])
  have ok: "node_ok L M M 1 k ?q (lay s x)" using nodes_at [OF nodes x] by (simp add: off_at_def x_def)
  have "nodes L M (\<lambda>_. M) (\<lambda>_ _. 0) ((lay s)(L k ?q := (lay s (L k ?q))\<lparr>l_count := l_count (lay s (L k ?q)) - 1\<rparr>))"
  proof (rule nodes_upd [of L, OF placed x])
    show "node_ok L M M 0 k ?q ((lay s (L k ?q))\<lparr>l_count := l_count (lay s (L k ?q)) - 1\<rparr>)"
      using ok by (simp add: node_ok_def x_def)
    fix l b assume l: "L l b \<noteq> 0" "(l, b) \<noteq> (k, ?q)"
    then have "off_at i k l b = 0" by (auto simp: off_at_def)
    then show "node_ok L M M 0 l b (lay s (L l b))" using nodes_at [OF nodes l(1)] by simp
  qed simp
  then show "tree L M n (lay s1)" using placed by (simp add: tree_def s1_def x_def)
  show "l_count (lay s1 x) = int (card (children L M k ?q))" using ok by (simp add: s1_def node_ok_def)
  have "mem_ok (used L \<union> ({t} - {0})) s1"
    unfolding s1_def using w used by (intro mem_upd) (auto simp: waiting_def)
  moreover have "l_bitmap (lay s1 t) = l_bitmap (lay s t)" by (simp add: s1_def)
  moreover have "hint_ok L M s \<longleftrightarrow> hint_ok L M s1" by (simp add: hint_ok_def s1_def)
  ultimately show "waiting L M t (if k = 0 then x else 0) s1"
    using w unfolding waiting_def by (simp add: s1_def)
qed

text \<open>An empty layer below the top is taken out.\<close>

lemma unlink_step:
  assumes inv: "up_inv L M n i k t s" and kn: "k + 1 < n"
  defines "x \<equiv> L k (i div 256 ^ (k + 1))" and "L' \<equiv> L(k := (L k)(i div 256 ^ (k + 1) := 0))"
  defines "s1 \<equiv> upd x (\<lambda>y. y\<lparr>l_count := l_count y - 1\<rparr>) s"
  assumes cnt: "l_count (lay s1 x) = 0"
  shows "up_inv L' M n i (k + 1) x (clear_slot (slot_at L n i k) (freed t s1))"
    "map (slot_at L' n i) [k + 1..<n] = map (slot_at L n i) [k + 1..<n]"
proof -
  note cd = count_down [OF inv, folded x_def, folded s1_def]
  have placed: "placed L M n" and nodes: "nodes L M (\<lambda>_. M) (\<lambda>_ _. 0) (lay s1)" using cd(1) by (simp_all add: tree_def)
  have i: "i < 256 ^ n" and top: "top s = L (n - 1) 0" using inv by (simp_all add: up_inv_def)
  obtain q q' m where q: "i div 256 ^ (k + 1) = q" and q': "i div 256 ^ (k + 2) = q'" and m: "q mod 256 = m" by blast
  have b: "q = q' * 256 + m" using div_digit [of i "k + 1"] unfolding q q' [symmetric] m by (simp add: q')
  have x: "L k q \<noteq> 0" "x = L k q" using inv unfolding up_inv_def q x_def by blast+
  have m256: "m < 256" using m by auto
  have "q div 256 = q'" using m b by auto
  then have p: "L (k + 1) q' \<noteq> 0" using placedD(6) [OF placed x(1) kn] by simp
  have L': "L' l c = (if l = k \<and> c = q then 0 else L l c)" for l c unfolding L'_def q by simp
  have "finite (children L M k q)" by (simp add: children_def)
  then have empty: "children L M k q = {}" using cd(3) cnt unfolding q by simp
  have placed': "placed L' M n" unfolding L'_def q by (rule unlink_placed [OF placed kn empty])
  let ?p = "L (k + 1) q'" and ?s = "clear_slot (slot_at L n i k) (freed t s1)"
  have s: "?s = upd ?p (\<lambda>y. y\<lparr>ary := (ary y)[m := 0]\<rparr>) (freed t s1)" using kn unfolding slot_at_def q q' m by simp
  have "nodes L' M (\<lambda>_. M) (\<lambda>l c. if l = k + 1 \<and> c = q' then 1 else 0) (lay ?s)"
    using unlink_nodes [OF placed nodes x(1) [unfolded b] m256 p] unfolding s L'_def q b by simp
  then have "nodes L' M (\<lambda>_. M) (off_at i (k + 1)) (lay ?s)" using q' by (simp add: off_at_def)
  moreover have "x \<notin> used L'"
  proof
    assume "x \<in> used L'"
    then obtain l c where lc: "L' l c = x" by (auto simp: used_def)
    then have "L k q = L l c" "\<not> (l = k \<and> c = q)" using x by (simp_all add: L' split: if_splits)
    then show False using placedD(7) [OF placed x(1), of l c] by blast
  qed
  moreover have usedL: "used L = insert x (used L')"
  proof -
    have "L = L'(k := (L' k)(q := x))" by (intro ext) (auto simp: L' x(2))
    then show ?thesis using used_insert [of L' k q x] x by (simp add: L')
  qed
  moreover have fr: "mem_ok (used L) (freed t s1)" "hint (freed t s1) = (if k = 0 then x else 0) \<or> hint_ok L M (freed t s1)"
    using freed_waiting [OF cd(2)] by blast+
  have "mem_ok (used L) ?s" unfolding s by (rule mem_upd [OF fr(1)]) (rule usedI [of L, OF refl p])
  moreover have "l_bitmap (lay ?s x) ! 0 = 0"
    using empty_bits_word [OF placed tree_node [OF cd(1) x(1)] empty] kn by (auto simp: s x(2))
  moreover have "hint ?s = x \<or> hint ?s = 0 \<or> hint_ok L' M ?s"
  proof (cases "hint ?s = 0 \<or> hint ?s = x")
    case False
    then obtain j where j: "M j \<noteq> None" "hint ?s = L 0 (j div 256)" using fr(2) by (auto simp: s hint_ok_def split: if_splits)
    have "L' 0 (j div 256) = L 0 (j div 256)" using placedD(9) [OF placed' j(1)] by (auto simp: L' split: if_splits)
    then show ?thesis using j by (auto simp: hint_ok_def)
  qed blast
  moreover have "top s1 = top s" by (simp add: s1_def)
  then have "top ?s = top s" unfolding s by simp
  then have "top ?s = L' (n - 1) 0" "L' (k + 1) q' \<noteq> 0" using p top kn by (auto simp: L')
  moreover have "x \<noteq> 0" using x by simp
  ultimately show "up_inv L' M n i (k + 1) x ?s"
    using placed' kn i q' by (simp add: up_inv_def waiting_def)
  show "map (slot_at L' n i) [k + 1..<n] = map (slot_at L n i) [k + 1..<n]"
    by (auto simp: slot_at_def L')
qed

text \<open>The top is taken out.\<close>

lemma unlink_top:
  assumes inv: "up_inv L M n i k t s" and kn: "k + 1 = n"
  defines "x \<equiv> L k (i div 256 ^ (k + 1))"
  defines "s1 \<equiv> upd x (\<lambda>y. y\<lparr>l_count := l_count y - 1\<rparr>) s"
  assumes cnt: "l_count (lay s1 x) = 0"
  shows "up_post (\<lambda>_ _. 0) M n [] x (clear_slot (slot_at L n i k) (freed t s1))"
proof -
  let ?q = "i div 256 ^ (k + 1)" and ?s = "clear_slot (slot_at L n i k) (freed t s1)"
  note cd = count_down [OF inv, folded x_def, folded s1_def]
  have placed: "placed L M n" using cd(1) by (simp add: tree_def)
  have x: "L k ?q \<noteq> 0" using inv by (simp add: up_inv_def)
  have "i < 256 ^ (k + 1)" using inv unfolding up_inv_def kn by blast
  then have q: "?q = 0" by simp
  have xt: "x = L (n - 1) 0" using q kn by (auto simp: x_def)
  note e = empty_top_layer [OF cd(1), folded xt, OF cnt] and only = empty_top(2) [OF cd(1), folded xt, OF cnt]
  have s: "?s = (freed t s1)\<lparr>top := 0\<rparr>" using kn by (simp add: slot_at_def)
  note fr = freed_waiting [OF cd(2)]
  have "mem_ok (used L) ?s" using fr(1) unfolding s by (simp add: mem_defs)
  then have "mem_ok {x} ?s" by (rule mem_subset) (use cd(4) in simp)
  moreover have "hint ?s = x \<or> hint ?s = 0" using fr(2) e(4) by (auto simp: s hint_ok_def)
  moreover have "\<not> test_bit (64 * 0 + m) (l_bitmap (lay s1 x))" if "m < 64" for m
    using e(1) that by (simp add: empty_layer_def)
  then have "\<not> bit (l_bitmap (lay s1 x) ! 0) m" if "m < 64" for m
    using test_bit_word [of m 0 "l_bitmap (lay s1 x)"] that by simp
  then have "l_bitmap (lay ?s x) ! 0 = 0" by (simp add: s word_zero_iff)
  moreover have "used (\<lambda>_ _. 0) = {}" "x \<noteq> 0" using x by (auto simp: used_def x_def)
  moreover have "top ?s = 0" by (simp add: s)
  ultimately show ?thesis using e(4) by (auto simp: up_post_def waiting_def)
qed

text \<open>A leaf with contents may be the hint.\<close>

lemma waiting_leaf:
  assumes w: "waiting L M t (if k = 0 then L k (i div 256 ^ (k + 1)) else 0) s"
    and c: "card (children L M k (i div 256 ^ (k + 1))) \<noteq> 0"
  shows "waiting L M t 0 s"
proof (cases "k = 0 \<and> hint s = L k (i div 256 ^ (k + 1))")
  case True
  then have h: "hint s = L 0 (i div 256)" and "children L M 0 (i div 256) \<noteq> {}" using c by auto
  then obtain m where "m < 256" "M (i div 256 * 256 + m) \<noteq> None" by (auto simp: children_def present_def)
  moreover from this have "(i div 256 * 256 + m) div 256 = i div 256" by simp
  ultimately have "hint_ok L M s" using h unfolding hint_ok_def by metis
  then show ?thesis using w by (simp add: waiting_def)
qed (use w in \<open>auto simp: waiting_def hint_ok_def split: if_splits\<close>)

lemma remove_up_ok:
  assumes "up_inv L M n i k t s" "remove_up (map (slot_at L n i) [k..<n]) t s = (paa, t', s')"
  shows "\<exists>L'. up_post L' M n paa t' s' \<and> layers s' = layers s \<and> cur s' = cur s"
  using assms
proof (induction "n - k" arbitrary: k L t s rule: less_induct)
  case less
  note inv = less.prems(1)
  have kn: "k < n" using inv by (simp add: up_inv_def)
  let ?x = "L k (i div 256 ^ (k + 1))"
  define s1 where "s1 = upd ?x (\<lambda>y. y\<lparr>l_count := l_count y - 1\<rparr>) s"
  note cd = count_down [OF inv, folded s1_def]
  have list: "map (slot_at L n i) [k..<n] = slot_at L n i k # map (slot_at L n i) [k + 1..<n]"
    using kn by (simp add: upt_conv_Cons)
  have eq: "remove_up (map (slot_at L n i) [k..<n]) t s =
      (if l_count (lay s1 ?x) = 0
       then remove_up (map (slot_at L n i) [k + 1..<n]) ?x (clear_slot (slot_at L n i k) (freed t s1))
       else (slot_at L n i k # map (slot_at L n i) [k + 1..<n], t, s1))"
    unfolding list by (simp add: Let_def read_slot_at [OF inv] s1_def freed_def)
  let ?s = "clear_slot (slot_at L n i k) (freed t s1)"
  have same: "layers ?s = layers s" "cur ?s = cur s" by (simp_all add: slot_at_def s1_def)
  consider (stop) "l_count (lay s1 ?x) \<noteq> 0" | (top) "l_count (lay s1 ?x) = 0" "k + 1 = n"
    | (up) "l_count (lay s1 ?x) = 0" "k + 1 < n" using kn by linarith
  then show ?case
  proof cases
    case stop
    have r: "(paa, t', s') = (slot_at L n i k # map (slot_at L n i) [k + 1..<n], t, s1)"
      using less.prems(2) unfolding eq if_not_P [OF stop] by simp
    have "top s1 = L (n - 1) 0" using inv by (simp add: s1_def up_inv_def)
    moreover have "waiting L M t 0 s1" using waiting_leaf [OF cd(2)] stop cd(3) by simp
    ultimately have "up_post L M n paa t' s'" using r cd(1) by (simp add: up_post_def)
    then show ?thesis using r by (auto simp: s1_def)
  next
    case top
    have e: "map (slot_at L n i) [k + 1..<n] = []" using top(2) by simp
    have "(paa, t', s') = ([], ?x, ?s)" using less.prems(2) unfolding eq if_P [OF top(1)] e by simp
    then show ?thesis using unlink_top [OF inv top(2)] top(1) same unfolding s1_def by auto
  next
    case up
    note us = unlink_step [OF inv up(2), folded s1_def, OF up(1)]
    have "n - (k + 1) < n - k" using kn by simp
    moreover have "remove_up (map (slot_at L n i) [k + 1..<n]) ?x ?s = (paa, t', s')"
      using less.prems(2) unfolding eq if_P [OF up(1)] .
    ultimately show ?thesis using less.hyps [OF _ us(1), unfolded us(2)] unfolding same by blast
  qed
qed

lemma waiting_layers: "waiting L M t a (s\<lparr>layers := n\<rparr>) = waiting L M t a s"
  by (simp add: waiting_def mem_defs hint_ok_def)

lemma nodes_levels:
  assumes "nodes L M N D h" "\<And>l q. L l q \<noteq> 0 \<Longrightarrow> N' l = N l"
  shows "nodes L M N' D h"
  using assms unfolding nodes_def by metis

lemma sub_remove_ok:
  assumes rep: "rep L M s" and mem: "mem_ok (used L) s" and hint: "hint_ok L M s" and top: "top s \<noteq> 0"
    and i: "i \<le> idr_max (layers s)"
  shows "idr_inv (M(i := None)) (sub_remove (layers s - 1) i s) \<and> cur (sub_remove (layers s - 1) i s) = cur s"
proof -
  define n where "n = layers s"
  define M' where "M' = M(i := None)"
  have tree: "tree L M n (lay s)" and t: "top s = L (n - 1) 0" and n: "0 < n" using rep_top [OF rep top] by (simp_all add: n_def)
  have placed: "placed L M n" and nodes: "nodes L M (\<lambda>_. M) (\<lambda>_ _. 0) (lay s)" using tree by (simp_all add: tree_def)
  have in_: "i < 256 ^ n" using below_max [OF i] placedD(2) [OF placed] by (simp add: n_def)
  have n1: "n - 1 + 1 = n" using n by simp
  obtain p paa s1 where w: "remove_walk (n - 1) (top s) i [Top_slot] s = (p, paa, s1)" by (metis prod_cases3)
  have start: "nodes L M (bits_above M M' (n - 1)) (\<lambda>_ _. 0) (lay s)"
    by (rule nodes_levels [OF nodes]) (use placedD(4) [OF placed] in \<open>fastforce simp: bits_above_def\<close>)
  have "map (slot_at L n i) [n - 1..<n] = [Top_slot]" using n by (simp add: upt_conv_Cons slot_at_def)
  moreover have "L (n - 1) (i div 256 ^ (n - 1 + 1)) = top s" unfolding n1 using t in_ by simp
  ultimately have wk: "p = L 0 (i div 256)" "nodes L M (bits_above M M' 0) (\<lambda>_ _. 0) (lay s1)" "writes L s s1"
    "p \<noteq> 0 \<Longrightarrow> paa = map (slot_at L n i) [0..<n]"
    using walk_ok [OF placed M'_def _ start, of p paa s1] w n by simp_all
  note wd = writesD [OF wk(3)]
  have bit: "test_bit (i mod 256) (l_bitmap (lay s1 p)) = (M i \<noteq> None)" if "p \<noteq> 0"
    using nodes_at [OF wk(2), of 0 "i div 256"] that wk(1) by (simp add: node_ok_def bits_above_def)
  have mem1: "mem_ok (used L) s1" by (rule writes_mem [OF wk(3) mem])
  show ?thesis
  proof (cases "M i = None")
    case True
    then have M: "M' = M" by (auto simp: M'_def)
    have "\<not> (p \<noteq> 0 \<and> test_bit (i mod 256) (l_bitmap (lay s1 p)))" using bit True by blast
    then have eq: "sub_remove (layers s - 1) i s = s1"
      using w by (auto simp: sub_remove_def n_def [symmetric] Let_def idr_constants and_255)
    have "nodes L M (\<lambda>_. M) (\<lambda>_ _. 0) (lay s1)" by (rule nodes_levels [OF wk(2)]) (simp add: bits_above_def M)
    then have "rep L M s1" using placed top t wd by (simp add: rep_def tree_def n_def)
    then show ?thesis
      using mem1 hint M wd eq unfolding M'_def [symmetric] idr_inv_def by (auto simp: hint_ok_def)
  next
    case False
    then have p: "p \<noteq> 0" using placedD(9) [OF placed False] wk(1) by simp
    define s2 where "s2 = upd p (\<lambda>y. y\<lparr>l_bitmap := clear_bit (i mod 256) (l_bitmap y), ary := (ary y)[i mod 256 := 0]\<rparr>) s1"
    obtain paa' t' s3 where up: "remove_up (map (slot_at L n i) [0..<n]) 0 s2 = (paa', t', s3)" by (metis prod_cases3)
    note rl = remove_leaf [OF placed False M'_def wk(2), folded wk(1)]
    have used: "p \<in> used L" using usedI [of L, OF wk(1) [symmetric] p] .
    have "waiting L M' 0 (L 0 (i div 256 ^ (0 + 1))) s2"
    proof -
      have "mem_ok (used L) s2" unfolding s2_def by (rule mem_upd [OF mem1 used])
      moreover have "hint s2 = L 0 (i div 256) \<or> hint_ok L M' s2"
        using hint wd(1) by (auto simp: s2_def hint_ok_def M'_def)
      ultimately show ?thesis by (simp add: waiting_def)
    qed
    then have "up_inv L M' n i 0 0 s2"
      using rl p wk(1) n in_ t wd(2) by (simp add: up_inv_def s2_def)
    from remove_up_ok [OF this up] obtain L' where post: "up_post L' M' n paa' t' s3"
      and same: "layers s3 = layers s" "cur s3 = cur s" using wd by (auto simp: s2_def)
    define s4 where "s4 = (if paa' = [] then s3\<lparr>layers := 0\<rparr> else s3)"
    have eq: "sub_remove (layers s - 1) i s = freed t' s4"
      using w p bit [OF p] False wk(4) [OF p] up
      by (simp add: sub_remove_def n_def [symmetric] Let_def idr_constants and_255 s2_def [symmetric] s4_def freed_def)
    have "waiting L' M' t' 0 s3" using post by (simp add: up_post_def)
    then have "waiting L' M' t' 0 s4" by (simp add: s4_def waiting_layers)
    from freed_waiting [OF this] have "mem_ok (used L') (freed t' s4)" "hint_ok L' M' (freed t' s4)"
      by (auto simp: hint_ok_def)
    moreover have "paa' \<noteq> [] \<Longrightarrow> L' (n - 1) 0 \<noteq> 0" using post by (auto simp: up_post_def tree_def placed_def)
    then have "rep L' M' (freed t' s4)"
      using post same(1) by (cases "paa' = []") (simp_all add: rep_def up_post_def s4_def n_def)
    ultimately have "idr_inv M' (freed t' s4)" by (auto simp: idr_inv_def)
    moreover have "cur (freed t' s4) = cur s" using same(2) by (simp add: s4_def)
    ultimately show ?thesis unfolding eq M'_def by blast
  qed
qed

text \<open>A top with the first child only is not needed.\<close>

lemma shrink_tree:
  assumes tree: "tree L M n h" and n: "1 < n" and cnt: "l_count (h (L (n - 1) 0)) = 1" and first: "L (n - 2) 0 \<noteq> 0"
  defines "L' \<equiv> L(n - 1 := (L (n - 1))(0 := 0))"
  shows "tree L' M (n - 1) h"
proof -
  have placed: "placed L M n" and nodes: "nodes L M (\<lambda>_. M) (\<lambda>_ _. 0) h" using tree by (simp_all add: tree_def)
  have n2: "n - 1 - 1 = n - 2" "n - 1 \<noteq> 0" "n - 1 - (n - 2) = 1" using n by simp_all
  have "node_ok L M M 0 (n - 1) 0 (h (L (n - 1) 0))" by (rule tree_node [OF tree placedD(3) [OF placed]])
  then have "card (children L M (n - 1) 0) = 1" using cnt by (simp add: node_ok_def)
  moreover have "0 \<in> children L M (n - 1) 0" using first n2 by (simp add: children_def present_def)
  ultimately have ch: "children L M (n - 1) 0 = {0}" by (metis card_1_singletonE singletonD)
  have only: "c = 0" if c: "L (n - 2) c \<noteq> 0" for c
  proof -
    have "c < 256" using placedD(5) [OF placed c] n2(3) by simp
    then have "c \<in> children L M (n - 1) 0" using c n2 by (simp add: children_def present_def)
    then show ?thesis using ch by simp
  qed
  have top: "L (n - 1) q \<noteq> 0 \<Longrightarrow> q = 0" for q using placedD(5) [OF placed, of "n - 1" q] by simp
  have L': "L' l q = (if l = n - 1 then 0 else L l q)" for l q using top [of q] by (auto simp: L'_def)
  have "placed L' M (n - 1)"
    unfolding placed_def
  proof (intro conjI allI impI)
    show "0 < n - 1" "n - 1 \<le> 4" using n placedD(2) [OF placed] by simp_all
    show "L' (n - 1 - 1) 0 \<noteq> 0" using first n2 n by (simp add: L')
    show "i < 2 ^ 31" if "M i \<noteq> None" for i by (rule placedD(8) [OF placed that])
    show "L' 0 (i div 256) \<noteq> 0" if "M i \<noteq> None" for i using placedD(9) [OF placed that] n by (simp add: L')
    fix l q assume "L' l q \<noteq> 0"
    then have l: "L l q \<noteq> 0" "l \<noteq> n - 1" by (auto simp: L' split: if_splits)
    then show ln: "l < n - 1" using placedD(4) [OF placed l(1)] by simp
    have "L (l + (n - 2 - l)) (q div 256 ^ (n - 2 - l)) \<noteq> 0" using ancestor [OF placed l(1), of "n - 2 - l"] ln by simp
    then have "q div 256 ^ (n - 2 - l) = 0" using only ln by simp
    then show "q < 256 ^ (n - 1 - 1 - l)" using n2(1) by (simp add: div_eq_0_iff)
    show "L' (l + 1) (q div 256) \<noteq> 0" if "l + 1 < n - 1" using placedD(6) [OF placed l(1)] that by (simp add: L')
    have "l = l' \<and> q = q'" if "L' l q = L' l' q'" for l' q'
      using that l placedD(7) [OF placed l(1), of l' q'] by (auto simp: L' split: if_splits)
    then show "l = l'" "q = q'" if "L' l q = L' l' q'" for l' q' using that by blast+
  qed
  moreover have "nodes L' M (\<lambda>_. M) (\<lambda>_ _. 0) h"
    unfolding nodes_def
  proof (intro allI impI)
    fix l q assume "L' l q \<noteq> 0"
    then have l: "L l q \<noteq> 0" "L' l q = L l q" "l < n - 1"
      using placedD(4) [OF placed, of l q] by (auto simp: L' split: if_splits)
    have "node_ok L' M M 0 l q (h (L l q)) = node_ok L M M 0 l q (h (L l q))"
      using l(3) by (intro node_ok_cong) (auto simp: L' child_def present_def)
    then show "node_ok L' M M 0 l q (h (L' l q))" using nodes_at [OF nodes l(1)] l(2) by simp
  qed
  ultimately show ?thesis by (simp add: tree_def)
qed

lemma shrink_ok:
  assumes inv: "idr_inv M s" and c: "top s \<noteq> 0" "l_count (lay s (top s)) = 1" "layers s > 1" "ary (lay s (top s)) ! 0 \<noteq> 0"
  defines "s1 \<equiv> upd (top s) (\<lambda>y. y\<lparr>l_count := 0, l_bitmap := bitmap_clear (l_bitmap y) 0 IDR_SIZE\<rparr>)
    (s\<lparr>top := ary (lay s (top s)) ! 0, layers := layers s - 1\<rparr>)"
  shows "idr_inv M (free_layer (top s) s1)"
proof -
  from inv obtain L where rep: "rep L M s" and mem: "mem_ok (used L) s" and hint: "hint_ok L M s" by (auto simp: idr_inv_def)
  note t = rep_top [OF rep c(1)]
  obtain n x where n: "layers s = n" and x: "top s = x" by blast
  have tree: "tree L M n (lay s)" and xt: "x = L (n - 1) 0" and x0: "x \<noteq> 0" using t c(1) n x by simp_all
  have placed: "placed L M n" using tree by (simp add: tree_def)
  have "node_ok L M M 0 (n - 1) 0 (lay s x)" using tree_node [OF tree, of "n - 1" 0] xt x0 by simp
  then have first: "ary (lay s x) ! 0 = L (n - 2) 0" using c(3) n by (simp add: node_ok_def child_def numeral_2_eq_2)
  define L' where "L' = L(n - 1 := (L (n - 1))(0 := 0))"
  have tree': "tree L' M (n - 1) (lay s)"
    unfolding L'_def by (rule shrink_tree [OF tree]) (use c first n x xt in simp_all)
  have L': "L' l q = (if l = n - 1 \<and> q = 0 then 0 else L l q)" for l q by (simp add: L'_def)
  have x': "x \<notin> used L'"
  proof
    assume "x \<in> used L'"
    then obtain l q where "L' l q = x" by (auto simp: used_def)
    then have "L (n - 1) 0 = L l q" "\<not> (l = n - 1 \<and> q = 0)" using xt x0 by (auto simp: L' split: if_splits)
    then show False using placedD(7) [OF placed placedD(3) [OF placed], of l q] by blast
  qed
  have usedL: "used L = insert x (used L')"
  proof -
    have "L = L'(n - 1 := (L' (n - 1))(0 := x))" by (intro ext) (auto simp: L' xt)
    then show ?thesis using used_insert [of L' "n - 1" 0 x] x0 by (simp add: L')
  qed
  let ?s = "free_layer x s1"
  have lay: "lay ?s a = lay s a" if "a \<noteq> x" for a using that by (simp add: free_layer_def Let_def s1_def x)
  have s: "top ?s = L (n - 2) 0" "layers ?s = n - 1" "pool ?s = pool s" "idr_preload_head ?s = idr_preload_head s"
    "idr_preload_cnt ?s = idr_preload_cnt s" "rcu_freed ?s = x # rcu_freed s \<or> rcu_freed ?s = rcu_freed s"
    using first by (simp_all add: free_layer_def Let_def s1_def x n)
  have nl: "n > 1" using c(3) n by simp
  have "tree L' M (n - 1) (lay ?s)" by (rule tree_frame [OF tree']) (metis lay x')
  moreover have "L' (n - 1 - 1) 0 = L (n - 2) 0" using nl by (auto simp: L' numeral_2_eq_2)
  moreover have "L (n - 2) 0 \<noteq> 0" using first c(4) x by simp
  ultimately have "rep L' M ?s" using s by (simp add: rep_def)
  moreover have "mem_ok (used L') ?s"
  proof -
    have "lay ?s a = zero_layer" if "a \<in> set (idr_preload_head s)" for a
    proof -
      have "a \<noteq> x" "lay s a = zero_layer" using that mem usedL by (auto simp: mem_defs)
      then show ?thesis using lay by simp
    qed
    then show ?thesis using s mem x' unfolding usedL mem_defs by auto
  qed
  moreover have "hint_ok L' M ?s"
  proof (cases "hint s = 0")
    case False
    then obtain j where j: "M j \<noteq> None" "hint s = L 0 (j div 256)" using hint by (auto simp: hint_ok_def)
    have "L' 0 (j div 256) = L 0 (j div 256)" using nl by (simp add: L')
    moreover from this have "hint s \<noteq> x" using x' j False usedI [of L' 0 "j div 256" "hint s"] by auto
    then have "hint ?s = hint s" by (simp add: free_layer_def Let_def s1_def x)
    ultimately show ?thesis using j by (auto simp: hint_ok_def)
  qed (simp add: free_layer_def Let_def s1_def x hint_ok_def)
  ultimately show ?thesis unfolding x by (auto simp: idr_inv_def)
qed

lemma idr_remove_spec:
  assumes inv: "idr_inv M s"
  shows "idr_inv (if i < 0 then M else M(nat i := None)) (idr_remove i s)" "cur (idr_remove i s) = cur s"
proof -
  from inv obtain L where rep: "rep L M s" and mem: "mem_ok (used L) s" and hint: "hint_ok L M s" by (auto simp: idr_inv_def)
  have "idr_inv (if i < 0 then M else M(nat i := None)) (idr_remove i s) \<and> cur (idr_remove i s) = cur s"
  proof (cases "i < 0 \<or> nat i > idr_max (layers s) \<or> top s = 0")
    case True
    have "idr_remove i s = s"
      using True rep by (auto simp: idr_remove_def Let_def rep_def sub_remove_def)
    moreover have "M (nat i) = None" if "\<not> i < 0"
    proof (cases "top s = 0")
      case True
      then show ?thesis using rep by (simp add: rep_def)
    next
      case False
      then show ?thesis using above_max [of L M "layers s" "nat i"] rep_top(1) [OF rep False] True that
        \<open>i < 0 \<or> nat i > idr_max (layers s) \<or> top s = 0\<close> by (auto simp: tree_def)
    qed
    then have "(if i < 0 then M else M(nat i := None)) = M" by (auto simp: fun_upd_idem)
    ultimately show ?thesis using inv by simp
  next
    case False
    then have i: "\<not> i < 0" "nat i \<le> idr_max (layers s)" "top s \<noteq> 0" by auto
    note sr = sub_remove_ok [OF rep mem hint i(3,2)]
    define s1 where "s1 = sub_remove (layers s - 1) (nat i) s"
    have inv1: "idr_inv (M(nat i := None)) s1" and cur1: "cur s1 = cur s" using sr by (simp_all add: s1_def)
    let ?shrink = "top s1 \<noteq> 0 \<and> l_count (lay s1 (top s1)) = 1 \<and> layers s1 > 1 \<and> ary (lay s1 (top s1)) ! 0 \<noteq> 0"
    let ?s = "free_layer (top s1) (upd (top s1) (\<lambda>y. y\<lparr>l_count := 0, l_bitmap := bitmap_clear (l_bitmap y) 0 IDR_SIZE\<rparr>)
      (s1\<lparr>top := ary (lay s1 (top s1)) ! 0, layers := layers s1 - 1\<rparr>))"
    have eq: "idr_remove i s = (if ?shrink then ?s else s1)"
      unfolding idr_remove_def s1_def [symmetric] Let_def using i(1,2) by simp
    have "cur ?s = cur s1" by (simp add: free_layer_def Let_def)
    moreover have "idr_inv (M(nat i := None)) ?s" if ?shrink using shrink_ok [OF inv1] that by blast
    ultimately show ?thesis using eq inv1 cur1 i(1) by simp
  qed
  then show "idr_inv (if i < 0 then M else M(nat i := None)) (idr_remove i s)" "cur (idr_remove i s) = cur s" by blast+
qed

end
