(* ===== verification/Idr_Spec.thy ===== *)
theory Idr_Spec
  imports Idr_Remove
begin

text \<open>
  The idr as a map: cyclic allocation, the interface to clients, preloading and the properties.
\<close>

section \<open>Cyclic allocation\<close>

text \<open>The first free identifier from the position of the last one on, and from the start when there is none.\<close>

definition cyclic_result ::
  "(nat \<rightharpoonup> nat) \<Rightarrow> nat \<Rightarrow> int \<Rightarrow> int \<Rightarrow> idr_state \<Rightarrow> errno + nat \<Rightarrow> idr_state \<Rightarrow> bool" where
  "cyclic_result M ptr start limit s r s' \<longleftrightarrow>
     (case r of
        Inr i \<Rightarrow> idr_inv (M(i \<mapsto> ptr)) s' \<and> M i = None \<and> start \<le> int i \<and> int i < limit \<and>
          (if max start (cur s) \<le> int i then \<forall>k < i. max start (cur s) \<le> int k \<longrightarrow> M k \<noteq> None
           else (\<forall>k. max start (cur s) \<le> int k \<and> int k < limit \<longrightarrow> M k \<noteq> None) \<and>
             (\<forall>k < i. start \<le> int k \<longrightarrow> M k \<noteq> None)) \<and>
          (cur s' = int i + 1 \<or> int i + 1 = 2 ^ 31 \<and> cur s' = - (2 ^ 31))
      | Inl e \<Rightarrow> idr_inv M s' \<and> cur s' = cur s \<and>
          (e = ENOSPC \<longrightarrow> (\<forall>k. start \<le> int k \<and> int k < limit \<longrightarrow> M k \<noteq> None)) \<and>
          e \<in> {EINVAL, ENOSPC, ENOMEM})"

lemma inv_cur: "idr_inv M (s\<lparr>cur := c\<rparr>) = idr_inv M s"
  by (simp add: idr_inv_def rep_def mem_defs hint_ok_def)

lemma cyclic_ok:
  assumes inv: "idr_inv M s" and pa: "length pa = MAX_IDR_LEVEL + 1"
    and int: "0 \<le> start" "start < 2 ^ 31" "fin < 2 ^ 31" "cur s < 2 ^ 31"
  shows "\<exists>r s'. idr_alloc_cyclic pa ptr start fin s = Some (r, s') \<and>
    cyclic_result M ptr start (if fin > 0 then fin else 2 ^ 31) s r s'"
proof -
  let ?limit = "if fin > 0 then fin else 2 ^ 31" and ?a = "max start (cur s)"
  have a: "?a < 2 ^ 31" "start \<le> ?a" "0 \<le> ?a" using int by auto
  from idr_alloc_spec [OF inv pa a(1) int(3)]
  obtain r1 s1 where r1: "idr_alloc pa ptr ?a fin s = Some (r1, s1)" "cur s1 = cur s" "alloc_result M ptr ?a ?limit s r1 s1"
    by blast
  show ?thesis
  proof (cases "r1 = Inl ENOSPC")
    case False
    show ?thesis
    proof (cases r1)
      case (Inr i)
      then show ?thesis using r1 a by (auto simp: idr_alloc_cyclic_def cyclic_result_def inv_cur)
    next
      case (Inl e)
      then show ?thesis using r1 a False by (auto simp: idr_alloc_cyclic_def cyclic_result_def)
    qed
  next
    case True
    then have inv1: "idr_inv M s1" and full: "\<forall>k. ?a \<le> int k \<and> int k < ?limit \<longrightarrow> M k \<noteq> None"
      using r1(3) a by auto
    from idr_alloc_spec [OF inv1 pa int(2,3)]
    obtain r2 s2 where r2: "idr_alloc pa ptr start fin s1 = Some (r2, s2)" "cur s2 = cur s1"
      "alloc_result M ptr start ?limit s1 r2 s2" by blast
    show ?thesis
    proof (cases r2)
      case (Inr i)
      have "\<not> ?a \<le> int i" using r2(3) Inr full by auto
      then show ?thesis using True r1(1,2) r2 Inr full by (simp add: idr_alloc_cyclic_def cyclic_result_def inv_cur)
    next
      case (Inl e)
      then show ?thesis using True r1(1,2) r2 by (auto simp: idr_alloc_cyclic_def cyclic_result_def)
    qed
  qed
qed

section \<open>The interface\<close>

text \<open>What a driver relies on: pointers are kept under identifiers that are not given twice.\<close>

locale id_map =
  fixes inv :: "(nat \<rightharpoonup> nat) \<Rightarrow> 's \<Rightarrow> bool"
    and alloc :: "nat \<Rightarrow> 's \<Rightarrow> nat \<Rightarrow> 's \<Rightarrow> bool"
    and remove :: "nat \<Rightarrow> 's \<Rightarrow> 's"
    and find :: "nat \<Rightarrow> 's \<Rightarrow> nat"
  assumes alloc: "inv M s \<Longrightarrow> alloc p s i s' \<Longrightarrow> M i = None \<and> inv (M(i \<mapsto> p)) s'"
    and remove: "inv M s \<Longrightarrow> inv (M(i := None)) (remove i s)"
    and find: "inv M s \<Longrightarrow> find i s = ptr_of (M i)"
begin

lemma alloc_find: "inv M s \<Longrightarrow> alloc p s i s' \<Longrightarrow> find j s' = (if j = i then p else find j s)"
  using alloc [of M s p i s'] find [of _ s' j] find [of M s j] by (auto simp: ptr_of_def)

lemma remove_find: "inv M s \<Longrightarrow> find j (remove i s) = (if j = i then 0 else find j s)"
  using remove [of M s i] find [of _ "remove i s" j] find [of M s j] by (auto simp: ptr_of_def)

lemma alloc_twice: "inv M s \<Longrightarrow> alloc p s i s' \<Longrightarrow> alloc p' s' i' s'' \<Longrightarrow> i' \<noteq> i"
  using alloc [of M s p i s'] alloc [of "M(i \<mapsto> p)" s' p' i' s''] by auto

lemma alloc_remove: "inv M s \<Longrightarrow> alloc p s i s' \<Longrightarrow> inv M (remove i s')"
  using alloc [of M s p i s'] remove [of "M(i \<mapsto> p)" s' i] by (auto simp: fun_upd_idem)

end

definition idr_allocates :: "nat \<Rightarrow> idr_state \<Rightarrow> nat \<Rightarrow> idr_state \<Rightarrow> bool" where
  "idr_allocates p s i s' \<longleftrightarrow> (\<exists>pa start fin. length pa = MAX_IDR_LEVEL + 1 \<and> start < 2 ^ 31 \<and> fin < 2 ^ 31 \<and>
     idr_alloc pa p start fin s = Some (Inr i, s'))"

interpretation ids: id_map idr_inv idr_allocates "\<lambda>i. idr_remove (int i)" "\<lambda>i. idr_find (int i)"
proof
  show "M i = None \<and> idr_inv (M(i \<mapsto> p)) s'" if inv: "idr_inv M s" and al: "idr_allocates p s i s'" for M s p i s'
  proof -
    from al obtain pa start fin where "length pa = MAX_IDR_LEVEL + 1" "start < 2 ^ 31" "fin < 2 ^ 31"
      "idr_alloc pa p start fin s = Some (Inr i, s')" by (auto simp: idr_allocates_def)
    then show ?thesis using idr_alloc_spec [OF inv, of pa start fin p] by auto
  qed
  show "idr_inv (M(i := None)) (idr_remove (int i) s)" if "idr_inv M s" for M s i
    using idr_remove_spec(1) [OF that, of "int i"] by simp
  show "idr_find (int i) s = ptr_of (M i)" if "idr_inv M s" for M s i using find_ok [OF that, of "int i"] by simp
qed

section \<open>Preloading\<close>

lemma preload_loop_ok:
  assumes "mem_ok U s"
  shows "mem_ok U (idr_preload_loop k s) \<and> (\<forall>a \<in> U. lay (idr_preload_loop k s) a = lay s a) \<and>
    kept s (idr_preload_loop k s) \<and>
    (k \<le> length (pool s) \<and> 0 \<notin> set (take k (pool s)) \<longrightarrow>
      length (idr_preload_head (idr_preload_loop k s)) = length (idr_preload_head s) + k)"
  using assms
proof (induction k arbitrary: s)
  case (Suc k)
  obtain a s1 where z: "kmem_cache_zalloc s = (a, s1)" by fastforce
  note f = zalloc_fresh [OF Suc.prems z]
  show ?case
  proof (cases "a = 0")
    case True
    then have "\<not> (Suc k \<le> length (pool s) \<and> 0 \<notin> set (take (Suc k) (pool s)))"
      using z by (auto simp: kmem_cache_zalloc_def split: list.splits if_splits)
    moreover have "mem_ok U s1 \<and> (\<forall>a \<in> U. lay s1 a = lay s a) \<and> kept s s1" using f True by simp
    moreover have eq: "idr_preload_loop (Suc k) s = s1" using z True by simp
    ultimately show ?thesis unfolding eq by blast
  next
    case False
    define s2 where "s2 = s1\<lparr>idr_preload_head := a # idr_preload_head s1, idr_preload_cnt := idr_preload_cnt s1 + 1\<rparr>"
    have new: "a \<notin> U" "lay s1 = (lay s)(a := zero_layer)" "mem_ok (insert a U) s1" "idr_preload_head s1 = idr_preload_head s"
      "kept s s1" using f False by simp_all
    have pool: "pool s = a # pool s1" using z False by (auto simp: kmem_cache_zalloc_def split: list.splits if_splits)
    have a: "lay s1 a = zero_layer" using new(2) by simp
    note m = new(3) [unfolded mem_defs]
    have "preload_ok U s2" using m a False new(1) by (auto simp: preload_ok_def s2_def)
    moreover have "pool_ok U s2" using m by (auto simp: pool_ok_def s2_def)
    moreover have "freed_ok U s2" using m by (auto simp: freed_ok_def s2_def)
    ultimately have "mem_ok U s2" by (simp add: mem_ok_def)
    note IH = Suc.IH [OF this]
    have eq: "idr_preload_loop (Suc k) s = idr_preload_loop k s2" using z False by (simp add: s2_def)
    have "kept s s2" using new(5) by (simp add: s2_def kept_def)
    then have "kept s (idr_preload_loop k s2)" using IH kept_trans by blast
    moreover have "\<forall>a \<in> U. lay s2 a = lay s a" using new(1,2) by (auto simp: s2_def)
    then have "\<forall>a \<in> U. lay (idr_preload_loop k s2) a = lay s a" using IH by simp
    moreover have "pool s2 = pool s1" "length (idr_preload_head s2) = length (idr_preload_head s) + 1"
      using new(4) by (simp_all add: s2_def)
    then have "Suc k \<le> length (pool s) \<and> 0 \<notin> set (take (Suc k) (pool s)) \<longrightarrow>
      length (idr_preload_head (idr_preload_loop k s2)) = length (idr_preload_head s) + Suc k" using IH pool by simp
    ultimately show ?thesis unfolding eq using IH by blast
  qed
qed (simp add: kept_def)

lemma preload_inv:
  assumes "idr_inv M s"
  shows "idr_inv M (idr_preload s)"
    and "MAX_IDR_FREE - idr_preload_cnt s \<le> length (pool s) \<Longrightarrow>
      0 \<notin> set (take (MAX_IDR_FREE - idr_preload_cnt s) (pool s)) \<Longrightarrow>
      MAX_IDR_FREE \<le> length (idr_preload_head (idr_preload s))"
proof -
  from assms obtain L where L: "rep L M s" "mem_ok (used L) s" "hint_ok L M s" by (auto simp: idr_inv_def)
  let ?s = "idr_preload s"
  note p = preload_loop_ok [OF L(2), of "MAX_IDR_FREE - idr_preload_cnt s", folded idr_preload_def]
  have k: "kept s ?s" using p by blast
  have "rep L M ?s"
  proof (cases "top s = 0")
    case False
    then have tree: "tree L M (layers s) (lay s)" using L(1) by (simp add: rep_def)
    have "tree L M (layers s) (lay ?s)" by (rule tree_frame [OF tree]) (use p in blast)
    then show ?thesis using L(1) False k by (simp add: rep_def kept_def)
  qed (use L(1) k in \<open>simp add: rep_def kept_def\<close>)
  moreover have "hint_ok L M ?s" using L(3) k by (simp add: hint_ok_def kept_def)
  ultimately show "idr_inv M ?s" using p by (auto simp: idr_inv_def)
  have "idr_preload_cnt s = length (idr_preload_head s)" using L(2) by (simp add: mem_defs)
  then show "MAX_IDR_FREE - idr_preload_cnt s \<le> length (pool s) \<Longrightarrow>
      0 \<notin> set (take (MAX_IDR_FREE - idr_preload_cnt s) (pool s)) \<Longrightarrow> MAX_IDR_FREE \<le> length (idr_preload_head ?s)"
    using p by simp
qed

section \<open>Properties\<close>

text \<open>An empty idr, with the results of the allocator to come.\<close>

definition idr_start :: "nat list \<Rightarrow> idr_state" where
  "idr_start xs = idr_init \<lparr>hint = 1, top = 1, layers = 1, cur = 1, id_free_cnt = 1, id_free = [1],
     lay = (\<lambda>_. zero_layer), pool = xs, idr_preload_cnt = 0, idr_preload_head = [], rcu_freed = []\<rparr>"

lemma idr_start_inv: "distinct (filter (\<lambda>a. a \<noteq> 0) xs) \<Longrightarrow> idr_inv Map.empty (idr_start xs)"
  by (auto simp: idr_inv_def rep_def mem_defs hint_ok_def used_def idr_start_def idr_init_def
      intro!: exI [of _ "\<lambda>_ _. 0"])

lemma idr_start_preloaded:
  "idr_inv Map.empty (idr_preload (idr_start [1..<9]))" "8 \<le> length (idr_preload_head (idr_preload (idr_start [1..<9])))"
proof -
  have inv: "idr_inv Map.empty (idr_start [1..<9])" by (rule idr_start_inv) simp
  then show "idr_inv Map.empty (idr_preload (idr_start [1..<9]))" by (rule preload_inv)
  have "idr_preload_cnt (idr_start [1..<9]) = 0" "pool (idr_start [1..<9]) = [1..<9]" "MAX_IDR_FREE = 8"
    by (simp_all add: idr_start_def idr_init_def MAX_IDR_FREE_def idr_constants)
  then show "8 \<le> length (idr_preload_head (idr_preload (idr_start [1..<9])))"
    using preload_inv(2) [OF inv] by simp
qed

text \<open>C5: \<open>idr_alloc\<close> ends for every tree; it gives out the least free identifier of the range and enters the pointer.
  A full range is refused with \<open>ENOSPC\<close>, a negative start with \<open>EINVAL\<close>.  Memory runs out
  only when less than seven layers were preloaded, and errors keep the identifiers in use.\<close>

theorem idr_alloc_least_free:
  assumes "idr_inv M s" "length pa = MAX_IDR_LEVEL + 1" "start < 2 ^ 31" "fin < 2 ^ 31"
  shows "\<exists>r s'. idr_alloc pa ptr start fin s = Some (r, s') \<and>
    alloc_result M ptr start (if fin > 0 then fin else 2 ^ 31) s r s'"
  using idr_alloc_spec [OF assms] by blast

text \<open>With a full preload list and no identifier in use, the start itself is free.\<close>

lemma first_alloc:
  assumes "alloc_result Map.empty p 300 301 s r s'" "8 \<le> length (idr_preload_head s)"
  shows "r = Inr 300 \<and> idr_inv [300 \<mapsto> p] s'"
proof (cases r)
  case (Inl e)
  have "300 \<le> int 300 \<and> int 300 < 301" by simp
  then show ?thesis using assms Inl by (auto simp del: of_nat_numeral)
next
  case (Inr i)
  then have "i = 300" using assms(1) by simp
  then show ?thesis using assms(1) Inr by simp
qed

theorem idr_alloc_least_free_witness:
  "\<exists>s'. idr_alloc [0, 0, 0, 0, 0] 7 300 301 (idr_preload (idr_start [1..<9])) = Some (Inr 300, s') \<and> idr_inv [300 \<mapsto> 7] s'"
proof -
  have "length [0, 0, 0, 0, 0 :: nat] = MAX_IDR_LEVEL + 1" by (simp add: idr_constants)
  from idr_alloc_least_free [OF idr_start_preloaded(1) this, of 300 301 7] show ?thesis
    using first_alloc [OF _ idr_start_preloaded(2)] by fastforce
qed

text \<open>C6: \<open>idr_remove\<close> takes one identifier out of the map and keeps the others, whatever layers it
  frees on the way; \<open>idr_find\<close>, with its hint, is the lookup in the map, and \<open>idr_replace\<close> the update.
  The invariant also says that no layer which waits for \<open>call_rcu\<close> is left in the tree, or waits twice.\<close>

theorem idr_map_operations:
  assumes "idr_inv M s"
  shows "idr_inv (if i < 0 then M else M(nat i := None)) (idr_remove i s) \<and>
    idr_find i s = (if i < 0 then 0 else ptr_of (M (nat i))) \<and>
    (0 \<le> i \<longrightarrow> (case M (nat i) of
       None \<Rightarrow> idr_replace ptr i s = (Inl ENOENT, s)
     | Some old \<Rightarrow> \<exists>s'. idr_replace ptr i s = (Inr old, s') \<and> idr_inv (M(nat i \<mapsto> ptr)) s')) \<and>
    distinct (rcu_freed (idr_remove i s))"
proof -
  have inv: "idr_inv (if i < 0 then M else M(nat i := None)) (idr_remove i s)" by (rule idr_remove_spec(1) [OF assms])
  then have "distinct (rcu_freed (idr_remove i s))" unfolding idr_inv_def mem_defs by blast
  then show ?thesis using inv find_ok [OF assms] replace_ok [OF assms] by blast
qed

theorem idr_map_operations_witness:
  "\<exists>s. idr_inv [300 \<mapsto> 7] s \<and> idr_find 300 s = 7 \<and> idr_find 44 s = 0 \<and> idr_inv Map.empty (idr_remove 300 s)"
proof -
  have "length [0, 0, 0, 0, 0 :: nat] = MAX_IDR_LEVEL + 1" by (simp add: idr_constants)
  from idr_alloc_spec [OF idr_start_preloaded(1) this, of 300 301 7] obtain s where s: "idr_inv [300 \<mapsto> 7] s"
    using first_alloc [OF _ idr_start_preloaded(2)] by fastforce
  show ?thesis
    using idr_map_operations [OF s, of 300 0] idr_map_operations [OF s, of 44 0] s by (auto simp: ptr_of_def)
qed

text \<open>For a client, pointers are found under their identifiers and under no other, an identifier in use is
  not given out again, and a removal gives it back.\<close>

theorem idr_client:
  assumes "idr_inv M s" "idr_allocates p s i s'"
  shows "idr_find (int j) s' = (if j = i then p else idr_find (int j) s) \<and>
    idr_find (int j) (idr_remove (int i) s') = (if j = i then 0 else idr_find (int j) s) \<and>
    (idr_allocates p' s' i' s'' \<longrightarrow> i' \<noteq> i) \<and> idr_inv M (idr_remove (int i) s')"
proof -
  have "idr_inv (M(i \<mapsto> p)) s'" using ids.alloc [OF assms] by blast
  then show ?thesis
    using ids.alloc_find [OF assms] ids.remove_find ids.alloc_twice [OF assms] ids.alloc_remove [OF assms] by auto
qed

theorem idr_client_witness:
  "\<exists>s'. idr_allocates 7 (idr_preload (idr_start [1..<9])) 300 s' \<and> idr_find 300 s' = 7 \<and> idr_find 300 (idr_remove 300 s') = 0"
proof -
  have pa: "length [0, 0, 0, 0, 0 :: nat] = MAX_IDR_LEVEL + 1" by (simp add: idr_constants)
  from idr_alloc_spec [OF idr_start_preloaded(1) pa, of 300 301 7]
  obtain s' where "idr_alloc [0, 0, 0, 0, 0] 7 300 301 (idr_preload (idr_start [1..<9])) = Some (Inr 300, s')"
    using first_alloc [OF _ idr_start_preloaded(2)] by fastforce
  then have a: "idr_allocates 7 (idr_preload (idr_start [1..<9])) 300 s'"
    unfolding idr_allocates_def using pa by (intro exI [of _ "[0, 0, 0, 0, 0]"] exI [of _ 300] exI [of _ 301]) simp
  show ?thesis using idr_client [OF idr_start_preloaded(1) a, of 300] a by auto
qed

text \<open>\<open>idr_alloc_cyclic\<close> goes on after the identifier it gave out last, to the next free one, and starts again
  at the lower end of the range only when all identifiers from there on are in use.\<close>

theorem idr_alloc_cyclic_order:
  assumes "idr_inv M s" "length pa = MAX_IDR_LEVEL + 1" "0 \<le> start" "start < 2 ^ 31" "fin < 2 ^ 31" "cur s < 2 ^ 31"
  shows "\<exists>r s'. idr_alloc_cyclic pa ptr start fin s = Some (r, s') \<and>
    cyclic_result M ptr start (if fin > 0 then fin else 2 ^ 31) s r s'"
  by (rule cyclic_ok [OF assms])

theorem idr_alloc_cyclic_order_witness:
  "\<exists>r s'. idr_alloc_cyclic [0, 0, 0, 0, 0] 7 300 301 (idr_preload (idr_start [1..<9])) = Some (r, s')"
proof -
  have "cur (idr_preload (idr_start [1..<9])) = 0"
  proof -
    have "mem_ok {} (idr_start [1..<9])" by (auto simp: mem_defs idr_start_def idr_init_def)
    from preload_loop_ok [OF this, of "MAX_IDR_FREE - idr_preload_cnt (idr_start [1..<9])"]
    have "cur (idr_preload (idr_start [1..<9])) = cur (idr_start [1..<9])" by (simp add: kept_def idr_preload_def)
    then show ?thesis by (simp add: idr_start_def idr_init_def)
  qed
  then show ?thesis
    using idr_alloc_cyclic_order [OF idr_start_preloaded(1), of "[0, 0, 0, 0, 0]" 300 301 7] by (auto simp: idr_constants)
qed

end
