(* ===== verification/Linux_List.thy ===== *)
theory Linux_List
  imports Webcamd_Prelude "HOL-Library.Monad_Syntax"
begin

text \<open>
  The linked lists of \<open>kernel/linux_list.h\<close>: circular doubly linked lists with a head
  (\<open>list_head\<close>) and lists whose nodes point back at the pointer that leads to them (\<open>hlist\<close>).
  The memory is explicit: a map from addresses to the nodes stored there.  Reading or writing a
  node through an address that holds none is the result \<open>None\<close>, as for the null pointer.  The
  abstraction \<open>dll m h xs\<close> says that the ring at \<open>h\<close> holds the nodes \<open>xs\<close> in their order; every
  operation is shown to refine the operation on \<open>xs\<close> and to leave the rest of the memory alone.
\<close>

section \<open>Memory\<close>

type_synonym ptr = nat

abbreviation NULL :: ptr where
  "NULL \<equiv> 0"

record list_head =
  lh_next :: ptr
  lh_prev :: ptr

type_synonym lmem = "ptr \<rightharpoonup> list_head"

definition get_next :: "ptr \<Rightarrow> lmem \<Rightarrow> ptr option" where
  "get_next p m = map_option lh_next (m p)"

definition get_prev :: "ptr \<Rightarrow> lmem \<Rightarrow> ptr option" where
  "get_prev p m = map_option lh_prev (m p)"

definition set_next :: "ptr \<Rightarrow> ptr \<Rightarrow> lmem \<Rightarrow> lmem option" where
  "set_next p v m = map_option (\<lambda>n. m(p \<mapsto> n\<lparr>lh_next := v\<rparr>)) (m p)"

definition set_prev :: "ptr \<Rightarrow> ptr \<Rightarrow> lmem \<Rightarrow> lmem option" where
  "set_prev p v m = map_option (\<lambda>n. m(p \<mapsto> n\<lparr>lh_prev := v\<rparr>)) (m p)"

section \<open>Operations on rings\<close>

definition INIT_LIST_HEAD :: "ptr \<Rightarrow> lmem \<Rightarrow> lmem option" where
  "INIT_LIST_HEAD l m = do { m \<leftarrow> set_next l l m; set_prev l l m }"

definition uu_list_add :: "ptr \<Rightarrow> ptr \<Rightarrow> ptr \<Rightarrow> lmem \<Rightarrow> lmem option" where
  "uu_list_add new prev nxt m = do {
     m \<leftarrow> set_prev nxt new m;
     m \<leftarrow> set_next new nxt m;
     m \<leftarrow> set_prev new prev m;
     set_next prev new m }"

definition list_add :: "ptr \<Rightarrow> ptr \<Rightarrow> lmem \<Rightarrow> lmem option" where
  "list_add new head m = do { n \<leftarrow> get_next head m; uu_list_add new head n m }"

definition list_add_tail :: "ptr \<Rightarrow> ptr \<Rightarrow> lmem \<Rightarrow> lmem option" where
  "list_add_tail new head m = do { p \<leftarrow> get_prev head m; uu_list_add new p head m }"

definition uu_list_del :: "ptr \<Rightarrow> ptr \<Rightarrow> lmem \<Rightarrow> lmem option" where
  "uu_list_del prev nxt m = do { m \<leftarrow> set_prev nxt prev m; set_next prev nxt m }"

definition uu_list_del_entry :: "ptr \<Rightarrow> lmem \<Rightarrow> lmem option" where
  "uu_list_del_entry e m = do { p \<leftarrow> get_prev e m; n \<leftarrow> get_next e m; uu_list_del p n m }"

definition list_del :: "ptr \<Rightarrow> lmem \<Rightarrow> lmem option" where
  "list_del e m = do {
     p \<leftarrow> get_prev e m; n \<leftarrow> get_next e m;
     m \<leftarrow> uu_list_del p n m;
     m \<leftarrow> set_next e NULL m;
     set_prev e NULL m }"

definition list_replace :: "ptr \<Rightarrow> ptr \<Rightarrow> lmem \<Rightarrow> lmem option" where
  "list_replace old new m = do {
     n \<leftarrow> get_next old m;
     m \<leftarrow> set_next new n m;
     n \<leftarrow> get_next new m;
     m \<leftarrow> set_prev n new m;
     p \<leftarrow> get_prev old m;
     m \<leftarrow> set_prev new p m;
     p \<leftarrow> get_prev new m;
     set_next p new m }"

definition list_replace_init :: "ptr \<Rightarrow> ptr \<Rightarrow> lmem \<Rightarrow> lmem option" where
  "list_replace_init old new m = do { m \<leftarrow> list_replace old new m; INIT_LIST_HEAD old m }"

definition list_del_init :: "ptr \<Rightarrow> lmem \<Rightarrow> lmem option" where
  "list_del_init e m = do {
     p \<leftarrow> get_prev e m; n \<leftarrow> get_next e m;
     m \<leftarrow> uu_list_del p n m;
     INIT_LIST_HEAD e m }"

definition list_move :: "ptr \<Rightarrow> ptr \<Rightarrow> lmem \<Rightarrow> lmem option" where
  "list_move l head m = do {
     p \<leftarrow> get_prev l m; n \<leftarrow> get_next l m;
     m \<leftarrow> uu_list_del p n m;
     list_add l head m }"

definition list_move_tail :: "ptr \<Rightarrow> ptr \<Rightarrow> lmem \<Rightarrow> lmem option" where
  "list_move_tail l head m = do {
     p \<leftarrow> get_prev l m; n \<leftarrow> get_next l m;
     m \<leftarrow> uu_list_del p n m;
     list_add_tail l head m }"

definition list_is_last :: "ptr \<Rightarrow> ptr \<Rightarrow> lmem \<Rightarrow> bool option" where
  "list_is_last l head m = do { n \<leftarrow> get_next l m; Some (n = head) }"

definition list_empty :: "ptr \<Rightarrow> lmem \<Rightarrow> bool option" where
  "list_empty head m = do { n \<leftarrow> get_next head m; Some (n = head) }"

definition list_empty_careful :: "ptr \<Rightarrow> lmem \<Rightarrow> bool option" where
  "list_empty_careful head m = do {
     n \<leftarrow> get_next head m;
     if n = head then do { p \<leftarrow> get_prev head m; Some (n = p) } else Some False }"

definition list_is_singular :: "ptr \<Rightarrow> lmem \<Rightarrow> bool option" where
  "list_is_singular head m = do {
     e \<leftarrow> list_empty head m;
     if e then Some False else do { n \<leftarrow> get_next head m; p \<leftarrow> get_prev head m; Some (n = p) } }"

definition uu_list_cut_position :: "ptr \<Rightarrow> ptr \<Rightarrow> ptr \<Rightarrow> lmem \<Rightarrow> lmem option" where
  "uu_list_cut_position l head entry m = do {
     new_first \<leftarrow> get_next entry m;
     n \<leftarrow> get_next head m;
     m \<leftarrow> set_next l n m;
     n \<leftarrow> get_next l m;
     m \<leftarrow> set_prev n l m;
     m \<leftarrow> set_prev l entry m;
     m \<leftarrow> set_next entry l m;
     m \<leftarrow> set_next head new_first m;
     set_prev new_first head m }"

definition list_cut_position :: "ptr \<Rightarrow> ptr \<Rightarrow> ptr \<Rightarrow> lmem \<Rightarrow> lmem option" where
  "list_cut_position l head entry m = do {
     e \<leftarrow> list_empty head m;
     if e then Some m
     else do {
       s \<leftarrow> list_is_singular head m;
       n \<leftarrow> get_next head m;
       if s \<and> n \<noteq> entry \<and> head \<noteq> entry then Some m
       else if entry = head then INIT_LIST_HEAD l m
       else uu_list_cut_position l head entry m } }"

definition uu_list_splice :: "ptr \<Rightarrow> ptr \<Rightarrow> ptr \<Rightarrow> lmem \<Rightarrow> lmem option" where
  "uu_list_splice l prev nxt m = do {
     first \<leftarrow> get_next l m;
     last \<leftarrow> get_prev l m;
     m \<leftarrow> set_prev first prev m;
     m \<leftarrow> set_next prev first m;
     m \<leftarrow> set_next last nxt m;
     set_prev nxt last m }"

definition list_splice :: "ptr \<Rightarrow> ptr \<Rightarrow> lmem \<Rightarrow> lmem option" where
  "list_splice l head m = do {
     e \<leftarrow> list_empty l m;
     if \<not> e then do { n \<leftarrow> get_next head m; uu_list_splice l head n m } else Some m }"

definition list_splice_tail :: "ptr \<Rightarrow> ptr \<Rightarrow> lmem \<Rightarrow> lmem option" where
  "list_splice_tail l head m = do {
     e \<leftarrow> list_empty l m;
     if \<not> e then do { p \<leftarrow> get_prev head m; uu_list_splice l p head m } else Some m }"

definition list_splice_init :: "ptr \<Rightarrow> ptr \<Rightarrow> lmem \<Rightarrow> lmem option" where
  "list_splice_init l head m = do {
     e \<leftarrow> list_empty l m;
     if \<not> e then do { n \<leftarrow> get_next head m; m \<leftarrow> uu_list_splice l head n m; INIT_LIST_HEAD l m } else Some m }"

definition list_splice_tail_init :: "ptr \<Rightarrow> ptr \<Rightarrow> lmem \<Rightarrow> lmem option" where
  "list_splice_tail_init l head m = do {
     e \<leftarrow> list_empty l m;
     if \<not> e then do { p \<leftarrow> get_prev head m; m \<leftarrow> uu_list_splice l p head m; INIT_LIST_HEAD l m } else Some m }"

text \<open>The loop macros.  \<open>body\<close> is the statement of the loop; the result holds the nodes that the
  loop visits, in their order.\<close>

partial_function (option) list_for_each_loop :: "(ptr \<Rightarrow> lmem \<Rightarrow> lmem option) \<Rightarrow> ptr \<Rightarrow> ptr \<Rightarrow> lmem \<Rightarrow> (ptr list \<times> lmem) option" where
  "list_for_each_loop body head pos m =
     (if pos = head then Some ([], m)
      else do {
        m \<leftarrow> body pos m;
        n \<leftarrow> get_next pos m;
        (ps, m) \<leftarrow> list_for_each_loop body head n m;
        Some (pos # ps, m) })"

definition uu_list_for_each :: "(ptr \<Rightarrow> lmem \<Rightarrow> lmem option) \<Rightarrow> ptr \<Rightarrow> lmem \<Rightarrow> (ptr list \<times> lmem) option" where
  "uu_list_for_each body head m = do { pos \<leftarrow> get_next head m; list_for_each_loop body head pos m }"

partial_function (option) list_for_each_prev_loop :: "(ptr \<Rightarrow> lmem \<Rightarrow> lmem option) \<Rightarrow> ptr \<Rightarrow> ptr \<Rightarrow> lmem \<Rightarrow> (ptr list \<times> lmem) option" where
  "list_for_each_prev_loop body head pos m =
     do {
       pf \<leftarrow> get_prev pos m;
       if pos = head then Some ([], m)
       else do {
         m \<leftarrow> body pos m;
         n \<leftarrow> get_prev pos m;
         (ps, m) \<leftarrow> list_for_each_prev_loop body head n m;
         Some (pos # ps, m) } }"

definition list_for_each_prev :: "(ptr \<Rightarrow> lmem \<Rightarrow> lmem option) \<Rightarrow> ptr \<Rightarrow> lmem \<Rightarrow> (ptr list \<times> lmem) option" where
  "list_for_each_prev body head m = do { pos \<leftarrow> get_prev head m; list_for_each_prev_loop body head pos m }"

partial_function (option) list_for_each_safe_loop :: "(ptr \<Rightarrow> lmem \<Rightarrow> lmem option) \<Rightarrow> ptr \<Rightarrow> ptr \<Rightarrow> ptr \<Rightarrow> lmem \<Rightarrow> (ptr list \<times> lmem) option" where
  "list_for_each_safe_loop body head pos n m =
     (if pos = head then Some ([], m)
      else do {
        m \<leftarrow> body pos m;
        n' \<leftarrow> get_next n m;
        (ps, m) \<leftarrow> list_for_each_safe_loop body head n n' m;
        Some (pos # ps, m) })"

definition list_for_each_safe :: "(ptr \<Rightarrow> lmem \<Rightarrow> lmem option) \<Rightarrow> ptr \<Rightarrow> lmem \<Rightarrow> (ptr list \<times> lmem) option" where
  "list_for_each_safe body head m = do {
     pos \<leftarrow> get_next head m; n \<leftarrow> get_next pos m; list_for_each_safe_loop body head pos n m }"

section \<open>The ring a head represents\<close>

definition linked :: "lmem \<Rightarrow> ptr \<Rightarrow> ptr \<Rightarrow> bool" where
  "linked m a b \<longleftrightarrow> get_next a m = Some b \<and> get_prev b m = Some a"

fun chain :: "lmem \<Rightarrow> ptr list \<Rightarrow> bool" where
  "chain m (a # b # l) \<longleftrightarrow> linked m a b \<and> chain m (b # l)"
| "chain m _ \<longleftrightarrow> True"

definition dll :: "lmem \<Rightarrow> ptr \<Rightarrow> ptr list \<Rightarrow> bool" where
  "dll m h xs \<longleftrightarrow> distinct (h # xs) \<and> chain m (h # xs @ [h])"

text \<open>The memory outside a set of addresses is left alone, and no address is lost.\<close>

definition keeps :: "ptr set \<Rightarrow> lmem \<Rightarrow> lmem \<Rightarrow> bool" where
  "keeps A m m' \<longleftrightarrow> (\<forall>p. p \<notin> A \<longrightarrow> m' p = m p) \<and> dom m' = dom m"

lemma chain_append: "chain m ((as @ [p]) @ n # bs) \<longleftrightarrow> chain m (as @ [p]) \<and> linked m p n \<and> chain m (n # bs)"
  by (induction as rule: induct_list012) auto

lemma chain_split:
  assumes "as \<noteq> []" "bs \<noteq> []"
  shows "chain m (as @ bs) \<longleftrightarrow> chain m as \<and> linked m (last as) (hd bs) \<and> chain m bs"
proof -
  obtain as' p n bs' where "as = as' @ [p]" "bs = n # bs'"
    using assms by (metis append_butlast_last_id list.exhaust)
  then show ?thesis using chain_append [of m as' p n bs'] by simp
qed

lemma get_dom: "get_next p m = Some v \<Longrightarrow> p \<in> dom m" "get_prev p m = Some v \<Longrightarrow> p \<in> dom m"
  by (auto simp: get_next_def get_prev_def)

lemma linked_dom: "linked m a b \<Longrightarrow> a \<in> dom m \<and> b \<in> dom m"
  by (auto simp: linked_def dest: get_dom)

lemma chain_dom: "chain m (a # b # l) \<Longrightarrow> set (a # b # l) \<subseteq> dom m"
  by (induction l arbitrary: a b) (auto dest: linked_dom)

lemma chain_frame:
  assumes "chain m l" "\<And>p. p \<in> set (butlast l) \<Longrightarrow> get_next p m' = get_next p m"
    and "\<And>p. p \<in> set (tl l) \<Longrightarrow> get_prev p m' = get_prev p m"
  shows "chain m' l"
  using assms
proof (induction l rule: induct_list012)
  case (3 a b l)
  then have "linked m' a b" by (simp add: linked_def)
  moreover have "chain m' (b # l)" using 3 by (intro "3.IH"(2)) (auto dest: list.set_sel(2))
  ultimately show ?case by simp
qed auto

lemma dll_dom: "dll m h xs \<Longrightarrow> insert h (set xs) \<subseteq> dom m"
  using chain_dom [of m h "hd (xs @ [h])" "tl (xs @ [h])"] by (cases xs) (auto simp: dll_def)

lemma keeps_next: "keeps A m m' \<Longrightarrow> p \<notin> A \<Longrightarrow> get_next p m' = get_next p m"
  by (simp add: keeps_def get_next_def)

lemma keeps_prev: "keeps A m m' \<Longrightarrow> p \<notin> A \<Longrightarrow> get_prev p m' = get_prev p m"
  by (simp add: keeps_def get_prev_def)

lemma dll_keeps: "dll m h xs \<Longrightarrow> keeps A m m' \<Longrightarrow> A \<inter> insert h (set xs) = {} \<Longrightarrow> dll m' h xs"
  unfolding dll_def
  by (auto elim!: chain_frame intro!: keeps_next keeps_prev dest!: in_set_butlastD)

text \<open>Writing succeeds where the memory holds a node and changes one field of it.\<close>

definition upd_next :: "ptr \<Rightarrow> ptr \<Rightarrow> lmem \<Rightarrow> lmem" where
  "upd_next p v m = m(p := map_option (lh_next_update (\<lambda>_. v)) (m p))"

definition upd_prev :: "ptr \<Rightarrow> ptr \<Rightarrow> lmem \<Rightarrow> lmem" where
  "upd_prev p v m = m(p := map_option (lh_prev_update (\<lambda>_. v)) (m p))"

lemma set_Some [simp]:
  "p \<in> dom m \<Longrightarrow> set_next p v m = Some (upd_next p v m)" "p \<in> dom m \<Longrightarrow> set_prev p v m = Some (upd_prev p v m)"
  by (auto simp: set_next_def set_prev_def upd_next_def upd_prev_def)

lemma upd_dom [simp]: "dom (upd_next p v m) = dom m" "dom (upd_prev p v m) = dom m"
  by (auto simp: upd_next_def upd_prev_def)

lemma upd_get [simp]:
  "p \<in> dom m \<Longrightarrow> get_next q (upd_next p v m) = (if q = p then Some v else get_next q m)"
  "p \<in> dom m \<Longrightarrow> get_prev q (upd_prev p v m) = (if q = p then Some v else get_prev q m)"
  "get_next q (upd_prev p v m) = get_next q m" "get_prev q (upd_next p v m) = get_prev q m"
  by (auto simp: upd_next_def upd_prev_def get_next_def get_prev_def option.map_comp o_def)

lemma keeps_upd:
  "keeps A m0 m \<Longrightarrow> p \<in> A \<Longrightarrow> keeps A m0 (upd_next p v m)" "keeps A m0 m \<Longrightarrow> p \<in> A \<Longrightarrow> keeps A m0 (upd_prev p v m)"
  unfolding keeps_def upd_dom by (auto simp: upd_next_def upd_prev_def)

lemma keeps_refl [simp]: "keeps A m m"
  by (simp add: keeps_def)

lemma keeps_trans: "keeps A m m' \<Longrightarrow> keeps A m' m'' \<Longrightarrow> keeps A m m''"
  by (simp add: keeps_def)

lemma keeps_mono: "keeps A m m' \<Longrightarrow> A \<subseteq> B \<Longrightarrow> keeps B m m'"
  by (auto simp: keeps_def)

section \<open>The two primitives\<close>

text \<open>Inserting between two neighbours and joining the neighbours of a node.\<close>

lemma link_keeps:
  assumes "linked m a b" "get_next a m' = get_next a m" "get_prev b m' = get_prev b m"
  shows "linked m' a b"
  using assms by (simp add: linked_def)

text \<open>A ring is cut at the link between the nodes \<open>p\<close> and \<open>n\<close> into the nodes up to \<open>p\<close> and those
  from \<open>n\<close> on; both parts survive the changes around the cut.\<close>

lemma ring_parts:
  assumes "distinct (h # xs @ zs @ ys)" "chain m (h # xs @ zs @ ys @ [h])"
    and "\<And>q. q \<in> set (h # xs @ ys) \<Longrightarrow> q \<noteq> last (h # xs) \<Longrightarrow> get_next q m' = get_next q m"
    and "\<And>q. q \<in> set (h # xs @ ys) \<Longrightarrow> q \<noteq> hd (ys @ [h]) \<Longrightarrow> get_prev q m' = get_prev q m"
  shows "chain m' (h # xs)" "chain m' (ys @ [h])"
proof -
  have ch: "chain m (h # xs)" "chain m (ys @ [h])"
    using assms(2) chain_split [of "h # xs" "zs @ ys @ [h]" m] chain_split [of zs "ys @ [h]" m]
    by (cases "zs = []"; simp)+
  show "chain m' (h # xs)"
  proof (rule chain_frame [OF ch(1)])
    fix p assume p: "p \<in> set (butlast (h # xs))"
    then have "p \<in> set (h # xs)" by (rule in_set_butlastD)
    moreover have "p \<noteq> last (h # xs)"
      using p assms(1) append_butlast_last_id [of "h # xs"]
      by (metis distinct_append distinct.simps(2) distinct_butlast append_Cons disjoint_iff list.discI list.set_intros(1))
    ultimately show "get_next p m' = get_next p m" using assms(3) by auto
  next
    fix p assume p: "p \<in> set (tl (h # xs))"
    then have "p \<noteq> hd (ys @ [h])" using assms(1) by (cases ys) auto
    then show "get_prev p m' = get_prev p m" using p assms(4) by auto
  qed
  show "chain m' (ys @ [h])"
  proof (rule chain_frame [OF ch(2)])
    fix p assume "p \<in> set (butlast (ys @ [h]))"
    then have p: "p \<in> set ys" by simp
    have "p \<noteq> last (h # xs)" using p assms(1) last_in_set [of "h # xs"] by auto
    then show "get_next p m' = get_next p m" using p assms(3) by auto
  next
    fix p assume p: "p \<in> set (tl (ys @ [h]))"
    then have "p \<noteq> hd (ys @ [h])" using assms(1) by (cases ys) auto
    moreover have "p \<in> set (h # xs @ ys)" using p by (cases ys) auto
    ultimately show "get_prev p m' = get_prev p m" using assms(4) by auto
  qed
qed

lemma ring_join:
  assumes "chain m (h # xs)" "chain m (ys @ [h])" "chain m zs"
    and "zs = [] \<Longrightarrow> linked m (last (h # xs)) (hd (ys @ [h]))"
    and "zs \<noteq> [] \<Longrightarrow> linked m (last (h # xs)) (hd zs) \<and> linked m (last zs) (hd (ys @ [h]))"
  shows "chain m (h # xs @ zs @ ys @ [h])"
  using assms chain_split [of "h # xs" "zs @ ys @ [h]" m] chain_split [of zs "ys @ [h]" m]
  by (cases "zs = []") simp_all

lemma ring_ends:
  assumes "chain m (h # xs @ zs @ ys @ [h])"
  shows "zs = [] \<Longrightarrow> linked m (last (h # xs)) (hd (ys @ [h]))"
    and "zs \<noteq> [] \<Longrightarrow> linked m (last (h # xs)) (hd zs)"
    and "zs \<noteq> [] \<Longrightarrow> linked m (last zs) (hd (ys @ [h]))" "chain m zs"
  using assms chain_split [of "h # xs" "zs @ ys @ [h]" m] chain_split [of zs "ys @ [h]" m]
  by (cases "zs = []"; simp)+

lemma ends_in: "last (h # xs) \<in> set (h # xs)" "hd (ys @ [h]) \<in> set (h # ys)"
  by (auto simp: hd_append)

lemma uu_list_add_ring:
  assumes "dll m h (xs @ ys)" "new \<in> dom m" "new \<notin> set (h # xs @ ys)"
  shows "\<exists>m'. uu_list_add new (last (h # xs)) (hd (ys @ [h])) m = Some m' \<and> dll m' h (xs @ new # ys)
    \<and> keeps (set (h # xs @ new # ys)) m m'"
proof -
  define p n where "p = last (h # xs)" and "n = hd (ys @ [h])"
  have in_ring: "p \<in> set (h # xs)" "n \<in> set (h # ys)" unfolding p_def n_def by (rule ends_in)+
  have dom: "p \<in> dom m" "n \<in> dom m" using in_ring dll_dom [OF assms(1)] by auto
  have neq: "new \<noteq> p" "new \<noteq> n" using in_ring assms(3) by auto
  define m' where "m' = upd_next p new (upd_prev new p (upd_next new n (upd_prev n new m)))"
  have ring: "distinct (h # xs @ [] @ ys)" "chain m (h # xs @ [] @ ys @ [h])" using assms(1) by (simp_all add: dll_def)
  have "uu_list_add new p n m = Some m'" using dom assms(2) by (simp add: uu_list_add_def m'_def)
  moreover have "linked m' p new" "linked m' new n" using dom assms(2) neq by (simp_all add: m'_def linked_def)
  moreover have "chain m' (h # xs)" "chain m' (ys @ [h])"
    by (rule ring_parts [OF ring]; use dom assms(2,3) in \<open>auto simp: m'_def p_def n_def\<close>)+
  moreover have "keeps (set (h # xs @ new # ys)) m m'"
    unfolding m'_def by (intro keeps_upd keeps_refl) (use in_ring in auto)
  ultimately show ?thesis using ring_join [of m' h xs ys "[new]"] assms(1,3)
    by (simp add: dll_def p_def n_def)
qed

lemma uu_list_del_ring:
  assumes "dll m h (xs @ e # ys)"
  shows "\<exists>m'. uu_list_del (last (h # xs)) (hd (ys @ [h])) m = Some m' \<and> dll m' h (xs @ ys) \<and> keeps (set (h # xs @ ys)) m m'"
proof -
  define p n where "p = last (h # xs)" and "n = hd (ys @ [h])"
  have in_ring: "p \<in> set (h # xs)" "n \<in> set (h # ys)" unfolding p_def n_def by (rule ends_in)+
  have dom: "p \<in> dom m" "n \<in> dom m" using in_ring dll_dom [OF assms] by auto
  define m' where "m' = upd_next p n (upd_prev n p m)"
  have ring: "distinct (h # xs @ [e] @ ys)" "chain m (h # xs @ [e] @ ys @ [h])" using assms by (simp_all add: dll_def)
  have "uu_list_del p n m = Some m'" using dom by (simp add: uu_list_del_def m'_def)
  moreover have "linked m' p n" using dom by (simp add: m'_def linked_def)
  moreover have "chain m' (h # xs)" "chain m' (ys @ [h])"
    by (rule ring_parts [OF ring]; use dom in \<open>auto simp: m'_def p_def n_def\<close>)+
  moreover have "keeps (set (h # xs @ ys)) m m'"
    unfolding m'_def by (intro keeps_upd keeps_refl) (use in_ring in auto)
  ultimately show ?thesis using ring_join [of m' h xs ys "[]"] assms
    by (simp add: dll_def p_def n_def)
qed

lemma dll_neighbours:
  assumes "dll m h (xs @ e # ys)"
  shows "get_prev e m = Some (last (h # xs))" "get_next e m = Some (hd (ys @ [h]))"
  using ring_ends [of m h xs "[e]" ys] assms by (auto simp: dll_def linked_def)

lemma dll_ends:
  assumes "dll m h xs"
  shows "get_next h m = Some (hd (xs @ [h]))" "get_prev h m = Some (last (h # xs))"
  using ring_ends(1) [of m h "[]" "[]" xs] ring_ends(1) [of m h xs "[]" "[]"] assms by (auto simp: dll_def linked_def)

lemma list_add_dll:
  assumes "dll m h xs" "new \<in> dom m" "new \<notin> set (h # xs)"
  shows "\<exists>m'. list_add new h m = Some m' \<and> dll m' h (new # xs) \<and> keeps (set (h # new # xs)) m m'"
  using uu_list_add_ring [of m h "[]" xs new] assms dll_ends [of m h xs] by (simp add: list_add_def)

lemma list_add_tail_dll:
  assumes "dll m h xs" "new \<in> dom m" "new \<notin> set (h # xs)"
  shows "\<exists>m'. list_add_tail new h m = Some m' \<and> dll m' h (xs @ [new]) \<and> keeps (set (h # new # xs)) m m'"
  using uu_list_add_ring [of m h xs "[]" new] assms dll_ends [of m h xs]
  by (simp add: list_add_tail_def insert_commute)

lemma keeps_dom: "keeps A m m' \<Longrightarrow> dom m' = dom m"
  by (simp add: keeps_def)

lemma keeps_move:
  assumes "keeps A m m1" "keeps B m1 m'" "A \<subseteq> C" "B \<subseteq> C"
  shows "keeps C m m'"
  by (rule keeps_trans [OF keeps_mono [OF assms(1,3)] keeps_mono [OF assms(2,4)]])

lemma INIT_LIST_HEAD_dll:
  assumes "l \<in> dom m"
  shows "\<exists>m'. INIT_LIST_HEAD l m = Some m' \<and> dll m' l [] \<and> keeps {l} m m'"
  using assms by (auto simp: INIT_LIST_HEAD_def dll_def linked_def intro!: keeps_upd)

lemma list_del_dll:
  assumes "dll m h (xs @ e # ys)"
  shows "\<exists>m'. list_del e m = Some m' \<and> dll m' h (xs @ ys) \<and> m' e = Some \<lparr>lh_next = NULL, lh_prev = NULL\<rparr>
    \<and> keeps (set (h # xs @ e # ys)) m m'"
proof -
  obtain m1 where m1: "uu_list_del (last (h # xs)) (hd (ys @ [h])) m = Some m1" "dll m1 h (xs @ ys)" "keeps (set (h # xs @ ys)) m m1"
    using uu_list_del_ring [OF assms] by blast
  have e: "e \<in> dom m1" using dll_dom [OF assms] keeps_dom [OF m1(3)] by simp
  define m' where "m' = upd_prev e NULL (upd_next e NULL m1)"
  have "keeps {e} m1 m'" unfolding m'_def by (intro keeps_upd keeps_refl) simp_all
  moreover have "{e} \<inter> insert h (set (xs @ ys)) = {}" using assms by (auto simp: dll_def)
  ultimately have "dll m' h (xs @ ys)" by (intro dll_keeps [OF m1(2)])
  moreover have "m' e = Some \<lparr>lh_next = NULL, lh_prev = NULL\<rparr>"
    using e by (auto simp: m'_def upd_prev_def upd_next_def)
  moreover have "list_del e m = Some m'" using e m1(1) dll_neighbours [OF assms] by (simp add: list_del_def m'_def)
  moreover have "keeps (set (h # xs @ e # ys)) m m'"
    by (rule keeps_move [OF m1(3) \<open>keeps {e} m1 m'\<close>]) auto
  ultimately show ?thesis by blast
qed

lemma list_del_init_dll:
  assumes "dll m h (xs @ e # ys)"
  shows "\<exists>m'. list_del_init e m = Some m' \<and> dll m' h (xs @ ys) \<and> dll m' e [] \<and> keeps (set (h # xs @ e # ys)) m m'"
proof -
  obtain m1 where m1: "uu_list_del (last (h # xs)) (hd (ys @ [h])) m = Some m1" "dll m1 h (xs @ ys)" "keeps (set (h # xs @ ys)) m m1"
    using uu_list_del_ring [OF assms] by blast
  have "e \<in> dom m1" using dll_dom [OF assms] keeps_dom [OF m1(3)] by simp
  then obtain m' where m': "INIT_LIST_HEAD e m1 = Some m'" "dll m' e []" "keeps {e} m1 m'"
    using INIT_LIST_HEAD_dll by blast
  moreover have "{e} \<inter> insert h (set (xs @ ys)) = {}" using assms by (auto simp: dll_def)
  ultimately have "dll m' h (xs @ ys)" by (intro dll_keeps [OF m1(2)])
  moreover have "list_del_init e m = Some m'" using m' m1(1) dll_neighbours [OF assms] by (simp add: list_del_init_def)
  moreover have "keeps (set (h # xs @ e # ys)) m m'"
    by (rule keeps_move [OF m1(3) m'(3)]) auto
  ultimately show ?thesis using m' by blast
qed

text \<open>A node moves to the front or to the end of its own ring or of another one.\<close>

lemma list_move_same:
  assumes "dll m h (xs @ e # ys)"
  shows "\<exists>m'. list_move e h m = Some m' \<and> dll m' h (e # xs @ ys) \<and> keeps (set (h # xs @ e # ys)) m m'"
    and "\<exists>m'. list_move_tail e h m = Some m' \<and> dll m' h (xs @ ys @ [e]) \<and> keeps (set (h # xs @ e # ys)) m m'"
proof -
  obtain m1 where m1: "uu_list_del (last (h # xs)) (hd (ys @ [h])) m = Some m1" "dll m1 h (xs @ ys)" "keeps (set (h # xs @ ys)) m m1"
    using uu_list_del_ring [OF assms] by blast
  have e: "e \<in> dom m1" "e \<notin> set (h # xs @ ys)" using dll_dom [OF assms] keeps_dom [OF m1(3)] assms by (auto simp: dll_def)
  note nb = dll_neighbours [OF assms]
  obtain m2 where m2: "list_add e h m1 = Some m2" "dll m2 h (e # xs @ ys)" "keeps (set (h # e # xs @ ys)) m1 m2"
    using list_add_dll [OF m1(2) e] by blast
  have "keeps (set (h # xs @ e # ys)) m m2" by (rule keeps_move [OF m1(3) m2(3)]) auto
  then show "\<exists>m'. list_move e h m = Some m' \<and> dll m' h (e # xs @ ys) \<and> keeps (set (h # xs @ e # ys)) m m'"
    using m2 nb m1(1) by (simp add: list_move_def)
  obtain m3 where m3: "list_add_tail e h m1 = Some m3" "dll m3 h ((xs @ ys) @ [e])" "keeps (set (h # e # xs @ ys)) m1 m3"
    using list_add_tail_dll [OF m1(2) e] by blast
  have "keeps (set (h # xs @ e # ys)) m m3" by (rule keeps_move [OF m1(3) m3(3)]) auto
  then show "\<exists>m'. list_move_tail e h m = Some m' \<and> dll m' h (xs @ ys @ [e]) \<and> keeps (set (h # xs @ e # ys)) m m'"
    using m3 nb m1(1) by (simp add: list_move_tail_def)
qed

lemma list_move_other:
  assumes "dll m h (xs @ e # ys)" "dll m k zs" "set (h # xs @ e # ys) \<inter> set (k # zs) = {}"
  shows "\<exists>m'. list_move e k m = Some m' \<and> dll m' h (xs @ ys) \<and> dll m' k (e # zs) \<and> keeps (set (h # xs @ e # ys @ k # zs)) m m'"
    and "\<exists>m'. list_move_tail e k m = Some m' \<and> dll m' h (xs @ ys) \<and> dll m' k (zs @ [e]) \<and> keeps (set (h # xs @ e # ys @ k # zs)) m m'"
proof -
  obtain m1 where m1: "uu_list_del (last (h # xs)) (hd (ys @ [h])) m = Some m1" "dll m1 h (xs @ ys)" "keeps (set (h # xs @ ys)) m m1"
    using uu_list_del_ring [OF assms(1)] by blast
  have k: "dll m1 k zs" using dll_keeps [OF assms(2) m1(3)] assms(3) by auto
  have e: "e \<in> dom m1" "e \<notin> set (k # zs)" "e \<notin> insert h (set (xs @ ys))"
    using dll_dom [OF assms(1)] keeps_dom [OF m1(3)] assms by (auto simp: dll_def)
  note nb = dll_neighbours [OF assms(1)]
  have disj: "set (k # e # zs) \<inter> insert h (set (xs @ ys)) = {}" using e(3) assms(3) by auto
  obtain m2 where m2: "list_add e k m1 = Some m2" "dll m2 k (e # zs)" "keeps (set (k # e # zs)) m1 m2"
    using list_add_dll [OF k e(1,2)] by blast
  have "keeps (set (h # xs @ e # ys @ k # zs)) m m2" by (rule keeps_move [OF m1(3) m2(3)]) auto
  show "\<exists>m'. list_move e k m = Some m' \<and> dll m' h (xs @ ys) \<and> dll m' k (e # zs) \<and> keeps (set (h # xs @ e # ys @ k # zs)) m m'"
    using m2 nb m1(1) dll_keeps [OF m1(2) m2(3) disj] \<open>keeps _ m m2\<close> by (simp add: list_move_def)
  obtain m3 where m3: "list_add_tail e k m1 = Some m3" "dll m3 k (zs @ [e])" "keeps (set (k # e # zs)) m1 m3"
    using list_add_tail_dll [OF k e(1,2)] by blast
  have "keeps (set (h # xs @ e # ys @ k # zs)) m m3" by (rule keeps_move [OF m1(3) m3(3)]) auto
  show "\<exists>m'. list_move_tail e k m = Some m' \<and> dll m' h (xs @ ys) \<and> dll m' k (zs @ [e]) \<and> keeps (set (h # xs @ e # ys @ k # zs)) m m'"
    using m3 nb m1(1) dll_keeps [OF m1(2) m3(3) disj] \<open>keeps _ m m3\<close> by (simp add: list_move_tail_def)
qed

section \<open>Replacement, splicing and cutting\<close>

lemma list_replace_dll:
  assumes "dll m h (xs @ old # ys)" "new \<in> dom m" "new \<notin> set (h # xs @ old # ys)"
  shows "\<exists>m'. list_replace old new m = Some m' \<and> dll m' h (xs @ new # ys) \<and> keeps (set (h # xs @ new # ys)) m m'"
proof -
  define p n where "p = last (h # xs)" and "n = hd (ys @ [h])"
  have in_ring: "p \<in> set (h # xs)" "n \<in> set (h # ys)" unfolding p_def n_def by (rule ends_in)+
  have dom: "p \<in> dom m" "n \<in> dom m" using in_ring dll_dom [OF assms(1)] by auto
  have ring: "distinct (h # xs @ [old] @ ys)" "chain m (h # xs @ [old] @ ys @ [h])" using assms(1) by (simp_all add: dll_def)
  have neq: "new \<noteq> p" "new \<noteq> n" "old \<noteq> n" "old \<noteq> new" "old \<noteq> p" using in_ring assms(3) ring(1) by auto
  have nb: "get_prev old m = Some p" "get_next old m = Some n" using dll_neighbours [OF assms(1)] by (simp_all add: p_def n_def)
  define m' where "m' = upd_next p new (upd_prev new p (upd_prev n new (upd_next new n m)))"
  have "list_replace old new m = Some m'" using dom assms(2) nb neq by (simp add: list_replace_def m'_def)
  moreover have "linked m' p new" "linked m' new n" using dom assms(2) neq by (simp_all add: m'_def linked_def)
  moreover have "chain m' (h # xs)" "chain m' (ys @ [h])"
    by (rule ring_parts [OF ring]; use dom assms(2,3) in \<open>auto simp: m'_def p_def n_def\<close>)+
  moreover have "keeps (set (h # xs @ new # ys)) m m'"
    unfolding m'_def by (intro keeps_upd keeps_refl) (use in_ring in auto)
  ultimately show ?thesis using ring_join [of m' h xs ys "[new]"] assms(1,3)
    by (simp add: dll_def p_def n_def)
qed

lemma list_replace_init_dll:
  assumes "dll m h (xs @ old # ys)" "new \<in> dom m" "new \<notin> set (h # xs @ old # ys)"
  shows "\<exists>m'. list_replace_init old new m = Some m' \<and> dll m' h (xs @ new # ys) \<and> dll m' old []
    \<and> keeps (set (h # xs @ old # new # ys)) m m'"
proof -
  obtain m1 where m1: "list_replace old new m = Some m1" "dll m1 h (xs @ new # ys)" "keeps (set (h # xs @ new # ys)) m m1"
    using list_replace_dll [OF assms] by blast
  have "old \<in> dom m1" using dll_dom [OF assms(1)] keeps_dom [OF m1(3)] by simp
  then obtain m' where m': "INIT_LIST_HEAD old m1 = Some m'" "dll m' old []" "keeps {old} m1 m'"
    using INIT_LIST_HEAD_dll by blast
  have "{old} \<inter> insert h (set (xs @ new # ys)) = {}" using assms(1,3) by (auto simp: dll_def)
  then have "dll m' h (xs @ new # ys)" by (rule dll_keeps [OF m1(2) m'(3)])
  moreover have "keeps (set (h # xs @ old # new # ys)) m m'" by (rule keeps_move [OF m1(3) m'(3)]) auto
  ultimately show ?thesis using m1(1) m' by (simp add: list_replace_init_def)
qed

lemma list_empty_dll: "dll m h xs \<Longrightarrow> list_empty h m = Some (xs = [])"
  using dll_ends(1) [of m h xs] by (cases xs) (auto simp: list_empty_def dll_def)

lemma uu_list_splice_ring:
  assumes "dll m h (xs @ ys)" "dll m l zs" "zs \<noteq> []" "set (l # zs) \<inter> set (h # xs @ ys) = {}"
  shows "\<exists>m'. uu_list_splice l (last (h # xs)) (hd (ys @ [h])) m = Some m' \<and> dll m' h (xs @ zs @ ys)
    \<and> keeps (set (h # xs @ zs @ ys)) m m'"
proof -
  define p n where "p = last (h # xs)" and "n = hd (ys @ [h])"
  obtain f zs' where zs: "zs = f # zs'" using assms(3) by (cases zs) auto
  define g where "g = last zs"
  have g: "g \<in> set zs" "f \<in> set zs" using assms(3) by (simp_all add: g_def zs)
  have in_ring: "p \<in> set (h # xs)" "n \<in> set (h # ys)" unfolding p_def n_def by (rule ends_in)+
  have dom: "p \<in> dom m" "n \<in> dom m" "f \<in> dom m" "g \<in> dom m"
    using in_ring g dll_dom [OF assms(1)] dll_dom [OF assms(2)] by auto
  have neq: "f \<noteq> p" "f \<noteq> n" "g \<noteq> p" "g \<noteq> n" using in_ring g assms(4) by auto
  have ends: "get_next l m = Some f" "get_prev l m = Some g"
    using dll_ends [OF assms(2)] by (simp_all add: zs g_def)
  define m' where "m' = upd_prev n g (upd_next g n (upd_next p f (upd_prev f p m)))"
  have ring: "distinct (h # xs @ [] @ ys)" "chain m (h # xs @ [] @ ys @ [h])" using assms(1) by (simp_all add: dll_def)
  have "uu_list_splice l p n m = Some m'" using dom ends by (simp add: uu_list_splice_def m'_def)
  moreover have "linked m' p f" "linked m' g n" using dom neq by (simp_all add: m'_def linked_def)
  moreover have "chain m' (h # xs)" "chain m' (ys @ [h])"
    by (rule ring_parts [OF ring]; use dom g assms(4) in \<open>auto simp: m'_def p_def n_def\<close>)+
  moreover have "chain m' zs"
  proof (rule chain_frame)
    show "chain m zs" using assms(2) ring_ends(4) [of m l "[]" zs "[]"] by (simp add: dll_def)
    fix q assume q: "q \<in> set (butlast zs)"
    then have "q \<in> set zs" by (rule in_set_butlastD)
    then have "q \<noteq> p" using in_ring(1) assms(4) by auto
    moreover have "q \<noteq> g" using q assms(2,3) append_butlast_last_id [of zs] unfolding g_def dll_def
      by (metis distinct.simps(2) distinct_append disjoint_iff list.set_intros(1))
    ultimately show "get_next q m' = get_next q m" using dom by (simp add: m'_def)
  next
    fix q assume q: "q \<in> set (tl zs)"
    then have "q \<noteq> n" "q \<noteq> f" using in_ring(2) assms(2,4) zs by (auto simp: dll_def)
    then show "get_prev q m' = get_prev q m" using dom by (simp add: m'_def)
  qed
  moreover have "keeps (set (h # xs @ zs @ ys)) m m'"
    unfolding m'_def by (intro keeps_upd keeps_refl) (use in_ring g in auto)
  moreover have "distinct (h # xs @ zs @ ys)" using assms(1,2,4) by (auto simp: dll_def)
  ultimately show ?thesis using ring_join [of m' h xs ys zs] assms(3) zs
    by (simp add: dll_def p_def n_def g_def)
qed

lemma list_splice_dll:
  assumes "dll m h xs" "dll m l zs" "set (l # zs) \<inter> set (h # xs) = {}"
  shows "\<exists>m'. list_splice l h m = Some m' \<and> dll m' h (zs @ xs) \<and> keeps (set (h # zs @ xs)) m m'"
    and "\<exists>m'. list_splice_tail l h m = Some m' \<and> dll m' h (xs @ zs) \<and> keeps (set (h # xs @ zs)) m m'"
  using uu_list_splice_ring [of m h "[]" xs l zs] uu_list_splice_ring [of m h xs "[]" l zs] assms
    list_empty_dll [OF assms(2)] dll_ends [OF assms(1)]
  by (cases "zs = []"; simp add: list_splice_def list_splice_tail_def)+

lemma init_other:
  assumes "dll m' h xs" "keeps A m m'" "l \<in> dom m" "l \<notin> set (h # xs)"
  shows "\<exists>m''. INIT_LIST_HEAD l m' = Some m'' \<and> dll m'' h xs \<and> dll m'' l [] \<and> keeps (insert l A) m m''"
proof -
  obtain m'' where m'': "INIT_LIST_HEAD l m' = Some m''" "dll m'' l []" "keeps {l} m' m''"
    using INIT_LIST_HEAD_dll [of l m'] assms(2,3) keeps_dom by blast
  moreover have "dll m'' h xs" using dll_keeps [OF assms(1) m''(3)] assms(4) by auto
  moreover have "keeps (insert l A) m m''" by (rule keeps_move [OF assms(2) m''(3)]) auto
  ultimately show ?thesis by blast
qed

lemma list_splice_init_dll:
  assumes "dll m h xs" "dll m l zs" "set (l # zs) \<inter> set (h # xs) = {}"
  shows "\<exists>m'. list_splice_init l h m = Some m' \<and> dll m' h (zs @ xs) \<and> dll m' l [] \<and> keeps (set (l # h # zs @ xs)) m m'"
    and "\<exists>m'. list_splice_tail_init l h m = Some m' \<and> dll m' h (xs @ zs) \<and> dll m' l [] \<and> keeps (set (l # h # xs @ zs)) m m'"
proof -
  have l: "l \<in> dom m" "l \<notin> set (h # zs @ xs)" using dll_dom [OF assms(2)] assms(2,3) by (auto simp: dll_def)
  show "\<exists>m'. list_splice_init l h m = Some m' \<and> dll m' h (zs @ xs) \<and> dll m' l [] \<and> keeps (set (l # h # zs @ xs)) m m'"
  proof (cases "zs = []")
    case False
    then obtain m' where "uu_list_splice l h (hd (xs @ [h])) m = Some m'" "dll m' h (zs @ xs)" "keeps (set (h # zs @ xs)) m m'"
      using uu_list_splice_ring [of m h "[]" xs l zs] assms by auto
    then show ?thesis using init_other [of m' h "zs @ xs" _ m l] l list_empty_dll [OF assms(2)] False dll_ends [OF assms(1)]
      by (fastforce simp: list_splice_init_def)
  qed (use assms list_empty_dll [OF assms(2)] in \<open>simp add: list_splice_init_def\<close>)
  show "\<exists>m'. list_splice_tail_init l h m = Some m' \<and> dll m' h (xs @ zs) \<and> dll m' l [] \<and> keeps (set (l # h # xs @ zs)) m m'"
  proof (cases "zs = []")
    case False
    then obtain m' where "uu_list_splice l (last (h # xs)) h m = Some m'" "dll m' h (xs @ zs)" "keeps (set (h # xs @ zs)) m m'"
      using uu_list_splice_ring [of m h xs "[]" l zs] assms by auto
    then show ?thesis using init_other [of m' h "xs @ zs" _ m l] l list_empty_dll [OF assms(2)] False dll_ends [OF assms(1)]
      by (fastforce simp: list_splice_tail_init_def)
  qed (use assms list_empty_dll [OF assms(2)] in \<open>simp add: list_splice_tail_init_def\<close>)
qed

lemma list_is_singular_dll: "dll m h xs \<Longrightarrow> list_is_singular h m = Some (length xs = 1)"
  using dll_ends [of m h xs] list_empty_dll [of m h xs]
  by (cases xs; cases "tl xs") (auto simp: list_is_singular_def dll_def)

lemma list_empty_careful_dll: "dll m h xs \<Longrightarrow> list_empty_careful h m = Some (xs = [])"
  using dll_ends [of m h xs] by (cases xs) (auto simp: list_empty_careful_def dll_def)

lemma list_is_last_dll: "dll m h (xs @ e # ys) \<Longrightarrow> list_is_last e h m = Some (ys = [])"
  using dll_neighbours(2) [of m h xs e ys] by (cases ys) (auto simp: list_is_last_def dll_def)

lemma uu_list_cut_ring:
  assumes "dll m h (xs @ e # ys)" "l \<in> dom m" "l \<notin> set (h # xs @ e # ys)"
  shows "\<exists>m'. uu_list_cut_position l h e m = Some m' \<and> dll m' l (xs @ [e]) \<and> dll m' h ys
    \<and> keeps (set (l # h # xs @ e # ys)) m m'"
proof -
  define f n where "f = hd (xs @ [e])" and "n = hd (ys @ [h])"
  have in_ring: "f \<in> set (xs @ [e])" "n \<in> set (h # ys)" unfolding f_def n_def by (auto simp: hd_append)
  have dom: "f \<in> dom m" "n \<in> dom m" "h \<in> dom m" "e \<in> dom m" using in_ring dll_dom [OF assms(1)] by auto
  have ring: "distinct (h # [] @ (xs @ [e]) @ ys)" "chain m (h # [] @ (xs @ [e]) @ ys @ [h])"
    using assms(1) by (simp_all add: dll_def)
  have neq: "f \<noteq> n" "f \<noteq> h" "f \<noteq> l" "n \<noteq> l" "h \<noteq> l" "e \<noteq> l" "e \<noteq> h" "n \<noteq> e"
    using in_ring ring(1) assms(3) by auto
  have nb: "get_next e m = Some n" "get_next h m = Some f"
    using dll_neighbours(2) [OF assms(1)] dll_ends(1) [OF assms(1)] by (cases xs; simp add: f_def n_def)+
  define m' where "m' = upd_prev n h (upd_next h n (upd_next e l (upd_prev l e (upd_prev f l (upd_next l f m)))))"
  have "uu_list_cut_position l h e m = Some m'" using dom assms(2) nb neq by (simp add: uu_list_cut_position_def m'_def)
  moreover have "linked m' l f" "linked m' e l" "linked m' h n" using dom assms(2) neq by (simp_all add: m'_def linked_def)
  moreover have "chain m' (ys @ [h])"
    by (rule ring_parts(2) [OF ring]; use dom assms(2,3) in_ring ring(1) in \<open>auto simp: m'_def n_def\<close>)
  moreover have "chain m' (xs @ [e])"
  proof (rule chain_frame)
    show "chain m (xs @ [e])" by (rule ring_ends(4) [OF ring(2)])
    fix q assume q: "q \<in> set (butlast (xs @ [e]))"
    then have "q \<noteq> e" "q \<noteq> h" "q \<noteq> l" using ring(1) assms(3) by auto
    then show "get_next q m' = get_next q m" using dom assms(2) by (simp add: m'_def)
  next
    fix q assume q: "q \<in> set (tl (xs @ [e]))"
    then have "q \<noteq> f" "q \<in> set (xs @ [e])" using ring(1) unfolding f_def by (cases xs; auto)+
    moreover from this have "q \<noteq> n" "q \<noteq> l" using in_ring ring(1) assms(3) by auto
    ultimately show "get_prev q m' = get_prev q m" using dom assms(2) by (simp add: m'_def)
  qed
  moreover have "keeps (set (l # h # xs @ e # ys)) m m'"
    unfolding m'_def by (intro keeps_upd keeps_refl) (use in_ring in auto)
  ultimately show ?thesis
    using ring_join [of m' l "[]" "[]" "xs @ [e]"] chain_split [of "[h]" "ys @ [h]" m'] ring(1) assms(3)
    by (simp add: dll_def f_def n_def)
qed

lemma list_cut_position_dll:
  assumes "dll m h (xs @ e # ys)" "l \<in> dom m" "l \<notin> set (h # xs @ e # ys)"
  shows "\<exists>m'. list_cut_position l h e m = Some m' \<and> dll m' l (xs @ [e]) \<and> dll m' h ys
    \<and> keeps (set (l # h # xs @ e # ys)) m m'"
proof -
  have "e \<noteq> h" using assms(1) by (auto simp: dll_def)
  moreover have "\<not> (length (xs @ e # ys) = 1 \<and> hd (xs @ e # ys @ [h]) \<noteq> e)" by (cases xs) auto
  ultimately have "list_cut_position l h e m = uu_list_cut_position l h e m"
    using list_empty_dll [OF assms(1)] list_is_singular_dll [OF assms(1)] dll_ends(1) [OF assms(1)]
    by (auto simp: list_cut_position_def)
  then show ?thesis using uu_list_cut_ring [OF assms] by simp
qed

section \<open>Loops\<close>

lemma dll_loop_read:
  "dll m h (xs @ ys) \<Longrightarrow> list_for_each_loop (\<lambda>p m. Some m) h (hd (ys @ [h])) m = Some (ys, m)"
proof (induction ys arbitrary: xs)
  case (Cons y ys)
  have "y \<noteq> h" using Cons.prems by (auto simp: dll_def)
  then show ?case using Cons.IH [of "xs @ [y]"] Cons.prems dll_neighbours(2) [OF Cons.prems]
    by (simp add: list_for_each_loop.simps)
qed (simp add: list_for_each_loop.simps)

lemma dll_loop_read_prev:
  "dll m h (xs @ ys) \<Longrightarrow> list_for_each_prev_loop (\<lambda>p m. Some m) h (last (h # xs)) m = Some (rev xs, m)"
proof (induction xs arbitrary: ys rule: rev_induct)
  case Nil
  then show ?case using dll_ends(2) [of m h ys] by (simp add: list_for_each_prev_loop.simps)
next
  case (snoc x xs)
  have d: "dll m h (xs @ x # ys)" using snoc.prems by simp
  have "x \<noteq> h" using d by (auto simp: dll_def)
  then show ?case using snoc.IH [OF d] dll_neighbours(1) [OF d]
    by (simp add: list_for_each_prev_loop.simps [of _ _ x])
qed

lemma for_each_dll:
  assumes "dll m h xs"
  shows "uu_list_for_each (\<lambda>p m. Some m) h m = Some (xs, m)" "list_for_each_prev (\<lambda>p m. Some m) h m = Some (rev xs, m)"
  using dll_loop_read [of m h "[]" xs] dll_loop_read_prev [of m h xs "[]"] dll_ends [OF assms] assms
  by (simp_all add: uu_list_for_each_def list_for_each_prev_def)

text \<open>The safe loop: its body may remove the node it is called with.\<close>

definition removing :: "(ptr \<Rightarrow> bool) \<Rightarrow> ptr \<Rightarrow> lmem \<Rightarrow> lmem option" where
  "removing P p m = (if P p then list_del p m else Some m)"

lemma hd_next:
  assumes "dll m h (xs @ y # ys)"
  shows "\<exists>n'. get_next (hd (ys @ [h])) m = Some n' \<and> (ys \<noteq> [] \<longrightarrow> n' = hd (tl ys @ [h]))"
proof (cases ys)
  case Nil
  then show ?thesis using dll_ends(1) [OF assms] by simp
next
  case (Cons z zs)
  then show ?thesis using dll_neighbours(2) [of m h "xs @ [y]" z zs] assms by simp
qed

lemma safe_loop:
  assumes "dll m h (xs @ ys)" "get_next (hd (ys @ [h])) m = Some n"
  shows "\<exists>m'. list_for_each_safe_loop (removing P) h (hd (ys @ [h])) n m = Some (ys, m')
    \<and> dll m' h (xs @ filter (\<lambda>p. \<not> P p) ys) \<and> keeps (set (h # xs @ ys)) m m'"
  using assms
proof (induction ys arbitrary: xs m n)
  case Nil
  then show ?case by (simp add: list_for_each_safe_loop.simps)
next
  case (Cons y ys)
  have d: "dll m h (xs @ y # ys)" using Cons.prems(1) by simp
  have y: "y \<noteq> h" using d by (auto simp: dll_def)
  have n: "n = hd (ys @ [h])" using Cons.prems(2) dll_neighbours(2) [OF d] by simp
  define xs' where "xs' = (if P y then xs else xs @ [y])"
  obtain m1 where m1: "removing P y m = Some m1" "dll m1 h (xs' @ ys)" "keeps (set (h # xs @ y # ys)) m m1"
    using list_del_dll [OF d] d by (cases "P y") (auto simp: removing_def xs'_def)
  obtain n' where n': "get_next (hd (ys @ [h])) m1 = Some n'"
    using dll_ends(1) [OF m1(2)] dll_dom [OF m1(2)] by (cases ys) (auto simp: get_next_def)
  obtain m' where m': "list_for_each_safe_loop (removing P) h (hd (ys @ [h])) n' m1 = Some (ys, m')"
      "dll m' h (xs' @ filter (\<lambda>p. \<not> P p) ys)" "keeps (set (h # xs' @ ys)) m1 m'"
    using Cons.IH [OF m1(2) n'] by blast
  have "list_for_each_safe_loop (removing P) h y n m = Some (y # ys, m')"
    using y m1(1) m'(1) n' by (simp add: list_for_each_safe_loop.simps [of _ _ y] n)
  moreover have "keeps (set (h # xs @ y # ys)) m m'" by (rule keeps_move [OF m1(3) m'(3)]) (auto simp: xs'_def)
  ultimately show ?case using m'(2) by (auto simp: xs'_def)
qed

lemma list_for_each_safe_dll:
  assumes "dll m h xs"
  shows "\<exists>m'. list_for_each_safe (removing P) h m = Some (xs, m') \<and> dll m' h (filter (\<lambda>p. \<not> P p) xs) \<and> keeps (set (h # xs)) m m'"
proof -
  have "hd (xs @ [h]) \<in> dom m" using dll_dom [OF assms] by (cases xs) auto
  then obtain n where "get_next (hd (xs @ [h])) m = Some n" by (auto simp: get_next_def)
  then show ?thesis using safe_loop [of m h "[]" xs n P] assms dll_ends(1) [OF assms]
    by (simp add: list_for_each_safe_def)
qed

text \<open>A node that was removed with \<open>list_del\<close> cannot be removed again, nor can the simple loop go on
  from it: both read through the null pointer.\<close>

lemma list_del_null:
  assumes "m e = Some \<lparr>lh_next = NULL, lh_prev = NULL\<rparr>" "m NULL = None"
  shows "list_del e m = None"
  using assms by (simp add: list_del_def uu_list_del_def get_prev_def get_next_def set_prev_def)

lemma simple_loop_null:
  assumes "m NULL = None" "dll m h xs" "xs \<noteq> []"
  shows "uu_list_for_each list_del h m = None"
proof -
  obtain x ys where xs: "xs = x # ys" using assms(3) by (cases xs) auto
  have "h \<in> dom m" "NULL \<notin> dom m" using dll_dom [OF assms(2)] assms(1) by auto
  then have h: "h \<noteq> NULL" "x \<noteq> h" using assms(2) xs by (metis, auto simp: dll_def)
  obtain m1 where m1: "list_del x m = Some m1" "dll m1 h ys" "m1 x = Some \<lparr>lh_next = NULL, lh_prev = NULL\<rparr>"
      "keeps (set (h # x # ys)) m m1"
    using list_del_dll [of m h "[]" x ys] assms(2) xs by auto
  have "m1 NULL = None" using keeps_dom [OF m1(4)] assms(1) by (metis domIff)
  then have "list_for_each_loop list_del h NULL m1 = None"
    using h(1) by (simp add: list_for_each_loop.simps [of _ _ NULL] list_del_def get_prev_def)
  moreover have "uu_list_for_each list_del h m = list_for_each_loop list_del h x m"
    using dll_ends(1) [OF assms(2)] by (simp add: uu_list_for_each_def xs)
  moreover have "get_next x m1 = Some NULL" using m1(3) by (simp add: get_next_def)
  ultimately show ?thesis using h(2) m1(1) by (simp add: list_for_each_loop.simps [of _ _ x])
qed

section \<open>Clients of a list\<close>

text \<open>What a user of either kind of list relies on: nodes are added at the front, nodes of the list
  can be removed, and a walk visits the nodes in their order.  \<open>valid\<close> tells which nodes may be
  added to a list.\<close>

datatype node_cmd = Add_node ptr | Del_node ptr

fun run_cmds :: "(ptr \<Rightarrow> ptr \<Rightarrow> 'm \<Rightarrow> 'm option) \<Rightarrow> (ptr \<Rightarrow> 'm \<Rightarrow> 'm option) \<Rightarrow> ptr \<Rightarrow> node_cmd list \<Rightarrow> 'm \<Rightarrow> 'm option" where
  "run_cmds add del h [] m = Some m"
| "run_cmds add del h (Add_node n # cs) m = Option.bind (add n h m) (run_cmds add del h cs)"
| "run_cmds add del h (Del_node n # cs) m = Option.bind (del n m) (run_cmds add del h cs)"

text \<open>The same commands on the list of nodes; \<open>None\<close> for a node added twice, one that is not valid
  or one that is removed without being there.\<close>

fun list_cmds :: "(ptr \<Rightarrow> bool) \<Rightarrow> node_cmd list \<Rightarrow> ptr list \<Rightarrow> ptr list option" where
  "list_cmds V [] xs = Some xs"
| "list_cmds V (Add_node n # cs) xs = (if V n \<and> n \<notin> set xs then list_cmds V cs (n # xs) else None)"
| "list_cmds V (Del_node n # cs) xs = (if n \<in> set xs then list_cmds V cs (remove1 n xs) else None)"

locale node_list =
  fixes rep :: "'m \<Rightarrow> ptr \<Rightarrow> ptr list \<Rightarrow> bool"
    and valid :: "'m \<Rightarrow> ptr \<Rightarrow> ptr \<Rightarrow> bool"
    and add :: "ptr \<Rightarrow> ptr \<Rightarrow> 'm \<Rightarrow> 'm option"
    and del :: "ptr \<Rightarrow> 'm \<Rightarrow> 'm option"
    and walk :: "ptr \<Rightarrow> 'm \<Rightarrow> (ptr list \<times> 'm) option"
  assumes rep_distinct: "rep m h xs \<Longrightarrow> distinct xs"
    and add_rep: "rep m h xs \<Longrightarrow> valid m h n \<Longrightarrow> n \<notin> set xs \<Longrightarrow>
      \<exists>m'. add n h m = Some m' \<and> rep m' h (n # xs) \<and> valid m' h = valid m h"
    and del_rep: "rep m h (xs @ n # ys) \<Longrightarrow> \<exists>m'. del n m = Some m' \<and> rep m' h (xs @ ys) \<and> valid m' h = valid m h"
    and walk_rep: "rep m h xs \<Longrightarrow> walk h m = Some (xs, m)"
begin

lemma del_remove1:
  assumes "rep m h xs" "n \<in> set xs"
  shows "\<exists>m'. del n m = Some m' \<and> rep m' h (remove1 n xs) \<and> valid m' h = valid m h"
proof -
  obtain ys zs where xs: "xs = ys @ n # zs" "n \<notin> set ys" using split_list_first [OF assms(2)] by blast
  then have "remove1 n xs = ys @ zs" by (simp add: remove1_append)
  then show ?thesis using del_rep assms(1) xs(1) by metis
qed

lemma run_refines:
  assumes "rep m h xs" "list_cmds (valid m h) cs xs = Some ys"
  shows "\<exists>m'. run_cmds add del h cs m = Some m' \<and> rep m' h ys \<and> walk h m' = Some (ys, m')"
  using assms
proof (induction cs arbitrary: m xs)
  case Nil
  then show ?case using walk_rep by simp
next
  case (Cons c cs)
  show ?case
  proof (cases c)
    case (Add_node n)
    then have n: "valid m h n" "n \<notin> set xs" using Cons.prems by (auto split: if_splits)
    obtain m1 where m1: "add n h m = Some m1" "rep m1 h (n # xs)" "valid m1 h = valid m h"
      using add_rep [OF Cons.prems(1) n] by blast
    then show ?thesis using Cons.IH [OF m1(2)] Cons.prems(2) n Add_node by simp
  next
    case (Del_node n)
    then have n: "n \<in> set xs" using Cons.prems by (auto split: if_splits)
    obtain m1 where m1: "del n m = Some m1" "rep m1 h (remove1 n xs)" "valid m1 h = valid m h"
      using del_remove1 [OF Cons.prems(1) n] by blast
    then show ?thesis using Cons.IH [OF m1(2)] Cons.prems(2) n Del_node by simp
  qed
qed

end

definition ring_valid :: "lmem \<Rightarrow> ptr \<Rightarrow> ptr \<Rightarrow> bool" where
  "ring_valid m h n \<longleftrightarrow> m n \<noteq> None \<and> n \<noteq> h"

lemma ring_valid_keeps: "keeps A m m' \<Longrightarrow> ring_valid m' h = ring_valid m h"
  by (auto simp: ring_valid_def keeps_def dom_def set_eq_iff fun_eq_iff)

interpretation ring: node_list dll ring_valid list_add list_del "uu_list_for_each (\<lambda>p m. Some m)"
proof unfold_locales
  show "distinct xs" if "dll m h xs" for m h xs using that by (simp add: dll_def)
  show "\<exists>m'. list_add n h m = Some m' \<and> dll m' h (n # xs) \<and> ring_valid m' h = ring_valid m h"
    if "dll m h xs" "ring_valid m h n" "n \<notin> set xs" for m h xs n
    using list_add_dll [of m h xs n] that ring_valid_keeps by (fastforce simp: ring_valid_def)
  show "\<exists>m'. list_del n m = Some m' \<and> dll m' h (xs @ ys) \<and> ring_valid m' h = ring_valid m h"
    if "dll m h (xs @ n # ys)" for m h xs n ys
    using list_del_dll [OF that] ring_valid_keeps by blast
  show "uu_list_for_each (\<lambda>p m. Some m) h m = Some (xs, m)" if "dll m h xs" for m h xs
    by (rule for_each_dll(1) [OF that])
qed

section \<open>Properties\<close>


text \<open>A ring at 1 with the nodes 2 and 3, and a node 4 outside.\<close>

definition two_nodes :: lmem where
  "two_nodes = [1 \<mapsto> \<lparr>lh_next = 2, lh_prev = 3\<rparr>, 2 \<mapsto> \<lparr>lh_next = 3, lh_prev = 1\<rparr>, 3 \<mapsto> \<lparr>lh_next = 1, lh_prev = 2\<rparr>,
     4 \<mapsto> \<lparr>lh_next = 0, lh_prev = 0\<rparr>]"

lemma two_nodes_dll: "dll two_nodes 1 [2, 3]"
  by (simp add: dll_def linked_def get_next_def get_prev_def two_nodes_def)


text \<open>Two rings without common nodes are spliced: the nodes of the one stand at the front, or at
  the end, of the other in their order, and with the \<open>init\<close> variants the first ring is empty.\<close>

theorem list_splice_joins:
  assumes "dll m h xs" "dll m l zs" "set (l # zs) \<inter> set (h # xs) = {}"
  shows "(\<exists>m'. list_splice l h m = Some m' \<and> dll m' h (zs @ xs) \<and> keeps (set (h # zs @ xs)) m m')
    \<and> (\<exists>m'. list_splice_tail l h m = Some m' \<and> dll m' h (xs @ zs) \<and> keeps (set (h # xs @ zs)) m m')
    \<and> (\<exists>m'. list_splice_init l h m = Some m' \<and> dll m' h (zs @ xs) \<and> dll m' l [] \<and> keeps (set (l # h # zs @ xs)) m m')
    \<and> (\<exists>m'. list_splice_tail_init l h m = Some m' \<and> dll m' h (xs @ zs) \<and> dll m' l [] \<and> keeps (set (l # h # xs @ zs)) m m')"
  by (intro conjI list_splice_dll [OF assms] list_splice_init_dll [OF assms])

definition two_rings :: lmem where
  "two_rings = two_nodes(4 \<mapsto> \<lparr>lh_next = 5, lh_prev = 5\<rparr>, 5 \<mapsto> \<lparr>lh_next = 4, lh_prev = 4\<rparr>)"

theorem list_splice_joins_witness: "\<exists>m'. list_splice_tail_init 4 1 two_rings = Some m' \<and> dll m' 1 [2, 3, 5] \<and> dll m' 4 []"
proof -
  have "dll two_rings 1 [2, 3]" "dll two_rings 4 [5]"
    by (simp_all add: dll_def linked_def get_next_def get_prev_def two_rings_def two_nodes_def)
  then show ?thesis using list_splice_joins [of two_rings 1 "[2, 3]" 4 "[5]"] by auto
qed

text \<open>C36: The safe loop may remove the node it is at: it visits every node of the ring in order and leaves
  the nodes that were not removed.  The simple loop that removes its node reads through the null
  pointer.\<close>

theorem list_for_each_safe_removes:
  assumes "dll m h xs" "m NULL = None"
  shows "(\<exists>m'. list_for_each_safe (removing P) h m = Some (xs, m') \<and> dll m' h (filter (\<lambda>p. \<not> P p) xs))
    \<and> uu_list_for_each (\<lambda>p m. Some m) h m = Some (xs, m) \<and> list_for_each_prev (\<lambda>p m. Some m) h m = Some (rev xs, m)
    \<and> (xs \<noteq> [] \<longrightarrow> uu_list_for_each list_del h m = None)"
  using list_for_each_safe_dll [OF assms(1)] for_each_dll [OF assms(1)] simple_loop_null [OF assms(2,1)] by blast

theorem list_for_each_safe_removes_witness:
  "(\<exists>m'. list_for_each_safe (removing (\<lambda>p. p = 2)) 1 two_nodes = Some ([2, 3], m') \<and> dll m' 1 [3])
    \<and> uu_list_for_each list_del 1 two_nodes = None"
  using list_for_each_safe_removes [of two_nodes 1 "[2, 3]" "\<lambda>p. p = 2"] two_nodes_dll by (auto simp: two_nodes_def)

text \<open>Every sequence of additions and removals of nodes, run on the memory of a ring, gives the list of
  nodes that it gives on lists.\<close>

theorem list_clients:
  assumes "dll m h xs" "list_cmds (ring_valid m h) cs xs = Some ys"
  shows "\<exists>m'. run_cmds list_add list_del h cs m = Some m' \<and> dll m' h ys \<and> uu_list_for_each (\<lambda>p m. Some m) h m' = Some (ys, m')"
  by (rule ring.run_refines [OF assms])

theorem list_clients_witness:
  "\<exists>m'. run_cmds list_add list_del 1 [Del_node 3, Add_node 4, Add_node 3] two_nodes = Some m' \<and> dll m' 1 [3, 4, 2]"
  using list_clients [of two_nodes 1 "[2, 3]" "[Del_node 3, Add_node 4, Add_node 3]" "[3, 4, 2]"] two_nodes_dll
  by (auto simp: ring_valid_def two_nodes_def)

end
