(* ===== verification/Linux_Hlist.thy ===== *)
theory Linux_Hlist
  imports Linux_List
begin

text \<open>
  The lists of \<open>kernel/linux_list.h\<close> whose head is a single pointer (\<open>hlist\<close>).  A node holds the
  address of the pointer that leads to it: the field \<open>first\<close> of the head or the field \<open>next\<close> of the
  node before it.  The abstraction \<open>hlist m h xs\<close> says that the list at \<open>h\<close> holds the nodes \<open>xs\<close>.
\<close>

section \<open>Memory\<close>

datatype pprev = First_of ptr | Next_of ptr

record hlist_node =
  hn_next :: ptr
  hn_pprev :: "pprev option"

record hmem =
  hlist_head :: "ptr \<rightharpoonup> ptr"
  hlist_nodes :: "ptr \<rightharpoonup> hlist_node"

fun get_ref :: "pprev \<Rightarrow> hmem \<Rightarrow> ptr option" where
  "get_ref (First_of h) m = hlist_head m h"
| "get_ref (Next_of n) m = map_option hn_next (hlist_nodes m n)"

definition get_pprev :: "ptr \<Rightarrow> hmem \<Rightarrow> pprev option option" where
  "get_pprev n m = map_option hn_pprev (hlist_nodes m n)"

fun put_ref :: "pprev \<Rightarrow> ptr \<Rightarrow> hmem \<Rightarrow> hmem" where
  "put_ref (First_of h) v m = m\<lparr>hlist_head := (hlist_head m)(h := map_option (\<lambda>_. v) (hlist_head m h))\<rparr>"
| "put_ref (Next_of n) v m = m\<lparr>hlist_nodes := (hlist_nodes m)(n := map_option (hn_next_update (\<lambda>_. v)) (hlist_nodes m n))\<rparr>"

definition set_ref :: "pprev \<Rightarrow> ptr \<Rightarrow> hmem \<Rightarrow> hmem option" where
  "set_ref r v m = (if get_ref r m = None then None else Some (put_ref r v m))"

definition put_pprev :: "ptr \<Rightarrow> pprev option \<Rightarrow> hmem \<Rightarrow> hmem" where
  "put_pprev n r m = m\<lparr>hlist_nodes := (hlist_nodes m)(n := map_option (hn_pprev_update (\<lambda>_. r)) (hlist_nodes m n))\<rparr>"

definition set_pprev :: "ptr \<Rightarrow> pprev option \<Rightarrow> hmem \<Rightarrow> hmem option" where
  "set_pprev n r m = (if get_pprev n m = None then None else Some (put_pprev n r m))"

section \<open>Operations\<close>

definition INIT_HLIST_HEAD :: "ptr \<Rightarrow> hmem \<Rightarrow> hmem option" where
  "INIT_HLIST_HEAD h m = set_ref (First_of h) NULL m"

definition INIT_HLIST_NODE :: "ptr \<Rightarrow> hmem \<Rightarrow> hmem option" where
  "INIT_HLIST_NODE n m = do { m \<leftarrow> set_ref (Next_of n) NULL m; set_pprev n None m }"

definition hlist_unhashed :: "ptr \<Rightarrow> hmem \<Rightarrow> bool option" where
  "hlist_unhashed n m = do { r \<leftarrow> get_pprev n m; Some (r = None) }"

definition hlist_empty :: "ptr \<Rightarrow> hmem \<Rightarrow> bool option" where
  "hlist_empty h m = do { f \<leftarrow> get_ref (First_of h) m; Some (f = NULL) }"

text \<open>A null \<open>pprev\<close> is written through: the result is \<open>None\<close>.\<close>

definition uu_hlist_del :: "ptr \<Rightarrow> hmem \<Rightarrow> hmem option" where
  "uu_hlist_del n m = do {
     nxt \<leftarrow> get_ref (Next_of n) m;
     pp \<leftarrow> get_pprev n m;
     r \<leftarrow> pp;
     m \<leftarrow> set_ref r nxt m;
     if nxt \<noteq> NULL then set_pprev nxt (Some r) m else Some m }"

definition hlist_del :: "ptr \<Rightarrow> hmem \<Rightarrow> hmem option" where
  "hlist_del n m = do {
     m \<leftarrow> uu_hlist_del n m;
     m \<leftarrow> set_ref (Next_of n) NULL m;
     set_pprev n None m }"

definition hlist_del_init :: "ptr \<Rightarrow> hmem \<Rightarrow> hmem option" where
  "hlist_del_init n m = do {
     u \<leftarrow> hlist_unhashed n m;
     if \<not> u then do { m \<leftarrow> uu_hlist_del n m; INIT_HLIST_NODE n m } else Some m }"

definition hlist_add_head :: "ptr \<Rightarrow> ptr \<Rightarrow> hmem \<Rightarrow> hmem option" where
  "hlist_add_head n h m = do {
     first \<leftarrow> get_ref (First_of h) m;
     m \<leftarrow> set_ref (Next_of n) first m;
     m \<leftarrow> (if first \<noteq> NULL then set_pprev first (Some (Next_of n)) m else Some m);
     m \<leftarrow> set_ref (First_of h) n m;
     set_pprev n (Some (First_of h)) m }"

definition hlist_add_before :: "ptr \<Rightarrow> ptr \<Rightarrow> hmem \<Rightarrow> hmem option" where
  "hlist_add_before n nxt m = do {
     pp \<leftarrow> get_pprev nxt m;
     m \<leftarrow> set_pprev n pp m;
     m \<leftarrow> set_ref (Next_of n) nxt m;
     m \<leftarrow> set_pprev nxt (Some (Next_of n)) m;
     pp \<leftarrow> get_pprev n m;
     r \<leftarrow> pp;
     set_ref r n m }"

definition hlist_add_after :: "ptr \<Rightarrow> ptr \<Rightarrow> hmem \<Rightarrow> hmem option" where
  "hlist_add_after n nxt m = do {
     nn \<leftarrow> get_ref (Next_of n) m;
     m \<leftarrow> set_ref (Next_of nxt) nn m;
     m \<leftarrow> set_ref (Next_of n) nxt m;
     m \<leftarrow> set_pprev nxt (Some (Next_of n)) m;
     nn \<leftarrow> get_ref (Next_of nxt) m;
     if nn \<noteq> NULL then set_pprev nn (Some (Next_of nxt)) m else Some m }"

definition hlist_move_list :: "ptr \<Rightarrow> ptr \<Rightarrow> hmem \<Rightarrow> hmem option" where
  "hlist_move_list old new m = do {
     f \<leftarrow> get_ref (First_of old) m;
     m \<leftarrow> set_ref (First_of new) f m;
     f \<leftarrow> get_ref (First_of new) m;
     m \<leftarrow> (if f \<noteq> NULL then set_pprev f (Some (First_of new)) m else Some m);
     set_ref (First_of old) NULL m }"

partial_function (option) hlist_for_each_loop :: "(ptr \<Rightarrow> hmem \<Rightarrow> hmem option) \<Rightarrow> ptr \<Rightarrow> hmem \<Rightarrow> (ptr list \<times> hmem) option" where
  "hlist_for_each_loop body pos m =
     (if pos = NULL then Some ([], m)
      else do {
        pf \<leftarrow> get_ref (Next_of pos) m;
        m \<leftarrow> body pos m;
        n \<leftarrow> get_ref (Next_of pos) m;
        (ps, m) \<leftarrow> hlist_for_each_loop body n m;
        Some (pos # ps, m) })"

definition hlist_for_each :: "(ptr \<Rightarrow> hmem \<Rightarrow> hmem option) \<Rightarrow> ptr \<Rightarrow> hmem \<Rightarrow> (ptr list \<times> hmem) option" where
  "hlist_for_each body h m = do { pos \<leftarrow> get_ref (First_of h) m; hlist_for_each_loop body pos m }"

section \<open>The list a head represents\<close>

definition hlink :: "hmem \<Rightarrow> pprev \<Rightarrow> ptr \<Rightarrow> bool" where
  "hlink m r v \<longleftrightarrow> get_ref r m = Some v \<and> (v \<noteq> NULL \<longrightarrow> get_pprev v m = Some (Some r))"

primrec hchain :: "hmem \<Rightarrow> pprev \<Rightarrow> ptr list \<Rightarrow> bool" where
  "hchain m r [] \<longleftrightarrow> True"
| "hchain m r (v # vs) \<longleftrightarrow> hlink m r v \<and> hchain m (Next_of v) vs"

definition hlist :: "hmem \<Rightarrow> ptr \<Rightarrow> ptr list \<Rightarrow> bool" where
  "hlist m h xs \<longleftrightarrow> distinct xs \<and> NULL \<notin> set xs \<and> hchain m (First_of h) (xs @ [NULL])"

definition ref_after :: "pprev \<Rightarrow> ptr list \<Rightarrow> pprev" where
  "ref_after r xs = (if xs = [] then r else Next_of (last xs))"

lemma hchain_append: "hchain m r (as @ bs) \<longleftrightarrow> hchain m r as \<and> hchain m (ref_after r as) bs"
  by (induction as arbitrary: r) (auto simp: ref_after_def)

lemma hchain_frame:
  assumes "hchain m r vs" "\<And>q. q \<in> insert r (Next_of ` set (butlast vs)) \<Longrightarrow> vs \<noteq> [] \<Longrightarrow> get_ref q m' = get_ref q m"
    and "\<And>v. v \<in> set vs \<Longrightarrow> v \<noteq> NULL \<Longrightarrow> get_pprev v m' = get_pprev v m"
  shows "hchain m' r vs"
  using assms
proof (induction vs arbitrary: r)
  case (Cons v vs)
  have "hlink m' r v" using Cons.prems by (simp add: hlink_def)
  moreover have "hchain m' (Next_of v) vs"
    using Cons.prems by (intro Cons.IH) (auto split: if_splits)
  ultimately show ?case by simp
qed simp

abbreviation hdom :: "hmem \<Rightarrow> ptr set" where
  "hdom m \<equiv> dom (hlist_nodes m)"

definition ref_ok :: "hmem \<Rightarrow> pprev \<Rightarrow> bool" where
  "ref_ok m r \<longleftrightarrow> get_ref r m \<noteq> None"

lemma ref_ok_Next [simp]: "ref_ok m (Next_of n) \<longleftrightarrow> n \<in> hdom m"
  by (auto simp: ref_ok_def)

lemma set_ref_Some [simp]: "ref_ok m r \<Longrightarrow> set_ref r v m = Some (put_ref r v m)"
  by (auto simp: ref_ok_def set_ref_def)

lemma set_pprev_Some [simp]: "n \<in> hdom m \<Longrightarrow> set_pprev n r m = Some (put_pprev n r m)"
  by (auto simp: set_pprev_def get_pprev_def)

lemma put_dom [simp]: "hdom (put_ref r v m) = hdom m" "hdom (put_pprev n p m) = hdom m"
  by (cases r) (auto simp: put_pprev_def)

lemma put_ok [simp]: "ref_ok (put_ref r v m) q = ref_ok m q" "ref_ok (put_pprev n p m) q = ref_ok m q"
  by (cases r; cases q; auto simp: ref_ok_def) (cases q; auto simp: ref_ok_def put_pprev_def)

lemma put_get [simp]:
  "ref_ok m r \<Longrightarrow> get_ref q (put_ref r v m) = (if q = r then Some v else get_ref q m)"
  "get_pprev n (put_ref r v m) = get_pprev n m"
  "n \<in> hdom m \<Longrightarrow> get_pprev k (put_pprev n p m) = (if k = n then Some p else get_pprev k m)"
  "get_ref q (put_pprev n p m) = get_ref q m"
     apply (cases r; cases q; auto simp: ref_ok_def)
    apply (cases r; auto simp: get_pprev_def option.map_comp o_def)
   apply (auto simp: get_pprev_def put_pprev_def)[1]
  apply (cases q; auto simp: put_pprev_def option.map_comp o_def)
  done

text \<open>The heads and nodes outside two sets are left alone, and none is lost.\<close>

definition hkeeps :: "ptr set \<Rightarrow> ptr set \<Rightarrow> hmem \<Rightarrow> hmem \<Rightarrow> bool" where
  "hkeeps H N m m' \<longleftrightarrow> (\<forall>h. h \<notin> H \<longrightarrow> hlist_head m' h = hlist_head m h) \<and> (\<forall>n. n \<notin> N \<longrightarrow> hlist_nodes m' n = hlist_nodes m n)
     \<and> dom (hlist_head m') = dom (hlist_head m) \<and> hdom m' = hdom m"

lemma hkeeps_refl [simp]: "hkeeps H N m m"
  by (simp add: hkeeps_def)

fun ref_in :: "ptr set \<Rightarrow> ptr set \<Rightarrow> pprev \<Rightarrow> bool" where
  "ref_in H N (First_of h) \<longleftrightarrow> h \<in> H"
| "ref_in H N (Next_of n) \<longleftrightarrow> n \<in> N"

lemma put_head_dom: "dom (hlist_head (put_ref r v m)) = dom (hlist_head m)" "dom (hlist_head (put_pprev n p m)) = dom (hlist_head m)"
  by (cases r) (auto simp: put_pprev_def)

lemma hkeeps_put:
  "hkeeps H N m0 m \<Longrightarrow> ref_in H N r \<Longrightarrow> hkeeps H N m0 (put_ref r v m)"
  "hkeeps H N m0 m \<Longrightarrow> n \<in> N \<Longrightarrow> hkeeps H N m0 (put_pprev n p m)"
  unfolding hkeeps_def put_dom put_head_dom by (cases r; simp add: put_pprev_def; blast)+

lemma hkeeps_get:
  "hkeeps H N m m' \<Longrightarrow> \<not> ref_in H N r \<Longrightarrow> get_ref r m' = get_ref r m"
  "hkeeps H N m m' \<Longrightarrow> n \<notin> N \<Longrightarrow> get_pprev n m' = get_pprev n m"
  by (cases r; auto simp: hkeeps_def get_pprev_def)+

lemma hlist_keeps:
  assumes "hlist m k ys" "hkeeps H N m m'" "k \<notin> H" "N \<inter> set ys = {}"
  shows "hlist m' k ys"
  unfolding hlist_def
proof (intro conjI)
  show "hchain m' (First_of k) (ys @ [NULL])"
  proof (rule hchain_frame)
    show "hchain m (First_of k) (ys @ [NULL])" using assms(1) by (simp add: hlist_def)
    fix q assume "q \<in> insert (First_of k) (Next_of ` set (butlast (ys @ [NULL])))"
    then have "\<not> ref_in H N q" using assms(3,4) by auto
    then show "get_ref q m' = get_ref q m" by (rule hkeeps_get(1) [OF assms(2)])
  next
    fix v assume "v \<in> set (ys @ [NULL])" "v \<noteq> NULL"
    then show "get_pprev v m' = get_pprev v m" using assms(4) by (intro hkeeps_get(2) [OF assms(2)]) auto
  qed
qed (use assms(1) in \<open>auto simp: hlist_def\<close>)

lemma hlink_ok: "hlink m r v \<Longrightarrow> ref_ok m r \<and> (v \<noteq> NULL \<longrightarrow> v \<in> hdom m)"
  by (auto simp: hlink_def ref_ok_def get_pprev_def)

lemma hchain_dom: "hchain m r vs \<Longrightarrow> v \<in> set vs \<Longrightarrow> v \<noteq> NULL \<Longrightarrow> v \<in> hdom m"
  by (induction vs arbitrary: r) (auto dest: hlink_ok)

lemma hlist_dom: "hlist m h xs \<Longrightarrow> set xs \<subseteq> hdom m"
  using hchain_dom [of m "First_of h" "xs @ [NULL]"] by (auto simp: hlist_def)

lemma hlist_cut:
  assumes "hlist m h (xs @ ys)"
  shows "hlink m (ref_after (First_of h) xs) (hd (ys @ [NULL]))" "ref_ok m (ref_after (First_of h) xs)"
proof -
  show "hlink m (ref_after (First_of h) xs) (hd (ys @ [NULL]))"
    using assms hchain_append [of m "First_of h" xs "ys @ [NULL]"] by (cases ys) (auto simp: hlist_def)
  then show "ref_ok m (ref_after (First_of h) xs)" using hlink_ok by blast
qed

lemma ref_after_in: "ref_in {h} (set xs) (ref_after (First_of h) xs)"
  by (simp add: ref_after_def)

lemma ref_after_eq [simp]: "Next_of n = ref_after (First_of h) xs \<longleftrightarrow> xs \<noteq> [] \<and> n = last xs"
    "ref_after (First_of h) xs = Next_of n \<longleftrightarrow> xs \<noteq> [] \<and> n = last xs"
  by (auto simp: ref_after_def)

text \<open>The list is cut at the pointer after \<open>xs\<close>; \<open>zs\<close> takes the place between \<open>xs\<close> and \<open>ys\<close>.\<close>

lemma hlist_mend:
  assumes "distinct (xs @ ys)" "NULL \<notin> set (xs @ ys)"
    and "hchain m (First_of h) xs" "hchain m (Next_of (hd (ys @ [NULL]))) (tl (ys @ [NULL]))"
    and "\<And>q. q \<in> insert (First_of h) (Next_of ` set (xs @ ys)) \<Longrightarrow> q \<noteq> ref_after (First_of h) xs \<Longrightarrow> get_ref q m' = get_ref q m"
    and "\<And>v. v \<in> set (xs @ ys) \<Longrightarrow> v \<noteq> hd (ys @ [NULL]) \<Longrightarrow> get_pprev v m' = get_pprev v m"
  shows "hchain m' (First_of h) xs" "hchain m' (Next_of (hd (ys @ [NULL]))) (tl (ys @ [NULL]))"
proof -
  show "hchain m' (First_of h) xs"
  proof (rule hchain_frame [OF assms(3)])
    fix q assume q: "q \<in> insert (First_of h) (Next_of ` set (butlast xs))" "xs \<noteq> []"
    have "last xs \<notin> set (butlast xs)"
      using assms(1) q(2) append_butlast_last_id [of xs] by (metis distinct_append disjoint_iff list.set_intros(1))
    then have "q \<noteq> ref_after (First_of h) xs" using q by (auto simp: ref_after_def)
    moreover have "q \<in> insert (First_of h) (Next_of ` set (xs @ ys))" using q(1) by (auto dest: in_set_butlastD)
    ultimately show "get_ref q m' = get_ref q m" using assms(5) by blast
  next
    fix v assume "v \<in> set xs" "v \<noteq> NULL"
    moreover from this have "v \<noteq> hd (ys @ [NULL])" using assms(1) by (cases ys) auto
    ultimately show "get_pprev v m' = get_pprev v m" using assms(6) by simp
  qed
  show "hchain m' (Next_of (hd (ys @ [NULL]))) (tl (ys @ [NULL]))"
  proof (cases ys)
    case (Cons y zs)
    have "hchain m' (Next_of y) (zs @ [NULL])"
    proof (rule hchain_frame)
      show "hchain m (Next_of y) (zs @ [NULL])" using assms(4) Cons by simp
      fix q assume "q \<in> insert (Next_of y) (Next_of ` set (butlast (zs @ [NULL])))"
      then obtain n where n: "q = Next_of n" "n \<in> set ys" using Cons by auto
      then have "q \<noteq> ref_after (First_of h) xs" using assms(1) last_in_set [of xs] by (auto simp: disjoint_iff)
      then show "get_ref q m' = get_ref q m" using n by (intro assms(5)) auto
    next
      fix v assume "v \<in> set (zs @ [NULL])" "v \<noteq> NULL"
      then have "v \<in> set zs" by simp
      then show "get_pprev v m' = get_pprev v m" using assms(1) Cons by (intro assms(6)) auto
    qed
    then show ?thesis using Cons by simp
  qed simp
qed

lemma hlist_parts:
  assumes "hlist m h (xs @ ys)"
  shows "hchain m (First_of h) xs" "hchain m (Next_of (hd (ys @ [NULL]))) (tl (ys @ [NULL]))"
  using assms hchain_append [of m "First_of h" xs "ys @ [NULL]"] by (cases ys; auto simp: hlist_def)+

lemma hlist_glue:
  assumes "hchain m (First_of h) xs" "hlink m (ref_after (First_of h) xs) (hd (ys @ [NULL]))"
    "hchain m (Next_of (hd (ys @ [NULL]))) (tl (ys @ [NULL]))" "distinct (xs @ ys)" "NULL \<notin> set (xs @ ys)"
  shows "hlist m h (xs @ ys)"
  using assms hchain_append [of m "First_of h" xs "ys @ [NULL]"] by (cases ys) (auto simp: hlist_def)

section \<open>Refinement of the operations\<close>

declare put_ref.simps [simp del] get_ref.simps [simp del]

lemma hlist_insert:
  assumes "hlist m h (xs @ ys)" "n \<in> hdom m" "n \<noteq> NULL" "n \<notin> set (xs @ ys)"
    and "hlink m' (ref_after (First_of h) xs) n" "hlink m' (Next_of n) (hd (ys @ [NULL]))"
    and "\<And>q. q \<in> insert (First_of h) (Next_of ` set (xs @ ys)) \<Longrightarrow> q \<noteq> ref_after (First_of h) xs \<Longrightarrow> get_ref q m' = get_ref q m"
    and "\<And>v. v \<in> set (xs @ ys) \<Longrightarrow> v \<noteq> hd (ys @ [NULL]) \<Longrightarrow> get_pprev v m' = get_pprev v m"
  shows "hlist m' h (xs @ n # ys)"
proof -
  have d: "distinct (xs @ ys)" "NULL \<notin> set (xs @ ys)" using assms(1) by (auto simp: hlist_def)
  note p = hlist_mend [OF d hlist_parts [OF assms(1)] assms(7,8)]
  have "hchain m' (Next_of n) (ys @ [NULL])" using p(2) assms(6) by (cases ys) auto
  then show ?thesis using p(1) assms(3-5) d hchain_append [of m' "First_of h" xs "n # ys @ [NULL]"]
    by (auto simp: hlist_def)
qed

lemma hlist_add_head_hlist:
  assumes "hlist m h xs" "n \<in> hdom m" "n \<noteq> NULL" "n \<notin> set xs"
  shows "\<exists>m'. hlist_add_head n h m = Some m' \<and> hlist m' h (n # xs) \<and> hkeeps {h} (set (n # xs)) m m'"
proof -
  define f where "f = hd (xs @ [NULL])"
  have lf: "hlink m (First_of h) f" "ref_ok m (First_of h)"
    using hlist_cut [of m h "[]" xs] assms(1) by (simp_all add: ref_after_def f_def)
  have f: "f \<noteq> NULL \<Longrightarrow> f \<in> hdom m \<and> f \<in> set xs" "f \<noteq> n"
    using hlink_ok [OF lf(1)] assms(3,4) unfolding f_def by (cases xs; auto)+
  define m' where "m' = put_pprev n (Some (First_of h)) (put_ref (First_of h) n
      (let m = put_ref (Next_of n) f m in if f \<noteq> NULL then put_pprev f (Some (Next_of n)) m else m))"
  have "hlist_add_head n h m = Some m'"
    using lf f assms(2) by (auto simp: hlist_add_head_def m'_def hlink_def Let_def)
  moreover have "hkeeps {h} (set (n # xs)) m m'"
    unfolding m'_def Let_def using f(1) by (auto intro!: hkeeps_put hkeeps_refl)
  moreover have "hlist m' h ([] @ n # xs)"
  proof (rule hlist_insert [of m])
    show "hlink m' (ref_after (First_of h) []) n" "hlink m' (Next_of n) (hd (xs @ [NULL]))"
      using lf f assms(2) unfolding f_def [symmetric] by (auto simp: m'_def Let_def hlink_def ref_after_def)
    show "get_ref q m' = get_ref q m" if "q \<in> insert (First_of h) (Next_of ` set ([] @ xs))" "q \<noteq> ref_after (First_of h) []" for q
      using that assms(2,4) lf f by (auto simp: m'_def Let_def ref_after_def)
    show "get_pprev v m' = get_pprev v m" if "v \<in> set ([] @ xs)" "v \<noteq> hd (xs @ [NULL])" for v
      using that assms(2,4) lf f unfolding f_def [symmetric] by (auto simp: m'_def Let_def)
  qed (use assms in auto)
  ultimately show ?thesis by auto
qed

lemma uu_hlist_del_hlist:
  assumes "hlist m h (xs @ n # ys)"
  shows "\<exists>m'. uu_hlist_del n m = Some m' \<and> hlist m' h (xs @ ys) \<and> hkeeps {h} (set (xs @ ys)) m m'"
proof -
  define r t where "r = ref_after (First_of h) xs" and "t = hd (ys @ [NULL])"
  have d: "distinct (xs @ n # ys)" "NULL \<notin> set (xs @ n # ys)" using assms by (auto simp: hlist_def)
  have ln: "hlink m r n" "ref_ok m r" using hlist_cut [OF assms] by (simp_all add: r_def)
  have lt: "hlink m (Next_of n) t" using hlist_cut(1) [of m h "xs @ [n]" ys] assms by (simp add: ref_after_def t_def)
  have t: "t \<noteq> NULL \<Longrightarrow> t \<in> hdom m \<and> t \<in> set ys" "t \<noteq> n" using hlink_ok [OF lt] d unfolding t_def by (cases ys; auto)+
  define m' where "m' = (let m = put_ref r t m in if t \<noteq> NULL then put_pprev t (Some r) m else m)"
  have "uu_hlist_del n m = Some m'" using ln lt t d by (auto simp: uu_hlist_del_def m'_def hlink_def Let_def)
  moreover have "ref_in {h} (set (xs @ ys)) r" by (simp add: r_def ref_after_def)
  then have "hkeeps {h} (set (xs @ ys)) m m'"
    unfolding m'_def Let_def using t(1) by (auto intro!: hkeeps_put hkeeps_refl)
  moreover have "hlist m' h (xs @ ys)"
  proof (rule hlist_glue)
    have pm: "hchain m (First_of h) xs" "hchain m (Next_of (hd (ys @ [NULL]))) (tl (ys @ [NULL]))"
      using hlist_parts [OF assms] hlist_parts(2) [of m h "xs @ [n]" ys] assms by simp_all
    have g: "get_ref q m' = get_ref q m" if "q \<noteq> ref_after (First_of h) xs" for q
      using that ln t by (auto simp: m'_def Let_def r_def)
    have p: "get_pprev v m' = get_pprev v m" if "v \<noteq> hd (ys @ [NULL])" for v
      using that ln t by (auto simp: m'_def Let_def t_def)
    have d': "distinct (xs @ ys)" "NULL \<notin> set (xs @ ys)" using d by auto
    show "hchain m' (First_of h) xs" "hchain m' (Next_of (hd (ys @ [NULL]))) (tl (ys @ [NULL]))"
      by (rule hlist_mend [OF d' pm]; rule g p; assumption)+
    show "hlink m' (ref_after (First_of h) xs) (hd (ys @ [NULL]))"
      using ln t unfolding t_def [symmetric] r_def [symmetric] by (auto simp: m'_def Let_def hlink_def)
  qed (use d in auto)
  ultimately show ?thesis by blast
qed

lemma hkeeps_move:
  assumes "hkeeps H N m m1" "hkeeps H' N' m1 m'" "H \<subseteq> K" "H' \<subseteq> K" "N \<subseteq> M" "N' \<subseteq> M"
  shows "hkeeps K M m m'"
proof -
  have "hkeeps K M m m1" "hkeeps K M m1 m'" using assms unfolding hkeeps_def by blast+
  then show ?thesis by (simp add: hkeeps_def)
qed

lemma clear_node:
  assumes "hlist m h xs" "n \<in> hdom m" "n \<notin> set xs"
  shows "\<exists>m'. INIT_HLIST_NODE n m = Some m' \<and> hlist m' h xs \<and> get_ref (Next_of n) m' = Some NULL \<and> get_pprev n m' = Some None
    \<and> hkeeps {} {n} m m'"
proof -
  let ?m = "put_pprev n None (put_ref (Next_of n) NULL m)"
  have k: "hkeeps {} {n} m ?m" by (intro hkeeps_put hkeeps_refl) simp_all
  have "hlist ?m h xs" by (rule hlist_keeps [OF assms(1) k]) (use assms(3) in auto)
  then show ?thesis using k assms(2) by (simp add: INIT_HLIST_NODE_def)
qed

lemma hlist_del_eq: "hlist_del n m = do { m \<leftarrow> uu_hlist_del n m; INIT_HLIST_NODE n m }"
  by (simp add: hlist_del_def INIT_HLIST_NODE_def)

lemma hlist_del_hlist:
  assumes "hlist m h (xs @ n # ys)"
  shows "\<exists>m'. hlist_del n m = Some m' \<and> hlist m' h (xs @ ys) \<and> hlist_unhashed n m' = Some True \<and> hkeeps {h} (set (xs @ n # ys)) m m'"
proof -
  obtain m1 where m1: "uu_hlist_del n m = Some m1" "hlist m1 h (xs @ ys)" "hkeeps {h} (set (xs @ ys)) m m1"
    using uu_hlist_del_hlist [OF assms] by blast
  have n: "n \<in> hdom m1" "n \<notin> set (xs @ ys)" using hlist_dom [OF assms] m1(3) assms by (auto simp: hkeeps_def hlist_def)
  obtain m' where m': "INIT_HLIST_NODE n m1 = Some m'" "hlist m' h (xs @ ys)" "get_pprev n m' = Some None" "hkeeps {} {n} m1 m'"
    using clear_node [OF m1(2) n] by blast
  have "hkeeps {h} (set (xs @ n # ys)) m m'" by (rule hkeeps_move [OF m1(3) m'(4)]) auto
  then show ?thesis using m1(1) m' by (simp add: hlist_del_eq hlist_unhashed_def)
qed

lemma hlist_hashed:
  assumes "hlist m h (xs @ n # ys)"
  shows "hlist_unhashed n m = Some False"
  using hlist_cut(1) [OF assms] assms by (auto simp: hlist_unhashed_def hlink_def hlist_def)

lemma hlist_del_init_hlist:
  assumes "hlist m h (xs @ n # ys)"
  shows "hlist_del_init n m = hlist_del n m"
  using hlist_hashed [OF assms] by (simp add: hlist_del_init_def hlist_del_eq)

lemma unhashed_del:
  assumes "hlist_unhashed n m = Some True"
  shows "hlist_del n m = None" "hlist_del_init n m = Some m"
  using assms by (auto simp: hlist_unhashed_def hlist_del_def uu_hlist_del_def hlist_del_init_def bind_eq_Some_conv
      split: Option.bind_splits)

lemma hlist_add_before_hlist:
  assumes "hlist m h (xs @ x # ys)" "n \<in> hdom m" "n \<noteq> NULL" "n \<notin> set (xs @ x # ys)"
  shows "\<exists>m'. hlist_add_before n x m = Some m' \<and> hlist m' h (xs @ n # x # ys) \<and> hkeeps {h} (set (xs @ n # x # ys)) m m'"
proof -
  define r where "r = ref_after (First_of h) xs"
  have ln: "hlink m r x" "ref_ok m r" using hlist_cut [OF assms(1)] by (simp_all add: r_def)
  have x: "x \<noteq> NULL" "x \<in> hdom m" "x \<noteq> n" using hlist_dom [OF assms(1)] assms(1,4) by (auto simp: hlist_def)
  have rn: "r \<noteq> Next_of n" using assms(4) last_in_set [of xs] by (auto simp: r_def ref_after_def split: if_splits)
  define m' where "m' = put_ref r n (put_pprev x (Some (Next_of n)) (put_ref (Next_of n) x (put_pprev n (Some r) m)))"
  have "hlist_add_before n x m = Some m'"
    using ln x assms(2) by (simp add: hlist_add_before_def m'_def hlink_def)
  moreover have "ref_in {h} (set (xs @ n # x # ys)) r" by (simp add: r_def ref_after_def)
  then have "hkeeps {h} (set (xs @ n # x # ys)) m m'" unfolding m'_def by (intro hkeeps_put hkeeps_refl) simp_all
  moreover have "hlist m' h (xs @ n # x # ys)"
  proof (rule hlist_insert [of m])
    show "hlink m' (ref_after (First_of h) xs) n" "hlink m' (Next_of n) (hd ((x # ys) @ [NULL]))"
      using ln x assms(2,3) rn unfolding r_def [symmetric] by (auto simp: m'_def hlink_def)
    show "get_ref q m' = get_ref q m" if "q \<in> insert (First_of h) (Next_of ` set (xs @ x # ys))" "q \<noteq> ref_after (First_of h) xs" for q
    proof -
      have "q \<noteq> Next_of n" using that(1) assms(4) by auto
      then show ?thesis using that(2) assms(2) ln x unfolding r_def [symmetric] by (simp add: m'_def)
    qed
    show "get_pprev v m' = get_pprev v m" if "v \<in> set (xs @ x # ys)" "v \<noteq> hd ((x # ys) @ [NULL])" for v
    proof -
      have "v \<noteq> n" using that(1) assms(4) by auto
      then show ?thesis using that(2) assms(2) ln x by (simp add: m'_def)
    qed
  qed (use assms in auto)
  ultimately show ?thesis by blast
qed

lemma hlist_add_after_hlist:
  assumes "hlist m h (xs @ x # ys)" "n \<in> hdom m" "n \<noteq> NULL" "n \<notin> set (xs @ x # ys)"
  shows "\<exists>m'. hlist_add_after x n m = Some m' \<and> hlist m' h (xs @ x # n # ys) \<and> hkeeps {h} (set (xs @ x # n # ys)) m m'"
proof -
  define t where "t = hd (ys @ [NULL])"
  have h': "hlist m h ((xs @ [x]) @ ys)" using assms(1) by simp
  have lt: "hlink m (Next_of x) t" using hlist_cut(1) [OF h'] by (simp add: ref_after_def t_def)
  have x: "x \<noteq> NULL" "x \<in> hdom m" "x \<noteq> n" using hlist_dom [OF assms(1)] assms(1,4) by (auto simp: hlist_def)
  have t: "t \<noteq> NULL \<Longrightarrow> t \<in> hdom m \<and> t \<in> set ys" "t \<noteq> n" using hlink_ok [OF lt] assms(3,4) unfolding t_def by (cases ys; auto)+
  define m1 where "m1 = put_pprev n (Some (Next_of x)) (put_ref (Next_of x) n (put_ref (Next_of n) t m))"
  define m' where "m' = (if t \<noteq> NULL then put_pprev t (Some (Next_of n)) m1 else m1)"
  have "hlist_add_after x n m = Some m'"
    using lt x t assms(2) by (auto simp: hlist_add_after_def m1_def m'_def hlink_def)
  moreover have "hkeeps {h} (set (xs @ x # n # ys)) m m1" unfolding m1_def by (intro hkeeps_put hkeeps_refl) simp_all
  then have "hkeeps {h} (set (xs @ x # n # ys)) m m'" unfolding m'_def using t(1) by (auto intro: hkeeps_put)
  moreover have "hlist m' h ((xs @ [x]) @ n # ys)"
  proof (rule hlist_insert [of m])
    show "hlink m' (ref_after (First_of h) (xs @ [x])) n" "hlink m' (Next_of n) (hd (ys @ [NULL]))"
      using lt x t assms(2,3) unfolding t_def [symmetric] by (auto simp: m1_def m'_def hlink_def ref_after_def)
    show "get_ref q m' = get_ref q m"
      if "q \<in> insert (First_of h) (Next_of ` set ((xs @ [x]) @ ys))" "q \<noteq> ref_after (First_of h) (xs @ [x])" for q
    proof -
      have "q \<noteq> Next_of n" "q \<noteq> Next_of x" using that assms(4) by (auto simp: ref_after_def)
      then show ?thesis using assms(2) x by (simp add: m1_def m'_def)
    qed
    show "get_pprev v m' = get_pprev v m" if "v \<in> set ((xs @ [x]) @ ys)" "v \<noteq> hd (ys @ [NULL])" for v
    proof -
      have "v \<noteq> n" using that(1) assms(4) by auto
      then show ?thesis using that(2) assms(2) x t(1) unfolding t_def [symmetric] by (simp add: m1_def m'_def)
    qed
  qed (use assms in auto)
  ultimately show ?thesis by simp
qed

lemma hlist_empty_hlist: "hlist m h xs \<Longrightarrow> hlist_empty h m = Some (xs = [])"
  using hlist_cut(1) [of m h "[]" xs] by (cases xs) (auto simp: hlist_empty_def hlink_def ref_after_def hlist_def)

lemma hlist_move_list_hlist:
  assumes "hlist m old xs" "hlist_head m new \<noteq> None" "old \<noteq> new"
  shows "\<exists>m'. hlist_move_list old new m = Some m' \<and> hlist m' new xs \<and> hlist m' old [] \<and> hkeeps {old, new} (set xs) m m'"
proof -
  define f where "f = hd (xs @ [NULL])"
  have lf: "hlink m (First_of old) f" "ref_ok m (First_of old)"
    using hlist_cut [of m old "[]" xs] assms(1) by (simp_all add: ref_after_def f_def)
  have f: "f \<noteq> NULL \<Longrightarrow> f \<in> hdom m \<and> f \<in> set xs" using hlink_ok [OF lf(1)] unfolding f_def by (cases xs) auto
  have nw: "ref_ok m (First_of new)" using assms(2) by (simp add: ref_ok_def get_ref.simps)
  define m' where "m' = put_ref (First_of old) NULL (let m = put_ref (First_of new) f m in if f \<noteq> NULL then put_pprev f (Some (First_of new)) m else m)"
  have "hlist_move_list old new m = Some m'"
    using lf f nw by (auto simp: hlist_move_list_def m'_def hlink_def Let_def)
  moreover have "hkeeps {old, new} (set xs) m m'"
    unfolding m'_def Let_def using f by (auto intro!: hkeeps_put hkeeps_refl)
  moreover have "hlist m' old []" using lf f nw by (auto simp: hlist_def hlink_def m'_def Let_def)
  moreover have "hlist m' new ([] @ xs)"
  proof (rule hlist_glue)
    show "hlink m' (ref_after (First_of new) []) (hd (xs @ [NULL]))"
      using lf f nw assms(3) unfolding f_def [symmetric] by (auto simp: hlink_def m'_def Let_def ref_after_def)
    have g: "get_ref (Next_of q) m' = get_ref (Next_of q) m" for q
      using lf f nw by (auto simp: m'_def Let_def)
    have p: "get_pprev v m' = get_pprev v m" if "v \<noteq> f" for v
      using that f by (auto simp: m'_def Let_def)
    show "hchain m' (Next_of (hd (xs @ [NULL]))) (tl (xs @ [NULL]))"
    proof (rule hchain_frame)
      show "hchain m (Next_of (hd (xs @ [NULL]))) (tl (xs @ [NULL]))" using hlist_parts(2) [of m old "[]" xs] assms(1) by simp
      fix q assume "q \<in> insert (Next_of (hd (xs @ [NULL]))) (Next_of ` set (butlast (tl (xs @ [NULL]))))"
      then show "get_ref q m' = get_ref q m" using g by auto
    next
      fix v assume "v \<in> set (tl (xs @ [NULL]))" "v \<noteq> NULL"
      then show "get_pprev v m' = get_pprev v m" using assms(1) by (intro p) (cases xs; auto simp: f_def hlist_def)
    qed
  qed (use assms(1) in \<open>auto simp: hlist_def\<close>)
  ultimately show ?thesis by auto
qed

lemma hchain_walk:
  assumes "hchain m r (xs @ [NULL])" "NULL \<notin> set xs" "get_ref r m = Some p"
  shows "hlist_for_each_loop (\<lambda>p m. Some m) p m = Some (xs, m)"
  using assms
proof (induction xs arbitrary: r p)
  case Nil
  then show ?case by (simp add: hlink_def hlist_for_each_loop.simps)
next
  case (Cons x xs)
  have p: "p = x" "x \<noteq> NULL" using Cons.prems by (auto simp: hlink_def)
  obtain q where q: "get_ref (Next_of x) m = Some q" using Cons.prems by (cases xs) (auto simp: hlink_def)
  have "hlist_for_each_loop (\<lambda>p m. Some m) q m = Some (xs, m)" using Cons.prems q by (intro Cons.IH [of "Next_of x"]) auto
  then show ?case using p q by (simp add: hlist_for_each_loop.simps [of _ x])
qed

lemma hlist_for_each_hlist:
  assumes "hlist m h xs"
  shows "hlist_for_each (\<lambda>p m. Some m) h m = Some (xs, m)"
proof -
  obtain p where p: "get_ref (First_of h) m = Some p" using assms by (cases xs) (auto simp: hlist_def hlink_def)
  then show ?thesis using hchain_walk [of m "First_of h" xs p] assms by (simp add: hlist_for_each_def hlist_def)
qed

section \<open>Properties\<close>

definition hlist_valid :: "hmem \<Rightarrow> ptr \<Rightarrow> ptr \<Rightarrow> bool" where
  "hlist_valid m h n \<longleftrightarrow> hlist_nodes m n \<noteq> None \<and> n \<noteq> NULL"

lemma hlist_valid_keeps: "hkeeps H N m m' \<Longrightarrow> hlist_valid m' h = hlist_valid m h"
  by (auto simp: hlist_valid_def hkeeps_def dom_def set_eq_iff fun_eq_iff)

interpretation hl: node_list hlist hlist_valid hlist_add_head hlist_del "hlist_for_each (\<lambda>p m. Some m)"
proof unfold_locales
  show "distinct xs" if "hlist m h xs" for m h xs using that by (simp add: hlist_def)
  show "\<exists>m'. hlist_add_head n h m = Some m' \<and> hlist m' h (n # xs) \<and> hlist_valid m' h = hlist_valid m h"
    if "hlist m h xs" "hlist_valid m h n" "n \<notin> set xs" for m h xs n
  proof -
    have "n \<in> hdom m" "n \<noteq> NULL" using that(2) by (auto simp: hlist_valid_def)
    then show ?thesis using hlist_add_head_hlist [OF that(1) _ _ that(3)] hlist_valid_keeps by blast
  qed
  show "\<exists>m'. hlist_del n m = Some m' \<and> hlist m' h (xs @ ys) \<and> hlist_valid m' h = hlist_valid m h"
    if "hlist m h (xs @ n # ys)" for m h xs n ys
    using hlist_del_hlist [OF that] hlist_valid_keeps by blast
  show "hlist_for_each (\<lambda>p m. Some m) h m = Some (xs, m)" if "hlist m h xs" for m h xs
    by (rule hlist_for_each_hlist [OF that])
qed


definition one_hnode :: hmem where
  "one_hnode = \<lparr>hlist_head = [1 \<mapsto> 2], hlist_nodes = [2 \<mapsto> \<lparr>hn_next = 0, hn_pprev = Some (First_of 1)\<rparr>, 3 \<mapsto> \<lparr>hn_next = 0, hn_pprev = None\<rparr>]\<rparr>"

lemma one_hnode_hlist: "hlist one_hnode 1 [2]"
  by (simp add: hlist_def hlink_def get_pprev_def one_hnode_def get_ref.simps)


text \<open>Every sequence of additions and removals, run on the memory of such a list, gives the list of nodes
  that it gives on lists.\<close>

theorem hlist_clients:
  assumes "hlist m h xs" "list_cmds (hlist_valid m h) cs xs = Some ys"
  shows "\<exists>m'. run_cmds hlist_add_head hlist_del h cs m = Some m' \<and> hlist m' h ys \<and> hlist_for_each (\<lambda>p m. Some m) h m' = Some (ys, m')"
  by (rule hl.run_refines [OF assms])

theorem hlist_clients_witness:
  "\<exists>m'. run_cmds hlist_add_head hlist_del 1 [Add_node 3, Del_node 2] one_hnode = Some m' \<and> hlist m' 1 [3]"
  using hlist_clients [of one_hnode 1 "[2]" "[Add_node 3, Del_node 2]" "[3]"] one_hnode_hlist
  by (auto simp: hlist_valid_def one_hnode_def)

end
