(* ===== verification/I2c.thy ===== *)
theory I2c
  imports Webcamd_Prelude "HOL-Library.Monad_Syntax"
begin

text \<open>
  Transfers on I2C busses (\<open>kernel/linux_i2c.c\<close>).  An adapter is a record of the functions its
  driver provides; they are parameters of the model and work on a state \<open>'s\<close> of their own.  A
  negative result is an error (\<open>Inl\<close>).  The buffers of the messages are lists of bytes; an access
  outside a buffer, or through the null pointer, is the result \<open>None\<close>.  The SMBus operations that an
  adapter does not provide are made of plain transfers with an optional check byte (PEC).
\<close>

section \<open>Constants and data\<close>

definition I2C_M_TEN :: u16 where "I2C_M_TEN = 0x10"
definition I2C_M_RD :: u16 where "I2C_M_RD = 0x1"
definition I2C_M_RECV_LEN :: u16 where "I2C_M_RECV_LEN = 0x400"
definition I2C_CLIENT_PEC :: u16 where "I2C_CLIENT_PEC = 0x4"
definition I2C_CLIENT_SCCB :: u16 where "I2C_CLIENT_SCCB = 0x9000"
definition I2C_LOCK_ROOT_ADAPTER :: u32 where "I2C_LOCK_ROOT_ADAPTER = 1"
definition I2C_LOCK_SEGMENT :: u32 where "I2C_LOCK_SEGMENT = 2"
definition I2C_SMBUS_BLOCK_MAX :: nat where "I2C_SMBUS_BLOCK_MAX = 32"

definition I2C_SMBUS_QUICK :: int where "I2C_SMBUS_QUICK = 0"
definition I2C_SMBUS_BYTE :: int where "I2C_SMBUS_BYTE = 1"
definition I2C_SMBUS_BYTE_DATA :: int where "I2C_SMBUS_BYTE_DATA = 2"
definition I2C_SMBUS_WORD_DATA :: int where "I2C_SMBUS_WORD_DATA = 3"
definition I2C_SMBUS_PROC_CALL :: int where "I2C_SMBUS_PROC_CALL = 4"
definition I2C_SMBUS_BLOCK_DATA :: int where "I2C_SMBUS_BLOCK_DATA = 5"
definition I2C_SMBUS_BLOCK_PROC_CALL :: int where "I2C_SMBUS_BLOCK_PROC_CALL = 7"
definition I2C_SMBUS_I2C_BLOCK_DATA :: int where "I2C_SMBUS_I2C_BLOCK_DATA = 8"

lemmas i2c_flags = I2C_M_TEN_def I2C_M_RD_def I2C_M_RECV_LEN_def I2C_CLIENT_PEC_def I2C_CLIENT_SCCB_def
lemmas smbus_sizes = I2C_SMBUS_QUICK_def I2C_SMBUS_BYTE_def I2C_SMBUS_BYTE_DATA_def I2C_SMBUS_WORD_DATA_def
  I2C_SMBUS_PROC_CALL_def I2C_SMBUS_BLOCK_DATA_def I2C_SMBUS_BLOCK_PROC_CALL_def I2C_SMBUS_I2C_BLOCK_DATA_def

record i2c_msg =
  msg_addr :: u16
  msg_flags :: u16
  msg_len :: u16
  msg_buf :: "u8 list"

definition i2c_8bit_addr_from_msg :: "i2c_msg \<Rightarrow> u8" where
  "i2c_8bit_addr_from_msg msg = ucast (push_bit 1 (msg_addr msg)) OR (if msg_flags msg AND I2C_M_RD \<noteq> 0 then 1 else 0)"

text \<open>The union of a byte, a word and a block: its 34 bytes, or the null pointer.\<close>

type_synonym smbus_data = "u8 list option"

type_synonym 's master_xfer = "i2c_msg list \<Rightarrow> 's \<Rightarrow> (errno + int) \<times> i2c_msg list \<times> 's"
type_synonym 's smbus_xfer = "u16 \<Rightarrow> u16 \<Rightarrow> bool \<Rightarrow> u8 \<Rightarrow> int \<Rightarrow> smbus_data \<Rightarrow> 's \<Rightarrow> (errno + int) \<times> smbus_data \<times> 's"

record 's i2c_adapter =
  algo_master_xfer :: "'s master_xfer option"
  algo_smbus_xfer :: "'s smbus_xfer option"
  adap_timeout :: int
  adap_retries :: int
  lock_bus :: "u32 \<Rightarrow> 's \<Rightarrow> 's"
  unlock_bus :: "u32 \<Rightarrow> 's \<Rightarrow> 's"

definition time_after :: "u64 \<Rightarrow> u64 \<Rightarrow> bool" where
  "time_after a b = (sint (b - a) < 0)"

section \<open>Transfers\<close>

text \<open>The loop over the tries: \<open>ret\<close> is the result so far, \<open>late\<close> tells whether the time is over.\<close>

primrec i2c_try :: "('a \<Rightarrow> 's \<Rightarrow> (errno + int) \<times> 'a \<times> 's) \<Rightarrow> ('s \<Rightarrow> bool) \<Rightarrow> nat \<Rightarrow> errno + int \<Rightarrow> 'a \<Rightarrow> 's \<Rightarrow> (errno + int) \<times> 'a \<times> 's" where
  "i2c_try xfer late 0 ret x s = (ret, x, s)"
| "i2c_try xfer late (Suc n) ret x s =
     (case xfer x s of (ret, x, s) \<Rightarrow>
        if ret \<noteq> Inl EAGAIN then (ret, x, s)
        else if late s then (ret, x, s)
        else i2c_try xfer late n ret x s)"

text \<open>\<open>now\<close> reads the clock (\<open>jiffies\<close>).\<close>

definition uu_i2c_transfer :: "('s \<Rightarrow> u64) \<Rightarrow> 's i2c_adapter \<Rightarrow> i2c_msg list \<Rightarrow> 's \<Rightarrow> ((errno + int) \<times> i2c_msg list \<times> 's) option" where
  "uu_i2c_transfer now adap msgs s = do {
     xfer \<leftarrow> algo_master_xfer adap;
     let end_jiffies = now s + word_of_int (adap_timeout adap);
     Some (i2c_try xfer (\<lambda>s. time_after (now s) end_jiffies) (nat (adap_retries adap + 1)) (Inr 0) msgs s) }"

definition i2c_transfer :: "('s \<Rightarrow> u64) \<Rightarrow> 's i2c_adapter \<Rightarrow> i2c_msg list \<Rightarrow> 's \<Rightarrow> (errno + int) \<times> i2c_msg list \<times> 's" where
  "i2c_transfer now adap msgs s =
     (case algo_master_xfer adap of
        None \<Rightarrow> (Inl EOPNOTSUPP, msgs, s)
      | Some xfer \<Rightarrow>
        let s = lock_bus adap I2C_LOCK_SEGMENT s;
            end_jiffies = now s + word_of_int (adap_timeout adap);
            (ret, msgs, s) = i2c_try xfer (\<lambda>s. time_after (now s) end_jiffies) (nat (adap_retries adap + 1)) (Inr 0) msgs s
        in (ret, msgs, unlock_bus adap I2C_LOCK_SEGMENT s))"

record i2c_client =
  client_addr :: u16
  client_flags :: u16

definition i2c_master_send :: "('s \<Rightarrow> u64) \<Rightarrow> 's i2c_adapter \<Rightarrow> i2c_client \<Rightarrow> u8 list \<Rightarrow> int \<Rightarrow> 's \<Rightarrow> (errno + int) \<times> 's" where
  "i2c_master_send now adap client buf count s =
     (let msg = \<lparr>msg_addr = client_addr client, msg_flags = client_flags client AND I2C_M_TEN, msg_len = word_of_int count, msg_buf = buf\<rparr>;
          (ret, msgs, s) = i2c_transfer now adap [msg] s
      in (if ret = Inr 1 then Inr count else ret, s))"

definition i2c_master_recv :: "('s \<Rightarrow> u64) \<Rightarrow> 's i2c_adapter \<Rightarrow> i2c_client \<Rightarrow> u8 list \<Rightarrow> int \<Rightarrow> 's \<Rightarrow> (errno + int) \<times> u8 list \<times> 's" where
  "i2c_master_recv now adap client buf count s =
     (let msg = \<lparr>msg_addr = client_addr client, msg_flags = (client_flags client AND I2C_M_TEN) OR I2C_M_RD, msg_len = word_of_int count, msg_buf = buf\<rparr>;
          (ret, msgs, s) = i2c_transfer now adap [msg] s
      in (if ret = Inr 1 then Inr count else ret, (case msgs of m # _ \<Rightarrow> msg_buf m | [] \<Rightarrow> buf), s))"

section \<open>Check bytes\<close>

definition POLY :: u16 where "POLY = ucast (push_bit 3 0x1070 :: u32)"

primrec crc8_loop :: "nat \<Rightarrow> u16 \<Rightarrow> u16" where
  "crc8_loop 0 data = data"
| "crc8_loop (Suc n) data = crc8_loop n (push_bit 1 (if data AND 0x8000 \<noteq> 0 then data XOR POLY else data))"

definition crc8 :: "u16 \<Rightarrow> u8" where
  "crc8 data = ucast (drop_bit 8 (crc8_loop 8 data))"

primrec i2c_smbus_pec :: "u8 \<Rightarrow> u8 list \<Rightarrow> u8" where
  "i2c_smbus_pec crc [] = crc"
| "i2c_smbus_pec crc (b # p) = i2c_smbus_pec (crc8 (push_bit 8 (ucast (crc XOR b)))) p"

definition i2c_smbus_msg_pec :: "u8 \<Rightarrow> i2c_msg \<Rightarrow> u8 option" where
  "i2c_smbus_msg_pec pec msg =
     (let pec = i2c_smbus_pec pec [i2c_8bit_addr_from_msg msg]
      in if unat (msg_len msg) \<le> length (msg_buf msg) then Some (i2c_smbus_pec pec (take (unat (msg_len msg)) (msg_buf msg))) else None)"

definition rd :: "nat \<Rightarrow> u8 list \<Rightarrow> u8 option" where
  "rd i b = (if i < length b then Some (b ! i) else None)"

definition wr :: "nat \<Rightarrow> u8 \<Rightarrow> u8 list \<Rightarrow> u8 list option" where
  "wr i v b = (if i < length b then Some (b[i := v]) else None)"

definition i2c_smbus_add_pec :: "i2c_msg \<Rightarrow> i2c_msg option" where
  "i2c_smbus_add_pec msg = do {
     pec \<leftarrow> i2c_smbus_msg_pec 0 msg;
     b \<leftarrow> wr (unat (msg_len msg)) pec (msg_buf msg);
     Some (msg\<lparr>msg_buf := b, msg_len := msg_len msg + 1\<rparr>) }"

definition i2c_smbus_check_pec :: "u8 \<Rightarrow> i2c_msg \<Rightarrow> (errno option \<times> i2c_msg) option" where
  "i2c_smbus_check_pec cpec msg = do {
     let msg = msg\<lparr>msg_len := msg_len msg - 1\<rparr>;
     rpec \<leftarrow> rd (unat (msg_len msg)) (msg_buf msg);
     cpec \<leftarrow> i2c_smbus_msg_pec cpec msg;
     Some (if rpec \<noteq> cpec then Some EBADMSG else None, msg) }"

section \<open>SMBus transactions made of transfers\<close>

text \<open>The loops that copy \<open>n\<close> bytes from \<open>src[s]\<close> on to \<open>dst[d]\<close> on.\<close>

primrec copy_bytes :: "nat \<Rightarrow> nat \<Rightarrow> nat \<Rightarrow> u8 list \<Rightarrow> u8 list \<Rightarrow> u8 list option" where
  "copy_bytes 0 d s src dst = Some dst"
| "copy_bytes (Suc n) d s src dst = do { v \<leftarrow> rd s src; dst \<leftarrow> wr d v dst; copy_bytes n (d + 1) (s + 1) src dst }"

definition get_word :: "u8 list \<Rightarrow> u16 option" where
  "get_word d = do { lo \<leftarrow> rd 0 d; hi \<leftarrow> rd 1 d; Some (ucast lo OR push_bit 8 (ucast hi)) }"

definition put_word :: "u16 \<Rightarrow> u8 list \<Rightarrow> u8 list option" where
  "put_word w d = do { d \<leftarrow> wr 0 (ucast w) d; wr 1 (ucast (drop_bit 8 w)) d }"

text \<open>The local variables of \<open>i2c_smbus_xfer_emulated\<close> before the transfer: the two messages with
  their buffers, \<open>num\<close> and \<open>read_write\<close>.\<close>

record smbus_frame =
  msg0 :: i2c_msg
  msg1 :: i2c_msg
  num :: nat
  read_write :: bool

abbreviation set_len0 :: "u16 \<Rightarrow> u8 list \<Rightarrow> smbus_frame \<Rightarrow> smbus_frame" where
  "set_len0 n b f \<equiv> f\<lparr>msg0 := (msg0 f)\<lparr>msg_len := n, msg_buf := b\<rparr>\<rparr>"

abbreviation set_len1 :: "u16 \<Rightarrow> smbus_frame \<Rightarrow> smbus_frame" where
  "set_len1 n f \<equiv> f\<lparr>msg1 := (msg1 f)\<lparr>msg_len := n\<rparr>\<rparr>"

text \<open>The contents of variables on the stack before they are written.\<close>

record smbus_stack =
  stk_data :: "u8 list"
  stk_msgbuf0 :: "u8 list"
  stk_msgbuf1 :: "u8 list"

definition smbus_word_frame :: "smbus_data \<Rightarrow> smbus_frame \<Rightarrow> smbus_frame option" where
  "smbus_word_frame data f = do {
     d \<leftarrow> data; w \<leftarrow> get_word d;
     b \<leftarrow> wr 1 (ucast (w AND 0xff)) (msg_buf (msg0 f));
     b \<leftarrow> wr 2 (ucast (drop_bit 8 w)) b;
     Some (set_len0 3 b f) }"

definition smbus_setup :: "smbus_stack \<Rightarrow> u16 \<Rightarrow> u16 \<Rightarrow> bool \<Rightarrow> u8 \<Rightarrow> int \<Rightarrow> smbus_data \<Rightarrow> (errno + smbus_frame) option" where
  "smbus_setup k addr flags read command sz data = do {
     msgbuf0 \<leftarrow> wr 0 command (stk_msgbuf0 k);
     let f = \<lparr>msg0 = \<lparr>msg_addr = addr, msg_flags = flags, msg_len = 1, msg_buf = msgbuf0\<rparr>,
              msg1 = \<lparr>msg_addr = addr, msg_flags = flags OR I2C_M_RD, msg_len = 0, msg_buf = stk_msgbuf1 k\<rparr>,
              num = (if read then 2 else 1), read_write = read\<rparr>;
     if sz = I2C_SMBUS_QUICK then
       Some (Inr (f\<lparr>msg0 := (msg0 f)\<lparr>msg_len := 0, msg_flags := flags OR (if read then I2C_M_RD else 0)\<rparr>, num := 1\<rparr>))
     else if sz = I2C_SMBUS_BYTE then
       Some (Inr (if read then f\<lparr>msg0 := (msg0 f)\<lparr>msg_flags := I2C_M_RD OR flags\<rparr>, num := 1\<rparr> else f))
     else if sz = I2C_SMBUS_BYTE_DATA then
       if read then Some (Inr (set_len1 1 f))
       else do { d \<leftarrow> data; v \<leftarrow> rd 0 d; b \<leftarrow> wr 1 v msgbuf0; Some (Inr (set_len0 2 b f)) }
     else if sz = I2C_SMBUS_WORD_DATA then
       if read then Some (Inr (set_len1 2 f))
       else map_option Inr (smbus_word_frame data f)
     else if sz = I2C_SMBUS_PROC_CALL then
       map_option Inr (smbus_word_frame data (set_len1 2 (f\<lparr>num := 2, read_write := True\<rparr>)))
     else if sz = I2C_SMBUS_BLOCK_DATA then
       if read then Some (Inr (f\<lparr>msg1 := (msg1 f)\<lparr>msg_flags := msg_flags (msg1 f) OR I2C_M_RECV_LEN, msg_len := 1\<rparr>\<rparr>))
       else do {
         d \<leftarrow> data; n \<leftarrow> rd 0 d;
         let len = ucast n + 2;
         if len > of_nat (I2C_SMBUS_BLOCK_MAX + 2) then Some (Inl EINVAL)
         else do { b \<leftarrow> copy_bytes (unat len - 1) 1 0 d msgbuf0; Some (Inr (set_len0 len b f)) } }
     else if sz = I2C_SMBUS_BLOCK_PROC_CALL then do {
         d \<leftarrow> data; n \<leftarrow> rd 0 d;
         if unat n > I2C_SMBUS_BLOCK_MAX then Some (Inl EINVAL)
         else do {
           let len = ucast n + 2;
           b \<leftarrow> copy_bytes (unat len - 1) 1 0 d msgbuf0;
           Some (Inr (set_len0 len b (f\<lparr>num := 2, read_write := True,
             msg1 := (msg1 f)\<lparr>msg_flags := msg_flags (msg1 f) OR I2C_M_RECV_LEN, msg_len := 1\<rparr>\<rparr>))) } }
     else if sz = I2C_SMBUS_I2C_BLOCK_DATA then
       if read then do { d \<leftarrow> data; n \<leftarrow> rd 0 d; Some (Inr (set_len1 (ucast n) f)) }
       else do {
         d \<leftarrow> data; n \<leftarrow> rd 0 d;
         let len = ucast n + 1;
         if len > of_nat (I2C_SMBUS_BLOCK_MAX + 1) then Some (Inl EINVAL)
         else do { b \<leftarrow> copy_bytes (unat n) 1 1 d msgbuf0; Some (Inr (set_len0 len b f)) } }
     else Some (Inl EOPNOTSUPP) }"

definition last_msg :: "smbus_frame \<Rightarrow> i2c_msg" where
  "last_msg f = (if num f = 1 then msg0 f else msg1 f)"

definition set_last :: "i2c_msg \<Rightarrow> smbus_frame \<Rightarrow> smbus_frame" where
  "set_last m f = (if num f = 1 then f\<lparr>msg0 := m\<rparr> else f\<lparr>msg1 := m\<rparr>)"

definition is_read :: "i2c_msg \<Rightarrow> bool" where
  "is_read m = (msg_flags m AND I2C_M_RD \<noteq> 0)"

text \<open>The check byte of what is written, and room for the one that is read.\<close>

definition smbus_pec_out :: "smbus_frame \<Rightarrow> (u8 \<times> smbus_frame) option" where
  "smbus_pec_out f = do {
     (partial_pec, f) \<leftarrow> (if \<not> is_read (msg0 f) then
        if num f = 1 then do { m \<leftarrow> i2c_smbus_add_pec (msg0 f); Some (0, f\<lparr>msg0 := m\<rparr>) }
        else do { p \<leftarrow> i2c_smbus_msg_pec 0 (msg0 f); Some (p, f) }
      else Some (0, f));
     Some (partial_pec, if is_read (last_msg f) then set_last ((last_msg f)\<lparr>msg_len := msg_len (last_msg f) + 1\<rparr>) f else f) }"

definition frame_msgs :: "smbus_frame \<Rightarrow> i2c_msg list" where
  "frame_msgs f = take (num f) [msg0 f, msg1 f]"

definition frame_after :: "i2c_msg list \<Rightarrow> smbus_frame \<Rightarrow> smbus_frame" where
  "frame_after msgs f = (case msgs of [a] \<Rightarrow> f\<lparr>msg0 := a\<rparr> | [a, b] \<Rightarrow> f\<lparr>msg0 := a, msg1 := b\<rparr> | _ \<Rightarrow> f)"

text \<open>What a reading transaction stores for the caller.\<close>

definition smbus_result :: "int \<Rightarrow> smbus_frame \<Rightarrow> smbus_data \<Rightarrow> smbus_data option" where
  "smbus_result sz f data =
     (let b0 = msg_buf (msg0 f); b1 = msg_buf (msg1 f) in
      if \<not> read_write f then Some data
      else if sz = I2C_SMBUS_BYTE then do { d \<leftarrow> data; v \<leftarrow> rd 0 b0; map_option Some (wr 0 v d) }
      else if sz = I2C_SMBUS_BYTE_DATA then do { d \<leftarrow> data; v \<leftarrow> rd 0 b1; map_option Some (wr 0 v d) }
      else if sz = I2C_SMBUS_WORD_DATA \<or> sz = I2C_SMBUS_PROC_CALL then do {
        d \<leftarrow> data; lo \<leftarrow> rd 0 b1; hi \<leftarrow> rd 1 b1;
        map_option Some (put_word (ucast lo OR push_bit 8 (ucast hi)) d) }
      else if sz = I2C_SMBUS_I2C_BLOCK_DATA then do {
        d \<leftarrow> data; n \<leftarrow> rd 0 d; map_option Some (copy_bytes (unat n) 1 0 b1 d) }
      else if sz = I2C_SMBUS_BLOCK_DATA \<or> sz = I2C_SMBUS_BLOCK_PROC_CALL then do {
        d \<leftarrow> data; n \<leftarrow> rd 0 b1; map_option Some (copy_bytes (unat n + 1) 0 0 b1 d) }
      else Some data)"

definition i2c_smbus_xfer_emulated ::
    "('s \<Rightarrow> u64) \<Rightarrow> 's i2c_adapter \<Rightarrow> smbus_stack \<Rightarrow> u16 \<Rightarrow> u16 \<Rightarrow> bool \<Rightarrow> u8 \<Rightarrow> int \<Rightarrow> smbus_data \<Rightarrow> 's \<Rightarrow> ((errno + int) \<times> smbus_data \<times> 's) option" where
  "i2c_smbus_xfer_emulated now adap k addr flags read command sz data s = do {
     r \<leftarrow> smbus_setup k addr flags read command sz data;
     case r of
       Inl e \<Rightarrow> Some (Inl e, data, s)
     | Inr f \<Rightarrow> do {
         let i = (flags AND I2C_CLIENT_PEC \<noteq> 0 \<and> sz \<noteq> I2C_SMBUS_QUICK \<and> sz \<noteq> I2C_SMBUS_I2C_BLOCK_DATA);
         (partial_pec, f) \<leftarrow> (if i then smbus_pec_out f else Some (0, f));
         let (status, msgs, s) = i2c_transfer now adap (frame_msgs f) s;
         let f = frame_after msgs f;
         case status of
           Inl e \<Rightarrow> Some (Inl e, data, s)
         | Inr _ \<Rightarrow> do {
             (bad, f) \<leftarrow> (if i \<and> is_read (last_msg f) then do {
                 (e, m) \<leftarrow> i2c_smbus_check_pec partial_pec (last_msg f); Some (e, set_last m f) }
               else Some (None, f));
             case bad of
               Some e \<Rightarrow> Some (Inl e, data, s)
             | None \<Rightarrow> do { d \<leftarrow> smbus_result sz f data; Some (Inr 0, d, s) } } } }"

definition i2c_smbus_xfer ::
    "('s \<Rightarrow> u64) \<Rightarrow> 's i2c_adapter \<Rightarrow> smbus_stack \<Rightarrow> u16 \<Rightarrow> u16 \<Rightarrow> bool \<Rightarrow> u8 \<Rightarrow> int \<Rightarrow> smbus_data \<Rightarrow> 's \<Rightarrow> ((errno + int) \<times> smbus_data \<times> 's) option" where
  "i2c_smbus_xfer now adap k addr flags read command protocol data s =
     (let flags = flags AND (I2C_M_TEN OR I2C_CLIENT_PEC OR I2C_CLIENT_SCCB) in
      case algo_smbus_xfer adap of
        None \<Rightarrow> i2c_smbus_xfer_emulated now adap k addr flags read command protocol data s
      | Some xfer \<Rightarrow>
        let s = lock_bus adap I2C_LOCK_SEGMENT s;
            orig_jiffies = now s;
            (res, data, s) = i2c_try (xfer addr flags read command protocol)
              (\<lambda>s. time_after (now s) (orig_jiffies + word_of_int (adap_timeout adap))) (nat (adap_retries adap + 1)) (Inr 0) data s;
            s = unlock_bus adap I2C_LOCK_SEGMENT s
        in if res \<noteq> Inl EOPNOTSUPP \<or> algo_master_xfer adap = None then Some (res, data, s)
           else i2c_smbus_xfer_emulated now adap k addr flags read command protocol data s)"

section \<open>SMBus operations of clients\<close>

definition i2c_smbus_read_byte :: "('s \<Rightarrow> u64) \<Rightarrow> 's i2c_adapter \<Rightarrow> smbus_stack \<Rightarrow> i2c_client \<Rightarrow> 's \<Rightarrow> ((errno + int) \<times> 's) option" where
  "i2c_smbus_read_byte now adap k c s = do {
     (status, data, s) \<leftarrow> i2c_smbus_xfer now adap k (client_addr c) (client_flags c) True 0 I2C_SMBUS_BYTE (Some (stk_data k)) s;
     case status of Inl e \<Rightarrow> Some (Inl e, s) | Inr _ \<Rightarrow> do { d \<leftarrow> data; v \<leftarrow> rd 0 d; Some (Inr (uint v), s) } }"

definition i2c_smbus_write_byte :: "('s \<Rightarrow> u64) \<Rightarrow> 's i2c_adapter \<Rightarrow> smbus_stack \<Rightarrow> i2c_client \<Rightarrow> u8 \<Rightarrow> 's \<Rightarrow> ((errno + int) \<times> 's) option" where
  "i2c_smbus_write_byte now adap k c v s = do {
     (status, data, s) \<leftarrow> i2c_smbus_xfer now adap k (client_addr c) (client_flags c) False v I2C_SMBUS_BYTE None s;
     Some (status, s) }"

definition i2c_smbus_read_byte_data :: "('s \<Rightarrow> u64) \<Rightarrow> 's i2c_adapter \<Rightarrow> smbus_stack \<Rightarrow> i2c_client \<Rightarrow> u8 \<Rightarrow> 's \<Rightarrow> ((errno + int) \<times> 's) option" where
  "i2c_smbus_read_byte_data now adap k c command s = do {
     (status, data, s) \<leftarrow> i2c_smbus_xfer now adap k (client_addr c) (client_flags c) True command I2C_SMBUS_BYTE_DATA (Some (stk_data k)) s;
     case status of Inl e \<Rightarrow> Some (Inl e, s) | Inr _ \<Rightarrow> do { d \<leftarrow> data; v \<leftarrow> rd 0 d; Some (Inr (uint v), s) } }"

definition i2c_smbus_write_byte_data :: "('s \<Rightarrow> u64) \<Rightarrow> 's i2c_adapter \<Rightarrow> smbus_stack \<Rightarrow> i2c_client \<Rightarrow> u8 \<Rightarrow> u8 \<Rightarrow> 's \<Rightarrow> ((errno + int) \<times> 's) option" where
  "i2c_smbus_write_byte_data now adap k c command v s = do {
     d \<leftarrow> wr 0 v (stk_data k);
     (status, data, s) \<leftarrow> i2c_smbus_xfer now adap k (client_addr c) (client_flags c) False command I2C_SMBUS_BYTE_DATA (Some d) s;
     Some (status, s) }"

definition i2c_smbus_read_word_data :: "('s \<Rightarrow> u64) \<Rightarrow> 's i2c_adapter \<Rightarrow> smbus_stack \<Rightarrow> i2c_client \<Rightarrow> u8 \<Rightarrow> 's \<Rightarrow> ((errno + int) \<times> 's) option" where
  "i2c_smbus_read_word_data now adap k c command s = do {
     (status, data, s) \<leftarrow> i2c_smbus_xfer now adap k (client_addr c) (client_flags c) True command I2C_SMBUS_WORD_DATA (Some (stk_data k)) s;
     case status of Inl e \<Rightarrow> Some (Inl e, s) | Inr _ \<Rightarrow> do { d \<leftarrow> data; w \<leftarrow> get_word d; Some (Inr (uint w), s) } }"

definition i2c_smbus_write_word_data :: "('s \<Rightarrow> u64) \<Rightarrow> 's i2c_adapter \<Rightarrow> smbus_stack \<Rightarrow> i2c_client \<Rightarrow> u8 \<Rightarrow> u16 \<Rightarrow> 's \<Rightarrow> ((errno + int) \<times> 's) option" where
  "i2c_smbus_write_word_data now adap k c command w s = do {
     d \<leftarrow> put_word w (stk_data k);
     (status, data, s) \<leftarrow> i2c_smbus_xfer now adap k (client_addr c) (client_flags c) False command I2C_SMBUS_WORD_DATA (Some d) s;
     Some (status, s) }"

definition i2c_smbus_process_call :: "('s \<Rightarrow> u64) \<Rightarrow> 's i2c_adapter \<Rightarrow> smbus_stack \<Rightarrow> i2c_client \<Rightarrow> u8 \<Rightarrow> u16 \<Rightarrow> 's \<Rightarrow> ((errno + int) \<times> 's) option" where
  "i2c_smbus_process_call now adap k c command w s = do {
     d \<leftarrow> put_word w (stk_data k);
     (status, data, s) \<leftarrow> i2c_smbus_xfer now adap k (client_addr c) (client_flags c) False command I2C_SMBUS_PROC_CALL (Some d) s;
     case status of Inl e \<Rightarrow> Some (Inl e, s) | Inr _ \<Rightarrow> do { d \<leftarrow> data; w \<leftarrow> get_word d; Some (Inr (uint w), s) } }"

text \<open>\<open>values\<close> is the buffer of the caller.\<close>

definition i2c_smbus_read_block_data :: "('s \<Rightarrow> u64) \<Rightarrow> 's i2c_adapter \<Rightarrow> smbus_stack \<Rightarrow> i2c_client \<Rightarrow> u8 \<Rightarrow> u8 list \<Rightarrow> 's \<Rightarrow> ((errno + int) \<times> u8 list \<times> 's) option" where
  "i2c_smbus_read_block_data now adap k c command values s = do {
     (status, data, s) \<leftarrow> i2c_smbus_xfer now adap k (client_addr c) (client_flags c) True command I2C_SMBUS_BLOCK_DATA (Some (stk_data k)) s;
     if status \<noteq> Inr 0 then Some (status, values, s)
     else do { d \<leftarrow> data; n \<leftarrow> rd 0 d; v \<leftarrow> copy_bytes (unat n) 0 1 d values; Some (Inr (uint n), v, s) } }"

definition smbus_block :: "smbus_stack \<Rightarrow> u8 \<Rightarrow> u8 list \<Rightarrow> u8 list option" where
  "smbus_block k len values = do {
     let len = (if unat len > I2C_SMBUS_BLOCK_MAX then of_nat I2C_SMBUS_BLOCK_MAX else len);
     d \<leftarrow> wr 0 len (stk_data k);
     copy_bytes (unat len) 1 0 values d }"

definition i2c_smbus_write_block_data :: "('s \<Rightarrow> u64) \<Rightarrow> 's i2c_adapter \<Rightarrow> smbus_stack \<Rightarrow> i2c_client \<Rightarrow> u8 \<Rightarrow> u8 \<Rightarrow> u8 list \<Rightarrow> 's \<Rightarrow> ((errno + int) \<times> 's) option" where
  "i2c_smbus_write_block_data now adap k c command len values s = do {
     d \<leftarrow> smbus_block k len values;
     (status, data, s) \<leftarrow> i2c_smbus_xfer now adap k (client_addr c) (client_flags c) False command I2C_SMBUS_BLOCK_DATA (Some d) s;
     Some (status, s) }"

definition i2c_smbus_read_i2c_block_data :: "('s \<Rightarrow> u64) \<Rightarrow> 's i2c_adapter \<Rightarrow> smbus_stack \<Rightarrow> i2c_client \<Rightarrow> u8 \<Rightarrow> u8 \<Rightarrow> u8 list \<Rightarrow> 's \<Rightarrow> ((errno + int) \<times> u8 list \<times> 's) option" where
  "i2c_smbus_read_i2c_block_data now adap k c command len values s = do {
     let len = (if unat len > I2C_SMBUS_BLOCK_MAX then of_nat I2C_SMBUS_BLOCK_MAX else len);
     d \<leftarrow> wr 0 len (stk_data k);
     (status, data, s) \<leftarrow> i2c_smbus_xfer now adap k (client_addr c) (client_flags c) True command I2C_SMBUS_I2C_BLOCK_DATA (Some d) s;
     case status of
       Inl e \<Rightarrow> Some (Inl e, values, s)
     | Inr _ \<Rightarrow> do { d \<leftarrow> data; n \<leftarrow> rd 0 d; v \<leftarrow> copy_bytes (unat n) 0 1 d values; Some (Inr (uint n), v, s) } }"

definition i2c_smbus_write_i2c_block_data :: "('s \<Rightarrow> u64) \<Rightarrow> 's i2c_adapter \<Rightarrow> smbus_stack \<Rightarrow> i2c_client \<Rightarrow> u8 \<Rightarrow> u8 \<Rightarrow> u8 list \<Rightarrow> 's \<Rightarrow> ((errno + int) \<times> 's) option" where
  "i2c_smbus_write_i2c_block_data now adap k c command len values s = do {
     d \<leftarrow> smbus_block k len values;
     (status, data, s) \<leftarrow> i2c_smbus_xfer now adap k (client_addr c) (client_flags c) False command I2C_SMBUS_I2C_BLOCK_DATA (Some d) s;
     Some (status, s) }"

definition i2c_probe_func_quick_read :: "('s \<Rightarrow> u64) \<Rightarrow> 's i2c_adapter \<Rightarrow> smbus_stack \<Rightarrow> u16 \<Rightarrow> 's \<Rightarrow> (bool \<times> 's) option" where
  "i2c_probe_func_quick_read now adap k addr s = do {
     (status, data, s) \<leftarrow> i2c_smbus_xfer now adap k addr 0 True 0 I2C_SMBUS_QUICK None s;
     Some (\<not> isl status, s) }"


section \<open>Correctness of the check bytes\<close>

text \<open>The reference: CRC-8 with the polynomial x^8 + x^2 + x + 1, one bit at a time, on 8 bits.\<close>

definition crc8_bit :: "u8 \<Rightarrow> u8" where
  "crc8_bit c = push_bit 1 c XOR (if bit c 7 then 7 else 0)"

definition crc8_ref :: "u8 \<Rightarrow> u8 list \<Rightarrow> u8" where
  "crc8_ref = foldl (\<lambda>crc b. (crc8_bit ^^ 8) (crc XOR b))"

lemma top_bit: "((d :: u16) AND 0x8000 \<noteq> 0) = bit d 15"
  using and_exp_eq_0_iff_not_bit [of d 15] by simp

lemma push_push: "push_bit 8 (ucast (push_bit k c) :: u16) = push_bit k (push_bit 8 (ucast (c :: u8)))"
  by (rule bit_word_eqI) (auto simp: bit_simps add.commute)

lemma crc_xor_cancel: "x XOR z = y XOR z \<Longrightarrow> x = (y :: 'a::len word)"
  by (metis xor.assoc xor_self_eq xor.right_neutral)

lemma crc8_bit_low: "bit (crc8_bit c) 0 = bit c 7"
proof -
  have "\<not> bit (push_bit k c) 0" if "0 < k" for k using that by (simp add: bit_push_bit_iff)
  from this [OF zero_less_one] have "\<not> bit (push_bit 1 c) 0" .
  then show ?thesis unfolding crc8_bit_def bit_xor_iff by simp
qed

lemma crc8_step: "push_bit 1 (let d = push_bit 8 (ucast (c :: u8)) in if d AND 0x8000 \<noteq> 0 then d XOR POLY else d) = push_bit 8 (ucast (crc8_bit c) :: u16)"
proof -
  have "bit (push_bit 8 (ucast c) :: u16) 15 = bit c 7" by (simp add: bit_simps)
  moreover note push_push [of 1 c]
  moreover have "push_bit 1 POLY = push_bit 8 (ucast (7 :: u8))" by (simp add: POLY_def)
  ultimately show ?thesis unfolding Let_def top_bit
    unfolding crc8_bit_def unsigned_xor_eq push_bit_xor by (simp only: push_bit_xor if_distrib if_P if_not_P split: if_split) simp
qed

lemma crc8_loop_bits: "crc8_loop n (push_bit 8 (ucast c)) = push_bit 8 (ucast ((crc8_bit ^^ n) c))"
proof (induction n arbitrary: c)
  case (Suc n)
  show ?case using crc8_step [of c] Suc [of "crc8_bit c"] by (simp add: Let_def funpow_swap1)
qed simp

lemma crc8_eq: "crc8 (push_bit 8 (ucast c)) = (crc8_bit ^^ 8) c"
proof -
  have "ucast (drop_bit 8 (push_bit 8 (ucast x) :: u16)) = x" for x :: u8
    by (rule bit_word_eqI) (auto simp: bit_simps)
  then show ?thesis unfolding crc8_def crc8_loop_bits by blast
qed

lemma i2c_smbus_pec_ref: "i2c_smbus_pec crc p = crc8_ref crc p"
  by (induction p arbitrary: crc) (simp_all add: crc8_ref_def crc8_eq)

lemma push_low:
  assumes "push_bit k a = push_bit k b" "n + k < 8"
  shows "bit a n = bit (b :: u8) n"
proof -
  have "bit (push_bit k x) (n + k) = bit x n" for x :: u8 using assms(2) unfolding bit_push_bit_iff by simp
  then show ?thesis using assms(1) by metis
qed

lemma crc8_bit_inj: "crc8_bit a = crc8_bit b \<Longrightarrow> a = b"
proof -
  assume eq: "crc8_bit a = crc8_bit b"
  have top: "bit a 7 = bit b 7" using crc8_bit_low [of a] crc8_bit_low [of b] eq by simp
  from eq have "push_bit 1 a = push_bit 1 b" unfolding crc8_bit_def top by (rule crc_xor_cancel)
  note low7 = push_low [OF this]
  show "a = b"
  proof (rule bit_word_eqI)
    fix n assume "n < LENGTH(8)"
    then have "n < 7 \<or> n = 7" by auto
    then show "bit a n = bit b n" using low7 [of n] top by auto
  qed
qed

lemma crc8_pow_inj: "(crc8_bit ^^ n) a = (crc8_bit ^^ n) b \<Longrightarrow> a = b"
  by (induction n arbitrary: a b) (auto simp: funpow_swap1 dest: crc8_bit_inj)

lemma pec_inj: "i2c_smbus_pec a p = i2c_smbus_pec b p \<Longrightarrow> a = b"
proof (induction p arbitrary: a b)
  case (Cons x p)
  from Cons.IH [OF Cons.prems [simplified]] have "(crc8_bit ^^ 8) (a XOR x) = (crc8_bit ^^ 8) (b XOR x)" by (simp only: crc8_eq)
  then have "a XOR x = b XOR x" by (rule crc8_pow_inj)
  then show ?case by (rule crc_xor_cancel)
qed simp

lemma pec_append: "i2c_smbus_pec c (p @ q) = i2c_smbus_pec (i2c_smbus_pec c p) q"
  by (induction p arbitrary: c) simp_all

lemma pec_byte_change: "i2c_smbus_pec c (p @ x # q) = i2c_smbus_pec c (p @ y # q) \<Longrightarrow> x = y"
proof -
  let ?c = "i2c_smbus_pec c p"
  assume "i2c_smbus_pec c (p @ x # q) = i2c_smbus_pec c (p @ y # q)"
  then have "crc8 (push_bit 8 (ucast (?c XOR x))) = crc8 (push_bit 8 (ucast (?c XOR y)))"
    unfolding pec_append by (auto dest: pec_inj)
  then have "?c XOR x = ?c XOR y" unfolding crc8_eq by (rule crc8_pow_inj)
  then show "x = y" by (metis xor.commute crc_xor_cancel)
qed

lemma rd_simps [simp]: "i < length b \<Longrightarrow> rd i b = Some (b ! i)" "rd 0 (x # xs) = Some x"
  by (simp_all add: rd_def)

lemma wr_simps [simp]: "i < length b \<Longrightarrow> wr i v b = Some (b[i := v])"
  by (simp add: wr_def)

lemma copy_bytes_ok:
  assumes "s + n \<le> length src" "d + n \<le> length dst"
  shows "copy_bytes n d s src dst = Some (take d dst @ take n (drop s src) @ drop (d + n) dst)"
  using assms
proof (induction n arbitrary: d s dst)
  case (Suc n)
  have "copy_bytes (Suc n) d s src dst = copy_bytes n (d + 1) (s + 1) src (dst[d := src ! s])" using Suc.prems by simp
  also have "\<dots> = Some (take (d + 1) (dst[d := src ! s]) @ take n (drop (s + 1) src) @ drop (d + 1 + n) (dst[d := src ! s]))"
    using Suc.prems by (intro Suc.IH) simp_all
  also have "take (d + 1) (dst[d := src ! s]) = take d dst @ [src ! s]" using Suc.prems
    by (simp add: take_Suc_conv_app_nth)
  also have "drop (d + 1 + n) (dst[d := src ! s]) = drop (d + Suc n) dst" by simp
  also have "(take d dst @ [src ! s]) @ take n (drop (s + 1) src) @ drop (d + Suc n) dst
      = take d dst @ take (Suc n) (drop s src) @ drop (d + Suc n) dst"
    using Suc.prems by (simp add: Cons_nth_drop_Suc [symmetric])
  finally show ?case .
qed simp

lemma copy_bytes_length: "copy_bytes n d s src dst = Some r \<Longrightarrow> length r = length dst"
  by (induction n arbitrary: d s dst) (auto simp: wr_def rd_def split: Option.bind_splits if_splits)

lemma msg_pec_ok:
  "unat (msg_len m) \<le> length (msg_buf m) \<Longrightarrow>
   i2c_smbus_msg_pec c m = Some (i2c_smbus_pec c (i2c_8bit_addr_from_msg m # take (unat (msg_len m)) (msg_buf m)))"
  by (simp add: i2c_smbus_msg_pec_def)

lemma add_pec_ok:
  assumes "unat (msg_len m) < length (msg_buf m)"
  shows "i2c_smbus_add_pec m = Some (m\<lparr>msg_buf := (msg_buf m)[unat (msg_len m) :=
      i2c_smbus_pec 0 (i2c_8bit_addr_from_msg m # take (unat (msg_len m)) (msg_buf m))], msg_len := msg_len m + 1\<rparr>)"
  using assms msg_pec_ok [of m 0] by (simp add: i2c_smbus_add_pec_def)

lemma check_pec_ok:
  assumes "unat (msg_len m - 1) < length (msg_buf m)"
  shows "i2c_smbus_check_pec c m = Some (if msg_buf m ! unat (msg_len m - 1) \<noteq>
      i2c_smbus_pec c (i2c_8bit_addr_from_msg m # take (unat (msg_len m - 1)) (msg_buf m)) then Some EBADMSG else None, m\<lparr>msg_len := msg_len m - 1\<rparr>)"
proof -
  have "i2c_8bit_addr_from_msg (m\<lparr>msg_len := n\<rparr>) = i2c_8bit_addr_from_msg m" for n by (simp add: i2c_8bit_addr_from_msg_def)
  then show ?thesis using assms msg_pec_ok [of "m\<lparr>msg_len := msg_len m - 1\<rparr>" c] by (simp add: i2c_smbus_check_pec_def)
qed

lemma pec_changed:
  assumes "i < n" "n \<le> length b" "v \<noteq> b ! i"
  shows "i2c_smbus_pec c (a # take n (b[i := v])) \<noteq> i2c_smbus_pec c (a # take n b)"
proof -
  have "take n (b[i := v]) = take i b @ v # drop (Suc i) (take n b)" "take n b = take i b @ b ! i # drop (Suc i) (take n b)"
    using assms id_take_nth_drop [of i "take n b"] upd_conv_take_nth_drop [of i "take n b" v]
    by (simp_all add: take_update_swap min_def)
  then show ?thesis using pec_byte_change [of c "a # take i b" v "drop (Suc i) (take n b)" "b ! i"] assms(3)
    by (metis append_Cons)
qed

text \<open>C34: The check byte of SMBus messages is the CRC-8 of the address byte and the data with the polynomial
  x^8 + x^2 + x + 1.  A message that got its check byte passes the check, which gives back its length; the same message
  with any one byte of the data, or the check byte, changed is refused.\<close>

theorem smbus_pec_detects:
  assumes "unat (msg_len m) < length (msg_buf m)"
  shows "\<exists>m'. i2c_smbus_add_pec m = Some m' \<and> msg_len m' = msg_len m + 1
    \<and> take (unat (msg_len m)) (msg_buf m') = take (unat (msg_len m)) (msg_buf m)
    \<and> msg_buf m' ! unat (msg_len m) = crc8_ref 0 (i2c_8bit_addr_from_msg m # take (unat (msg_len m)) (msg_buf m))
    \<and> i2c_smbus_check_pec 0 m' = Some (None, m'\<lparr>msg_len := msg_len m\<rparr>)
    \<and> (\<forall>i \<le> unat (msg_len m). \<forall>v. v \<noteq> msg_buf m' ! i \<longrightarrow>
         (\<exists>r. i2c_smbus_check_pec 0 (m'\<lparr>msg_buf := (msg_buf m')[i := v]\<rparr>) = Some (Some EBADMSG, r)))"
proof -
  define n where "n = unat (msg_len m)"
  define a where "a = i2c_8bit_addr_from_msg m"
  define p where "p = i2c_smbus_pec 0 (a # take n (msg_buf m))"
  define m' where "m' = m\<lparr>msg_buf := (msg_buf m)[n := p], msg_len := msg_len m + 1\<rparr>"
  have n: "n < length (msg_buf m)" using assms by (simp add: n_def)
  have len: "unat (msg_len m' - 1) = n" by (simp add: m'_def n_def)
  have addr: "i2c_8bit_addr_from_msg (m'\<lparr>msg_buf := b\<rparr>) = a" "i2c_8bit_addr_from_msg m' = a" for b
    by (simp_all add: m'_def a_def i2c_8bit_addr_from_msg_def)
  have buf: "msg_buf m' ! n = p" "take n (msg_buf m') = take n (msg_buf m)" "length (msg_buf m') = length (msg_buf m)"
    using n by (simp_all add: m'_def)
  have 1: "i2c_smbus_add_pec m = Some m'" using add_pec_ok [OF assms] by (simp add: m'_def p_def a_def n_def)
  have 2: "i2c_smbus_check_pec 0 m' = Some (None, m'\<lparr>msg_len := msg_len m\<rparr>)"
    using check_pec_ok [of m' 0] len n buf addr(2) by (simp add: p_def) (simp add: m'_def)
  have 3: "\<exists>r. i2c_smbus_check_pec 0 (m'\<lparr>msg_buf := (msg_buf m')[i := v]\<rparr>) = Some (Some EBADMSG, r)"
    if "i \<le> n" "v \<noteq> msg_buf m' ! i" for i v
  proof -
    let ?b = "(msg_buf m')[i := v]"
    have "?b ! n \<noteq> i2c_smbus_pec 0 (a # take n ?b)"
    proof (cases "i = n")
      case True
      then show ?thesis using that(2) n buf by (simp add: p_def)
    next
      case False
      then have "i < n" using that(1) by simp
      then have "i2c_smbus_pec 0 (a # take n ?b) \<noteq> i2c_smbus_pec 0 (a # take n (msg_buf m'))"
        using that(2) n buf(3) by (intro pec_changed) simp_all
      then show ?thesis using False buf(1,2) by (simp add: p_def)
    qed
    then show ?thesis using check_pec_ok [of "m'\<lparr>msg_buf := ?b\<rparr>" 0] len n buf(3) addr(1) by simp
  qed
  show ?thesis using 1 2 3 buf(1,2) unfolding n_def [symmetric] a_def [symmetric]
    by (intro exI [of _ m']) (simp add: p_def i2c_smbus_pec_ref m'_def)
qed

theorem smbus_pec_detects_witness:
  "\<exists>m'. i2c_smbus_add_pec \<lparr>msg_addr = 0x2d, msg_flags = 0, msg_len = 2, msg_buf = [0x10, 0x5a, 0]\<rparr> = Some m'
    \<and> i2c_smbus_check_pec 0 m' = Some (None, m'\<lparr>msg_len := 2\<rparr>)"
  using smbus_pec_detects [of "\<lparr>msg_addr = 0x2d, msg_flags = 0, msg_len = 2, msg_buf = [0x10, 0x5a, 0]\<rparr>"] by auto

section \<open>Tries\<close>

text \<open>The outcome of \<open>k + 1\<close> calls in a row.\<close>

primrec after_calls :: "('a \<Rightarrow> 's \<Rightarrow> (errno + int) \<times> 'a \<times> 's) \<Rightarrow> nat \<Rightarrow> 'a \<Rightarrow> 's \<Rightarrow> (errno + int) \<times> 'a \<times> 's" where
  "after_calls f 0 x s = f x s"
| "after_calls f (Suc k) x s = (case f x s of (r, x, s) \<Rightarrow> after_calls f k x s)"

definition again :: "('s \<Rightarrow> bool) \<Rightarrow> (errno + int) \<times> 'a \<times> 's \<Rightarrow> bool" where
  "again late o1 = (fst o1 = Inl EAGAIN \<and> \<not> late (snd (snd o1)))"

lemma i2c_try_calls:
  "\<exists>k \<le> n. i2c_try f late (Suc n) ret x s = after_calls f k x s
    \<and> (\<forall>j < k. again late (after_calls f j x s)) \<and> (again late (after_calls f k x s) \<longrightarrow> k = n)"
proof (induction n arbitrary: ret x s)
  case 0
  then show ?case by (auto simp: split: prod.splits)
next
  case (Suc n)
  obtain r x' s' where f: "f x s = (r, x', s')" by (cases "f x s") auto
  show ?case
  proof (cases "again late (f x s)")
    case False
    then have "i2c_try f late (Suc (Suc n)) ret x s = after_calls f 0 x s" using f by (auto simp: again_def)
    then show ?thesis using False by (intro exI [of _ 0]) simp
  next
    case True
    obtain k where k: "k \<le> n" "i2c_try f late (Suc n) r x' s' = after_calls f k x' s'"
        "\<forall>j < k. again late (after_calls f j x' s')" "again late (after_calls f k x' s') \<longrightarrow> k = n"
      using Suc [of r x' s'] by blast
    have "\<forall>j < Suc k. again late (after_calls f j x s)"
    proof (intro allI impI)
      fix j assume "j < Suc k"
      then show "again late (after_calls f j x s)" using k(3) True f by (cases j) auto
    qed
    then show ?thesis using k True f by (intro exI [of _ "Suc k"]) (auto simp: again_def)
  qed
qed

text \<open>Whether the time for a transfer that started in \<open>s1\<close> is over.\<close>

definition time_over :: "('s \<Rightarrow> u64) \<Rightarrow> 's i2c_adapter \<Rightarrow> 's \<Rightarrow> 's \<Rightarrow> bool" where
  "time_over now adap s1 t = time_after (now t) (now s1 + word_of_int (adap_timeout adap))"

lemma i2c_transfer_calls:
  assumes "algo_master_xfer adap = Some f" "0 \<le> adap_retries adap" "s1 = lock_bus adap I2C_LOCK_SEGMENT s"
  shows "\<exists>k \<le> nat (adap_retries adap).
    i2c_transfer now adap ms s = map_prod id (map_prod id (unlock_bus adap I2C_LOCK_SEGMENT)) (after_calls f k ms s1)
    \<and> (\<forall>j < k. again (time_over now adap s1) (after_calls f j ms s1))
    \<and> (again (time_over now adap s1) (after_calls f k ms s1) \<longrightarrow> k = nat (adap_retries adap))"
proof -
  have n: "nat (adap_retries adap + 1) = Suc (nat (adap_retries adap))" using assms(2) by simp
  have late: "time_over now adap s1 = (\<lambda>t. time_after (now t) (now s1 + word_of_int (adap_timeout adap)))"
    by (simp add: time_over_def fun_eq_iff)
  obtain k where k: "k \<le> nat (adap_retries adap)"
      "i2c_try f (time_over now adap s1) (Suc (nat (adap_retries adap))) (Inr 0) ms s1 = after_calls f k ms s1"
      "\<forall>j < k. again (time_over now adap s1) (after_calls f j ms s1)"
      "again (time_over now adap s1) (after_calls f k ms s1) \<longrightarrow> k = nat (adap_retries adap)"
    using i2c_try_calls [of "nat (adap_retries adap)" f "time_over now adap s1" "Inr 0" ms s1] by blast
  have "i2c_transfer now adap ms s = map_prod id (map_prod id (unlock_bus adap I2C_LOCK_SEGMENT)) (after_calls f k ms s1)"
    unfolding i2c_transfer_def assms(1) Let_def option.case assms(3) [symmetric] n late [symmetric] k(2)
    by (cases "after_calls f k ms s1") simp
  then show ?thesis using k by blast
qed

text \<open>A transfer locks the bus segment, calls the adapter, and calls it again only after the answer
  \<open>EAGAIN\<close> and before the time is over, at most \<open>retries + 1\<close> times in all; it gives the outcome of the
  last call and unlocks the segment.\<close>

theorem i2c_transfer_tries:
  assumes "algo_master_xfer adap = Some f" "0 \<le> adap_retries adap" "s1 = lock_bus adap I2C_LOCK_SEGMENT s"
  shows "\<exists>k \<le> nat (adap_retries adap).
    i2c_transfer now adap ms s = map_prod id (map_prod id (unlock_bus adap I2C_LOCK_SEGMENT)) (after_calls f k ms s1)
    \<and> (\<forall>j < k. again (time_over now adap s1) (after_calls f j ms s1))
    \<and> (again (time_over now adap s1) (after_calls f k ms s1) \<longrightarrow> k = nat (adap_retries adap))"
  by (rule i2c_transfer_calls [OF assms])

text \<open>An adapter that is busy once: its state counts the calls and the locks held.\<close>

definition busy_once :: "(nat \<times> nat) i2c_adapter" where
  "busy_once = \<lparr>algo_master_xfer = Some (\<lambda>ms (n, l). (if n = 0 then Inl EAGAIN else Inr (int (length ms)), ms, n + 1, l)),
     algo_smbus_xfer = None, adap_timeout = 10, adap_retries = 3,
     lock_bus = (\<lambda>_ (n, l). (n, l + 1)), unlock_bus = (\<lambda>_ (n, l). (n, l - 1))\<rparr>"

theorem i2c_transfer_tries_witness:
  "\<exists>k \<le> nat 3. \<exists>out. i2c_transfer (\<lambda>_. 0) busy_once [] (0, 0) = map_prod id (map_prod id (unlock_bus busy_once I2C_LOCK_SEGMENT)) out"
proof -
  have a: "algo_master_xfer busy_once = Some (\<lambda>ms (n, l). (if n = 0 then Inl EAGAIN else Inr (int (length ms)), ms, n + 1, l))"
    "adap_retries busy_once = 3" by (simp_all add: busy_once_def)
  have "0 \<le> adap_retries busy_once" using a(2) by simp
  from i2c_transfer_tries [OF a(1) this refl, of "\<lambda>_. 0" "[]" "(0, 0)"] show ?thesis unfolding a(2) by blast
qed

end
