(* ===== verification/I2c_Smbus.thy ===== *)
theory I2c_Smbus
  imports I2c
begin

text \<open>
  Properties of the SMBus operations of \<open>kernel/linux_i2c.c\<close> that are made of plain transfers: no
  access outside the buffers when the adapter keeps to the contract of \<open>i2c.h\<close>, and the round trip
  through the registers of a device.
\<close>

section \<open>Buffers\<close>

text \<open>What \<open>i2c.h\<close> asks of \<open>master_xfer\<close>: it keeps the messages but for the contents of the buffers and,
  with \<open>I2C_M_RECV_LEN\<close>, adds the length that the device sent first, at most 32, to the length of
  the message.  A failing call leaves the lengths.\<close>

definition msg_room :: "i2c_msg \<Rightarrow> bool" where
  "msg_room m \<longleftrightarrow> unat (msg_len m) + (if msg_flags m AND I2C_M_RECV_LEN \<noteq> 0 then I2C_SMBUS_BLOCK_MAX else 0) \<le> length (msg_buf m)"

definition msg_same :: "i2c_msg \<Rightarrow> i2c_msg \<Rightarrow> bool" where
  "msg_same m m' \<longleftrightarrow> msg_addr m' = msg_addr m \<and> msg_flags m' = msg_flags m \<and> msg_len m' = msg_len m \<and> length (msg_buf m') = length (msg_buf m)"

definition msg_done :: "i2c_msg \<Rightarrow> i2c_msg \<Rightarrow> bool" where
  "msg_done m m' \<longleftrightarrow> msg_addr m' = msg_addr m \<and> msg_flags m' = msg_flags m \<and> length (msg_buf m') = length (msg_buf m)
     \<and> (if msg_flags m AND I2C_M_RECV_LEN \<noteq> 0
        then unat (hd (msg_buf m')) \<le> I2C_SMBUS_BLOCK_MAX \<and> msg_len m' = msg_len m + ucast (hd (msg_buf m'))
        else msg_len m' = msg_len m)"

definition xfer_ok :: "'s master_xfer \<Rightarrow> bool" where
  "xfer_ok f \<longleftrightarrow> (\<forall>ms s. list_all msg_room ms \<longrightarrow>
     (case f ms s of (r, ms', s') \<Rightarrow> list_all2 (if isl r then msg_same else msg_done) ms ms'))"

lemma msg_same_room: "msg_same m m' \<Longrightarrow> msg_room m' = msg_room m"
  by (simp add: msg_same_def msg_room_def)

lemma msg_same_trans: "msg_same a b \<Longrightarrow> msg_same b c \<Longrightarrow> msg_same a c" "msg_same a b \<Longrightarrow> msg_done b c \<Longrightarrow> msg_done a c"
  by (simp_all add: msg_same_def msg_done_def)

lemma same_room: "list_all2 msg_same ms ms' \<Longrightarrow> list_all msg_room ms \<Longrightarrow> list_all msg_room ms'"
  by (induction rule: list_all2_induct) (auto simp: msg_same_room)

lemma list_same_trans:
  "list_all2 msg_same as bs \<Longrightarrow> list_all2 (if b then msg_same else msg_done) bs cs \<Longrightarrow> list_all2 (if b then msg_same else msg_done) as cs"
  by (rule list_all2_trans [of msg_same "if b then msg_same else msg_done" "if b then msg_same else msg_done"])
    (auto dest: msg_same_trans split: if_splits)

lemma after_calls_ok:
  assumes "xfer_ok f" "list_all msg_room ms" "\<forall>j < k. again late (after_calls f j ms s)"
  shows "case after_calls f k ms s of (r, ms', s') \<Rightarrow> list_all2 (if isl r then msg_same else msg_done) ms ms'"
  using assms
proof (induction k arbitrary: ms s)
  case 0
  then show ?case by (auto simp: xfer_ok_def)
next
  case (Suc k)
  obtain r ms' s' where f: "f ms s = (r, ms', s')" by (cases "f ms s") auto
  have "again late (after_calls f 0 ms s)" using Suc.prems(3) by blast
  then have "isl r" using f by (simp add: again_def)
  moreover have "case f ms s of (r, ms', s') \<Rightarrow> list_all2 (if isl r then msg_same else msg_done) ms ms'"
    using Suc.prems(1,2) by (simp add: xfer_ok_def)
  ultimately have same: "list_all2 msg_same ms ms'" using f by simp
  have ag: "\<forall>j < k. again late (after_calls f j ms' s')"
  proof (intro allI impI)
    fix j assume "j < k"
    then have "again late (after_calls f (Suc j) ms s)" using Suc.prems(3) by blast
    then show "again late (after_calls f j ms' s')" using f by simp
  qed
  have "case after_calls f k ms' s' of (r, ms'', s'') \<Rightarrow> list_all2 (if isl r then msg_same else msg_done) ms' ms''"
    by (rule Suc.IH [OF Suc.prems(1) same_room [OF same Suc.prems(2)] ag])
  moreover obtain r2 ms2 s2 where "after_calls f k ms' s' = (r2, ms2, s2)" by (cases "after_calls f k ms' s'") auto
  ultimately show ?case using f list_same_trans [OF same, of "isl r2" ms2] by simp
qed

lemma i2c_transfer_ok:
  assumes "\<And>f. algo_master_xfer adap = Some f \<Longrightarrow> xfer_ok f" "0 \<le> adap_retries adap" "list_all msg_room ms"
    and "i2c_transfer now adap ms s = (r, ms', s')"
  shows "if isl r then True else list_all2 msg_done ms ms'"
proof (cases "algo_master_xfer adap")
  case None
  then show ?thesis using assms(4) by (auto simp: i2c_transfer_def)
next
  case (Some f)
  let ?s1 = "lock_bus adap I2C_LOCK_SEGMENT s"
  obtain k where k: "i2c_transfer now adap ms s = map_prod id (map_prod id (unlock_bus adap I2C_LOCK_SEGMENT)) (after_calls f k ms ?s1)"
      "\<forall>j < k. again (time_over now adap ?s1) (after_calls f j ms ?s1)"
    using i2c_transfer_calls [OF Some assms(2) refl, of now ms s] by blast
  obtain t where "after_calls f k ms ?s1 = (r, ms', t)" using k(1) assms(4) by (cases "after_calls f k ms ?s1") auto
  then show ?thesis using after_calls_ok [OF assms(1) [OF Some] assms(3) k(2)] by (auto split: if_splits)
qed

text \<open>The frame of every transaction fits its buffers, the check bytes included.\<close>

definition stack_ok :: "smbus_stack \<Rightarrow> bool" where
  "stack_ok k \<longleftrightarrow> length (stk_data k) = 34 \<and> length (stk_msgbuf0 k) = 35 \<and> length (stk_msgbuf1 k) = 34"

definition recv_len :: "i2c_msg \<Rightarrow> bool" where
  "recv_len m = (msg_flags m AND I2C_M_RECV_LEN \<noteq> 0)"

definition frame_ok :: "int \<Rightarrow> smbus_frame \<Rightarrow> bool" where
  "frame_ok sz f \<longleftrightarrow> length (msg_buf (msg0 f)) = 35 \<and> length (msg_buf (msg1 f)) = 34 \<and> num f \<in> {1, 2} \<and> unat (msg_len (msg0 f)) \<le> 34
     \<and> \<not> recv_len (msg0 f) \<and> is_read (msg1 f) \<and> (recv_len (msg1 f) \<longrightarrow> msg_len (msg1 f) = 1) \<and> unat (msg_len (msg1 f)) \<le> 33
     \<and> ((sz = I2C_SMBUS_BLOCK_DATA \<or> sz = I2C_SMBUS_BLOCK_PROC_CALL) \<and> read_write f \<longrightarrow> num f = 2 \<and> recv_len (msg1 f))"

text \<open>What a caller must pass: the union unless it is not used, and a length of at most 32 for a block read.\<close>

definition data_ok :: "bool \<Rightarrow> int \<Rightarrow> smbus_data \<Rightarrow> bool" where
  "data_ok read sz data \<longleftrightarrow> (case data of
      None \<Rightarrow> sz = I2C_SMBUS_QUICK \<or> (sz = I2C_SMBUS_BYTE \<and> \<not> read)
    | Some d \<Rightarrow> length d = 34 \<and> (sz = I2C_SMBUS_I2C_BLOCK_DATA \<and> read \<longrightarrow> unat (d ! 0) \<le> 32))"

lemma flag_nonzero: "I2C_M_RD \<noteq> 0" "I2C_M_RECV_LEN \<noteq> 0" "I2C_M_RD AND I2C_M_RECV_LEN = 0"
  by (simp_all add: i2c_flags)

lemma or_flag: "((x :: u16) OR y) AND y = y" "(y OR x) AND y = y" "(x OR y) AND z = (x AND z) OR (y AND z)"
  by (rule bit_word_eqI; auto simp: bit_simps)+

lemma read_flag: "(x OR I2C_M_RD) AND I2C_M_RD \<noteq> 0" "(I2C_M_RD OR x) AND I2C_M_RD \<noteq> 0"
  by (simp_all add: or_flag(1,2) flag_nonzero)

lemma recv_flag: "flags AND I2C_M_RECV_LEN = 0 \<Longrightarrow> (flags OR I2C_M_RD) AND I2C_M_RECV_LEN = 0"
  "flags AND I2C_M_RECV_LEN = 0 \<Longrightarrow> (I2C_M_RD OR flags) AND I2C_M_RECV_LEN = 0"
  "(x OR I2C_M_RECV_LEN) AND I2C_M_RECV_LEN \<noteq> 0"
  "((x OR I2C_M_RD) OR I2C_M_RECV_LEN) AND I2C_M_RD \<noteq> 0"
  using flag_nonzero by (simp_all only: or_flag or_eq_0_iff) simp_all

lemma unat_plus_byte: "unat (ucast (n :: u8) + 2 :: u16) = unat n + 2" "unat (ucast (n :: u8) + 1 :: u16) = unat n + 1"
  using unat_u8_less [of n] by (simp_all add: unat_word_ariths unat_ucast_mod)

lemmas frame_simps = smbus_setup_def smbus_sizes frame_ok_def stack_ok_def recv_len_def is_read_def recv_flag read_flag data_ok_def
  smbus_word_frame_def get_word_def I2C_SMBUS_BLOCK_MAX_def flag_nonzero

lemma block_len: "\<not> ucast (n :: u8) + 2 > (34 :: u16) \<longleftrightarrow> unat n \<le> 32" "\<not> ucast (n :: u8) + 1 > (33 :: u16) \<longleftrightarrow> unat n \<le> 32"
  by (simp_all add: word_less_nat_alt not_less unat_plus_byte)

lemma block_copy:
  assumes "length d = 34" "length b = 35" "n \<le> 32"
  shows "\<exists>r. copy_bytes (Suc n) 1 0 d b = Some r \<and> length r = 35" "\<exists>r. copy_bytes n 1 1 d b = Some r \<and> length r = 35"
  using copy_bytes_ok [of 0 "Suc n" d 1 b] copy_bytes_ok [of 1 n d 1 b] assms by (simp_all del: copy_bytes.simps)

lemma smbus_setup_ok:
  assumes "stack_ok k" "data_ok read sz data" "flags AND I2C_M_RECV_LEN = 0"
  shows "\<exists>r. smbus_setup k addr flags read command sz data = Some r \<and> (\<forall>f. r = Inr f \<longrightarrow> frame_ok sz f
      \<and> (read_write f \<and> (sz = I2C_SMBUS_BYTE \<or> sz = I2C_SMBUS_I2C_BLOCK_DATA) \<longrightarrow> read))"
proof -
  obtain b where b: "wr 0 command (stk_msgbuf0 k) = Some b" "length b = 35" using assms(1) by (simp add: stack_ok_def)
  consider "sz = I2C_SMBUS_QUICK" | "sz = I2C_SMBUS_BYTE" | "sz = I2C_SMBUS_BYTE_DATA" | "sz = I2C_SMBUS_WORD_DATA"
    | "sz = I2C_SMBUS_PROC_CALL" | "sz = I2C_SMBUS_BLOCK_DATA" | "sz = I2C_SMBUS_BLOCK_PROC_CALL" | "sz = I2C_SMBUS_I2C_BLOCK_DATA"
    | "sz \<notin> {0, 1, 2, 3, 4, 5, 7, 8}" by (auto simp: smbus_sizes)
  then show ?thesis
  proof cases
    case 6
    show ?thesis
    proof (cases read)
      case True
      then show ?thesis using assms b 6 by (simp add: frame_simps)
    next
      case False
      obtain d where d: "data = Some d" "length d = 34" using assms(2) 6 by (auto simp: data_ok_def smbus_sizes split: option.splits)
      show ?thesis
      proof (cases "unat (d ! 0) \<le> 32")
        case True
        obtain r where "copy_bytes (Suc (unat (d ! 0))) 1 0 d b = Some r" "length r = 35" using block_copy [OF d(2) b(2) True] by blast
        then show ?thesis using assms b 6 False d True block_len [of "d ! 0"]
          by (simp add: frame_simps unat_plus_byte del: copy_bytes.simps)
      next
        case big: False
        then show ?thesis using assms b 6 False d block_len [of "d ! 0"] by (simp add: frame_simps)
      qed
    qed
  next
    case 7
    obtain d where d: "data = Some d" "length d = 34" using assms(2) 7 by (auto simp: data_ok_def smbus_sizes split: option.splits)
    show ?thesis
    proof (cases "unat (d ! 0) \<le> 32")
      case True
      obtain r where "copy_bytes (Suc (unat (d ! 0))) 1 0 d b = Some r" "length r = 35" using block_copy [OF d(2) b(2) True] by blast
      then show ?thesis using assms b 7 d True by (simp add: frame_simps unat_plus_byte del: copy_bytes.simps)
    next
      case big: False
      then show ?thesis using assms b 7 d by (simp add: frame_simps)
    qed
  next
    case 8
    obtain d where d: "data = Some d" "length d = 34" using assms(2) 8 by (auto simp: data_ok_def smbus_sizes split: option.splits)
    show ?thesis
    proof (cases "read \<or> \<not> unat (d ! 0) \<le> 32")
      case True
      then show ?thesis using assms b 8 d block_len [of "d ! 0"] by (cases read) (simp_all add: frame_simps unat_ucast_mod)
    next
      case False
      then obtain r where "copy_bytes (unat (d ! 0)) 1 1 d b = Some r" "length r = 35" using block_copy [OF d(2) b(2)] by blast
      then show ?thesis using assms b 8 False d block_len [of "d ! 0"] by (simp add: frame_simps unat_plus_byte del: copy_bytes.simps)
    qed
  qed (use assms b in \<open>auto simp: frame_simps split: option.splits\<close>)
qed

definition frame_sizes :: "smbus_frame \<Rightarrow> bool" where
  "frame_sizes f \<longleftrightarrow> length (msg_buf (msg0 f)) = 35 \<and> length (msg_buf (msg1 f)) = 34 \<and> num f \<in> {1, 2}"

lemma unat_len_inc: "unat (n :: u16) \<le> 34 \<Longrightarrow> unat (n + 1) = unat n + 1"
  by (simp add: unat_word_ariths)

lemma frame_room:
  assumes "frame_ok sz f"
  shows "list_all msg_room (frame_msgs f)" "frame_sizes f"
proof -
  have "msg_room (msg0 f)" using assms by (simp add: frame_ok_def msg_room_def recv_len_def)
  moreover have "msg_room (msg1 f)" using assms
    by (cases "recv_len (msg1 f)") (simp_all add: frame_ok_def msg_room_def recv_len_def I2C_SMBUS_BLOCK_MAX_def)
  moreover have "num f = 1 \<or> num f = 2" using assms by (auto simp: frame_ok_def)
  ultimately show "list_all msg_room (frame_msgs f)" by (auto simp: frame_msgs_def)
qed (use assms in \<open>simp add: frame_ok_def frame_sizes_def\<close>)

lemma pec_out_ok:
  assumes "frame_ok sz f"
  shows "\<exists>p f'. smbus_pec_out f = Some (p, f') \<and> list_all msg_room (frame_msgs f') \<and> frame_sizes f' \<and> num f' = num f
    \<and> read_write f' = read_write f \<and> msg_flags (msg1 f') = msg_flags (msg1 f) \<and> (is_read (last_msg f') \<longrightarrow> 1 \<le> unat (msg_len (last_msg f')))"
proof -
  have f: "length (msg_buf (msg0 f)) = 35" "length (msg_buf (msg1 f)) = 34" "unat (msg_len (msg0 f)) \<le> 34" "is_read (msg1 f)"
      "\<not> recv_len (msg0 f)" "unat (msg_len (msg1 f)) \<le> 33" "recv_len (msg1 f) \<longrightarrow> msg_len (msg1 f) = 1"
    using assms by (simp_all add: frame_ok_def)
  have inc: "unat (msg_len (msg0 f) + 1) = unat (msg_len (msg0 f)) + 1" "unat (msg_len (msg1 f) + 1) = unat (msg_len (msg1 f)) + 1"
    using f by (simp_all add: unat_len_inc)
  have add: "unat (msg_len (msg0 f)) < length (msg_buf (msg0 f))" using f by simp
  have "num f = 1 \<or> num f = 2" using assms by (auto simp: frame_ok_def)
  then show ?thesis
  proof
    assume "num f = 1"
    then show ?thesis using f inc add_pec_ok [OF add]
      by (auto simp: smbus_pec_out_def last_msg_def set_last_def frame_msgs_def frame_sizes_def msg_room_def recv_len_def is_read_def)
  next
    assume "num f = 2"
    then show ?thesis using f inc msg_pec_ok [of "msg0 f" 0]
      by (auto simp: smbus_pec_out_def last_msg_def set_last_def frame_msgs_def frame_sizes_def msg_room_def recv_len_def is_read_def
          I2C_SMBUS_BLOCK_MAX_def)
  qed
qed

lemma msg_done_len:
  assumes "msg_done m m'" "msg_room m" "1 \<le> unat (msg_len m)" "length (msg_buf m) \<le> 35"
  shows "1 \<le> unat (msg_len m') \<and> unat (msg_len m') \<le> length (msg_buf m')"
proof (cases "msg_flags m AND I2C_M_RECV_LEN = 0")
  case True
  then show ?thesis using assms by (simp add: msg_done_def msg_room_def)
next
  case False
  let ?n = "hd (msg_buf m')"
  have n: "unat ?n \<le> 32" "msg_len m' = msg_len m + ucast ?n" "unat (msg_len m) + 32 \<le> length (msg_buf m')" "length (msg_buf m') \<le> 35"
    using assms(1,2,4) False by (simp_all add: msg_done_def msg_room_def I2C_SMBUS_BLOCK_MAX_def)
  then have "unat (msg_len m') = unat (msg_len m) + unat ?n" by (simp add: unat_word_ariths unat_ucast_mod)
  then show ?thesis using n assms(3) by simp
qed

lemma frame_after_ok:
  assumes "list_all2 msg_done (frame_msgs f) ms'" "list_all msg_room (frame_msgs f)" "frame_sizes f"
  defines "g \<equiv> frame_after ms' f"
  shows "frame_sizes g" "num g = num f" "read_write g = read_write f"
    and "num f = 2 \<Longrightarrow> recv_len (msg1 f) \<Longrightarrow> unat (hd (msg_buf (msg1 g))) \<le> 32"
    and "1 \<le> unat (msg_len (last_msg f)) \<Longrightarrow> 1 \<le> unat (msg_len (last_msg g)) \<and> unat (msg_len (last_msg g)) \<le> length (msg_buf (last_msg g))"
    and "is_read (last_msg g) = is_read (last_msg f)"
proof -
  have room: "msg_room (last_msg f)" "length (msg_buf (last_msg f)) \<le> 35"
    using assms(2,3) by (auto simp: frame_msgs_def last_msg_def frame_sizes_def)
  consider (one) a where "num f = 1" "ms' = [a]" "msg_done (msg0 f) a"
    | (two) a b where "num f = 2" "ms' = [a, b]" "msg_done (msg0 f) a" "msg_done (msg1 f) b"
  proof (cases "num f = 1")
    case True
    then show ?thesis using assms(1) that(1) by (auto simp: frame_msgs_def list_all2_Cons1)
  next
    case False
    then have "num f = 2" using assms(3) by (auto simp: frame_sizes_def)
    then show ?thesis using assms(1) that(2) by (auto simp: frame_msgs_def list_all2_Cons1)
  qed
  note parts = this
  show "frame_sizes g" "num g = num f" "read_write g = read_write f"
    "num f = 2 \<Longrightarrow> recv_len (msg1 f) \<Longrightarrow> unat (hd (msg_buf (msg1 g))) \<le> 32"
    "is_read (last_msg g) = is_read (last_msg f)"
    by (cases rule: parts; use assms(3) in \<open>simp add: g_def frame_after_def frame_sizes_def msg_done_def recv_len_def is_read_def last_msg_def I2C_SMBUS_BLOCK_MAX_def\<close>)+
  have "msg_done (last_msg f) (last_msg g)" by (cases rule: parts) (simp_all add: g_def frame_after_def last_msg_def)
  then show "1 \<le> unat (msg_len (last_msg f)) \<Longrightarrow> 1 \<le> unat (msg_len (last_msg g)) \<and> unat (msg_len (last_msg g)) \<le> length (msg_buf (last_msg g))"
    using msg_done_len room by blast
qed

lemma check_ok:
  assumes "1 \<le> unat (msg_len m)" "unat (msg_len m) \<le> length (msg_buf m)"
  shows "\<exists>e. i2c_smbus_check_pec c m = Some (e, m\<lparr>msg_len := msg_len m - 1\<rparr>)"
proof -
  have "unat (msg_len m - 1) = unat (msg_len m) - 1" using assms(1) by (simp add: unat_sub_if' word_le_nat_alt)
  then show ?thesis using check_pec_ok [of m c] assms by simp
qed

lemma result_ok:
  assumes "frame_sizes f" "data_ok read sz data"
    and "read_write f \<and> (sz = I2C_SMBUS_BYTE \<or> sz = I2C_SMBUS_I2C_BLOCK_DATA) \<Longrightarrow> read"
    and "(sz = I2C_SMBUS_BLOCK_DATA \<or> sz = I2C_SMBUS_BLOCK_PROC_CALL) \<and> read_write f \<Longrightarrow> unat (hd (msg_buf (msg1 f))) \<le> 32"
  shows "smbus_result sz f data \<noteq> None"
proof (cases data)
  case None
  then have "\<not> (read_write f \<and> sz = I2C_SMBUS_BYTE)" "sz = I2C_SMBUS_QUICK \<or> sz = I2C_SMBUS_BYTE"
    using assms(2,3) by (auto simp: data_ok_def smbus_sizes)
  then show ?thesis by (auto simp: smbus_result_def Let_def smbus_sizes None Let_def)
next
  case (Some d)
  have d: "length d = 34" "read_write f \<Longrightarrow> sz = I2C_SMBUS_I2C_BLOCK_DATA \<Longrightarrow> unat (d ! 0) \<le> 32"
    using assms(2,3) by (auto simp: data_ok_def Some)
  have b: "length (msg_buf (msg0 f)) = 35" "length (msg_buf (msg1 f)) = 34" using assms(1) by (simp_all add: frame_sizes_def)
  then have hd1: "hd (msg_buf (msg1 f)) = msg_buf (msg1 f) ! 0" by (intro hd_conv_nth) auto
  show ?thesis
  proof (cases "read_write f")
    case True
    consider "sz \<in> {I2C_SMBUS_BYTE, I2C_SMBUS_BYTE_DATA, I2C_SMBUS_WORD_DATA, I2C_SMBUS_PROC_CALL}" | "sz = I2C_SMBUS_I2C_BLOCK_DATA"
      | "sz = I2C_SMBUS_BLOCK_DATA \<or> sz = I2C_SMBUS_BLOCK_PROC_CALL" | "sz \<notin> {1, 2, 3, 4, 5, 7, 8}" by (auto simp: smbus_sizes)
    then show ?thesis
    proof cases
      case 1
      then show ?thesis using d b Some by (auto simp: smbus_result_def Let_def smbus_sizes put_word_def)
    next
      case 2
      then show ?thesis using d b Some True copy_bytes_ok [of 0 "unat (d ! 0)" "msg_buf (msg1 f)" 1 d]
        by (simp add: smbus_result_def Let_def smbus_sizes)
    next
      case 3
      then have "unat (msg_buf (msg1 f) ! 0) \<le> 32" using assms(4) True hd1 by auto
      then show ?thesis using 3 d b Some True copy_bytes_ok [of 0 "unat (msg_buf (msg1 f) ! 0) + 1" "msg_buf (msg1 f)" 0 d]
        by (auto simp: smbus_result_def Let_def smbus_sizes simp del: copy_bytes.simps)
    next
      case 4
      then show ?thesis by (simp add: smbus_result_def Let_def smbus_sizes)
    qed
  qed (simp add: smbus_result_def)
qed


text \<open>An adapter whose device sends \<open>n\<close> as the length of every block and nothing else.\<close>

definition block_device :: "u8 \<Rightarrow> unit i2c_adapter" where
  "block_device n = \<lparr>algo_master_xfer = Some (\<lambda>ms s. (Inr (int (length ms)),
       map (\<lambda>m. if recv_len m then m\<lparr>msg_buf := (msg_buf m)[0 := n], msg_len := msg_len m + ucast n\<rparr> else m) ms, s)),
     algo_smbus_xfer = None, adap_timeout = 10, adap_retries = 0, lock_bus = (\<lambda>_ s. s), unlock_bus = (\<lambda>_ s. s)\<rparr>"

definition zero_stack :: smbus_stack where
  "zero_stack = \<lparr>stk_data = replicate 34 0, stk_msgbuf0 = replicate 35 0, stk_msgbuf1 = replicate 34 0\<rparr>"

lemma block_device_ok:
  assumes "unat n \<le> 32" "algo_master_xfer (block_device n) = Some f"
  shows "xfer_ok f"
proof -
  have "msg_done m (if recv_len m then m\<lparr>msg_buf := (msg_buf m)[0 := n], msg_len := msg_len m + ucast n\<rparr> else m)" if "msg_room m" for m
    using that assms(1) by (cases "msg_buf m") (auto simp: msg_done_def msg_room_def recv_len_def I2C_SMBUS_BLOCK_MAX_def)
  then show ?thesis using assms(2)
    by (auto simp: block_device_def xfer_ok_def list_all2_map2 list_all_iff intro!: list.rel_refl_strong split del: if_split)
qed


text \<open>The length byte of a block is used as it is: when the adapter passes on a length of 200, the copy of
  the block leaves its buffers.\<close>

theorem smbus_block_length_unchecked:
  "i2c_smbus_xfer_emulated (\<lambda>_. 0) (block_device 200) zero_stack 0x20 0 True 1 I2C_SMBUS_BLOCK_DATA (Some (replicate 34 0)) () = None"
  by code_simp

section \<open>Registers\<close>

text \<open>A device with registers behind an adapter, as the SMBus protocol describes it: a write of a
  command byte and data sets the register, a write of the command byte followed by a read gives
  the first bytes of the register.  \<open>reg\<close> reads the registers from the state.\<close>

definition register_device :: "('s \<Rightarrow> u8 \<Rightarrow> u8 list) \<Rightarrow> u16 \<Rightarrow> 's i2c_adapter \<Rightarrow> bool" where
  "register_device reg addr adap \<longleftrightarrow> 0 \<le> adap_retries adap \<and> algo_smbus_xfer adap = None
     \<and> (\<forall>fl s. reg (lock_bus adap fl s) = reg s \<and> reg (unlock_bus adap fl s) = reg s)
     \<and> (\<exists>f. algo_master_xfer adap = Some f
        \<and> (\<forall>m s. msg_addr m = addr \<and> \<not> is_read m \<and> 2 \<le> unat (msg_len m) \<and> unat (msg_len m) \<le> length (msg_buf m) \<longrightarrow>
             (\<exists>ms' s'. f [m] s = (Inr 1, ms', s') \<and> reg s' = (reg s)(hd (msg_buf m) := tl (take (unat (msg_len m)) (msg_buf m)))))
        \<and> (\<forall>m r s. msg_addr m = addr \<and> \<not> is_read m \<and> msg_len m = 1 \<and> msg_buf m \<noteq> [] \<and> msg_addr r = addr \<and> is_read r \<and> \<not> recv_len r
             \<and> unat (msg_len r) \<le> length (msg_buf r) \<and> unat (msg_len r) \<le> length (reg s (hd (msg_buf m))) \<longrightarrow>
             (\<exists>m' s'. f [m, r] s = (Inr 2, [m', r\<lparr>msg_buf := take (unat (msg_len r)) (reg s (hd (msg_buf m))) @ drop (unat (msg_len r)) (msg_buf r)\<rparr>], s')
                \<and> reg s' = reg s)))"

lemma transfer_once:
  assumes "algo_master_xfer adap = Some f" "0 \<le> adap_retries adap" "f ms (lock_bus adap I2C_LOCK_SEGMENT s) = (Inr n, ms', s')"
  shows "i2c_transfer now adap ms s = (Inr n, ms', unlock_bus adap I2C_LOCK_SEGMENT s')"
proof -
  have "nat (adap_retries adap + 1) = Suc (nat (adap_retries adap))" using assms(2) by simp
  then show ?thesis using assms by (simp add: i2c_transfer_def Let_def)
qed

lemma register_write:
  assumes "register_device reg addr adap" "smbus_setup k addr flags read command sz data = Some (Inr f)" "flags AND I2C_CLIENT_PEC = 0"
    and "num f = 1" "\<not> read_write f" "msg_addr (msg0 f) = addr" "\<not> is_read (msg0 f)"
    and "2 \<le> unat (msg_len (msg0 f))" "unat (msg_len (msg0 f)) \<le> length (msg_buf (msg0 f))"
  shows "\<exists>s'. i2c_smbus_xfer_emulated now adap k addr flags read command sz data s = Some (Inr 0, data, s')
    \<and> reg s' = (reg s)(hd (msg_buf (msg0 f)) := tl (take (unat (msg_len (msg0 f))) (msg_buf (msg0 f))))"
proof -
  obtain g where g: "algo_master_xfer adap = Some g" "0 \<le> adap_retries adap"
      "\<And>fl s. reg (lock_bus adap fl s) = reg s" "\<And>fl s. reg (unlock_bus adap fl s) = reg s"
      "\<And>m s. msg_addr m = addr \<Longrightarrow> \<not> is_read m \<Longrightarrow> 2 \<le> unat (msg_len m) \<Longrightarrow> unat (msg_len m) \<le> length (msg_buf m) \<Longrightarrow>
         \<exists>ms' s'. g [m] s = (Inr 1, ms', s') \<and> reg s' = (reg s)(hd (msg_buf m) := tl (take (unat (msg_len m)) (msg_buf m)))"
    using assms(1) unfolding register_device_def by blast
  obtain ms' s' where x: "g [msg0 f] (lock_bus adap I2C_LOCK_SEGMENT s) = (Inr 1, ms', s')"
      "reg s' = (reg s)(hd (msg_buf (msg0 f)) := tl (take (unat (msg_len (msg0 f))) (msg_buf (msg0 f))))"
    using g(5) [OF assms(6-9), of "lock_bus adap I2C_LOCK_SEGMENT s"] unfolding g(3) by blast
  have "frame_msgs f = [msg0 f]" using assms(4) by (simp add: frame_msgs_def)
  moreover have "smbus_result sz (frame_after ms' f) data = Some data"
    using assms(5) by (auto simp: smbus_result_def frame_after_def Let_def split: list.splits)
  ultimately have "i2c_smbus_xfer_emulated now adap k addr flags read command sz data s = Some (Inr 0, data, unlock_bus adap I2C_LOCK_SEGMENT s')"
    using assms(2,3) transfer_once [OF g(1,2) x(1)] by (simp add: i2c_smbus_xfer_emulated_def)
  then show ?thesis using x(2) g(4) by simp
qed

lemma register_read:
  assumes "register_device reg addr adap" "smbus_setup k addr flags read command sz data = Some (Inr f)" "flags AND I2C_CLIENT_PEC = 0"
    and "num f = 2" "msg_addr (msg0 f) = addr" "\<not> is_read (msg0 f)" "msg_len (msg0 f) = 1" "msg_buf (msg0 f) \<noteq> []"
    and "msg_addr (msg1 f) = addr" "is_read (msg1 f)" "\<not> recv_len (msg1 f)" "unat (msg_len (msg1 f)) \<le> length (msg_buf (msg1 f))"
    and "unat (msg_len (msg1 f)) \<le> length (reg s (hd (msg_buf (msg0 f))))"
  shows "\<exists>m' s'. i2c_smbus_xfer_emulated now adap k addr flags read command sz data s = map_option (\<lambda>d. (Inr 0, d, s'))
      (smbus_result sz (f\<lparr>msg0 := m', msg1 := (msg1 f)\<lparr>msg_buf := take (unat (msg_len (msg1 f))) (reg s (hd (msg_buf (msg0 f))))
         @ drop (unat (msg_len (msg1 f))) (msg_buf (msg1 f))\<rparr>\<rparr>) data) \<and> reg s' = reg s"
proof -
  obtain g where g: "algo_master_xfer adap = Some g" "0 \<le> adap_retries adap"
      "\<And>fl s. reg (lock_bus adap fl s) = reg s" "\<And>fl s. reg (unlock_bus adap fl s) = reg s"
      "\<And>m r s. msg_addr m = addr \<and> \<not> is_read m \<and> msg_len m = 1 \<and> msg_buf m \<noteq> [] \<and> msg_addr r = addr \<and> is_read r \<and> \<not> recv_len r
         \<and> unat (msg_len r) \<le> length (msg_buf r) \<and> unat (msg_len r) \<le> length (reg s (hd (msg_buf m))) \<Longrightarrow>
         \<exists>m' s'. g [m, r] s = (Inr 2, [m', r\<lparr>msg_buf := take (unat (msg_len r)) (reg s (hd (msg_buf m))) @ drop (unat (msg_len r)) (msg_buf r)\<rparr>], s')
           \<and> reg s' = reg s"
    using assms(1) unfolding register_device_def by blast
  define r where "r = (msg1 f)\<lparr>msg_buf := take (unat (msg_len (msg1 f))) (reg s (hd (msg_buf (msg0 f)))) @ drop (unat (msg_len (msg1 f))) (msg_buf (msg1 f))\<rparr>"
  obtain m' s' where x: "g [msg0 f, msg1 f] (lock_bus adap I2C_LOCK_SEGMENT s) = (Inr 2, [m', r], s')" "reg s' = reg s"
    using g(5) [of "msg0 f" "msg1 f" "lock_bus adap I2C_LOCK_SEGMENT s"] assms(5-13) unfolding g(3) r_def by blast
  have "frame_msgs f = [msg0 f, msg1 f]" using assms(4) by (simp add: frame_msgs_def)
  then have "i2c_smbus_xfer_emulated now adap k addr flags read command sz data s =
      map_option (\<lambda>d. (Inr 0, d, unlock_bus adap I2C_LOCK_SEGMENT s')) (smbus_result sz (f\<lparr>msg0 := m', msg1 := r\<rparr>) data)"
    using assms(2,3) transfer_once [OF g(1,2) x(1)]
    by (cases "smbus_result sz (f\<lparr>msg0 := m', msg1 := r\<rparr>) data") (simp_all add: i2c_smbus_xfer_emulated_def frame_after_def)
  then show ?thesis unfolding r_def [symmetric] using x(2) g(4) by (intro exI [of _ m'] exI [of _ "unlock_bus adap I2C_LOCK_SEGMENT s'"] conjI) simp_all
qed

lemma word_bytes: "ucast (ucast (w :: u16) :: u8) OR push_bit 8 (ucast (ucast (drop_bit 8 w) :: u8)) = w"
  by (rule bit_word_eqI) (auto simp: bit_simps)

lemma word_mask: "ucast ((w :: u16) AND mask 8) = (ucast w :: u8)"
  by (rule bit_word_eqI) (auto simp: bit_simps)

lemma word_low: "ucast ((w :: u16) AND 0xff) = (ucast w :: u8)"
  using word_mask [of w] by (simp add: mask_eq_exp_minus_1)

lemma put_word_get:
  assumes "2 \<le> length d"
  shows "\<exists>d'. put_word w d = Some d' \<and> get_word d' = Some w \<and> length d' = length d \<and> d' ! 0 = ucast w \<and> d' ! 1 = ucast (drop_bit 8 w)"
proof -
  obtain x y d' where "d = x # y # d'" using assms by (cases d; cases "tl d") auto
  then show ?thesis by (simp add: put_word_def get_word_def wr_def rd_def word_bytes)
qed

definition smbus_mask :: "u16 \<Rightarrow> u16" where
  "smbus_mask flags = flags AND (I2C_M_TEN OR I2C_CLIENT_PEC OR I2C_CLIENT_SCCB)"

lemma mask_flags:
  "smbus_mask fl AND I2C_M_RECV_LEN = 0" "smbus_mask fl AND I2C_M_RD = 0" "fl AND I2C_CLIENT_PEC = 0 \<Longrightarrow> smbus_mask fl AND I2C_CLIENT_PEC = 0"
proof -
  have "(I2C_M_TEN OR I2C_CLIENT_PEC OR I2C_CLIENT_SCCB) AND I2C_M_RECV_LEN = 0" "(I2C_M_TEN OR I2C_CLIENT_PEC OR I2C_CLIENT_SCCB) AND I2C_M_RD = 0"
    by (simp_all add: i2c_flags)
  then show "smbus_mask fl AND I2C_M_RECV_LEN = 0" "smbus_mask fl AND I2C_M_RD = 0" by (simp_all add: smbus_mask_def and.assoc)
  assume "fl AND I2C_CLIENT_PEC = 0"
  then show "smbus_mask fl AND I2C_CLIENT_PEC = 0" unfolding smbus_mask_def by (metis and.assoc and.commute and_zero_eq)
qed

lemma xfer_emulated:
  "algo_smbus_xfer adap = None \<Longrightarrow> i2c_smbus_xfer now adap k addr flags read command sz data s
     = i2c_smbus_xfer_emulated now adap k addr (smbus_mask flags) read command sz data s"
  by (simp add: i2c_smbus_xfer_def smbus_mask_def Let_def)

lemma hd_update: "0 < length b \<Longrightarrow> hd (b[0 := v]) = v"
  by (cases b) auto

lemma hd_update_Suc: "hd (b[Suc i := v]) = hd b"
  by (cases b) auto

lemma take_update3: "3 \<le> length (b :: u8 list) \<Longrightarrow> tl (take 3 (b[0 := c, 1 := x, 2 := y])) = [x, y]"
  "2 \<le> length b \<Longrightarrow> tl (take 2 (b[0 := c, Suc 0 := x])) = [x]"
  by (cases b; cases "tl b"; cases "tl (tl b)"; simp)+

lemma byte_write:
  assumes "register_device reg (client_addr c) adap" "stack_ok k" "client_flags c AND I2C_CLIENT_PEC = 0"
  shows "\<exists>s'. i2c_smbus_write_byte_data now adap k c command v s = Some (Inr 0, s') \<and> reg s' = (reg s)(command := [v])"
proof -
  let ?fl = "smbus_mask (client_flags c)" and ?d = "(stk_data k)[0 := v]"
  define b where "b = (stk_msgbuf0 k)[0 := command, Suc 0 := v]"
  define f where "f = \<lparr>msg0 = \<lparr>msg_addr = client_addr c, msg_flags = ?fl, msg_len = 2, msg_buf = b\<rparr>,
      msg1 = \<lparr>msg_addr = client_addr c, msg_flags = ?fl OR I2C_M_RD, msg_len = 0, msg_buf = stk_msgbuf1 k\<rparr>, num = 1, read_write = False\<rparr>"
  have len: "length (stk_data k) = 34" "length (stk_msgbuf0 k) = 35" using assms(2) by (simp_all add: stack_ok_def)
  have "smbus_setup k (client_addr c) ?fl False command I2C_SMBUS_BYTE_DATA (Some ?d) = Some (Inr f)"
    using len by (simp add: smbus_setup_def smbus_sizes f_def b_def)
  from register_write [OF assms(1) this mask_flags(3) [OF assms(3)], of now s] obtain s' where
    "i2c_smbus_xfer_emulated now adap k (client_addr c) ?fl False command I2C_SMBUS_BYTE_DATA (Some ?d) s = Some (Inr 0, Some ?d, s')"
    "reg s' = (reg s)(command := [v])"
    using len by (auto simp: f_def b_def is_read_def mask_flags hd_update hd_update_Suc take_update3)
  then show ?thesis using len assms(1) by (auto simp: i2c_smbus_write_byte_data_def xfer_emulated register_device_def)
qed

lemma word_write:
  assumes "register_device reg (client_addr c) adap" "stack_ok k" "client_flags c AND I2C_CLIENT_PEC = 0"
  shows "\<exists>s'. i2c_smbus_write_word_data now adap k c command w s = Some (Inr 0, s') \<and> reg s' = (reg s)(command := [ucast w, ucast (drop_bit 8 w)])"
proof -
  let ?fl = "smbus_mask (client_flags c)"
  have len: "length (stk_data k) = 34" "length (stk_msgbuf0 k) = 35" using assms(2) by (simp_all add: stack_ok_def)
  obtain d where d: "put_word w (stk_data k) = Some d" "get_word d = Some w" "length d = 34" using put_word_get [of "stk_data k" w] len by auto
  define b where "b = (stk_msgbuf0 k)[0 := command, 1 := ucast w, 2 := ucast (drop_bit 8 w)]"
  define f where "f = \<lparr>msg0 = \<lparr>msg_addr = client_addr c, msg_flags = ?fl, msg_len = 3, msg_buf = b\<rparr>,
      msg1 = \<lparr>msg_addr = client_addr c, msg_flags = ?fl OR I2C_M_RD, msg_len = 0, msg_buf = stk_msgbuf1 k\<rparr>, num = 1, read_write = False\<rparr>"
  have "smbus_setup k (client_addr c) ?fl False command I2C_SMBUS_WORD_DATA (Some d) = Some (Inr f)"
    using len d by (simp add: smbus_setup_def smbus_sizes f_def b_def smbus_word_frame_def word_low)
  moreover have "hd b = command" "tl (take 3 b) = [ucast w, ucast (drop_bit 8 w)]"
    using len take_update3(1) [of "stk_msgbuf0 k"] by (simp_all add: b_def numeral_2_eq_2 hd_update_Suc hd_update)
  moreover have "length b = 35" using len by (simp add: b_def)
  ultimately obtain s' where
    "i2c_smbus_xfer_emulated now adap k (client_addr c) ?fl False command I2C_SMBUS_WORD_DATA (Some d) s = Some (Inr 0, Some d, s')"
    "reg s' = (reg s)(command := [ucast w, ucast (drop_bit 8 w)])"
    using register_write [OF assms(1) _ mask_flags(3) [OF assms(3)], of k False command I2C_SMBUS_WORD_DATA "Some d" f now s]
    by (auto simp: f_def is_read_def mask_flags)
  then show ?thesis using d assms(1) by (auto simp: i2c_smbus_write_word_data_def xfer_emulated register_device_def)
qed

lemma smbus_block_ok:
  assumes "stack_ok k" "length vs \<le> 32" "n = of_nat (length vs)"
  shows "\<exists>d. smbus_block k n vs = Some d \<and> length d = 34 \<and> d ! 0 = n \<and> take (length vs) (drop 1 d) = vs"
proof -
  have n: "unat n = length vs" using assms(2,3) by (simp add: unat_of_nat)
  have len: "length (stk_data k) = 34" using assms(1) by (simp add: stack_ok_def)
  have "copy_bytes (length vs) 1 0 vs ((stk_data k)[0 := n]) = Some (take 1 ((stk_data k)[0 := n]) @ take (length vs) vs
      @ drop (1 + length vs) ((stk_data k)[0 := n]))"
    using copy_bytes_ok [of 0 "length vs" vs 1 "(stk_data k)[0 := n]"] len assms(2) by simp
  then show ?thesis using len assms(2) n by (auto simp: smbus_block_def I2C_SMBUS_BLOCK_MAX_def nth_append)
qed

lemma block_write:
  assumes "register_device reg (client_addr c) adap" "stack_ok k" "client_flags c AND I2C_CLIENT_PEC = 0"
    and "length vs \<le> 32" "vs \<noteq> []" "n = of_nat (length vs)"
  shows "\<exists>s'. i2c_smbus_write_i2c_block_data now adap k c command n vs s = Some (Inr 0, s') \<and> reg s' = (reg s)(command := vs)"
proof -
  let ?fl = "smbus_mask (client_flags c)" and ?b = "(stk_msgbuf0 k)[0 := command]"
  have n: "unat n = length vs" using assms(4,6) by (simp add: unat_of_nat)
  have len: "length (stk_msgbuf0 k) = 35" using assms(2) by (simp add: stack_ok_def)
  obtain d where d: "smbus_block k n vs = Some d" "length d = 34" "d ! 0 = n" "take (length vs) (drop 1 d) = vs"
    using smbus_block_ok [OF assms(2,4,6)] by blast
  define b where "b = take 1 ?b @ vs @ drop (1 + length vs) ?b"
  have "copy_bytes (length vs) 1 1 d ?b = Some b"
    using copy_bytes_ok [of 1 "length vs" d 1 ?b] d len assms(4) by (simp add: b_def)
  moreover have l: "unat (ucast n + 1 :: u16) = length vs + 1" using n by (simp add: unat_plus_byte)
  define f where "f = \<lparr>msg0 = \<lparr>msg_addr = client_addr c, msg_flags = ?fl, msg_len = ucast n + 1, msg_buf = b\<rparr>,
      msg1 = \<lparr>msg_addr = client_addr c, msg_flags = ?fl OR I2C_M_RD, msg_len = 0, msg_buf = stk_msgbuf1 k\<rparr>, num = 1, read_write = False\<rparr>"
  ultimately have "smbus_setup k (client_addr c) ?fl False command I2C_SMBUS_I2C_BLOCK_DATA (Some d) = Some (Inr f)"
    using len d n assms(4) block_len(2) [of n] by (simp add: smbus_setup_def smbus_sizes f_def I2C_SMBUS_BLOCK_MAX_def)
  moreover have "hd b = command" "tl (take (length vs + 1) b) = vs" "length b = 35"
    using len assms(4) by (cases "stk_msgbuf0 k"; simp add: b_def)+
  moreover have "1 \<le> length vs" using assms(5) by (cases vs) auto
  ultimately obtain s' where
    "i2c_smbus_xfer_emulated now adap k (client_addr c) ?fl False command I2C_SMBUS_I2C_BLOCK_DATA (Some d) s = Some (Inr 0, Some d, s')"
    "reg s' = (reg s)(command := vs)"
    using register_write [OF assms(1) _ mask_flags(3) [OF assms(3)], of k False command I2C_SMBUS_I2C_BLOCK_DATA "Some d" f now s] l assms(4)
    by (auto simp: f_def is_read_def mask_flags)
  then show ?thesis using d assms(1) by (auto simp: i2c_smbus_write_i2c_block_data_def xfer_emulated register_device_def)
qed

text \<open>The frame of a read of \<open>n\<close> bytes, and what the transfer leaves in its second buffer.\<close>

lemma read_frame:
  assumes "register_device reg (client_addr c) adap" "stack_ok k" "client_flags c AND I2C_CLIENT_PEC = 0" "unat n \<le> 34" "unat n \<le> length (reg s command)"
    and "smbus_setup k (client_addr c) (smbus_mask (client_flags c)) True command sz data = Some (Inr
      \<lparr>msg0 = \<lparr>msg_addr = client_addr c, msg_flags = smbus_mask (client_flags c), msg_len = 1, msg_buf = (stk_msgbuf0 k)[0 := command]\<rparr>,
       msg1 = \<lparr>msg_addr = client_addr c, msg_flags = smbus_mask (client_flags c) OR I2C_M_RD, msg_len = n, msg_buf = stk_msgbuf1 k\<rparr>,
       num = 2, read_write = True\<rparr>)"
  shows "\<exists>f s'. i2c_smbus_xfer now adap k (client_addr c) (client_flags c) True command sz data s = map_option (\<lambda>d. (Inr 0, d, s')) (smbus_result sz f data)
    \<and> reg s' = reg s \<and> read_write f \<and> msg_buf (msg1 f) = take (unat n) (reg s command) @ drop (unat n) (stk_msgbuf1 k)"
proof -
  have len: "length (stk_msgbuf0 k) = 35" "length (stk_msgbuf1 k) = 34" using assms(2) by (simp_all add: stack_ok_def)
  have adap: "algo_smbus_xfer adap = None" using assms(1) by (simp add: register_device_def)
  have hdb: "hd ((stk_msgbuf0 k)[0 := command]) = command" "(stk_msgbuf0 k)[0 := command] \<noteq> []" using len by (auto simp: hd_update)
  define F where "F = \<lparr>msg0 = \<lparr>msg_addr = client_addr c, msg_flags = smbus_mask (client_flags c), msg_len = 1, msg_buf = (stk_msgbuf0 k)[0 := command]\<rparr>,
       msg1 = \<lparr>msg_addr = client_addr c, msg_flags = smbus_mask (client_flags c) OR I2C_M_RD, msg_len = n, msg_buf = stk_msgbuf1 k\<rparr>,
       num = 2, read_write = True\<rparr>"
  have "\<exists>m' s'. i2c_smbus_xfer_emulated now adap k (client_addr c) (smbus_mask (client_flags c)) True command sz data s = map_option (\<lambda>d. (Inr 0, d, s'))
      (smbus_result sz (F\<lparr>msg0 := m', msg1 := (msg1 F)\<lparr>msg_buf := take (unat (msg_len (msg1 F))) (reg s (hd (msg_buf (msg0 F))))
         @ drop (unat (msg_len (msg1 F))) (msg_buf (msg1 F))\<rparr>\<rparr>) data) \<and> reg s' = reg s"
    by (rule register_read [OF assms(1) _ mask_flags(3) [OF assms(3)]])
      (use assms(4-6) len hdb in \<open>simp_all add: F_def is_read_def recv_len_def mask_flags read_flag recv_flag flag_nonzero\<close>)
  then obtain m' s' where "i2c_smbus_xfer_emulated now adap k (client_addr c) (smbus_mask (client_flags c)) True command sz data s = map_option (\<lambda>d. (Inr 0, d, s'))
      (smbus_result sz (F\<lparr>msg0 := m', msg1 := (msg1 F)\<lparr>msg_buf := take (unat n) (reg s command) @ drop (unat n) (stk_msgbuf1 k)\<rparr>\<rparr>) data)" "reg s' = reg s"
    using hdb(1) by (auto simp: F_def)
  then show ?thesis unfolding xfer_emulated [OF adap]
    by (intro exI [of _ "F\<lparr>msg0 := m', msg1 := (msg1 F)\<lparr>msg_buf := take (unat n) (reg s command) @ drop (unat n) (stk_msgbuf1 k)\<rparr>\<rparr>"] exI [of _ s'])
      (simp add: F_def)
qed

lemma byte_read:
  assumes "register_device reg (client_addr c) adap" "stack_ok k" "client_flags c AND I2C_CLIENT_PEC = 0" "reg s command = v # xs"
  shows "\<exists>s'. i2c_smbus_read_byte_data now adap k c command s = Some (Inr (uint v), s') \<and> reg s' = reg s"
proof -
  have len: "length (stk_data k) = 34" "length (stk_msgbuf0 k) = 35" using assms(2) by (simp_all add: stack_ok_def)
  obtain f s' where f: "i2c_smbus_xfer now adap k (client_addr c) (client_flags c) True command I2C_SMBUS_BYTE_DATA (Some (stk_data k)) s
      = map_option (\<lambda>d. (Inr 0, d, s')) (smbus_result I2C_SMBUS_BYTE_DATA f (Some (stk_data k)))"
      "reg s' = reg s" "read_write f" "msg_buf (msg1 f) = v # drop 1 (stk_msgbuf1 k)"
    using read_frame [OF assms(1-3), of 1 s command I2C_SMBUS_BYTE_DATA "Some (stk_data k)" now] assms(4) len
    by (auto simp: smbus_setup_def smbus_sizes)
  have "smbus_result I2C_SMBUS_BYTE_DATA f (Some (stk_data k)) = Some (Some ((stk_data k)[0 := v]))"
    using f(3,4) len by (simp add: smbus_result_def Let_def smbus_sizes)
  then show ?thesis using f(1,2) len by (simp add: i2c_smbus_read_byte_data_def)
qed

lemma word_read:
  assumes "register_device reg (client_addr c) adap" "stack_ok k" "client_flags c AND I2C_CLIENT_PEC = 0"
    and "reg s command = ucast (w :: u16) # ucast (drop_bit 8 w) # xs"
  shows "\<exists>s'. i2c_smbus_read_word_data now adap k c command s = Some (Inr (uint w), s') \<and> reg s' = reg s"
proof -
  have len: "length (stk_data k) = 34" "length (stk_msgbuf0 k) = 35" using assms(2) by (simp_all add: stack_ok_def)
  obtain f s' where f: "i2c_smbus_xfer now adap k (client_addr c) (client_flags c) True command I2C_SMBUS_WORD_DATA (Some (stk_data k)) s
      = map_option (\<lambda>d. (Inr 0, d, s')) (smbus_result I2C_SMBUS_WORD_DATA f (Some (stk_data k)))"
      "reg s' = reg s" "read_write f" "msg_buf (msg1 f) = ucast w # ucast (drop_bit 8 w) # drop 2 (stk_msgbuf1 k)"
    using read_frame [OF assms(1-3), of 2 s command I2C_SMBUS_WORD_DATA "Some (stk_data k)" now] assms(4) len
    by (auto simp: smbus_setup_def smbus_sizes)
  obtain d where d: "put_word w (stk_data k) = Some d" "get_word d = Some w" using put_word_get [of "stk_data k" w] len by auto
  have "smbus_result I2C_SMBUS_WORD_DATA f (Some (stk_data k)) = Some (Some d)"
    using f(3,4) d by (simp add: smbus_result_def Let_def smbus_sizes word_bytes rd_def)
  then show ?thesis using f(1,2) d by (simp add: i2c_smbus_read_word_data_def)
qed

lemma block_read:
  assumes "register_device reg (client_addr c) adap" "stack_ok k" "client_flags c AND I2C_CLIENT_PEC = 0"
    and "length vs \<le> 32" "n = of_nat (length vs)" "reg s command = vs" "length vs \<le> length buf"
  shows "\<exists>s'. i2c_smbus_read_i2c_block_data now adap k c command n buf s = Some (Inr (int (length vs)), vs @ drop (length vs) buf, s') \<and> reg s' = reg s"
proof -
  have n: "unat n = length vs" "unat (ucast n :: u16) = length vs" "uint n = int (length vs)"
    using assms(4,5) by (simp_all add: unat_of_nat unat_ucast_mod uint_nat)
  have len: "length (stk_data k) = 34" "length (stk_msgbuf0 k) = 35" using assms(2) by (simp_all add: stack_ok_def)
  define d where "d = (stk_data k)[0 := n]"
  have d: "length d = 34" "d ! 0 = n" "wr 0 n (stk_data k) = Some d" using len by (simp_all add: d_def)
  obtain f s' where f: "i2c_smbus_xfer now adap k (client_addr c) (client_flags c) True command I2C_SMBUS_I2C_BLOCK_DATA (Some d) s
      = map_option (\<lambda>d. (Inr 0, d, s')) (smbus_result I2C_SMBUS_I2C_BLOCK_DATA f (Some d))"
      "reg s' = reg s" "read_write f" "msg_buf (msg1 f) = vs @ drop (length vs) (stk_msgbuf1 k)"
    using read_frame [OF assms(1-3), of "ucast n" s command I2C_SMBUS_I2C_BLOCK_DATA "Some d" now] assms(4,6) len d n
    by (auto simp: smbus_setup_def smbus_sizes)
  define d2 where "d2 = take 1 d @ vs @ drop (1 + length vs) d"
  have "copy_bytes (length vs) 1 0 (msg_buf (msg1 f)) d = Some d2"
    using copy_bytes_ok [of 0 "length vs" "msg_buf (msg1 f)" 1 d] f(4) d(1) assms(4) by (simp add: d2_def)
  then have "smbus_result I2C_SMBUS_I2C_BLOCK_DATA f (Some d) = Some (Some d2)"
    using f(3) d n by (simp add: smbus_result_def Let_def smbus_sizes)
  moreover have "rd 0 d2 = Some n" using d by (cases d) (auto simp: d2_def)
  moreover have "copy_bytes (length vs) 0 1 d2 buf = Some (vs @ drop (length vs) buf)"
    using copy_bytes_ok [of 1 "length vs" d2 0 buf] d(1) assms(4,7) by (simp add: d2_def)
  ultimately show ?thesis using f(1,2) d n assms(4) by (simp add: i2c_smbus_read_i2c_block_data_def I2C_SMBUS_BLOCK_MAX_def)
qed

text \<open>C35: What a client writes to a register of an SMBus device it reads back: bytes, words and blocks of 1 to 32
  bytes, through the emulation by plain transfers.\<close>

theorem smbus_registers_roundtrip:
  assumes "register_device reg (client_addr c) adap" "stack_ok k" "client_flags c AND I2C_CLIENT_PEC = 0"
    and "vs \<noteq> []" "length vs \<le> 32" "length vs \<le> length buf"
  shows "(\<exists>s' s''. i2c_smbus_write_byte_data now adap k c command v s = Some (Inr 0, s')
        \<and> i2c_smbus_read_byte_data now adap k c command s' = Some (Inr (uint v), s''))
    \<and> (\<exists>s' s''. i2c_smbus_write_word_data now adap k c command w s = Some (Inr 0, s')
        \<and> i2c_smbus_read_word_data now adap k c command s' = Some (Inr (uint w), s''))
    \<and> (\<exists>s' s''. i2c_smbus_write_i2c_block_data now adap k c command (of_nat (length vs)) vs s = Some (Inr 0, s')
        \<and> i2c_smbus_read_i2c_block_data now adap k c command (of_nat (length vs)) buf s' = Some (Inr (int (length vs)), vs @ drop (length vs) buf, s''))"
proof (intro conjI)
  show "\<exists>s' s''. i2c_smbus_write_byte_data now adap k c command v s = Some (Inr 0, s')
        \<and> i2c_smbus_read_byte_data now adap k c command s' = Some (Inr (uint v), s'')"
    using byte_write [OF assms(1-3)] byte_read [OF assms(1-3)] by (metis fun_upd_same)
  show "\<exists>s' s''. i2c_smbus_write_word_data now adap k c command w s = Some (Inr 0, s')
        \<and> i2c_smbus_read_word_data now adap k c command s' = Some (Inr (uint w), s'')"
    using word_write [OF assms(1-3)] word_read [OF assms(1-3)] by (metis fun_upd_same)
  show "\<exists>s' s''. i2c_smbus_write_i2c_block_data now adap k c command (of_nat (length vs)) vs s = Some (Inr 0, s')
        \<and> i2c_smbus_read_i2c_block_data now adap k c command (of_nat (length vs)) buf s' = Some (Inr (int (length vs)), vs @ drop (length vs) buf, s'')"
    using block_write [OF assms(1-3,5,4) refl] block_read [OF assms(1-3,5) refl _ assms(6)] by (metis fun_upd_same)
qed

text \<open>A device with 256 registers of bytes; its state is their contents.\<close>

definition ram_xfer :: "(u8 \<Rightarrow> u8 list) master_xfer" where
  "ram_xfer ms s =
     (case ms of
        [m] \<Rightarrow> (Inr 1, ms, s(hd (msg_buf m) := tl (take (unat (msg_len m)) (msg_buf m))))
      | [m, r] \<Rightarrow> (Inr 2, [m, r\<lparr>msg_buf := take (unat (msg_len r)) (s (hd (msg_buf m))) @ drop (unat (msg_len r)) (msg_buf r)\<rparr>], s)
      | _ \<Rightarrow> (Inl EOPNOTSUPP, ms, s))"

definition ram_device :: "(u8 \<Rightarrow> u8 list) i2c_adapter" where
  "ram_device = \<lparr>algo_master_xfer = Some ram_xfer, algo_smbus_xfer = None, adap_timeout = 10, adap_retries = 0,
     lock_bus = (\<lambda>_ s. s), unlock_bus = (\<lambda>_ s. s)\<rparr>"

lemma ram_device_registers: "register_device id addr ram_device"
  by (simp add: register_device_def ram_device_def ram_xfer_def)

theorem smbus_registers_roundtrip_witness:
  "\<exists>s' s''. i2c_smbus_write_word_data (\<lambda>_. 0) ram_device zero_stack \<lparr>client_addr = 0x20, client_flags = 0\<rparr> 3 0x1234 (\<lambda>_. []) = Some (Inr 0, s')
    \<and> i2c_smbus_read_word_data (\<lambda>_. 0) ram_device zero_stack \<lparr>client_addr = 0x20, client_flags = 0\<rparr> 3 s' = Some (Inr (uint (0x1234 :: u16)), s'')"
proof -
  let ?c = "\<lparr>client_addr = 0x20, client_flags = 0\<rparr>"
  have "stack_ok zero_stack" "client_flags ?c AND I2C_CLIENT_PEC = 0" by (simp_all add: stack_ok_def zero_stack_def)
  from smbus_registers_roundtrip [OF ram_device_registers this, of "[1]" "[0]" "\<lambda>_. 0" 3 0 "\<lambda>_. []" "0x1234"] show ?thesis by simp
qed

text \<open>The length of a message has 16 bits: a transfer of 65536 bytes is a message of length 0, and the caller is told
  that all bytes were sent.\<close>

lemma i2c_master_send_truncates:
  "i2c_master_send now adap c buf 65536 s =
     (case i2c_transfer now adap [\<lparr>msg_addr = client_addr c, msg_flags = client_flags c AND I2C_M_TEN, msg_len = 0, msg_buf = buf\<rparr>] s of
        (ret, ms, s') \<Rightarrow> (if ret = Inr 1 then Inr 65536 else ret, s'))"
proof -
  have "word_of_int 65536 = (0 :: u16)" by simp
  then show ?thesis unfolding i2c_master_send_def Let_def by (simp only:)
qed

end
