(* ===== verification/I2c_Core.thy ===== *)
theory I2c_Core
  imports I2c Idr_Spec Devices Str_Conv
begin

text \<open>
  Adapters, drivers and clients of I2C busses (\<open>kernel/linux_i2c.c\<close>).  Registration gives an adapter
  a number from the identifiers of \<open>linux_idr.c\<close> and adds its device with the functions of
  \<open>linux_func.c\<close>; the models of both are used here.  The functions of the drivers are parameters.
\<close>

section \<open>Registration of adapters\<close>

text \<open>The address of an adapter stands for the adapter and for its device.\<close>

record i2c_core =
  i2c_adapter_idr :: idr_state
  i2c_devs :: dev_state
  adapter_nr :: "addr \<Rightarrow> int"
  adapter_timeout :: "addr \<Rightarrow> int"
  adapter_lock :: "addr \<Rightarrow> bool"

definition HZ :: int where "HZ = 1000"

definition dev_set_name :: "string \<Rightarrow> addr \<Rightarrow> dev_state \<Rightarrow> dev_state" where
  "dev_set_name txt dev s = device_update (\<lambda>d. d\<lparr>dev_nm := take 63 txt\<rparr>) dev s"

text \<open>\<open>adapter_lock\<close> tells whether the functions that lock the bus are set.\<close>

definition i2c_register_adapter :: "(addr \<Rightarrow> bus_ops) \<Rightarrow> addr \<Rightarrow> i2c_core \<Rightarrow> (errno + int) \<times> i2c_core" where
  "i2c_register_adapter B adap c =
     (let c = (if \<not> adapter_lock c adap then c\<lparr>adapter_lock := (adapter_lock c)(adap := True)\<rparr> else c);
          c = (if adapter_timeout c adap = 0 then c\<lparr>adapter_timeout := (adapter_timeout c)(adap := HZ)\<rparr> else c);
          (r, devs) = device_register B adap (dev_set_name (''i2c-'' @ print_int 10 (adapter_nr c adap)) adap (i2c_devs c))
      in (case r of Some e \<Rightarrow> Inl e | None \<Rightarrow> Inr 0, c\<lparr>i2c_devs := devs\<rparr>))"

text \<open>\<open>pa\<close> is the array of \<open>idr_alloc\<close> on the stack.\<close>

definition i2c_add_numbered_adapter_sub :: "(addr \<Rightarrow> bus_ops) \<Rightarrow> nat list \<Rightarrow> addr \<Rightarrow> i2c_core \<Rightarrow> ((errno + int) \<times> i2c_core) option" where
  "i2c_add_numbered_adapter_sub B pa adap c =
     (case idr_alloc pa (unat adap) (adapter_nr c adap) (sint (word_of_int (adapter_nr c adap + 1) :: u32)) (i2c_adapter_idr c) of
        None \<Rightarrow> None
      | Some (r, idr) \<Rightarrow>
        let c = c\<lparr>i2c_adapter_idr := idr\<rparr> in
        (case r of
           Inl e \<Rightarrow> Some (Inl (if e = ENOSPC then EBUSY else e), c)
         | Inr i \<Rightarrow> Some (i2c_register_adapter B adap c)))"

definition i2c_add_adapter :: "(addr \<Rightarrow> bus_ops) \<Rightarrow> nat list \<Rightarrow> addr \<Rightarrow> i2c_core \<Rightarrow> ((errno + int) \<times> i2c_core) option" where
  "i2c_add_adapter B pa adap c =
     (case idr_alloc pa (unat adap) 128 0 (i2c_adapter_idr c) of
        None \<Rightarrow> None
      | Some (r, idr) \<Rightarrow>
        let c = c\<lparr>i2c_adapter_idr := idr\<rparr> in
        (case r of
           Inl e \<Rightarrow> Some (Inl e, c)
         | Inr i \<Rightarrow> Some (i2c_register_adapter B adap (c\<lparr>adapter_nr := (adapter_nr c)(adap := int i)\<rparr>))))"

definition i2c_add_numbered_adapter :: "(addr \<Rightarrow> bus_ops) \<Rightarrow> nat list \<Rightarrow> addr \<Rightarrow> i2c_core \<Rightarrow> ((errno + int) \<times> i2c_core) option" where
  "i2c_add_numbered_adapter B pa adap c =
     (if adapter_nr c adap = -1 then i2c_add_adapter B pa adap c else i2c_add_numbered_adapter_sub B pa adap c)"

definition i2c_del_adapter :: "addr \<Rightarrow> i2c_core \<Rightarrow> i2c_core" where
  "i2c_del_adapter adap c = c"

section \<open>Drivers and clients\<close>

record i2c_board_info =
  bi_type :: string
  bi_flags :: u16
  bi_addr :: u16

record i2c_bound = i2c_client +
  client_name :: string
  client_driver :: addr
  client_devname :: string

text \<open>The names of the table of a driver, up to the first empty one; the functions of the driver
  work on a state of their own.\<close>

record 's i2c_driver =
  id_table :: "string list option"
  drv_probe :: "(i2c_bound \<Rightarrow> nat \<Rightarrow> 's \<Rightarrow> errno option \<times> 's) option"
  drv_probe_new :: "(i2c_bound \<Rightarrow> 's \<Rightarrow> errno option \<times> 's) option"
  drv_remove :: "(i2c_bound \<Rightarrow> 's \<Rightarrow> 's) option"

definition i2c_register_driver :: "addr \<Rightarrow> addr list \<Rightarrow> addr list" where
  "i2c_register_driver drv i2c_driver_head = i2c_driver_head @ [drv]"

definition i2c_del_driver :: "addr \<Rightarrow> addr list \<Rightarrow> addr list" where
  "i2c_del_driver drv i2c_driver_head = remove1 drv i2c_driver_head"

text \<open>The inner loop over the table of the driver \<open>d\<close> at address \<open>drv\<close>.\<close>

fun match_ids :: "addr \<Rightarrow> 's i2c_driver \<Rightarrow> nat \<Rightarrow> string list \<Rightarrow> errno option \<times> i2c_bound \<times> 's \<Rightarrow> errno option \<times> i2c_bound \<times> 's" where
  "match_ids drv d i [] r = r"
| "match_ids drv d i (nm # names) (status, c, s) =
     (if nm \<noteq> client_name c then match_ids drv d (i + 1) names (status, c, s)
      else
        let c = c\<lparr>client_driver := drv\<rparr> in
        case (drv_probe_new d, drv_probe d) of
          (None, None) \<Rightarrow> (None, c, s)
        | (pn, p) \<Rightarrow>
          let (status, s) = (case pn of Some probe_new \<Rightarrow> probe_new c s | None \<Rightarrow> the p c i s) in
          if status = None then (None, c, s)
          else match_ids drv d (i + 1) names (status, c\<lparr>client_driver := 0\<rparr>, s))"

fun match_drivers :: "(addr \<Rightarrow> 's i2c_driver) \<Rightarrow> addr list \<Rightarrow> errno option \<times> i2c_bound \<times> 's \<Rightarrow> errno option \<times> i2c_bound \<times> 's" where
  "match_drivers D [] r = r"
| "match_drivers D (drv # drvs) r =
     match_drivers D drvs (case id_table (D drv) of None \<Rightarrow> r | Some names \<Rightarrow> match_ids drv (D drv) 0 names r)"

definition hex4 :: "nat \<Rightarrow> string" where
  "hex4 n = (let ds = print_nat 16 n in replicate (4 - length ds) (CHR ''0'') @ ds)"

text \<open>\<open>mem\<close> tells whether \<open>kzalloc\<close> succeeds, \<open>nr\<close> is the number of the adapter.\<close>

definition new_client :: "int \<Rightarrow> i2c_board_info \<Rightarrow> i2c_bound" where
  "new_client nr info =
     (let addr = bi_addr info OR (if bi_flags info AND 0x10 \<noteq> 0 then 0xa000 else 0)
      in \<lparr>client_addr = bi_addr info, client_flags = bi_flags info, client_name = fst (strlcpy (bi_type info) 20), client_driver = 0,
          client_devname = take 63 (print_int 10 nr @ ''-'' @ hex4 (unat addr))\<rparr>)"

definition i2c_new_device :: "(addr \<Rightarrow> 's i2c_driver) \<Rightarrow> addr list \<Rightarrow> bool \<Rightarrow> int \<Rightarrow> i2c_board_info \<Rightarrow> 's \<Rightarrow> i2c_bound option \<times> 's" where
  "i2c_new_device D i2c_driver_head mem nr info s =
     (if \<not> mem then (None, s)
      else let (status, c, s) = match_drivers D i2c_driver_head (Some EPERM, new_client nr info, s)
           in if status \<noteq> None then (None, s) else (Some c, s))"

definition i2c_new_dummy_device :: "(addr \<Rightarrow> 's i2c_driver) \<Rightarrow> addr list \<Rightarrow> bool \<Rightarrow> int \<Rightarrow> u16 \<Rightarrow> 's \<Rightarrow> i2c_bound option \<times> 's" where
  "i2c_new_dummy_device D i2c_driver_head mem nr address s =
     i2c_new_device D i2c_driver_head mem nr \<lparr>bi_type = ''dummy'', bi_flags = 0, bi_addr = address\<rparr> s"

definition i2c_dummy_driver :: "'s i2c_driver" where
  "i2c_dummy_driver = \<lparr>id_table = Some [''dummy''], drv_probe = Some (\<lambda>c i s. (None, s)), drv_probe_new = None, drv_remove = Some (\<lambda>c s. s)\<rparr>"

text \<open>\<open>addr_list\<close> holds the addresses before \<open>I2C_CLIENT_END\<close>; a probe may use the bus.\<close>

fun probe_addrs :: "(u16 \<Rightarrow> 's \<Rightarrow> bool \<times> 's) option \<Rightarrow> u16 list \<Rightarrow> 's \<Rightarrow> u16 option \<times> 's" where
  "probe_addrs probe [] s = (None, s)"
| "probe_addrs None (a # as) s = (Some a, s)"
| "probe_addrs (Some probe) (a # as) s = (case probe a s of (ok, s) \<Rightarrow> if ok then (Some a, s) else probe_addrs (Some probe) as s)"

definition i2c_new_probed_device ::
    "(addr \<Rightarrow> 's i2c_driver) \<Rightarrow> addr list \<Rightarrow> bool \<Rightarrow> int \<Rightarrow> i2c_board_info \<Rightarrow> u16 list \<Rightarrow> (u16 \<Rightarrow> 's \<Rightarrow> bool \<times> 's) option \<Rightarrow> 's \<Rightarrow> i2c_bound option \<times> 's" where
  "i2c_new_probed_device D i2c_driver_head mem nr info addr_list probe s =
     (case probe_addrs probe addr_list s of
        (None, s) \<Rightarrow> (None, s)
      | (Some a, s) \<Rightarrow> i2c_new_device D i2c_driver_head mem nr (info\<lparr>bi_addr := a\<rparr>) s)"

text \<open>The result tells whether the client is freed.\<close>

definition i2c_unregister_device :: "(addr \<Rightarrow> 's i2c_driver) \<Rightarrow> i2c_bound option \<Rightarrow> 's \<Rightarrow> bool \<times> 's" where
  "i2c_unregister_device D client s =
     (case client of
        None \<Rightarrow> (False, s)
      | Some c \<Rightarrow>
        if client_driver c = 0 then (False, s)
        else (True, case drv_remove (D (client_driver c)) of Some remove \<Rightarrow> remove c s | None \<Rightarrow> s))"

section \<open>Numbers of adapters\<close>

text \<open>What registration leaves: a time-out, lock functions and the name.\<close>

definition registered :: "i2c_core \<Rightarrow> addr \<Rightarrow> int \<Rightarrow> bool" where
  "registered c adap n \<longleftrightarrow> adapter_nr c adap = n \<and> adapter_timeout c adap \<noteq> 0 \<and> adapter_lock c adap
     \<and> (\<exists>d. devices (i2c_devs c) adap = Some d \<and> dev_nm d = take 63 (''i2c-'' @ print_int 10 n))"

lemma register_ok:
  assumes "devices (i2c_devs c) adap = Some d" "bus d = 0" "adap \<noteq> 0" "adapter_nr c adap = n"
  shows "\<exists>c'. i2c_register_adapter B adap c = (Inr 0, c') \<and> registered c' adap n \<and> i2c_adapter_idr c' = i2c_adapter_idr c"
  using assms
  by (simp add: i2c_register_adapter_def registered_def device_register_def device_add_def dev_set_name_def device_update_def get_device_def HZ_def)

lemma add_adapter_spec:
  assumes "idr_inv M (i2c_adapter_idr c)" "length pa = MAX_IDR_LEVEL + 1" "devices (i2c_devs c) adap = Some d" "bus d = 0" "adap \<noteq> 0"
  shows "\<exists>r c'. i2c_add_adapter B pa adap c = Some (r, c') \<and>
    (case r of
       Inr v \<Rightarrow> v = 0 \<and> (\<exists>n \<ge> 128. M n = None \<and> (\<forall>k. 128 \<le> k \<and> k < n \<longrightarrow> M k \<noteq> None) \<and> registered c' adap (int n)
         \<and> idr_inv (M(n \<mapsto> unat adap)) (i2c_adapter_idr c') \<and> idr_find (int n) (i2c_adapter_idr c') = unat adap)
     | Inl e \<Rightarrow> idr_inv M (i2c_adapter_idr c') \<and> (e = ENOSPC \<and> (\<forall>k \<ge> 128. k < 2 ^ 31 \<longrightarrow> M k \<noteq> None) \<or> e = ENOMEM \<and> length (idr_preload_head (i2c_adapter_idr c)) < 7))"
proof -
  obtain r s' where a: "idr_alloc pa (unat adap) 128 0 (i2c_adapter_idr c) = Some (r, s')"
      "alloc_result M (unat adap) 128 (2 ^ 31) (i2c_adapter_idr c) r s'"
    using idr_alloc_spec [OF assms(1,2), of 128 0 "unat adap"] by auto
  show ?thesis
  proof (cases r)
    case (Inl e)
    then show ?thesis using a by (auto simp: i2c_add_adapter_def)
  next
    case (Inr n)
    let ?c = "c\<lparr>i2c_adapter_idr := s', adapter_nr := (adapter_nr c)(adap := int n)\<rparr>"
    obtain c' where c': "i2c_register_adapter B adap ?c = (Inr 0, c')" "registered c' adap (int n)" "i2c_adapter_idr c' = s'"
      using register_ok [of ?c adap d "int n" B] assms(3-5) by auto
    have n: "128 \<le> n" "M n = None" "\<forall>k < n. 128 \<le> k \<longrightarrow> M k \<noteq> None" "idr_inv (M(n \<mapsto> unat adap)) s'"
      using a(2) Inr by auto
    moreover have "idr_find (int n) s' = unat adap" using ids.find [OF n(4), of n] by (simp add: ptr_of_def)
    ultimately show ?thesis using a(1) Inr c' by (auto simp: i2c_add_adapter_def)
  qed
qed

text \<open>An adapter without a number gets the least free number from 128 on, the table of adapters holds it under that
  number, and it is named after it.  It fails only when no number is left or memory is short.\<close>

theorem i2c_add_adapter_number:
  assumes "idr_inv M (i2c_adapter_idr c)" "length pa = MAX_IDR_LEVEL + 1" "devices (i2c_devs c) adap = Some d" "bus d = 0" "adap \<noteq> 0"
  shows "\<exists>r c'. i2c_add_adapter B pa adap c = Some (r, c') \<and>
    (case r of
       Inr v \<Rightarrow> v = 0 \<and> (\<exists>n \<ge> 128. M n = None \<and> (\<forall>k. 128 \<le> k \<and> k < n \<longrightarrow> M k \<noteq> None) \<and> registered c' adap (int n)
         \<and> idr_inv (M(n \<mapsto> unat adap)) (i2c_adapter_idr c') \<and> idr_find (int n) (i2c_adapter_idr c') = unat adap)
     | Inl e \<Rightarrow> idr_inv M (i2c_adapter_idr c') \<and> (e = ENOSPC \<and> (\<forall>k \<ge> 128. k < 2 ^ 31 \<longrightarrow> M k \<noteq> None) \<or> e = ENOMEM \<and> length (idr_preload_head (i2c_adapter_idr c)) < 7))"
  by (rule add_adapter_spec [OF assms])

definition core_start :: i2c_core where
  "core_start = \<lparr>i2c_adapter_idr = idr_preload (idr_start [1..<9]),
     i2c_devs = \<lparr>cdev_registry = (\<lambda>_ _. 0), cdev_mm = (\<lambda>_ _. 0), dvb_swap_fe = 0, cdevs = (\<lambda>_. None),
       devices = [7 \<mapsto> \<lparr>refcount = 0, driver = 0, parent = 0, bus = 0, devt = 0, dev_class = 0, driver_data = 0, dev_nm = [], bus_id = []\<rparr>],
       device_driver_head = [], driver_bus = (\<lambda>_. 0), driver_linked = (\<lambda>_. False), bus_type_head = [], bus_linked = (\<lambda>_. False)\<rparr>,
     adapter_nr = (\<lambda>_. 5), adapter_timeout = (\<lambda>_. 0), adapter_lock = (\<lambda>_. False)\<rparr>"

lemma core_start_ok:
  "idr_inv Map.empty (i2c_adapter_idr core_start)" "length [0, 0, 0, 0, 0 :: nat] = MAX_IDR_LEVEL + 1"
  "\<exists>d. devices (i2c_devs core_start) 7 = Some d \<and> bus d = 0"
  using idr_start_preloaded(1) by (simp_all add: core_start_def idr_constants)

lemma core_start_memory: "\<not> length (idr_preload_head (i2c_adapter_idr core_start)) < 7"
  using idr_start_preloaded(2) by (simp add: core_start_def)

theorem i2c_add_adapter_number_witness:
  "\<exists>c'. i2c_add_adapter (\<lambda>_. \<lparr>bus_match = None, bus_probe = None\<rparr>) [0, 0, 0, 0, 0] 7 core_start = Some (Inr 0, c') \<and> registered c' 7 128"
proof -
  obtain d where d: "devices (i2c_devs core_start) 7 = Some d" "bus d = 0" using core_start_ok(3) by blast
  have "(7 :: addr) \<noteq> 0" by simp
  note added = i2c_add_adapter_number [OF core_start_ok(1,2) d this, of "\<lambda>_. \<lparr>bus_match = None, bus_probe = None\<rparr>"]
  show ?thesis
  proof (use added in \<open>elim exE conjE\<close>)
    fix r c'
    assume eq: "i2c_add_adapter (\<lambda>_. \<lparr>bus_match = None, bus_probe = None\<rparr>) [0, 0, 0, 0, 0] 7 core_start = Some (r, c')"
      and r: "case r of
         Inr v \<Rightarrow> v = 0 \<and> (\<exists>n \<ge> 128. Map.empty n = None \<and> (\<forall>k. 128 \<le> k \<and> k < n \<longrightarrow> Map.empty k \<noteq> None) \<and> registered c' 7 (int n)
           \<and> idr_inv [n \<mapsto> unat (7 :: addr)] (i2c_adapter_idr c') \<and> idr_find (int n) (i2c_adapter_idr c') = unat (7 :: addr))
       | Inl e \<Rightarrow> idr_inv Map.empty (i2c_adapter_idr c') \<and> (e = ENOSPC \<and> (\<forall>k \<ge> (128 :: nat). k < 2 ^ 31 \<longrightarrow> Map.empty k \<noteq> None)
           \<or> e = ENOMEM \<and> length (idr_preload_head (i2c_adapter_idr core_start)) < 7)"
    show ?thesis
    proof (cases r)
      case (Inl e)
      then show ?thesis using r core_start_memory by (auto dest: spec [of _ "128 :: nat"])
    next
      case (Inr v)
      then obtain n where "v = 0" "128 \<le> n" "\<forall>k. \<not> (128 \<le> k \<and> k < n)" "registered c' 7 (int n)" using r by auto
      moreover from this(2,3) have "n = 128" by (metis le_neq_implies_less order_refl)
      ultimately show ?thesis using eq Inr by simp
    qed
  qed
qed

lemma numbered_end: "int n < 2 ^ 31 - 1 \<Longrightarrow> sint (word_of_int (int n + 1) :: u32) = int n + 1"
proof -
  assume n: "int n < 2 ^ 31 - 1"
  have k: "sint (word_of_int k :: u32) = k" if "0 \<le> k" "k < 2 ^ 31" for k
    using that by (simp add: signed_of_int signed_take_bit_int_eq_self)
  show ?thesis by (rule k) (use n in simp_all)
qed

lemma numbered_alloc:
  assumes "idr_inv M (i2c_adapter_idr c)" "length pa = MAX_IDR_LEVEL + 1" "adapter_nr c adap = int n" "int n < 2 ^ 31 - 1"
  shows "\<exists>r s'. idr_alloc pa (unat adap) (adapter_nr c adap) (sint (word_of_int (adapter_nr c adap + 1) :: u32)) (i2c_adapter_idr c) = Some (r, s')
    \<and> (case r of Inr i \<Rightarrow> i = n \<and> M n = None \<and> idr_inv (M(n \<mapsto> unat adap)) s'
       | Inl e \<Rightarrow> idr_inv M s' \<and> (e = ENOSPC \<and> M n \<noteq> None \<or> e = ENOMEM \<and> length (idr_preload_head (i2c_adapter_idr c)) < 7))"
proof -
  have "int n < 2 ^ 31" "int n + 1 < 2 ^ 31" using assms(4) by simp_all
  from idr_alloc_spec [OF assms(1,2) this, of "unat adap"] obtain r s' where
    "idr_alloc pa (unat adap) (int n) (int n + 1) (i2c_adapter_idr c) = Some (r, s')"
    "alloc_result M (unat adap) (int n) (int n + 1) (i2c_adapter_idr c) r s'" by auto
  then show ?thesis unfolding assms(3) numbered_end [OF assms(4)] by (cases r) auto
qed

lemma numbered_taken:
  assumes "idr_inv M (i2c_adapter_idr c)" "length pa = MAX_IDR_LEVEL + 1" "adapter_nr c adap = int n" "int n < 2 ^ 31 - 1" "M n \<noteq> None"
  shows "\<exists>e c'. i2c_add_numbered_adapter B pa adap c = Some (Inl e, c') \<and> e \<in> {EBUSY, ENOMEM}"
proof -
  obtain r s' where a: "idr_alloc pa (unat adap) (adapter_nr c adap) (sint (word_of_int (adapter_nr c adap + 1) :: u32)) (i2c_adapter_idr c) = Some (r, s')"
      "case r of Inr i \<Rightarrow> i = n \<and> M n = None \<and> idr_inv (M(n \<mapsto> unat adap)) s' | Inl e \<Rightarrow> idr_inv M s' \<and> (e = ENOSPC \<and> M n \<noteq> None \<or> e = ENOMEM \<and> length (idr_preload_head (i2c_adapter_idr c)) < 7)"
    using numbered_alloc [OF assms(1-4)] by blast
  obtain e where e: "r = Inl e" "e = ENOSPC \<or> e = ENOMEM" using a(2) assms(5) by (cases r) auto
  have "i2c_add_numbered_adapter B pa adap c = i2c_add_numbered_adapter_sub B pa adap c"
    using assms(3) by (simp add: i2c_add_numbered_adapter_def)
  then show ?thesis using a(1) e by (auto simp: i2c_add_numbered_adapter_sub_def)
qed

text \<open>C38: An adapter with a number from 0 on gets that number or the answer that it is busy, which it is only when
  another adapter was given it.  Taking an adapter away does not free its number: a second adapter with the same number
  is refused.\<close>

theorem i2c_add_numbered_adapter_exact:
  assumes "idr_inv M (i2c_adapter_idr c)" "length pa = MAX_IDR_LEVEL + 1" "devices (i2c_devs c) adap = Some d" "bus d = 0" "adap \<noteq> 0"
    and "adapter_nr c adap = int n" "int n < 2 ^ 31 - 1"
  shows "\<exists>r c'. i2c_add_numbered_adapter B pa adap c = Some (r, c') \<and>
    (case r of
       Inr v \<Rightarrow> v = 0 \<and> M n = None \<and> registered c' adap (int n) \<and> idr_inv (M(n \<mapsto> unat adap)) (i2c_adapter_idr c')
         \<and> (\<forall>other. adapter_nr c' other = int n \<longrightarrow>
              (\<exists>e c2. i2c_add_numbered_adapter B pa other (i2c_del_adapter adap c') = Some (Inl e, c2) \<and> e \<in> {EBUSY, ENOMEM}))
     | Inl e \<Rightarrow> idr_inv M (i2c_adapter_idr c') \<and> (e = EBUSY \<and> M n \<noteq> None \<or> e = ENOMEM \<and> length (idr_preload_head (i2c_adapter_idr c)) < 7))"
proof -
  obtain r s' where a: "idr_alloc pa (unat adap) (adapter_nr c adap) (sint (word_of_int (adapter_nr c adap + 1) :: u32)) (i2c_adapter_idr c) = Some (r, s')"
      "case r of Inr i \<Rightarrow> i = n \<and> M n = None \<and> idr_inv (M(n \<mapsto> unat adap)) s' | Inl e \<Rightarrow> idr_inv M s' \<and> (e = ENOSPC \<and> M n \<noteq> None \<or> e = ENOMEM \<and> length (idr_preload_head (i2c_adapter_idr c)) < 7)"
    using numbered_alloc [OF assms(1,2,6,7)] by blast
  have sub: "i2c_add_numbered_adapter B pa adap c = i2c_add_numbered_adapter_sub B pa adap c"
    using assms(6) by (simp add: i2c_add_numbered_adapter_def)
  show ?thesis
  proof (cases r)
    case (Inl e)
    then show ?thesis using a sub by (auto simp: i2c_add_numbered_adapter_sub_def)
  next
    case (Inr i)
    let ?c = "c\<lparr>i2c_adapter_idr := s'\<rparr>"
    obtain c' where c': "i2c_register_adapter B adap ?c = (Inr 0, c')" "registered c' adap (int n)" "i2c_adapter_idr c' = s'"
      using register_ok [of ?c adap d "int n" B] assms(3-6) by auto
    have inv: "idr_inv (M(n \<mapsto> unat adap)) (i2c_adapter_idr c')" using a(2) Inr c'(3) by simp
    have "\<exists>e c2. i2c_add_numbered_adapter B pa other (i2c_del_adapter adap c') = Some (Inl e, c2) \<and> e \<in> {EBUSY, ENOMEM}"
      if "adapter_nr c' other = int n" for other
      unfolding i2c_del_adapter_def by (rule numbered_taken [OF inv assms(2) that assms(7)]) simp
    then show ?thesis using a Inr c' sub inv by (simp add: i2c_add_numbered_adapter_sub_def)
  qed
qed

theorem i2c_add_numbered_adapter_exact_witness:
  "\<exists>c'. i2c_add_numbered_adapter (\<lambda>_. \<lparr>bus_match = None, bus_probe = None\<rparr>) [0, 0, 0, 0, 0] 7 core_start = Some (Inr 0, c') \<and> registered c' 7 5"
proof -
  obtain d where d: "devices (i2c_devs core_start) 7 = Some d" "bus d = 0" using core_start_ok(3) by blast
  have n: "adapter_nr core_start 7 = int 5" by (simp add: core_start_def)
  obtain r c' where eq: "i2c_add_numbered_adapter (\<lambda>_. \<lparr>bus_match = None, bus_probe = None\<rparr>) [0, 0, 0, 0, 0] 7 core_start = Some (r, c')"
    "case r of Inr v \<Rightarrow> v = 0 \<and> registered c' 7 5 | Inl e \<Rightarrow> False"
    using i2c_add_numbered_adapter_exact [OF core_start_ok(1,2) d _ n, of "\<lambda>_. \<lparr>bus_match = None, bus_probe = None\<rparr>"] core_start_memory
    by (fastforce split: sum.splits)
  then show ?thesis by (cases r) auto
qed

section \<open>Binding of clients\<close>

definition offers :: "'s i2c_driver \<Rightarrow> string \<Rightarrow> bool" where
  "offers d nm = (case id_table d of None \<Rightarrow> False | Some names \<Rightarrow> nm \<in> set names)"

text \<open>The call of the probe function of a driver, for entry \<open>i\<close> of its table.\<close>

definition try_probe :: "'s i2c_driver \<Rightarrow> i2c_bound \<Rightarrow> nat \<Rightarrow> 's \<Rightarrow> errno option \<times> 's" where
  "try_probe d c i s = (case (drv_probe_new d, drv_probe d) of
      (None, None) \<Rightarrow> (None, s) | (Some p, _) \<Rightarrow> p c s | (None, Some p) \<Rightarrow> p c i s)"

lemma match_ids_skip: "client_name c \<notin> set names \<Longrightarrow> match_ids drv d i names (st, c, s) = (st, c, s)"
  by (induction names arbitrary: i) auto

lemma match_ids_hit:
  assumes "client_name c \<notin> set xs" "client_name c \<notin> set ys"
  shows "match_ids drv d i (xs @ client_name c # ys) (st, c, s) =
    (case try_probe d (c\<lparr>client_driver := drv\<rparr>) (i + length xs) s of
       (None, s') \<Rightarrow> (None, c\<lparr>client_driver := drv\<rparr>, s')
     | (Some e, s') \<Rightarrow> (Some e, c\<lparr>client_driver := 0\<rparr>, s'))"
  using assms
proof (induction xs arbitrary: i)
  case Nil
  then show ?case using match_ids_skip [of "c\<lparr>client_driver := 0\<rparr>" ys drv d "i + 1"]
    by (auto simp: try_probe_def Let_def split: option.splits prod.splits)
qed (auto split: option.splits prod.splits)

lemma match_drivers_skip:
  "(\<And>drv. drv \<in> set drvs \<Longrightarrow> \<not> offers (D drv) (client_name c)) \<Longrightarrow> match_drivers D drvs (st, c, s) = (st, c, s)"
proof (induction drvs)
  case (Cons drv drvs)
  have "\<not> offers (D drv) (client_name c)" using Cons.prems by simp
  then have "(case id_table (D drv) of None \<Rightarrow> (st, c, s) | Some names \<Rightarrow> match_ids drv (D drv) 0 names (st, c, s)) = (st, c, s)"
    by (auto simp: offers_def match_ids_skip split: option.splits)
  then show ?case using Cons by simp
qed simp

lemma match_drivers_append: "match_drivers D (xs @ ys) r = match_drivers D ys (match_drivers D xs r)"
  by (induction xs arbitrary: r) auto

text \<open>C39: When one driver offers the name of a new client, and offers it once, its probe function is called once with the
  client, and the client is returned, bound to the driver, exactly when the function succeeds.\<close>

theorem i2c_new_device_binds:
  assumes "nm = take 19 (bi_type info)" "id_table (D drv) = Some (xs @ nm # ys)" "nm \<notin> set (xs @ ys)"
    and "\<And>d. d \<in> set (ds1 @ ds2) \<Longrightarrow> \<not> offers (D d) nm"
  shows "i2c_new_device D (ds1 @ drv # ds2) True nr info s =
    (case try_probe (D drv) ((new_client nr info)\<lparr>client_driver := drv\<rparr>) (length xs) s of
       (None, s') \<Rightarrow> (Some ((new_client nr info)\<lparr>client_driver := drv\<rparr>), s')
     | (Some e, s') \<Rightarrow> (None, s'))"
proof -
  let ?c = "new_client nr info"
  have nm: "client_name ?c = nm" by (simp add: new_client_def assms(1) strlcpy_def Let_def)
  have 1: "match_drivers D ds1 (Some EPERM, ?c, s) = (Some EPERM, ?c, s)" using assms(4) nm by (intro match_drivers_skip) auto
  have 2: "match_ids drv (D drv) 0 (xs @ nm # ys) (Some EPERM, ?c, s) = (case try_probe (D drv) (?c\<lparr>client_driver := drv\<rparr>) (length xs) s of
       (None, s') \<Rightarrow> (None, ?c\<lparr>client_driver := drv\<rparr>, s') | (Some e, s') \<Rightarrow> (Some e, ?c\<lparr>client_driver := 0\<rparr>, s'))"
    using match_ids_hit [of ?c xs ys drv "D drv" 0 "Some EPERM" s] assms(3) nm by simp
  have 3: "match_drivers D ds2 (st, ?c\<lparr>client_driver := x\<rparr>, s') = (st, ?c\<lparr>client_driver := x\<rparr>, s')" for st x s'
    using assms(4) nm by (intro match_drivers_skip) auto
  show ?thesis unfolding i2c_new_device_def match_drivers_append 1 match_drivers.simps assms(2) option.case 2
    by (auto simp: 3 split: prod.splits option.splits)
qed

theorem i2c_new_device_binds_witness:
  "i2c_new_device (\<lambda>_. i2c_dummy_driver) [3] True 0 \<lparr>bi_type = ''dummy'', bi_flags = 0, bi_addr = 0x20\<rparr> () =
    (Some ((new_client 0 \<lparr>bi_type = ''dummy'', bi_flags = 0, bi_addr = 0x20\<rparr>)\<lparr>client_driver := 3\<rparr>), ())"
  using i2c_new_device_binds [of "''dummy''" "\<lparr>bi_type = ''dummy'', bi_flags = 0, bi_addr = 0x20\<rparr>" "\<lambda>_. i2c_dummy_driver" 3 "[]" "[]" "[]" "[]" 0 "()"]
  by (simp add: i2c_dummy_driver_def try_probe_def)

text \<open>The search goes on after a driver that took the client: when a later driver offers the same name and refuses,
  no client is returned, although the first driver holds it.\<close>

theorem i2c_new_device_loses_client:
  assumes "nm = take 19 (bi_type info)" "id_table (D d1) = Some [nm]" "id_table (D d2) = Some [nm]"
    and "\<And>c i. try_probe (D d1) c i s = (None, s1)" "\<And>c i. try_probe (D d2) c i s1 = (Some e, s2)"
  shows "i2c_new_device D [d1] True nr info s = (Some ((new_client nr info)\<lparr>client_driver := d1\<rparr>), s1)
    \<and> i2c_new_device D [d1, d2] True nr info s = (None, s2)"
proof -
  let ?c = "new_client nr info"
  have nm: "client_name ?c = nm" by (simp add: new_client_def assms(1) strlcpy_def Let_def)
  have "match_ids d1 (D d1) 0 [nm] (Some EPERM, ?c, s) = (None, ?c\<lparr>client_driver := d1\<rparr>, s1)"
    using match_ids_hit [of ?c "[]" "[]" d1 "D d1" 0 "Some EPERM" s] nm assms(4) by simp
  moreover have "match_ids d2 (D d2) 0 [nm] (None, ?c\<lparr>client_driver := d1\<rparr>, s1) = (Some e, ?c\<lparr>client_driver := 0\<rparr>, s2)"
    using match_ids_hit [of "?c\<lparr>client_driver := d1\<rparr>" "[]" "[]" d2 "D d2" 0 None s1] nm assms(5) by simp
  ultimately show ?thesis by (simp add: i2c_new_device_def assms(2,3))
qed

theorem i2c_new_device_loses_client_witness:
  "i2c_new_device (\<lambda>a. if a = 1 then i2c_dummy_driver else i2c_dummy_driver\<lparr>drv_probe := Some (\<lambda>c i s. (Some ENODEV, s))\<rparr>) [1, 2] True 0
    \<lparr>bi_type = ''dummy'', bi_flags = 0, bi_addr = 0x20\<rparr> () = (None, ())"
  using i2c_new_device_loses_client [of "''dummy''" "\<lparr>bi_type = ''dummy'', bi_flags = 0, bi_addr = 0x20\<rparr>"
    "\<lambda>a. if a = 1 then i2c_dummy_driver else i2c_dummy_driver\<lparr>drv_probe := Some (\<lambda>c i s. (Some ENODEV, s))\<rparr>" 1 2 "()" "()" ENODEV "()" 0]
  by (simp add: i2c_dummy_driver_def try_probe_def)

lemma probe_addrs_first:
  "probe_addrs (Some (\<lambda>a s. (ok a, s))) as s = (find ok as, s)" "probe_addrs None as s = (if as = [] then None else Some (hd as), s)"
  by (induction as) auto

end
