(* ===== verification/I2c_Mux.thy ===== *)
theory I2c_Mux
  imports I2c_Core
begin

text \<open>
  Multiplexers on I2C busses (\<open>kernel/linux_i2c_mux.c\<close>).  A multiplexer presents each of its channels
  as a further adapter behind a parent.  The mutexes of the adapters are a set: locking one that is
  in the set does not return (\<open>None\<close>).  The functions that select a channel are parameters.
\<close>

section \<open>Locks of a tree of adapters\<close>

text \<open>An adapter with its address: one of its own, or a channel of a multiplexer behind the given parent,
  where the multiplexer locks itself (\<open>mux_locked\<close>) or its parent.\<close>

datatype adapter = Root addr | Mux_locked addr adapter | Parent_locked addr adapter

fun adap_of :: "adapter \<Rightarrow> addr" where
  "adap_of (Root a) = a"
| "adap_of (Mux_locked a p) = a"
| "adap_of (Parent_locked a p) = a"

datatype i2c_mutex = Bus_lock addr | Mux_lock addr

definition rt_mutex_lock :: "i2c_mutex \<Rightarrow> i2c_mutex set \<Rightarrow> i2c_mutex set option" where
  "rt_mutex_lock x s = (if x \<in> s then None else Some (insert x s))"

definition rt_mutex_trylock :: "i2c_mutex \<Rightarrow> i2c_mutex set \<Rightarrow> bool \<times> i2c_mutex set" where
  "rt_mutex_trylock x s = (if x \<in> s then (False, s) else (True, insert x s))"

definition rt_mutex_unlock :: "i2c_mutex \<Rightarrow> i2c_mutex set \<Rightarrow> i2c_mutex set" where
  "rt_mutex_unlock x s = s - {x}"

text \<open>The functions of an adapter of its own.\<close>

definition i2c_adapter_lock_bus :: "addr \<Rightarrow> u32 \<Rightarrow> i2c_mutex set \<Rightarrow> i2c_mutex set option" where
  "i2c_adapter_lock_bus adap flags s = rt_mutex_lock (Bus_lock adap) s"

definition i2c_adapter_trylock_bus :: "addr \<Rightarrow> u32 \<Rightarrow> i2c_mutex set \<Rightarrow> bool \<times> i2c_mutex set" where
  "i2c_adapter_trylock_bus adap flags s = rt_mutex_trylock (Bus_lock adap) s"

definition i2c_adapter_unlock_bus :: "addr \<Rightarrow> u32 \<Rightarrow> i2c_mutex set \<Rightarrow> i2c_mutex set" where
  "i2c_adapter_unlock_bus adap flags s = rt_mutex_unlock (Bus_lock adap) s"

text \<open>The functions of a channel; the function of the parent at address \<open>par\<close> is an argument.\<close>

definition i2c_mux_lock_bus :: "(u32 \<Rightarrow> i2c_mutex set \<Rightarrow> i2c_mutex set option) \<Rightarrow> addr \<Rightarrow> u32 \<Rightarrow> i2c_mutex set \<Rightarrow> i2c_mutex set option" where
  "i2c_mux_lock_bus par_lock par flags s = do {
     s \<leftarrow> rt_mutex_lock (Mux_lock par) s;
     if \<not> (flags AND I2C_LOCK_ROOT_ADAPTER \<noteq> 0) then Some s
     else par_lock flags s }"

definition i2c_mux_trylock_bus :: "(u32 \<Rightarrow> i2c_mutex set \<Rightarrow> bool \<times> i2c_mutex set) \<Rightarrow> addr \<Rightarrow> u32 \<Rightarrow> i2c_mutex set \<Rightarrow> bool \<times> i2c_mutex set" where
  "i2c_mux_trylock_bus par_trylock par flags s =
     (let (ok, s) = rt_mutex_trylock (Mux_lock par) s in
      if \<not> ok then (False, s)
      else if \<not> (flags AND I2C_LOCK_ROOT_ADAPTER \<noteq> 0) then (True, s)
      else let (ok, s) = par_trylock flags s in
        if ok then (True, s) else (False, rt_mutex_unlock (Mux_lock par) s))"

definition i2c_mux_unlock_bus :: "(u32 \<Rightarrow> i2c_mutex set \<Rightarrow> i2c_mutex set) \<Rightarrow> addr \<Rightarrow> u32 \<Rightarrow> i2c_mutex set \<Rightarrow> i2c_mutex set" where
  "i2c_mux_unlock_bus par_unlock par flags s =
     (let s = (if flags AND I2C_LOCK_ROOT_ADAPTER \<noteq> 0 then par_unlock flags s else s)
      in rt_mutex_unlock (Mux_lock par) s)"

definition i2c_parent_lock_bus :: "(u32 \<Rightarrow> i2c_mutex set \<Rightarrow> i2c_mutex set option) \<Rightarrow> addr \<Rightarrow> u32 \<Rightarrow> i2c_mutex set \<Rightarrow> i2c_mutex set option" where
  "i2c_parent_lock_bus par_lock par flags s = do {
     s \<leftarrow> rt_mutex_lock (Mux_lock par) s;
     par_lock flags s }"

definition i2c_parent_trylock_bus :: "(u32 \<Rightarrow> i2c_mutex set \<Rightarrow> bool \<times> i2c_mutex set) \<Rightarrow> addr \<Rightarrow> u32 \<Rightarrow> i2c_mutex set \<Rightarrow> bool \<times> i2c_mutex set" where
  "i2c_parent_trylock_bus par_trylock par flags s =
     (let (ok, s) = rt_mutex_trylock (Mux_lock par) s in
      if \<not> ok then (False, s)
      else let (ok, s) = par_trylock flags s in
        if ok then (True, s) else (False, rt_mutex_unlock (Mux_lock par) s))"

definition i2c_parent_unlock_bus :: "(u32 \<Rightarrow> i2c_mutex set \<Rightarrow> i2c_mutex set) \<Rightarrow> addr \<Rightarrow> u32 \<Rightarrow> i2c_mutex set \<Rightarrow> i2c_mutex set" where
  "i2c_parent_unlock_bus par_unlock par flags s = rt_mutex_unlock (Mux_lock par) (par_unlock flags s)"

text \<open>The calls through the pointers of an adapter.\<close>

primrec i2c_lock_bus :: "adapter \<Rightarrow> u32 \<Rightarrow> i2c_mutex set \<Rightarrow> i2c_mutex set option" where
  "i2c_lock_bus (Root a) = i2c_adapter_lock_bus a"
| "i2c_lock_bus (Mux_locked a par) = i2c_mux_lock_bus (i2c_lock_bus par) (adap_of par)"
| "i2c_lock_bus (Parent_locked a par) = i2c_parent_lock_bus (i2c_lock_bus par) (adap_of par)"

primrec i2c_trylock_bus :: "adapter \<Rightarrow> u32 \<Rightarrow> i2c_mutex set \<Rightarrow> bool \<times> i2c_mutex set" where
  "i2c_trylock_bus (Root a) = i2c_adapter_trylock_bus a"
| "i2c_trylock_bus (Mux_locked a par) = i2c_mux_trylock_bus (i2c_trylock_bus par) (adap_of par)"
| "i2c_trylock_bus (Parent_locked a par) = i2c_parent_trylock_bus (i2c_trylock_bus par) (adap_of par)"

primrec i2c_unlock_bus :: "adapter \<Rightarrow> u32 \<Rightarrow> i2c_mutex set \<Rightarrow> i2c_mutex set" where
  "i2c_unlock_bus (Root a) = i2c_adapter_unlock_bus a"
| "i2c_unlock_bus (Mux_locked a par) = i2c_mux_unlock_bus (i2c_unlock_bus par) (adap_of par)"
| "i2c_unlock_bus (Parent_locked a par) = i2c_parent_unlock_bus (i2c_unlock_bus par) (adap_of par)"

lemmas bus_lock_defs = rt_mutex_lock_def rt_mutex_trylock_def rt_mutex_unlock_def
  i2c_adapter_lock_bus_def i2c_adapter_trylock_bus_def i2c_adapter_unlock_bus_def
  i2c_mux_lock_bus_def i2c_mux_trylock_bus_def i2c_mux_unlock_bus_def
  i2c_parent_lock_bus_def i2c_parent_trylock_bus_def i2c_parent_unlock_bus_def

text \<open>The mutexes of an adapter, and that the addresses on the way to the root differ.\<close>

fun bus_mutexes :: "adapter \<Rightarrow> u32 \<Rightarrow> i2c_mutex set" where
  "bus_mutexes (Root a) flags = {Bus_lock a}"
| "bus_mutexes (Mux_locked a p) flags = insert (Mux_lock (adap_of p)) (if flags AND I2C_LOCK_ROOT_ADAPTER \<noteq> 0 then bus_mutexes p flags else {})"
| "bus_mutexes (Parent_locked a p) flags = insert (Mux_lock (adap_of p)) (bus_mutexes p flags)"

fun adap_chain :: "adapter \<Rightarrow> addr list" where
  "adap_chain (Root a) = [a]"
| "adap_chain (Mux_locked a p) = a # adap_chain p"
| "adap_chain (Parent_locked a p) = a # adap_chain p"

lemma bus_mutexes_mux: "Mux_lock x \<in> bus_mutexes t flags \<Longrightarrow> x \<in> set (tl (adap_chain t))"
proof (induction t)
  case (Mux_locked a p)
  then show ?case by (cases p) (auto split: if_splits)
next
  case (Parent_locked a p)
  then show ?case by (cases p) auto
qed auto

lemma own_mutex: "distinct (adap_chain p) \<Longrightarrow> Mux_lock (adap_of p) \<notin> bus_mutexes p flags"
  using bus_mutexes_mux [of "adap_of p" p flags] by (cases p) auto

text \<open>C40: In a tree of multiplexers, locking a bus takes all the mutexes up to the one that the flags ask for or blocks;
  the attempt to lock takes all of them or none; unlocking gives back what was taken.\<close>

theorem i2c_bus_locking:
  assumes "distinct (adap_chain t)"
  shows "i2c_lock_bus t flags s = (if s \<inter> bus_mutexes t flags = {} then Some (s \<union> bus_mutexes t flags) else None)
    \<and> i2c_trylock_bus t flags s = (if s \<inter> bus_mutexes t flags = {} then (True, s \<union> bus_mutexes t flags) else (False, s))
    \<and> i2c_unlock_bus t flags s = s - bus_mutexes t flags"
  using assms
proof (induction t arbitrary: s)
  case (Root a)
  then show ?case by (auto simp: bus_lock_defs)
next
  case (Mux_locked a p)
  have d: "distinct (adap_chain p)" using Mux_locked.prems by simp
  show ?case using own_mutex [OF d, of flags] Mux_locked.IH [OF d]
    by (auto simp: bus_lock_defs Let_def)
next
  case (Parent_locked a p)
  have d: "distinct (adap_chain p)" using Parent_locked.prems by simp
  show ?case using own_mutex [OF d, of flags] Parent_locked.IH [OF d]
    by (auto simp: bus_lock_defs Let_def)
qed

theorem i2c_bus_locking_witness:
  "i2c_trylock_bus (Parent_locked 3 (Mux_locked 2 (Root 1))) I2C_LOCK_ROOT_ADAPTER {Bus_lock 1} = (False, {Bus_lock 1})"
  using i2c_bus_locking [of "Parent_locked 3 (Mux_locked 2 (Root 1))" I2C_LOCK_ROOT_ADAPTER "{Bus_lock 1}"]
  by (simp add: I2C_LOCK_ROOT_ADAPTER_def)

section \<open>Transfers through a multiplexer\<close>

record 's mux_ops =
  mux_select :: "u32 \<Rightarrow> 's \<Rightarrow> (errno + int) \<times> 's"
  mux_deselect :: "(u32 \<Rightarrow> 's \<Rightarrow> 's) option"

definition do_deselect :: "'s mux_ops \<Rightarrow> u32 \<Rightarrow> 's \<Rightarrow> 's" where
  "do_deselect muxc chan_id s = (case mux_deselect muxc of Some deselect \<Rightarrow> deselect chan_id s | None \<Rightarrow> s)"

definition uu_i2c_mux_master_xfer ::
    "('s \<Rightarrow> u64) \<Rightarrow> 's mux_ops \<Rightarrow> 's i2c_adapter \<Rightarrow> u32 \<Rightarrow> i2c_msg list \<Rightarrow> 's \<Rightarrow> ((errno + int) \<times> i2c_msg list \<times> 's) option" where
  "uu_i2c_mux_master_xfer now muxc par chan_id msgs s = do {
     let (ret, s) = mux_select muxc chan_id s;
     (ret, msgs, s) \<leftarrow> (if \<not> isl ret then uu_i2c_transfer now par msgs s else Some (ret, msgs, s));
     Some (ret, msgs, do_deselect muxc chan_id s) }"

definition i2c_mux_master_xfer ::
    "('s \<Rightarrow> u64) \<Rightarrow> 's mux_ops \<Rightarrow> 's i2c_adapter \<Rightarrow> u32 \<Rightarrow> i2c_msg list \<Rightarrow> 's \<Rightarrow> (errno + int) \<times> i2c_msg list \<times> 's" where
  "i2c_mux_master_xfer now muxc par chan_id msgs s =
     (let (ret, s) = mux_select muxc chan_id s;
          (ret, msgs, s) = (if \<not> isl ret then i2c_transfer now par msgs s else (ret, msgs, s))
      in (ret, msgs, do_deselect muxc chan_id s))"

definition uu_i2c_mux_smbus_xfer ::
    "'s mux_ops \<Rightarrow> 's i2c_adapter \<Rightarrow> u32 \<Rightarrow> u16 \<Rightarrow> u16 \<Rightarrow> bool \<Rightarrow> u8 \<Rightarrow> int \<Rightarrow> smbus_data \<Rightarrow> 's \<Rightarrow> ((errno + int) \<times> smbus_data \<times> 's) option" where
  "uu_i2c_mux_smbus_xfer muxc par chan_id addr flags read command sz data s = do {
     let (ret, s) = mux_select muxc chan_id s;
     (ret, data, s) \<leftarrow> (if \<not> isl ret then do { xfer \<leftarrow> algo_smbus_xfer par; Some (xfer addr flags read command sz data s) }
       else Some (ret, data, s));
     Some (ret, data, do_deselect muxc chan_id s) }"

definition i2c_mux_smbus_xfer ::
    "('s \<Rightarrow> u64) \<Rightarrow> 's mux_ops \<Rightarrow> 's i2c_adapter \<Rightarrow> smbus_stack \<Rightarrow> u32 \<Rightarrow> u16 \<Rightarrow> u16 \<Rightarrow> bool \<Rightarrow> u8 \<Rightarrow> int \<Rightarrow> smbus_data \<Rightarrow> 's
      \<Rightarrow> ((errno + int) \<times> smbus_data \<times> 's) option" where
  "i2c_mux_smbus_xfer now muxc par k chan_id addr flags read command sz data s = do {
     let (ret, s) = mux_select muxc chan_id s;
     (ret, data, s) \<leftarrow> (if \<not> isl ret then i2c_smbus_xfer now par k addr flags read command sz data s else Some (ret, data, s));
     Some (ret, data, do_deselect muxc chan_id s) }"

text \<open>A transfer through a multiplexer whose parent is an adapter of its own reaches the parent with the channel
  selected, whatever the number of tries, and leaves no channel selected, also when the selection or the transfer fails;
  when the selection fails the parent is not used.  \<open>sel\<close> reads the selected channel.\<close>

theorem i2c_mux_selects:
  assumes "\<And>s. sel (snd (mux_select muxc chan_id s)) = (if isl (fst (mux_select muxc chan_id s)) then None else Some chan_id)"
    and "mux_deselect muxc = Some deselect" "\<And>s. sel (deselect chan_id s) = None"
    and "algo_master_xfer par = Some f" "algo_master_xfer par' = Some f'" "par' = par\<lparr>algo_master_xfer := Some f'\<rparr>"
    and "\<And>ms s. sel s = Some chan_id \<Longrightarrow> f' ms s = f ms s" "\<And>ms s. sel (snd (snd (f ms s))) = sel s"
    and "\<And>fl s. sel (lock_bus par fl s) = sel s" "\<And>fl s. sel (unlock_bus par fl s) = sel s"
  shows "i2c_mux_master_xfer now muxc par' chan_id ms s = i2c_mux_master_xfer now muxc par chan_id ms s
    \<and> (case i2c_mux_master_xfer now muxc par chan_id ms s of (r, ms', s') \<Rightarrow> sel s' = None \<and>
        (isl (fst (mux_select muxc chan_id s)) \<longrightarrow> r = fst (mux_select muxc chan_id s) \<and> ms' = ms))"
proof -
  have try_eq: "i2c_try f' late n r ms s = i2c_try f late n r ms s" if "sel s = Some chan_id" for late n r ms s
    using that
  proof (induction n arbitrary: r ms s)
    case (Suc n)
    have "f' ms s = f ms s" using assms(7) Suc.prems by blast
    moreover have "sel (snd (snd (f ms s))) = Some chan_id" using assms(8) Suc.prems by simp
    ultimately show ?case using Suc.IH by (cases "f ms s") auto
  qed simp
  have fields: "lock_bus par' = lock_bus par" "unlock_bus par' = unlock_bus par" "adap_timeout par' = adap_timeout par"
      "adap_retries par' = adap_retries par" using assms(6) by simp_all
  have "i2c_transfer now par' ms s = i2c_transfer now par ms s" if "sel s = Some chan_id" for s
    using that assms(4,5) try_eq [of "lock_bus par I2C_LOCK_SEGMENT s"] assms(9)
    by (simp add: i2c_transfer_def fields Let_def)
  then show ?thesis using assms(1) [of s] assms(2,3)
    by (auto simp: i2c_mux_master_xfer_def do_deselect_def Let_def split: prod.splits)
qed

section \<open>Adapters of a multiplexer\<close>

record i2c_mux_core =
  max_adapters :: nat
  mux_adapter :: "addr list"
  mux_locked :: bool

text \<open>The private data of a channel: which of the two functions for transfers, for SMBus transactions and for locking
  it uses; \<open>Some True\<close> stands for the one of a multiplexer that locks itself.\<close>

record i2c_mux_priv =
  mp_chan_id :: u32
  mp_master_xfer :: "bool option"
  mp_smbus_xfer :: "bool option"
  mp_lock_bus :: bool

record mux_state =
  mux_i2c :: i2c_core
  mux_privs :: "addr \<Rightarrow> i2c_mux_priv option"
  has_master_xfer :: "addr \<Rightarrow> bool"
  has_smbus_xfer :: "addr \<Rightarrow> bool"
  adap_class :: "addr \<Rightarrow> u32"
  adap_retry :: "addr \<Rightarrow> int"
  kfreed :: "addr set"

text \<open>The classes of an adapter and of the adapters above it; \<open>chain\<close> holds their addresses.\<close>

fun i2c_mux_parent_classes :: "(addr \<Rightarrow> u32) \<Rightarrow> addr list \<Rightarrow> u32" where
  "i2c_mux_parent_classes cls [] = 0"
| "i2c_mux_parent_classes cls (p # chain) = cls p OR i2c_mux_parent_classes cls chain"

text \<open>The first adapter at or above a device, and then the last of the adapters that follow each other; a device is given
  by the list of the devices from it to the top, each with the mark whether it is an adapter.\<close>

fun root_walk :: "addr \<Rightarrow> (addr \<times> bool) list \<Rightarrow> addr" where
  "root_walk r [] = r"
| "root_walk r ((d, is_adap) # ds) = (if is_adap then root_walk d ds else r)"

fun i2c_root_adapter :: "(addr \<times> bool) list \<Rightarrow> addr option" where
  "i2c_root_adapter [] = None"
| "i2c_root_adapter ((d, is_adap) # ds) = (if is_adap then Some (root_walk d ds) else i2c_root_adapter ds)"

definition i2c_mux_alloc :: "bool \<Rightarrow> nat \<Rightarrow> bool \<Rightarrow> i2c_mux_core option" where
  "i2c_mux_alloc mem room locked = (if \<not> mem then None else Some \<lparr>max_adapters = room, mux_adapter = [], mux_locked = locked\<rparr>)"

definition mux_setup :: "addr \<Rightarrow> addr \<Rightarrow> u32 \<Rightarrow> i2c_mux_core \<Rightarrow> mux_state \<Rightarrow> mux_state" where
  "mux_setup priv par chan_id muxc st =
     st\<lparr>mux_privs := (mux_privs st)(priv \<mapsto> \<lparr>mp_chan_id = chan_id,
          mp_master_xfer = (if has_master_xfer st par then Some (mux_locked muxc) else None),
          mp_smbus_xfer = (if has_smbus_xfer st par then Some (mux_locked muxc) else None), mp_lock_bus = mux_locked muxc\<rparr>),
        has_master_xfer := (has_master_xfer st)(priv := has_master_xfer st par),
        has_smbus_xfer := (has_smbus_xfer st)(priv := has_smbus_xfer st par)\<rparr>"

text \<open>\<open>priv\<close> is the result of \<open>kzalloc\<close> and the address of the new adapter; \<open>chain\<close> starts with the parent.  The name of the
  adapter is for messages only.\<close>

definition i2c_mux_add_adapter ::
    "(addr \<Rightarrow> bus_ops) \<Rightarrow> nat list \<Rightarrow> addr \<Rightarrow> addr list \<Rightarrow> u32 \<Rightarrow> u32 \<Rightarrow> u32 \<Rightarrow> i2c_mux_core \<Rightarrow> mux_state
      \<Rightarrow> ((errno + int) \<times> i2c_mux_core \<times> mux_state) option" where
  "i2c_mux_add_adapter B pa priv chain force_nr chan_id cls muxc st =
     (if length (mux_adapter muxc) \<ge> max_adapters muxc then Some (Inl EINVAL, muxc, st)
      else if priv = 0 then Some (Inl ENOMEM, muxc, st)
      else do {
        let par = hd chain;
        let st = mux_setup priv par chan_id muxc st;
        let c = mux_i2c st;
        let c = c\<lparr>adapter_timeout := (adapter_timeout c)(priv := adapter_timeout c par), adapter_lock := (adapter_lock c)(priv := True),
          adapter_nr := (adapter_nr c)(priv := sint force_nr),
          i2c_devs := (i2c_devs c)\<lparr>devices := (devices (i2c_devs c))(priv \<mapsto> \<lparr>refcount = 0, driver = 0, parent = par, bus = 0, devt = 0,
            dev_class = 0, driver_data = 0, dev_nm = [], bus_id = []\<rparr>)\<rparr>\<rparr>;
        let st = st\<lparr>mux_i2c := c, adap_retry := (adap_retry st)(priv := adap_retry st par),
          adap_class := (adap_class st)(priv := if i2c_mux_parent_classes (adap_class st) chain AND cls \<noteq> 0 then 0 else cls)\<rparr>;
        (ret, c) \<leftarrow> (if force_nr \<noteq> 0 then i2c_add_numbered_adapter B pa priv c else i2c_add_adapter B pa priv c);
        let st = st\<lparr>mux_i2c := c\<rparr>;
        if isl ret then Some (ret, muxc, st\<lparr>kfreed := insert priv (kfreed st)\<rparr>)
        else Some (Inr 0, muxc\<lparr>mux_adapter := mux_adapter muxc @ [priv]\<rparr>, st) })"

text \<open>The loop takes the adapters from the last to the first.\<close>

primrec mux_del_loop :: "addr list \<Rightarrow> mux_state \<Rightarrow> mux_state" where
  "mux_del_loop [] st = st"
| "mux_del_loop (adap # adaps) st =
     mux_del_loop adaps (st\<lparr>mux_i2c := i2c_del_adapter adap (mux_i2c st), kfreed := insert adap (kfreed st)\<rparr>)"

definition i2c_mux_del_adapters :: "i2c_mux_core \<Rightarrow> mux_state \<Rightarrow> i2c_mux_core \<times> mux_state" where
  "i2c_mux_del_adapters muxc st = (muxc\<lparr>mux_adapter := []\<rparr>, mux_del_loop (rev (mux_adapter muxc)) st)"

lemma i2c_root_adapter_last:
  "i2c_root_adapter ds = (case takeWhile snd (dropWhile (\<lambda>d. \<not> snd d) ds) of [] \<Rightarrow> None | x # xs \<Rightarrow> Some (fst (last (x # xs))))"
proof -
  have walk: "root_walk r xs = fst (last ((r, True) # takeWhile snd xs))" for r xs
  proof (induction xs arbitrary: r)
    case (Cons x xs)
    then show ?case by (cases x) auto
  qed simp
  show ?thesis
  proof (induction ds)
    case (Cons d ds)
    show ?case
    proof (cases "snd d")
      case True
      then have "d = (fst d, True)" by (metis prod.collapse)
      then show ?thesis using walk [of "fst d" ds] by (metis (no_types, lifting) True dropWhile.simps(2) i2c_root_adapter.simps(2) list.simps(5) takeWhile.simps(2))
    next
      case False
      then show ?thesis using Cons by (cases d) simp
    qed
  qed simp
qed

lemma mux_del_loop_eq: "mux_i2c (mux_del_loop as st) = mux_i2c st \<and> kfreed (mux_del_loop as st) = set as \<union> kfreed st"
  by (induction as arbitrary: st) (auto simp: i2c_del_adapter_def)

text \<open>Adding a channel appends one adapter and never exceeds the room of the multiplexer; a failure leaves the multiplexer
  as it was and frees the memory.  Taking all adapters away frees them, but the table of adapters goes on holding their
  addresses.\<close>

theorem i2c_mux_add_delete:
  assumes "idr_inv M (i2c_adapter_idr (mux_i2c st))" "length pa = MAX_IDR_LEVEL + 1" "length (mux_adapter muxc) \<le> max_adapters muxc"
  shows "\<exists>r muxc' st'. i2c_mux_add_adapter B pa priv chain 0 chan_id cls muxc st = Some (r, muxc', st') \<and> length (mux_adapter muxc') \<le> max_adapters muxc'
    \<and> (case r of
         Inl e \<Rightarrow> muxc' = muxc \<and> (kfreed st' = insert priv (kfreed st) \<or> e = EINVAL \<and> st' = st \<or> e = ENOMEM \<and> priv = 0 \<and> st' = st)
       | Inr v \<Rightarrow> v = 0 \<and> mux_adapter muxc' = mux_adapter muxc @ [priv]
           \<and> (\<exists>n \<ge> 128. registered (mux_i2c st') priv (int n) \<and> idr_find (int n) (i2c_adapter_idr (mux_i2c st')) = unat priv
              \<and> (case i2c_mux_del_adapters muxc' st' of (muxc2, st2) \<Rightarrow> mux_adapter muxc2 = [] \<and> priv \<in> kfreed st2
                   \<and> idr_find (int n) (i2c_adapter_idr (mux_i2c st2)) = unat priv)))"
proof (cases "length (mux_adapter muxc) \<ge> max_adapters muxc \<or> priv = 0")
  case True
  then show ?thesis using assms(3) by (auto simp: i2c_mux_add_adapter_def)
next
  case False
  let ?c = "mux_i2c st" and ?par = "hd chain"
  define d where "d = \<lparr>refcount = 0, driver = 0, parent = ?par, bus = 0, devt = 0, dev_class = 0, driver_data = 0, dev_nm = [], bus_id = []\<rparr>"
  define c where "c = ?c\<lparr>adapter_timeout := (adapter_timeout ?c)(priv := adapter_timeout ?c ?par), adapter_lock := (adapter_lock ?c)(priv := True),
    adapter_nr := (adapter_nr ?c)(priv := 0), i2c_devs := (i2c_devs ?c)\<lparr>devices := (devices (i2c_devs ?c))(priv \<mapsto> d)\<rparr>\<rparr>"
  have c: "idr_inv M (i2c_adapter_idr c)" "devices (i2c_devs c) priv = Some d" "bus d = 0" using assms(1) by (simp_all add: c_def d_def)
  obtain r c' where r: "i2c_add_adapter B pa priv c = Some (r, c')"
      "case r of Inr v \<Rightarrow> \<exists>n \<ge> 128. registered c' priv (int n) \<and> idr_find (int n) (i2c_adapter_idr c') = unat priv | Inl e \<Rightarrow> True"
    using add_adapter_spec [OF c(1) assms(2) c(2,3), of B] False by (fastforce split: sum.splits)
  define st' where "st' = (mux_setup priv ?par chan_id muxc st)\<lparr>mux_i2c := c', adap_retry := (adap_retry st)(priv := adap_retry st ?par),
    adap_class := (adap_class st)(priv := if i2c_mux_parent_classes (adap_class st) chain AND cls \<noteq> 0 then 0 else cls)\<rparr>"
  have "i2c_mux_add_adapter B pa priv chain 0 chan_id cls muxc st =
      (if isl r then Some (r, muxc, st'\<lparr>kfreed := insert priv (kfreed st')\<rparr>) else Some (Inr 0, muxc\<lparr>mux_adapter := mux_adapter muxc @ [priv]\<rparr>, st'))"
    using False r(1) by (simp add: i2c_mux_add_adapter_def c_def d_def st'_def mux_setup_def)
  then show ?thesis using r(2) False assms(3) mux_del_loop_eq [of "rev (mux_adapter muxc @ [priv])" st']
    by (cases r) (auto simp: st'_def mux_setup_def i2c_mux_del_adapters_def)
qed

definition mux_start :: mux_state where
  "mux_start = \<lparr>mux_i2c = core_start, mux_privs = (\<lambda>_. None), has_master_xfer = (\<lambda>_. True), has_smbus_xfer = (\<lambda>_. False), adap_class = (\<lambda>_. 0), adap_retry = (\<lambda>_. 0), kfreed = {}\<rparr>"

theorem i2c_mux_add_delete_witness:
  "\<exists>r muxc' st'. i2c_mux_add_adapter (\<lambda>_. \<lparr>bus_match = None, bus_probe = None\<rparr>) [0, 0, 0, 0, 0] 9 [7] 0 3 0
     \<lparr>max_adapters = 2, mux_adapter = [], mux_locked = False\<rparr> mux_start = Some (r, muxc', st') \<and> length (mux_adapter muxc') \<le> max_adapters muxc'"
proof -
  have "idr_inv Map.empty (i2c_adapter_idr (mux_i2c mux_start))" using core_start_ok(1) by (simp add: mux_start_def)
  from i2c_mux_add_delete [OF this core_start_ok(2), of "\<lparr>max_adapters = 2, mux_adapter = [], mux_locked = False\<rparr>"
    "\<lambda>_. \<lparr>bus_match = None, bus_probe = None\<rparr>" 9 "[7]" 3 0] show ?thesis by auto
qed

text \<open>A multiplexer with one register that holds the selected channel.\<close>

definition one_mux :: "u32 option mux_ops" where
  "one_mux = \<lparr>mux_select = (\<lambda>chan s. (Inr 0, Some chan)), mux_deselect = Some (\<lambda>chan s. None)\<rparr>"

definition channel_bus :: "(u32 option \<Rightarrow> int) \<Rightarrow> u32 option i2c_adapter" where
  "channel_bus n = \<lparr>algo_master_xfer = Some (\<lambda>ms s. (Inr (n s), ms, s)), algo_smbus_xfer = None, adap_timeout = 10, adap_retries = 0,
     lock_bus = (\<lambda>_ s. s), unlock_bus = (\<lambda>_ s. s)\<rparr>"

theorem i2c_mux_selects_witness:
  "i2c_mux_master_xfer (\<lambda>_. 0) one_mux (channel_bus (\<lambda>s. if s = Some 2 then 1 else 99)) 2 [] None = i2c_mux_master_xfer (\<lambda>_. 0) one_mux (channel_bus (\<lambda>_. 1)) 2 [] None"
  using i2c_mux_selects [of "\<lambda>s. s" one_mux 2 "\<lambda>chan s. None" "channel_bus (\<lambda>_. 1)" "\<lambda>ms s. (Inr 1, ms, s)"
    "channel_bus (\<lambda>s. if s = Some 2 then 1 else 99)" "\<lambda>ms s. (Inr (if s = Some 2 then 1 else 99), ms, s)" "\<lambda>_. 0" "[]" None]
  by (simp add: one_mux_def channel_bus_def)

end
