(* ===== verification/Spec2Isabelle.thy ===== *)
theory Spec2Isabelle
  imports Byte_Order Xarray Bitmaps Heap_Sort Crc32 Arith Locks Tasks Ktime Str_Conv Usb_Match Usb_Urb Daemon Idr_Spec
  Linux_Hlist I2c_Smbus I2c_Mux
begin

text \<open>
  \<^bold>\<open>Verification of the kernel emulation layer of webcamd.\<close>

  webcamd runs USB drivers of the Linux kernel (cameras, tuners, tablets) as a user process of
  FreeBSD.  The drivers are compiled unchanged against the files under \<open>src/kernel\<close>, which
  offer the interfaces of the Linux kernel on top of POSIX threads, libusb and malloc;
  \<open>src/webcamd.c\<close> offers the character devices of the drivers to other processes.  The
  development models the emulation layer: what a driver relies on when it calls it.

  \<^bold>\<open>The parts of the program and how they interact.\<close>  One recursive mutex, \<open>atomic_mutex\<close> of
  \<open>linux_thread.c\<close>, protects everything.  Whoever waits does so on the condition variable
  \<open>sema_cond\<close> and gives the mutex up while sleeping.  Semaphores, mutexes, completions, the
  worker of \<open>linux_task.c\<close>, the timer thread of \<open>linux_timer.c\<close> and the USB layer are all
  written as ``lock, look at the state, sleep or act, unlock''.  The USB layer passes request
  blocks (URBs) of the drivers to libusb and calls the completion functions of the drivers.
  The radix tree is the store of the extensible arrays; \<open>linux_func.c\<close> holds the helpers that
  drivers expect: byte order, atomics and bits, bitmaps, sorting, checksums, arithmetic,
  times and strings.

  \<^bold>\<open>The theories.\<close>
  \<^item> \<open>Webcamd_Prelude\<close>: names for the C integer types, the error numbers, numeric readings of
    byte strings, the collection \<open>c_simps\<close> and the shared lemmas on words and lists.
  \<^item> \<open>Byte_Order\<close>: the conversions between byte orders and the unaligned accessors of
    \<open>linux_func.c\<close>.  Round trips of all pairs, and the condition under which
    \<open>le64_to_cpus\<close> is right.
  \<^item> \<open>Radix_Tree\<close>, \<open>Radix_Spec\<close>: \<open>linux_radix.c\<close>.  The tree of nodes is a \<open>datatype\<close>, with the
    counters of the nodes and the height of the root.  The locale \<open>index_map\<close> is the contract
    of an index structure (lookup after insertion, deletion and store; least index in use);
    its interpretation discharges the laws for the code's functions.  Insertion, deletion and
    store refine operations of a map and keep the invariant of the tree.
  \<^item> \<open>Xarray\<close>: \<open>linux_xarray.c\<close> as a client of that contract: allocation of the least free index,
    update, removal, and the iteration of \<open>xa_destroy\<close>.
  \<^item> \<open>Bit_Ops\<close>, \<open>Bitmaps\<close>: atomic counters, bit operations, searches and bitmaps of
    \<open>linux_func.c\<close> and \<open>linux_defs.h\<close>; a bitmap is the list of its words and each operation is
    specified bit by bit.
  \<^item> \<open>Heap_Sort\<close>, \<open>Crc32\<close>, \<open>Arith\<close>: \<open>sort\<close>, the checksums and the arithmetic of
    \<open>linux_func.c\<close>: the result of the sort is ordered and a permutation; checksums of messages
    that differ in a burst are different; square root, rational approximation and
    the saturating sizes are exact.
  \<^item> \<open>Threads\<close>: the global lock with its counters, sleeping and the
    return value of a wait with a time-out (\<open>linux_thread.c\<close>).
  \<^item> \<open>Locks\<close>: semaphores, mutexes and completions.  The locale \<open>waiting\<close> states what a loop
    ``while not ready, sleep'' and its signals have in common, and proves that no wake-up is
    lost; it is interpreted for semaphores and completions.  Step relations describe the
    interleavings of any number of threads; mutual exclusion and the counts follow by rule
    induction.
  \<^item> \<open>Tasks\<close>: the work queue, delayed work, timers, \<open>jiffies\<close> and RCU callbacks.  The lists of the
    code are lists of item numbers, with the link field of an item beside them, so that the
    agreement of the two is a theorem.  An item runs once for each time it is queued.
  \<^item> \<open>Ktime\<close>, \<open>Str_Conv\<close>: time values, conversions of strings to numbers and buffers with a position.
  \<^item> \<open>Usb_Match\<close>: identifier tables, pipes, endpoints and descriptors of \<open>linux_usb.c\<close>.
  \<^item> \<open>Usb_Urb\<close>: submission, cancellation and the transfer callbacks of an endpoint.  Every accepted
    block is completed exactly once, and the callbacks return.
  \<^item> \<open>Devices\<close>: registration of character devices, device objects, drivers and reference counts of
    \<open>linux_func.c\<close>: a device is found at exactly the places of its device numbers and a driver is
    bound in the order of registration.
  \<^item> \<open>Files\<close>: the file layer \<open>linux_file.c\<close> and the memory for 32-bit clients \<open>linux_compat32.c\<close>:
    allocations stay inside of the buffer and do not overlap; mappings are found again and never
    replaced; pages lie inside of their mapping.
  \<^item> \<open>Mod_Param\<close>: module parameters, which are read back after they were set.
  \<^item> \<open>Daemon\<close>: handlers of the character devices, the search for a USB device and the options of
    \<open>webcamd.c\<close>: what \<open>-l\<close> prints for a device selects that device.
  \<^item> \<open>Idr\<close>, \<open>Idr_Tree\<close>, \<open>Idr_Search\<close>, \<open>Idr_Alloc\<close>, \<open>Idr_Remove\<close>, \<open>Idr_Spec\<close>: the allocation of identifiers of
    \<open>linux_idr.c\<close>.  The layers of the tree are objects of a store; a placement of the layers and a map from
    identifiers to pointers are the abstract state, which the invariant \<open>idr_inv\<close> relates to
    the store, the allocator, the preload list and the layers that wait for RCU.  \<open>idr_alloc\<close> gives
    out the least free identifier, removal, lookup and replacement are those of the map, and no
    layer is used after it was given to RCU.  The loops of the search are
    \<open>partial_function\<close>s, and their end is proved: the identifier grows or the level falls.
  \<^item> \<open>Linux_List\<close>, \<open>Linux_Hlist\<close>: the intrusive lists of \<open>linux_list.h\<close> on an explicit memory.  Every
    operation ends without a bad access, does to the list of nodes what the operation on lists does,
    and changes no other memory.  The locale \<open>node_list\<close> states this as a contract
    for the clients of either kind of list; \<open>ring\<close> interprets it on doubly linked rings and \<open>hl\<close> on lists whose
    nodes point back to pointers.
  \<^item> \<open>I2c\<close>, \<open>I2c_Smbus\<close>: transfers, check bytes and the emulation of SMBus of \<open>linux_i2c.c\<close>.  The transfer
    function of an adapter is a parameter; \<open>xfer_ok\<close> is what \<open>i2c.h\<close> asks of it (bytes received stay inside
    the message and a block has at most 32 bytes) and \<open>register_device\<close> is a device that keeps its registers.
    The check byte is the CRC-8, no transaction leaves its buffers, and registers read
    back what was written to them.
  \<^item> \<open>I2c_Core\<close>: adapters, drivers and clients of \<open>linux_i2c.c\<close>, over \<open>Idr_Spec\<close> for the numbers of adapters and
    \<open>Devices\<close> for their registration.
  \<^item> \<open>I2c_Mux\<close>: the multiplexers of \<open>linux_i2c_mux.c\<close> in a tree of adapters: the locks that are taken are given
    back, a transfer is made with its channel selected, and adapters are added within the room of
    the multiplexer.

  \<^bold>\<open>How C is rendered.\<close>  Unsigned integers are words of their width, with wrap-around; signed ones
  are words where the code relies on their bits and \<open>int\<close> where it does not overflow (signed
  overflow is undefined in C).  \<open>long\<close> and pointers have 64 bits.  A function that holds
  \<open>atomic_mutex\<close> from beginning to end is one step, and a function that sleeps is split at the
  sleep.  A failing \<open>malloc\<close> is a stream of outcomes (one Boolean for each call), so that
  statements hold for every pattern of failures.  Errors are values of a sum or option type.

  \<^bold>\<open>Parameters.\<close>  Functions of drivers (completion functions, work and timer functions, comparison
  functions) are arguments of the definitions.  libusb is not part of the sources: its
  functions are represented by the order in which it calls the callbacks, which is
  arbitrary.  What is needed of a parameter is a named hypothesis, such as \<open>good_driver\<close> for
  completion functions that only submit and unlink blocks.

  \<^bold>\<open>Loops.\<close>  Loops are recursive functions with a termination proof where one exists for every
  input.  The scan of the timers, the transfer callbacks and the iterations over arrays may
  depend on what a driver does and are \<open>partial_function (option)\<close>: the value \<open>None\<close>
  means that the loop does not return, and the theorems on them state that a value is returned.

  \<^bold>\<open>Not modelled.\<close>  Creation of threads and processes, sockets, the event loop of CUSE and the
  reading of firmware files are calls of the host system.  Functions of \<open>linux_func.c\<close> and
  \<open>linux_struct.c\<close> that return a constant or forward to the C library have no behaviour of their
  own.  The generated configuration and the drivers are not part of the emulation layer.
  The enumeration of USB devices, control messages and scatter-gather requests
  of \<open>linux_usb.c\<close> are built from the results of \<open>libusb20\<close>, the tuner of \<open>vtuner\<close> copies structures
  between devices and sockets, and \<open>linux_make\<close> runs only when the program is built.  Of \<open>linux_idr.c\<close> the
  iteration, the destruction of a whole tree and the \<open>ida\<close> variant are left out; of \<open>webcamd.c\<close> the
  translation of \<open>ioctl\<close> requests.
\<close>

end
